(* ===== verification/Base.thy ===== *)
theory Base
  imports Main "HOL-Library.Word" "HOL-Library.Monad_Syntax"
begin

text \<open>
  The prelude of the development: the machine integers of the Rust code, byte strings and their
  big- and little-endian readings, ASCII case folding, UTF-8 as the standard library checks and
  repairs it, the error-state computations that the stream and cursor code is written in, and the
  list lemmas the components share.

  Conventions used by every theory:
  \<^item> a Rust \<open>u8\<close>, \<open>u16\<close>, \<open>u32\<close>, \<open>u64\<close>, \<open>u128\<close> is a word of that width; \<open>+\<close>, \<open>*\<close> wrap around as the
    release build's arithmetic does;
  \<^item> a \<open>usize\<close> used as a length or an index is a \<open>nat\<close> (no buffer of the program comes near
    \<open>2 ^ 64\<close> bytes);
  \<^item> \<open>&[u8]\<close>, \<open>Vec<u8>\<close>, \<open>&str\<close> and \<open>String\<close> are lists of bytes (a string is its UTF-8 bytes, so
    \<open>length\<close> is Rust's \<open>len()\<close>);
  \<^item> a panic (an index out of range, \<open>unwrap\<close> of a missing value, \<open>unreachable!\<close>) is the value
    \<open>None\<close> of an option; an \<open>Err(e)\<close> is \<open>Inl e\<close>, an \<open>Ok(x)\<close> is \<open>Inr x\<close>.
\<close>

unbundle bit_operations_syntax

named_theorems wire_simps \<open>reading and writing fields of packets\<close>
named_theorems comp_simps \<open>running error-state computations\<close>
named_theorems ascii_simps \<open>ASCII case folding\<close>

section \<open>Machine integers and byte strings\<close>

type_synonym u8 = "8 word"
type_synonym u16 = "16 word"
type_synonym u32 = "32 word"
type_synonym u64 = "64 word"
type_synonym u128 = "128 word"
type_synonym bytes = "u8 list"

lemma unat_u8_less: "unat (x :: u8) < 256"
  using unsigned_less [of x, where 'a = nat] by simp

lemma unat_u16_less: "unat (x :: u16) < 65536"
  using unsigned_less [of x, where 'a = nat] by simp

lemma unat_u32_less: "unat (x :: u32) < 4294967296"
  using unsigned_less [of x, where 'a = nat] by simp

lemma unat_u64_less: "unat (x :: u64) < 18446744073709551616"
  using unsigned_less [of x, where 'a = nat] by simp

lemmas unat_less_width = unat_u8_less unat_u16_less unat_u32_less unat_u64_less

lemma unat_inj [simp]: "unat x = unat y \<longleftrightarrow> x = y"
  by (simp add: word_unat_eq_iff)

text \<open>The bytes of an ASCII literal.\<close>

definition bytes_of :: "string \<Rightarrow> bytes" where
  "bytes_of s = map of_char s"

lemma length_bytes_of [simp]: "length (bytes_of s) = length s"
  by (simp add: bytes_of_def)

definition be16_of :: "u8 \<Rightarrow> u8 \<Rightarrow> u16" where
  "be16_of a b = push_bit 8 (ucast a) OR ucast b"

definition to_be16 :: "u16 \<Rightarrow> bytes" where
  "to_be16 x = [ucast (drop_bit 8 x), ucast x]"

definition be32_of :: "u8 \<Rightarrow> u8 \<Rightarrow> u8 \<Rightarrow> u8 \<Rightarrow> u32" where
  "be32_of a b c d = push_bit 24 (ucast a) OR push_bit 16 (ucast b) OR push_bit 8 (ucast c) OR ucast d"

definition to_be32 :: "u32 \<Rightarrow> bytes" where
  "to_be32 x = [ucast (drop_bit 24 x), ucast (drop_bit 16 x), ucast (drop_bit 8 x), ucast x]"

lemma length_to_be16 [simp, wire_simps]: "length (to_be16 x) = 2"
  by (simp add: to_be16_def)

lemma length_to_be32 [simp, wire_simps]: "length (to_be32 x) = 4"
  by (simp add: to_be32_def)

lemma be16_of_to_be16 [simp, wire_simps]: "be16_of (ucast (drop_bit 8 x)) (ucast x) = x"
  by (rule bit_word_eqI) (auto simp: be16_of_def bit_simps)

lemma be32_of_to_be32 [simp, wire_simps]:
  "be32_of (ucast (drop_bit 24 x)) (ucast (drop_bit 16 x)) (ucast (drop_bit 8 x)) (ucast x) = x"
  by (rule bit_word_eqI)
    (auto simp: be32_of_def bit_simps not_less le_diff_conv less_diff_conv2 dest: bit_imp_le_length,
      (metis leI le_add_diff_inverse)+)

lemma to_be16_be16_of [simp, wire_simps]: "to_be16 (be16_of a b) = [a, b]"
  by (auto simp: to_be16_def be16_of_def intro!: bit_word_eqI)
    (auto simp: bit_simps dest: bit_imp_le_length)

text \<open>\<open>from_le_bytes\<close>: the first byte is the lowest.\<close>

fun le_word :: "bytes \<Rightarrow> u64" where
  "le_word [] = 0"
| "le_word (b # bs) = ucast b OR push_bit 8 (le_word bs)"

text \<open>\<open>u64::rotate_left\<close> and its 32-bit sibling are \<open>word_rotl\<close>.\<close>

text \<open>Big-endian bytes of any number; \<open>Ipv6Addr::octets\<close> and back are the sixteen bytes of a \<open>u128\<close>.\<close>

primrec be_bytes :: "nat \<Rightarrow> 'a::len word \<Rightarrow> bytes" where
  "be_bytes 0 x = []"
| "be_bytes (Suc k) x = be_bytes k (drop_bit 8 x) @ [ucast x]"

definition be_word :: "bytes \<Rightarrow> 'a::len word" where
  "be_word bs = foldl (\<lambda>a b. push_bit 8 a OR ucast b) 0 bs"

lemma length_be_bytes [simp, wire_simps]: "length (be_bytes k x) = k"
  by (induction k arbitrary: x) auto

lemma be_word_be_bytes: "be_word (be_bytes k x) = take_bit (8 * k) x"
proof (induction k arbitrary: x)
  case (Suc k)
  have "be_word (be_bytes (Suc k) x) = push_bit 8 (take_bit (8 * k) (drop_bit 8 x)) OR ucast (ucast x :: u8)"
    using Suc.IH [of "drop_bit 8 x"] by (simp add: be_word_def)
  also have "\<dots> = take_bit (8 * Suc k) x"
    by (rule bit_word_eqI) (auto simp: bit_simps)
  finally show ?case .
qed (simp add: be_word_def)

definition to_be128 :: "u128 \<Rightarrow> bytes" where
  "to_be128 x = be_bytes 16 x"

definition be128_of :: "bytes \<Rightarrow> u128" where
  "be128_of bs = be_word bs"

lemma length_to_be128 [simp, wire_simps]: "length (to_be128 x) = 16"
  by (simp add: to_be128_def)

lemma be128_roundtrip [simp, wire_simps]: "be128_of (to_be128 x) = x"
  by (simp add: be128_of_def to_be128_def be_word_be_bytes take_bit_word_eq_self)

text \<open>\<open>IpAddr\<close> and \<open>SocketAddr\<close>.\<close>

datatype ip_addr = V4 u32 | V6 u128

record socket_addr =
  sa_ip :: ip_addr
  sa_port :: u16

section \<open>Panics\<close>

text \<open>A step that returns, followed by one that returns, returns.\<close>

lemma bind_total:
  "\<lbrakk>\<exists>w. m = Some w; \<And>w. m = Some w \<Longrightarrow> \<exists>r. f w = Some r\<rbrakk> \<Longrightarrow> \<exists>r. Option.bind m f = Some r"
  by auto

section \<open>ASCII\<close>

definition is_upper :: "u8 \<Rightarrow> bool" where
  "is_upper b \<longleftrightarrow> 65 \<le> b \<and> b \<le> 90"

definition is_lower :: "u8 \<Rightarrow> bool" where
  "is_lower b \<longleftrightarrow> 97 \<le> b \<and> b \<le> 122"

definition is_digit :: "u8 \<Rightarrow> bool" where
  "is_digit b \<longleftrightarrow> 48 \<le> b \<and> b \<le> 57"

definition is_alnum :: "u8 \<Rightarrow> bool" where
  "is_alnum b \<longleftrightarrow> is_upper b \<or> is_lower b \<or> is_digit b"

text \<open>\<open>u8::to_ascii_lowercase\<close>, \<open>str::to_ascii_lowercase\<close> and \<open>eq_ignore_ascii_case\<close>.\<close>

definition lower :: "u8 \<Rightarrow> u8" where
  "lower b = (if is_upper b then b + 32 else b)"

definition lowers :: "bytes \<Rightarrow> bytes" where
  "lowers = map lower"

definition eq_nocase :: "bytes \<Rightarrow> bytes \<Rightarrow> bool" where
  "eq_nocase a b \<longleftrightarrow> lowers a = lowers b"

lemma lower_not_upper: "\<not> is_upper (lower b)"
proof (cases "is_upper b")
  case True
  then have b: "65 \<le> unat b" "unat b \<le> 90"
    by (auto simp: is_upper_def word_le_nat_alt)
  then have "unat (b + 32) = unat b + 32"
    by (simp add: unat_word_ariths)
  with True b show ?thesis
    by (auto simp: lower_def is_upper_def word_le_nat_alt)
qed (simp add: lower_def)

lemma lower_idem [simp, ascii_simps]: "lower (lower b) = lower b"
  using lower_not_upper by (simp add: lower_def [of "lower b"])

lemma length_lowers [simp]: "length (lowers s) = length s"
  by (simp add: lowers_def)

lemma lowers_idem [simp, ascii_simps]: "lowers (lowers s) = lowers s"
  by (simp add: lowers_def)

lemma lowers_append [simp]: "lowers (a @ b) = lowers a @ lowers b"
  by (simp add: lowers_def)

lemma lowers_no_upper: "\<not> list_ex is_upper s \<Longrightarrow> lowers s = s"
  by (induction s) (auto simp: lowers_def lower_def)

lemma eq_nocase_refl [simp]: "eq_nocase a a"
  by (simp add: eq_nocase_def)

lemma eq_nocase_lowers [simp]: "eq_nocase (lowers a) b = eq_nocase a b"
  by (simp add: eq_nocase_def)

section \<open>Splitting and joining\<close>

text \<open>\<open>str::split(c)\<close>: one piece more than there are separators, so the empty string has one.\<close>

fun split_on :: "'a \<Rightarrow> 'a list \<Rightarrow> 'a list list" where
  "split_on c [] = [[]]"
| "split_on c (x # xs) =
     (if x = c then [] # split_on c xs
      else case split_on c xs of [] \<Rightarrow> [[x]] | y # ys \<Rightarrow> (x # y) # ys)"

fun join_with :: "'a \<Rightarrow> 'a list list \<Rightarrow> 'a list" where
  "join_with c [] = []"
| "join_with c [x] = x"
| "join_with c (x # xs) = x @ c # join_with c xs"

lemma split_on_not_Nil [simp]: "split_on c xs \<noteq> []"
  by (induction xs) (auto split: list.splits)

lemma join_with_Cons: "xs \<noteq> [] \<Longrightarrow> join_with c (x # xs) = x @ c # join_with c xs"
  by (cases xs) auto

lemma join_split [simp]: "join_with c (split_on c xs) = xs"
proof (induction xs)
  case (Cons x xs)
  then show ?case
    by (cases "split_on c xs"; cases "tl (split_on c xs)") (auto simp: join_with_Cons)
qed simp

lemma split_on_pieces: "p \<in> set (split_on c xs) \<Longrightarrow> c \<notin> set p \<and> set p \<subseteq> set xs"
proof (induction xs arbitrary: p)
  case (Cons x xs)
  then show ?case
    by (cases "split_on c xs") (fastforce split: if_splits)+
qed simp

lemma split_on_fresh: "c \<notin> set xs \<Longrightarrow> split_on c xs = [xs]"
  by (induction xs) auto

lemma split_on_append: "c \<notin> set xs \<Longrightarrow> split_on c (xs @ c # ys) = xs # split_on c ys"
  by (induction xs) auto

lemma split_join:
  "xss \<noteq> [] \<Longrightarrow> \<forall>xs\<in>set xss. c \<notin> set xs \<Longrightarrow> split_on c (join_with c xss) = xss"
proof (induction xss)
  case (Cons xs xss)
  then show ?case
    by (cases "xss = []") (auto simp: join_with_Cons split_on_fresh split_on_append)
qed simp

lemma split_on_map:
  "(\<And>x. x \<in> set xs \<Longrightarrow> f x = c \<longleftrightarrow> x = c) \<Longrightarrow> split_on c (map f xs) = map (map f) (split_on c xs)"
  by (induction xs) (auto split: list.splits)

section \<open>UTF-8\<close>

text \<open>
  The scanner of the standard library's \<open>from_utf8\<close> and \<open>from_utf8_lossy\<close>: it looks at the first
  sequence of a non-empty byte string and returns how many bytes it takes and whether it is a valid
  character; an ill-formed prefix is cut before the first byte that cannot continue it. A missing
  byte reads as 0.
\<close>

definition at_or_0 :: "bytes \<Rightarrow> nat \<Rightarrow> u8" where
  "at_or_0 bs i = (if i < length bs then bs ! i else 0)"

definition is_cont :: "u8 \<Rightarrow> bool" where
  "is_cont b \<longleftrightarrow> b AND 0xC0 = 0x80"

definition second3_ok :: "u8 \<Rightarrow> u8 \<Rightarrow> bool" where
  "second3_ok b c \<longleftrightarrow>
     (b = 0xE0 \<and> 0xA0 \<le> c \<and> c \<le> 0xBF) \<or> (0xE1 \<le> b \<and> b \<le> 0xEC \<and> 0x80 \<le> c \<and> c \<le> 0xBF) \<or>
     (b = 0xED \<and> 0x80 \<le> c \<and> c \<le> 0x9F) \<or> (0xEE \<le> b \<and> b \<le> 0xEF \<and> 0x80 \<le> c \<and> c \<le> 0xBF)"

definition second4_ok :: "u8 \<Rightarrow> u8 \<Rightarrow> bool" where
  "second4_ok b c \<longleftrightarrow>
     (b = 0xF0 \<and> 0x90 \<le> c \<and> c \<le> 0xBF) \<or> (0xF1 \<le> b \<and> b \<le> 0xF3 \<and> 0x80 \<le> c \<and> c \<le> 0xBF) \<or>
     (b = 0xF4 \<and> 0x80 \<le> c \<and> c \<le> 0x8F)"

definition utf8_scan :: "bytes \<Rightarrow> nat \<times> bool" where
  "utf8_scan bs =
     (let b = at_or_0 bs 0; c = at_or_0 bs 1; d = at_or_0 bs 2; e = at_or_0 bs 3 in
      if b < 128 then (1, True)
      else if 0xC2 \<le> b \<and> b \<le> 0xDF then (if is_cont c then (2, True) else (1, False))
      else if 0xE0 \<le> b \<and> b \<le> 0xEF then
        (if \<not> second3_ok b c then (1, False) else if \<not> is_cont d then (2, False) else (3, True))
      else if 0xF0 \<le> b \<and> b \<le> 0xF4 then
        (if \<not> second4_ok b c then (1, False) else if \<not> is_cont d then (2, False)
         else if \<not> is_cont e then (3, False) else (4, True))
      else (1, False))"

lemma utf8_scan_pos: "0 < fst (utf8_scan bs)"
  by (simp add: utf8_scan_def Let_def)

text \<open>\<open>std::str::from_utf8(bs).is_ok()\<close> and \<open>String::from_utf8_lossy(bs)\<close> (U+FFFD is EF BF BD).\<close>

function utf8_ok :: "bytes \<Rightarrow> bool" where
  "utf8_ok bs =
     (if bs = [] then True
      else if snd (utf8_scan bs) then utf8_ok (drop (fst (utf8_scan bs)) bs) else False)"
  by pat_completeness auto
termination
  by (relation "measure length") (use utf8_scan_pos in auto)

function utf8_lossy :: "bytes \<Rightarrow> bytes" where
  "utf8_lossy bs =
     (if bs = [] then []
      else (if snd (utf8_scan bs) then take (fst (utf8_scan bs)) bs else [0xEF, 0xBF, 0xBD]) @
           utf8_lossy (drop (fst (utf8_scan bs)) bs))"
  by pat_completeness auto
termination
  by (relation "measure length") (use utf8_scan_pos in auto)

declare utf8_ok.simps [simp del] utf8_lossy.simps [simp del]

lemma utf8_ok_Nil [simp]: "utf8_ok []"
  by (simp add: utf8_ok.simps)

lemma utf8_lossy_Nil [simp]: "utf8_lossy [] = []"
  by (simp add: utf8_lossy.simps)

lemma utf8_lossy_ok: "utf8_ok bs \<Longrightarrow> utf8_lossy bs = bs"
proof (induction bs rule: utf8_ok.induct)
  case (1 bs)
  show ?case
  proof (cases "bs = []")
    case False
    with "1.prems" have "snd (utf8_scan bs)" and "utf8_ok (drop (fst (utf8_scan bs)) bs)"
      by (simp_all add: utf8_ok.simps [of bs] split: if_splits)
    with "1.IH" False show ?thesis
      by (simp add: utf8_lossy.simps [of bs])
  qed simp
qed

lemma utf8_ok_ascii: "\<forall>b\<in>set bs. b < 128 \<Longrightarrow> utf8_ok bs"
proof (induction bs)
  case (Cons b bs)
  then have "utf8_scan (b # bs) = (1, True)"
    by (simp add: utf8_scan_def at_or_0_def)
  with Cons show ?case
    by (simp add: utf8_ok.simps [of "b # bs"])
qed simp

text \<open>
  \<open>str::trim\<close> removes leading and trailing white space as Unicode defines it; \<open>ws_chars\<close> lists those
  characters as their UTF-8 bytes (a string is valid UTF-8, so its characters can be recognised from
  either end).
\<close>

definition ws_chars :: "bytes list" where
  "ws_chars = map (\<lambda>b. [b]) [9, 10, 11, 12, 13, 32] @ [[0xC2, 0x85], [0xC2, 0xA0], [0xE1, 0x9A, 0x80]] @
     map (\<lambda>b. [0xE2, 0x80, b]) [0x80, 0x81, 0x82, 0x83, 0x84, 0x85, 0x86, 0x87, 0x88, 0x89, 0x8A, 0xA8, 0xA9, 0xAF] @
     [[0xE2, 0x81, 0x9F], [0xE3, 0x80, 0x80]]"

definition starts_with :: "bytes \<Rightarrow> bytes \<Rightarrow> bool" where
  "starts_with p bs \<longleftrightarrow> take (length p) bs = p"

function strip_leading :: "bytes list \<Rightarrow> bytes \<Rightarrow> bytes" where
  "strip_leading ws bs =
     (case List.find (\<lambda>w. w \<noteq> [] \<and> starts_with w bs) ws of
        None \<Rightarrow> bs | Some w \<Rightarrow> strip_leading ws (drop (length w) bs))"
  by pat_completeness auto
termination
proof (relation "measure (length \<circ> snd)")
  fix ws bs w
  assume "List.find (\<lambda>w. w \<noteq> [] \<and> starts_with w bs) ws = Some w"
  then have "w \<noteq> []" "take (length w) bs = w" by (auto simp: find_Some_iff starts_with_def)
  then have "0 < length w" "length w \<le> length bs" by (auto dest: arg_cong [of _ _ length])
  then show "((ws, drop (length w) bs), ws, bs) \<in> measure (length \<circ> snd)" by (cases w) auto
qed simp

declare strip_leading.simps [simp del]

definition trim_start :: "bytes \<Rightarrow> bytes" where
  "trim_start = strip_leading ws_chars"

definition trim_end :: "bytes \<Rightarrow> bytes" where
  "trim_end s = rev (strip_leading (map rev ws_chars) (rev s))"

definition trim :: "bytes \<Rightarrow> bytes" where
  "trim s = trim_end (trim_start s)"

section \<open>Error-state computations\<close>

text \<open>
  Code that reads or writes through a mutable cursor or stream and returns a \<open>Result\<close> is a function
  of the state to a result and the next state; \<open>and_then\<close> is the \<open>?\<close> operator and the sequencing of
  statements: an error ends the computation, in the state it was raised in.
\<close>

type_synonym ('s, 'e, 'a) comp = "'s \<Rightarrow> ('e + 'a) \<times> 's"

definition ret :: "'a \<Rightarrow> ('s, 'e, 'a) comp" where
  "ret x = (\<lambda>s. (Inr x, s))"

definition raise :: "'e \<Rightarrow> ('s, 'e, 'a) comp" where
  "raise e = (\<lambda>s. (Inl e, s))"

definition and_then :: "('s, 'e, 'a) comp \<Rightarrow> ('a \<Rightarrow> ('s, 'e, 'b) comp) \<Rightarrow> ('s, 'e, 'b) comp" where
  "and_then m f = (\<lambda>s. case m s of (Inl e, s') \<Rightarrow> (Inl e, s') | (Inr x, s') \<Rightarrow> f x s')"

lemma ret_run [simp, comp_simps]: "ret x s = (Inr x, s)"
  by (simp add: ret_def)

lemma raise_run [simp, comp_simps]: "raise e s = (Inl e, s)"
  by (simp add: raise_def)

lemma and_then_ok [comp_simps]: "m s = (Inr x, s') \<Longrightarrow> and_then m f s = f x s'"
  by (simp add: and_then_def)

lemma and_then_err [comp_simps]: "m s = (Inl e, s') \<Longrightarrow> and_then m f s = (Inl e, s')"
  by (simp add: and_then_def)

lemma and_then_Inr_iff:
  "and_then m f s = (Inr y, t) \<longleftrightarrow> (\<exists>x s'. m s = (Inr x, s') \<and> f x s' = (Inr y, t))"
  by (auto simp: and_then_def split: prod.splits sum.splits)

text \<open>The same for results without a state.\<close>

definition on_ok :: "'e + 'a \<Rightarrow> ('a \<Rightarrow> 'e + 'b) \<Rightarrow> 'e + 'b" where
  "on_ok r f = (case r of Inl e \<Rightarrow> Inl e | Inr x \<Rightarrow> f x)"

lemma on_ok_simps [simp, comp_simps]:
  "on_ok (Inl e) f = Inl e" "on_ok (Inr x) f = f x"
  by (simp_all add: on_ok_def)

lemma on_ok_Inr_iff: "on_ok r f = Inr y \<longleftrightarrow> (\<exists>x. r = Inr x \<and> f x = Inr y)"
  by (cases r) auto

end
