(* ===== verification/DnsValid.thy ===== *)
theory DnsValid
  imports Base
begin

text \<open>
  Which domain names get a FakeIP: \<open>sb-dns/src/valid.rs\<close>. The loop over the labels keeps a count
  and the last label, and leaves the function at the first bad label.
\<close>

abbreviation dot :: u8 where "dot \<equiv> 46"
abbreviation hyphen :: u8 where "hyphen \<equiv> 45"

definition reserved_tlds :: "bytes list" where
  "reserved_tlds = map bytes_of
     [''test'', ''example'', ''invalid'', ''localhost'', ''arpa'', ''local'', ''onion'', ''alt'']"

definition is_valid_label :: "bytes \<Rightarrow> bool" where
  "is_valid_label b =
     (let len = length b in
      if len = 0 \<or> len > 63 then False
      else if \<not> list_all (\<lambda>c. is_alnum c \<or> c = hyphen) b then False
      else if b ! 0 = hyphen \<or> b ! (len - 1) = hyphen then False
      else if len \<ge> 4 \<and> b ! 2 = hyphen \<and> b ! 3 = hyphen \<and>
              \<not> (lower (b ! 0) = lower 120 \<and> lower (b ! 1) = lower 110) then False
      else True)"

text \<open>The loop: \<open>None\<close> is the \<open>return false\<close> inside it.\<close>

fun label_loop :: "nat \<Rightarrow> bytes \<Rightarrow> bytes list \<Rightarrow> (nat \<times> bytes) option" where
  "label_loop n tld [] = Some (n, tld)"
| "label_loop n tld (l # ls) = (if is_valid_label l then label_loop (n + 1) l ls else None)"

definition strip_dot :: "bytes \<Rightarrow> bytes" where
  "strip_dot name = (if name \<noteq> [] \<and> last name = dot then butlast name else name)"

definition is_valid_fakeip_domain :: "bytes \<Rightarrow> bool" where
  "is_valid_fakeip_domain name0 =
     (let name = strip_dot name0 in
      if name = [] \<or> length name > 253 then False
      else case label_loop 0 [] (split_on dot name) of
        None \<Rightarrow> False
      | Some (n, tld) \<Rightarrow>
          if n < 2 then False
          else if length tld < 2 then False
          else if list_ex (\<lambda>r. eq_nocase r tld) reserved_tlds then False
          else True)"

lemma label_loop_Some:
  "label_loop n tld ls = Some (m, t) \<longleftrightarrow>
     list_all is_valid_label ls \<and> m = n + length ls \<and> t = (if ls = [] then tld else last ls)"
  by (induction n tld ls rule: label_loop.induct) auto

text \<open>The declarative reading of the check.\<close>

definition valid_domain_spec :: "bytes \<Rightarrow> bool" where
  "valid_domain_spec name0 \<longleftrightarrow>
     (let name = strip_dot name0; ls = split_on dot name in
      1 \<le> length name \<and> length name \<le> 253 \<and> list_all is_valid_label ls \<and> 2 \<le> length ls \<and>
      2 \<le> length (last ls) \<and> lowers (last ls) \<notin> set reserved_tlds)"

lemma reserved_lower: "r \<in> set reserved_tlds \<Longrightarrow> lowers r = r"
  by (auto simp: reserved_tlds_def bytes_of_def lowers_def lower_def is_upper_def)

lemma reserved_iff:
  "list_ex (\<lambda>r. eq_nocase r tld) reserved_tlds \<longleftrightarrow> lowers tld \<in> set reserved_tlds"
  using reserved_lower by (force simp: list_ex_iff eq_nocase_def)

lemma valid_domain_iff: "is_valid_fakeip_domain name = valid_domain_spec name"
proof (cases "label_loop 0 [] (split_on dot (strip_dot name))")
  case None
  then have "\<not> list_all is_valid_label (split_on dot (strip_dot name))"
    by (metis label_loop_Some option.distinct(1))
  with None show ?thesis
    by (simp add: is_valid_fakeip_domain_def valid_domain_spec_def Let_def)
next
  case (Some r)
  then obtain n tld where r: "r = (n, tld)"
    by (cases r)
  with Some have "list_all is_valid_label (split_on dot (strip_dot name)) \<and>
      n = length (split_on dot (strip_dot name)) \<and> tld = last (split_on dot (strip_dot name))"
    by (simp add: label_loop_Some)
  with Some r show ?thesis
    by (auto simp: is_valid_fakeip_domain_def valid_domain_spec_def Let_def reserved_iff
        Suc_le_eq not_less)
qed

section \<open>Case does not matter\<close>

lemma is_alnum_lower [simp]: "is_alnum (lower b) = is_alnum b"
proof (cases "is_upper b")
  case True
  then have b: "65 \<le> unat b" "unat b \<le> 90"
    by (auto simp: is_upper_def word_le_nat_alt)
  then have "unat (b + 32) = unat b + 32"
    by (simp add: unat_word_ariths)
  with True b show ?thesis
    by (auto simp: lower_def is_alnum_def is_lower_def word_le_nat_alt)
qed (simp add: lower_def)

lemma lower_fixes:
  assumes "\<not> is_alnum c"
  shows "lower b = c \<longleftrightarrow> b = c"
proof
  assume "lower b = c"
  with assms have "\<not> is_alnum b"
    by auto
  with \<open>lower b = c\<close> show "b = c"
    by (simp add: lower_def is_alnum_def)
next
  assume "b = c"
  with assms show "lower b = c"
    by (simp add: lower_def is_alnum_def)
qed

lemma not_alnum_dot [simp]: "\<not> is_alnum dot" and not_alnum_hyphen [simp]: "\<not> is_alnum hyphen"
  by (simp_all add: is_alnum_def is_upper_def is_lower_def is_digit_def)

lemma lower_eq_dot [simp]: "lower b = dot \<longleftrightarrow> b = dot"
  and lower_eq_hyphen [simp]: "lower b = hyphen \<longleftrightarrow> b = hyphen"
  by (rule lower_fixes; simp)+

lemma is_valid_label_lowers: "is_valid_label (lowers l) = is_valid_label l"
proof -
  have "list_all (\<lambda>c. is_alnum c \<or> c = hyphen) (lowers l) =
        list_all (\<lambda>c. is_alnum c \<or> c = hyphen) l"
    by (simp add: lowers_def list_all_length)
  moreover have "lowers l ! i = lower (l ! i)" if "i < length l" for i
    using that by (simp add: lowers_def)
  ultimately show ?thesis
    by (auto simp: is_valid_label_def Let_def)
qed

lemma strip_dot_lowers: "strip_dot (lowers name) = lowers (strip_dot name)"
  by (auto simp: strip_dot_def lowers_def last_map map_butlast)

lemma split_dot_lowers: "split_on dot (lowers name) = map lowers (split_on dot name)"
  unfolding lowers_def by (rule split_on_map) simp

text \<open>C32: the early-exit loop accepts exactly the names of 1 to 253 bytes (one trailing dot aside)
  with at least two labels, all well formed, whose last label has two bytes or more and is not one
  of the reserved top-level domains, whatever its case.\<close>

theorem is_valid_fakeip_domain_iff: "is_valid_fakeip_domain name = valid_domain_spec name"
  by (rule valid_domain_iff)

lemma valid_domain_case_insensitive:
  "is_valid_fakeip_domain (lowers name) = is_valid_fakeip_domain name"
  by (simp add: valid_domain_iff valid_domain_spec_def strip_dot_lowers split_dot_lowers
      Let_def list_all_iff is_valid_label_lowers last_map)

text \<open>What a valid name promises to the packet builder: printable ASCII labels of 1 to 63 bytes.\<close>

lemma is_alnum_ascii: "is_alnum c \<Longrightarrow> c < 128"
  by (auto simp: is_alnum_def is_upper_def is_lower_def is_digit_def word_less_nat_alt word_le_nat_alt)

lemma is_valid_label_bounds:
  assumes "is_valid_label l"
  shows "l \<noteq> []" and "length l \<le> 63" and "\<forall>c\<in>set l. c < 128 \<and> c \<noteq> dot"
proof -
  from assms have *: "length l \<noteq> 0" "length l \<le> 63" "list_all (\<lambda>c. is_alnum c \<or> c = hyphen) l"
    by (auto simp: is_valid_label_def Let_def split: if_splits)
  then show "l \<noteq> []" and "length l \<le> 63"
    by auto
  show "\<forall>c\<in>set l. c < 128 \<and> c \<noteq> dot"
  proof
    fix c
    assume "c \<in> set l"
    with *(3) have "is_alnum c \<or> c = hyphen"
      by (auto simp: list_all_iff)
    then show "c < 128 \<and> c \<noteq> dot"
      using is_alnum_ascii not_alnum_dot by auto
  qed
qed

end
