(* ===== verification/DnsMessage.thy ===== *)
theory DnsMessage
  imports DnsValid
begin

text \<open>
  The DNS wire format of \<open>sb-dns/src/message.rs\<close>: parsing a query, the answers built by editing
  the echoed question, building a query, parsing a response with compressed names.
\<close>

section \<open>Constants and errors\<close>

abbreviation (input) TYPE_A :: u16 where "TYPE_A \<equiv> 1"
abbreviation (input) TYPE_MX :: u16 where "TYPE_MX \<equiv> 15"
abbreviation (input) TYPE_TXT :: u16 where "TYPE_TXT \<equiv> 16"
abbreviation (input) TYPE_AAAA :: u16 where "TYPE_AAAA \<equiv> 28"
abbreviation (input) TYPE_SRV :: u16 where "TYPE_SRV \<equiv> 33"
abbreviation (input) CLASS_IN :: u16 where "CLASS_IN \<equiv> 1"
abbreviation (input) RCODE_NOERROR :: u8 where "RCODE_NOERROR \<equiv> 0"
abbreviation (input) RCODE_FORMERR :: u8 where "RCODE_FORMERR \<equiv> 1"
abbreviation (input) RCODE_NXDOMAIN :: u8 where "RCODE_NXDOMAIN \<equiv> 3"
abbreviation (input) RCODE_NOTIMP :: u8 where "RCODE_NOTIMP \<equiv> 4"
abbreviation (input) HEADER_LEN :: nat where "HEADER_LEN \<equiv> 12"

datatype dns_error = Truncated | NotAQuery | NoQuestion | CompressionInQuestion | NameTooLong

section \<open>Queries\<close>

record query =
  q_id :: u16
  q_rd :: bool
  q_name :: bytes
  q_qtype :: u16
  q_qclass :: u16
  question_end :: nat
  q_raw :: bytes

text \<open>\<open>name.push(b as char)\<close>: a byte from 128 on is a Latin-1 character, two bytes in the string.\<close>

definition push_char :: "u8 \<Rightarrow> bytes" where
  "push_char b = (if b < 128 then [b] else [0xC0 OR drop_bit 6 b, 0x80 OR (b AND 0x3F)])"

definition push_label :: "bytes \<Rightarrow> bytes \<Rightarrow> bytes" where
  "push_label name label =
     (if name = [] then [] else name @ [dot]) @ concat (map (\<lambda>b. push_char (lower b)) label)"

function parse_name :: "bytes \<Rightarrow> nat \<Rightarrow> bytes \<Rightarrow> dns_error + (bytes \<times> nat)" where
  "parse_name buf pos name =
     (if length buf \<le> pos then Inl Truncated
      else let len = buf ! pos in
        if len = 0 then Inr (name, pos + 1)
        else if len AND 0xC0 \<noteq> 0 then Inl CompressionInQuestion
        else if length buf < pos + 1 + unat len then Inl Truncated
        else let name' = push_label name (take (unat len) (drop (pos + 1) buf)) in
          if length name' > 255 then Inl NameTooLong
          else parse_name buf (pos + 1 + unat len) name')"
  by pat_completeness auto
termination
  by (relation "measure (\<lambda>(buf, pos, name). length buf - pos)") auto

declare parse_name.simps [simp del]

definition parse_query :: "bytes \<Rightarrow> dns_error + query" where
  "parse_query buf =
     (if length buf < HEADER_LEN then Inl Truncated
      else let qid = be16_of (buf ! 0) (buf ! 1); flags = be16_of (buf ! 2) (buf ! 3) in
        if flags AND 0x8000 \<noteq> 0 then Inl NotAQuery
        else let rd = (flags AND 0x0100 \<noteq> 0); qdcount = be16_of (buf ! 4) (buf ! 5) in
          if qdcount = 0 then Inl NoQuestion
          else on_ok (parse_name buf HEADER_LEN []) (\<lambda>(name, pos).
            if pos + 4 > length buf then Inl Truncated
            else Inr \<lparr> q_id = qid, q_rd = rd, q_name = name,
                       q_qtype = be16_of (buf ! pos) (buf ! (pos + 1)),
                       q_qclass = be16_of (buf ! (pos + 2)) (buf ! (pos + 3)),
                       question_end = pos + 4, q_raw = buf \<rparr>))"

section \<open>Answers\<close>

text \<open>\<open>&self.raw[..self.question_end]\<close>, which panics if the question ran past the packet.\<close>

definition echo_prefix :: "query \<Rightarrow> bytes option" where
  "echo_prefix q =
     (if question_end q \<le> length (q_raw q) then Some (take (question_end q) (q_raw q)) else None)"

text \<open>The header is patched in place; indexing a shorter buffer panics.\<close>

definition write_response_header :: "bytes \<Rightarrow> bool \<Rightarrow> u8 \<Rightarrow> u16 \<Rightarrow> bytes option" where
  "write_response_header out rd rcode ancount =
     (if length out < 12 then None
      else Some (out[2 := 0x80 OR (if rd then 1 else 0), 3 := 0x80 OR (rcode AND 0x0F),
                     6 := to_be16 ancount ! 0, 7 := to_be16 ancount ! 1,
                     8 := 0, 9 := 0, 10 := 0, 11 := 0]))"

definition answer_a :: "query \<Rightarrow> u32 \<Rightarrow> u32 \<Rightarrow> bytes option" where
  "answer_a q ip ttl = do {
     out \<leftarrow> echo_prefix q;
     out \<leftarrow> write_response_header out (q_rd q) RCODE_NOERROR 1;
     Some (out @ [0xC0, 0x0C] @ to_be16 TYPE_A @ to_be16 CLASS_IN @ to_be32 ttl @
           to_be16 4 @ to_be32 ip) }"

definition nodata :: "query \<Rightarrow> bytes option" where
  "nodata q = do { out \<leftarrow> echo_prefix q; write_response_header out (q_rd q) RCODE_NOERROR 0 }"

definition query_error :: "query \<Rightarrow> u8 \<Rightarrow> bytes option" where
  "query_error q rcode = do { out \<leftarrow> echo_prefix q; write_response_header out (q_rd q) rcode 0 }"

definition is_a :: "query \<Rightarrow> bool" where
  "is_a q \<longleftrightarrow> q_qclass q = CLASS_IN \<and> q_qtype q = TYPE_A"

definition error_response :: "bytes \<Rightarrow> u8 \<Rightarrow> bytes option" where
  "error_response query_buf rcode = do {
     let qid = (if length query_buf \<ge> 2 then be16_of (query_buf ! 0) (query_buf ! 1) else 0);
     let out = (replicate HEADER_LEN 0)[0 := to_be16 qid ! 0, 1 := to_be16 qid ! 1];
     out \<leftarrow> write_response_header out False rcode 0;
     Some (out[4 := 0, 5 := 0]) }"

section \<open>Building a query\<close>

fun encode_labels :: "bytes \<Rightarrow> bytes list \<Rightarrow> dns_error + bytes" where
  "encode_labels out [] = Inr out"
| "encode_labels out (l # ls) =
     (if l = [] \<or> length l > 63 then Inl NameTooLong
      else encode_labels (out @ of_nat (length l) # l) ls)"

definition build_query_with :: "u16 \<Rightarrow> bytes \<Rightarrow> u16 \<Rightarrow> bool \<Rightarrow> dns_error + bytes" where
  "build_query_with qid name qtype rd =
     (let out = to_be16 qid @ to_be16 (if rd then 0x0100 else 0) @ to_be16 1 @ [0, 0, 0, 0, 0, 0] in
      on_ok (if name = [] then Inr out else encode_labels out (split_on dot name)) (\<lambda>out.
        let out = out @ [0] in
        if length out - HEADER_LEN > 255 then Inl NameTooLong
        else Inr (out @ to_be16 qtype @ to_be16 CLASS_IN)))"

definition build_query :: "u16 \<Rightarrow> bytes \<Rightarrow> u16 \<Rightarrow> dns_error + bytes" where
  "build_query qid name qtype = build_query_with qid name qtype True"

section \<open>Parsing a response\<close>

record dns_response =
  r_id :: u16
  r_rcode :: u8
  r_v4 :: "u32 list"
  r_v6 :: "bytes list"
  r_txt :: "bytes list"
  r_mx :: "bytes list"
  r_srv :: "(bytes \<times> u16) list"
  r_min_ttl :: u32

text \<open>The loop \<open>for _ in 0..256\<close> of \<open>skip_name\<close>, with the rounds left.\<close>

primrec skip_name_loop :: "nat \<Rightarrow> bytes \<Rightarrow> nat \<Rightarrow> dns_error + nat" where
  "skip_name_loop 0 buf pos = Inl NameTooLong"
| "skip_name_loop (Suc k) buf pos =
     (if length buf \<le> pos then Inl Truncated
      else let len = buf ! pos in
        if len = 0 then Inr (pos + 1)
        else if len AND 0xC0 = 0xC0 then
          (if pos + 2 > length buf then Inl Truncated else Inr (pos + 2))
        else if len AND 0xC0 \<noteq> 0 then Inl CompressionInQuestion
        else if pos + (1 + unat len) \<le> length buf then skip_name_loop k buf (pos + (1 + unat len))
        else Inl Truncated)"

definition skip_name :: "bytes \<Rightarrow> nat \<Rightarrow> dns_error + nat" where
  "skip_name buf pos = skip_name_loop 256 buf pos"

text \<open>A name with compression pointers: at most eight jumps, so the loop ends on any packet.\<close>

function read_name_loop :: "bytes \<Rightarrow> nat \<Rightarrow> nat \<Rightarrow> bytes \<Rightarrow> bytes option" where
  "read_name_loop buf hops pos out =
     (if length buf \<le> pos then None
      else let len = buf ! pos in
        if len = 0 then Some out
        else if len AND 0xC0 = 0xC0 then
          (if length buf \<le> pos + 1 then None
           else let target = unat (push_bit 8 (ucast (len AND 0x3F)) OR ucast (buf ! (pos + 1)) :: u16) in
             if hops + 1 > 8 \<or> target \<ge> length buf then None
             else read_name_loop buf (hops + 1) target out)
        else if len AND 0xC0 \<noteq> 0 then None
        else if length buf < pos + (1 + unat len) then None
        else let out' = (if out = [] then [] else out @ [dot]) @
                        utf8_lossy (take (unat len) (drop (pos + 1) buf)) in
          if length out' > 255 then None
          else read_name_loop buf hops (pos + (1 + unat len)) out')"
  by pat_completeness auto
termination
  by (relation "measures [\<lambda>(buf, hops, pos, out). 8 - hops, \<lambda>(buf, hops, pos, out). length buf - pos]")
    auto

declare read_name_loop.simps [simp del]

definition read_name :: "bytes \<Rightarrow> nat \<Rightarrow> bytes option" where
  "read_name buf pos = read_name_loop buf 0 pos []"

primrec skip_questions :: "nat \<Rightarrow> bytes \<Rightarrow> nat \<Rightarrow> dns_error + nat" where
  "skip_questions 0 buf pos = Inr pos"
| "skip_questions (Suc n) buf pos =
     on_ok (skip_name buf pos) (\<lambda>pos.
       if pos + 4 \<le> length buf then skip_questions n buf (pos + 4) else Inl Truncated)"

text \<open>The character strings of a TXT record; a string that runs past the record ends the loop.\<close>

function txt_strings :: "bytes \<Rightarrow> nat \<Rightarrow> nat \<Rightarrow> bytes list" where
  "txt_strings buf p rdata_end =
     (if p < rdata_end then
        (let slen = unat (buf ! p) in
         if p + (1 + slen) \<le> rdata_end
         then utf8_lossy (take slen (drop (p + 1) buf)) # txt_strings buf (p + (1 + slen)) rdata_end
         else [])
      else [])"
  by pat_completeness auto
termination
  by (relation "measure (\<lambda>(buf, p, rdata_end). rdata_end - p)") auto

declare txt_strings.simps [simp del]

text \<open>The \<open>match\<close> on the record type; \<open>pos\<close> is the start of the record data.\<close>

definition take_record :: "bytes \<Rightarrow> u16 \<Rightarrow> u32 \<Rightarrow> nat \<Rightarrow> nat \<Rightarrow> dns_response \<Rightarrow> dns_response" where
  "take_record buf rtype ttl pos rdlen out =
     (if rtype = TYPE_A \<and> rdlen = 4 then
        out\<lparr>r_v4 := r_v4 out @ [be32_of (buf ! pos) (buf ! (pos + 1)) (buf ! (pos + 2)) (buf ! (pos + 3))],
            r_min_ttl := min (r_min_ttl out) ttl\<rparr>
      else if rtype = TYPE_AAAA \<and> rdlen = 16 then
        out\<lparr>r_v6 := r_v6 out @ [take 16 (drop pos buf)], r_min_ttl := min (r_min_ttl out) ttl\<rparr>
      else if rtype = TYPE_TXT then
        out\<lparr>r_txt := r_txt out @ txt_strings buf pos (pos + rdlen)\<rparr>
      else if rtype = TYPE_MX \<and> rdlen > 2 then
        (case read_name buf (pos + 2) of Some name \<Rightarrow> out\<lparr>r_mx := r_mx out @ [name]\<rparr> | None \<Rightarrow> out)
      else if rtype = TYPE_SRV \<and> rdlen > 6 then
        (case read_name buf (pos + 6) of
           Some name \<Rightarrow> out\<lparr>r_srv := r_srv out @ [(name, be16_of (buf ! (pos + 4)) (buf ! (pos + 5)))]\<rparr>
         | None \<Rightarrow> out)
      else out)"

primrec answers_loop :: "nat \<Rightarrow> bytes \<Rightarrow> nat \<Rightarrow> dns_response \<Rightarrow> dns_error + dns_response" where
  "answers_loop 0 buf pos out = Inr out"
| "answers_loop (Suc n) buf pos out =
     on_ok (skip_name buf pos) (\<lambda>pos.
       if pos + 10 > length buf then Inl Truncated
       else let rtype = be16_of (buf ! pos) (buf ! (pos + 1));
                ttl = be32_of (buf ! (pos + 4)) (buf ! (pos + 5)) (buf ! (pos + 6)) (buf ! (pos + 7));
                rdlen = unat (be16_of (buf ! (pos + 8)) (buf ! (pos + 9)));
                pos = pos + 10
            in if pos + rdlen \<le> length buf
               then answers_loop n buf (pos + rdlen) (take_record buf rtype ttl pos rdlen out)
               else Inl Truncated)"

definition parse_response :: "bytes \<Rightarrow> dns_error + dns_response" where
  "parse_response buf =
     (if length buf < HEADER_LEN then Inl Truncated
      else let qid = be16_of (buf ! 0) (buf ! 1); rcode = buf ! 3 AND 0x0F;
               qdcount = be16_of (buf ! 4) (buf ! 5); ancount = be16_of (buf ! 6) (buf ! 7) in
        on_ok (skip_questions (unat qdcount) buf HEADER_LEN) (\<lambda>pos.
          on_ok (answers_loop (unat ancount) buf pos
                   \<lparr> r_id = qid, r_rcode = rcode, r_v4 = [], r_v6 = [], r_txt = [], r_mx = [],
                     r_srv = [], r_min_ttl = - 1 \<rparr>) (\<lambda>out.
            Inr (out\<lparr>r_min_ttl := (if r_min_ttl out = - 1 then 0 else r_min_ttl out)\<rparr>))))"

section \<open>Names\<close>

lemma push_label_length:
  "length (push_label name label) \<ge> length name + length label"
proof -
  have "length label \<le> length (concat (map (\<lambda>b. push_char (lower b)) label))"
    by (induction label) (auto simp: push_char_def)
  then show ?thesis
    by (simp add: push_label_def)
qed

text \<open>What a name that parses looks like: its root byte, or a label and the rest of the name.\<close>

abbreviation (input) label_at :: "bytes \<Rightarrow> nat \<Rightarrow> bytes" where
  "label_at buf pos \<equiv> take (unat (buf ! pos)) (drop (pos + 1) buf)"

lemma parse_name_root:
  "pos < length buf \<Longrightarrow> buf ! pos = 0 \<Longrightarrow> parse_name buf pos name = Inr (name, pos + 1)"
  by (simp add: parse_name.simps [of buf pos])

lemma parse_name_label:
  "\<lbrakk>pos < length buf; buf ! pos \<noteq> 0; buf ! pos AND 0xC0 = 0; pos + 1 + unat (buf ! pos) \<le> length buf;
    length (push_label name (label_at buf pos)) \<le> 255\<rbrakk> \<Longrightarrow>
   parse_name buf pos name =
     parse_name buf (pos + 1 + unat (buf ! pos)) (push_label name (label_at buf pos))"
  by (subst parse_name.simps) (simp add: Let_def not_le not_less)

lemma parse_name_Inr_cases:
  assumes "parse_name buf pos name = Inr (n, p)"
  obtains (root) "pos < length buf" "buf ! pos = 0" "n = name" "p = pos + 1"
  | (label) "pos < length buf" "buf ! pos \<noteq> 0" "buf ! pos AND 0xC0 = 0"
      "pos + 1 + unat (buf ! pos) \<le> length buf" "length (push_label name (label_at buf pos)) \<le> 255"
      "parse_name buf (pos + 1 + unat (buf ! pos)) (push_label name (label_at buf pos)) = Inr (n, p)"
  using assms by (subst (asm) parse_name.simps) (auto simp: Let_def not_le not_less split: if_splits)

lemma parse_name_Inr_induct [consumes 1, case_names root label]:
  assumes "parse_name buf pos name = Inr (n, p)"
    and root: "\<And>pos name. pos < length buf \<Longrightarrow> buf ! pos = 0 \<Longrightarrow> P pos name name (pos + 1)"
    and label: "\<And>pos name n p. \<lbrakk>pos < length buf; buf ! pos \<noteq> 0; buf ! pos AND 0xC0 = 0;
      pos + 1 + unat (buf ! pos) \<le> length buf; length (push_label name (label_at buf pos)) \<le> 255;
      parse_name buf (pos + 1 + unat (buf ! pos)) (push_label name (label_at buf pos)) = Inr (n, p);
      P (pos + 1 + unat (buf ! pos)) (push_label name (label_at buf pos)) n p\<rbrakk> \<Longrightarrow> P pos name n p"
  shows "P pos name n p"
  using assms(1)
proof (induction "length buf - pos" arbitrary: pos name rule: less_induct)
  case less
  from less.prems show ?case
  proof (cases rule: parse_name_Inr_cases)
    case root
    then show ?thesis
      using assms(2) by simp
  next
    case label
    have "length buf - (pos + 1 + unat (buf ! pos)) < length buf - pos"
      using label(1) by linarith
    then show ?thesis
      by (intro assms(3) [OF label] less.hyps label(6))
  qed
qed

text \<open>The end of a parsed name lies in the packet, after the start; the name has at most 255 bytes.\<close>

lemma parse_name_pos: "parse_name buf pos name = Inr (n, p) \<Longrightarrow> pos < p \<and> p \<le> length buf"
  by (induction rule: parse_name_Inr_induct) auto

lemma parse_name_length:
  "parse_name buf pos name = Inr (n, p) \<Longrightarrow> length name \<le> 255 \<Longrightarrow> length n \<le> 255"
  by (induction rule: parse_name_Inr_induct) auto

text \<open>
  A packet that agrees with the query on the bytes of its question has the same question for the
  response parser: \<open>skip_name\<close> needs at most \<open>256 - length name\<close> of its 256 rounds, because each
  label makes the name longer and the query parser stops at 255 bytes.
\<close>

lemma skip_name_of_parse_name:
  assumes "parse_name buf pos name = Inr (n, p)"
    and "\<forall>i. pos \<le> i \<longrightarrow> i < p \<longrightarrow> i < length buf' \<and> buf' ! i = buf ! i"
    and "length name \<le> 255" and "256 - length name \<le> k"
  shows "skip_name_loop k buf' pos = Inr p"
  using assms
proof (induction arbitrary: k rule: parse_name_Inr_induct)
  case (root pos name)
  then obtain k' where "k = Suc k'"
    by (cases k) auto
  moreover have "pos < length buf'" and "buf' ! pos = 0"
    using root.prems(1) root.hyps by auto
  ultimately show ?case
    by simp
next
  case (label pos name n p)
  let ?q = "pos + 1 + unat (buf ! pos)" and ?name = "push_label name (label_at buf pos)"
  obtain k' where k: "k = Suc k'"
    using label.prems by (cases k) auto
  have qp: "?q < p"
    using parse_name_pos [OF label(6)] by simp
  then have at: "pos < length buf'" "buf' ! pos = buf ! pos" and "?q < length buf'"
    using label.prems(1) by auto
  have "0 < unat (buf ! pos)"
    using label(2) by (simp add: unat_gt_0)
  then have "length name < length ?name"
    using push_label_length [of name "label_at buf pos"] label(4) by simp
  then have "256 - length ?name \<le> k'"
    using k label.prems(3) by simp
  then have "skip_name_loop k' buf' ?q = Inr p"
    using label.prems(1) label(5) by (intro label.IH) auto
  moreover have "(0xC0 :: u8) \<noteq> 0"
    by simp
  ultimately show ?case
    using at k label(2,3) \<open>?q < length buf'\<close> by (simp add: Let_def)
qed

section \<open>A parsed query\<close>

text \<open>What \<open>parse_query\<close> promises about the query it returns.\<close>

lemma parse_query_Inr:
  assumes "parse_query buf = Inr q"
  obtains pos where "12 \<le> length buf" "parse_name buf 12 [] = Inr (q_name q, pos)"
    "pos + 4 \<le> length buf" "question_end q = pos + 4" "q_raw q = buf"
    "q_id q = be16_of (buf ! 0) (buf ! 1)" "q_rd q \<longleftrightarrow> be16_of (buf ! 2) (buf ! 3) AND 0x0100 \<noteq> 0"
    "q_qtype q = be16_of (buf ! pos) (buf ! (pos + 1))"
    "q_qclass q = be16_of (buf ! (pos + 2)) (buf ! (pos + 3))"
  using assms by (auto simp: parse_query_def Let_def on_ok_Inr_iff not_le not_less split: if_splits)

lemma parse_query_bounds:
  assumes "parse_query buf = Inr q"
  shows "q_raw q = buf" and "17 \<le> question_end q" and "question_end q \<le> length buf"
    and "length (q_name q) \<le> 255"
  using assms by (auto elim!: parse_query_Inr dest: parse_name_length)
    (auto elim!: parse_query_Inr dest: parse_name_pos)

text \<open>The header patch keeps everything but the flags and the record counts.\<close>

lemma write_response_header_Some:
  "12 \<le> length out \<Longrightarrow> \<exists>o'. write_response_header out rd rcode an = Some o'"
  by (simp add: write_response_header_def)

lemma write_response_header_nth:
  assumes "write_response_header out rd rcode an = Some o'"
  shows "length o' = length out" and "\<And>i. 12 \<le> i \<Longrightarrow> o' ! i = out ! i"
    and "i \<in> {0, 1, 4, 5} \<Longrightarrow> o' ! i = out ! i"
    and "o' ! 2 = 0x80 OR (if rd then 1 else 0)" and "o' ! 3 = 0x80 OR (rcode AND 0x0F)"
    and "be16_of (o' ! 6) (o' ! 7) = an"
    and "o' ! 8 = 0" "o' ! 9 = 0" "o' ! 10 = 0" "o' ! 11 = 0"
  using assms by (auto simp: write_response_header_def nth_list_update to_be16_def split: if_splits)

text \<open>The echoed, patched question.\<close>

definition echo_header :: "query \<Rightarrow> u8 \<Rightarrow> u16 \<Rightarrow> bytes option" where
  "echo_header q rcode an = do { out \<leftarrow> echo_prefix q; write_response_header out (q_rd q) rcode an }"

lemma answers_by_header:
  "nodata q = echo_header q RCODE_NOERROR 0"
  "query_error q rcode = echo_header q rcode 0"
  "answer_a q ip ttl =
     map_option (\<lambda>out. out @ [0xC0, 0x0C, 0, 1, 0, 1] @ to_be32 ttl @ [0, 4] @ to_be32 ip)
       (echo_header q RCODE_NOERROR 1)"
  by (auto simp: nodata_def query_error_def answer_a_def echo_header_def to_be16_def
      split: bind_splits)

lemma echo_header_question:
  assumes q: "parse_query buf = Inr q" and one: "be16_of (buf ! 4) (buf ! 5) = 1"
  obtains out where "echo_header q rcode an = Some out" "length out = question_end q"
    "12 \<le> length out" "be16_of (out ! 0) (out ! 1) = q_id q" "out ! 3 AND 0x0F = rcode AND 0x0F"
    "be16_of (out ! 4) (out ! 5) = 1" "be16_of (out ! 6) (out ! 7) = an"
    "\<And>ext. skip_questions 1 (out @ ext) 12 = Inr (length out)"
proof -
  from q obtain pos where pos: "12 \<le> length buf" "parse_name buf 12 [] = Inr (q_name q, pos)"
    "pos + 4 \<le> length buf" "question_end q = pos + 4" "q_raw q = buf"
    "q_id q = be16_of (buf ! 0) (buf ! 1)"
    by (rule parse_query_Inr)
  have "12 < pos"
    using parse_name_pos [OF pos(2)] by simp
  let ?pre = "take (pos + 4) buf"
  have len: "length ?pre = pos + 4"
    using pos(3) by simp
  obtain out where out: "write_response_header ?pre (q_rd q) rcode an = Some out"
    using write_response_header_Some [of ?pre "q_rd q" rcode an] len pos(1) \<open>12 < pos\<close> by auto
  note nth = write_response_header_nth [OF out]
  have lo: "length out = pos + 4"
    using nth(1) len by simp
  have "skip_name (out @ ext) 12 = Inr pos" for ext
    unfolding skip_name_def
    by (rule skip_name_of_parse_name [OF pos(2)]) (auto simp: nth_append lo nth(2))
  then have "skip_questions 1 (out @ ext) 12 = Inr (length out)" for ext
    by (simp add: lo)
  moreover have "(0x80 OR (rcode AND 0x0F)) AND 0x0F = rcode AND 0x0F"
    by (simp add: bit.conj_disj_distrib2 and.assoc)
  ultimately show ?thesis
    using that [of out] out nth(3) [of 0] nth(3) [of 1] nth(3) [of 4] nth(3) [of 5] nth(5,6) pos
      one lo \<open>12 < pos\<close>
    by (simp add: echo_header_def echo_prefix_def)
qed

lemma skip_name_pointer:
  assumes "pos + 2 \<le> length buf" and "buf ! pos AND 0xC0 = 0xC0"
  shows "skip_name buf pos = Inr (pos + 2)"
proof -
  from assms have "buf ! pos \<noteq> 0"
    by auto
  with assms have "skip_name_loop (Suc 255) buf pos = Inr (pos + 2)"
    by (simp only: skip_name_loop.simps Let_def) simp
  then show ?thesis
    by (simp add: skip_name_def)
qed

abbreviation (input) empty_response :: "u16 \<Rightarrow> u8 \<Rightarrow> dns_response" where
  "empty_response qid rcode \<equiv> \<lparr> r_id = qid, r_rcode = rcode, r_v4 = [], r_v6 = [], r_txt = [],
     r_mx = [], r_srv = [], r_min_ttl = 0 \<rparr>"

text \<open>The loop over one address record whose fixed fields start at \<open>p\<close>.\<close>

lemma answers_loop_a_record:
  assumes "skip_name buf pos = Inr p" and "p + 14 \<le> length buf"
    and "buf ! p = 0" "buf ! (p + 1) = 1" "buf ! (p + 8) = 0" "buf ! (p + 9) = 4"
    and "be32_of (buf ! (p + 4)) (buf ! (p + 5)) (buf ! (p + 6)) (buf ! (p + 7)) = ttl"
    and "be32_of (buf ! (p + 10)) (buf ! (p + 11)) (buf ! (p + 12)) (buf ! (p + 13)) = ip"
  shows "answers_loop 1 buf pos out =
    Inr (out\<lparr>r_v4 := r_v4 out @ [ip], r_min_ttl := min (r_min_ttl out) ttl\<rparr>)"
proof -
  have "be16_of 0 1 = 1" and "be16_of 0 4 = 4"
    by (simp_all add: be16_of_def)
  with assms show ?thesis
    by (simp add: take_record_def Let_def add.commute [of _ p])
qed

text \<open>A query for \<open>aB.io\<close>, used to try the theorems out.\<close>

definition sample_query :: bytes where
  "sample_query = [0x12, 0x34, 1, 0, 0, 1, 0, 0, 0, 0, 0, 0, 2, 97, 66, 2, 105, 111, 0, 0, 1, 0, 1]"

lemma answer_a_parses:
  assumes "parse_query buf = Inr q" and "be16_of (buf ! 4) (buf ! 5) = 1"
  shows "\<exists>out. answer_a q ip ttl = Some out \<and>
    parse_response out =
      Inr ((empty_response (q_id q) RCODE_NOERROR)\<lparr>r_v4 := [ip], r_min_ttl := (if ttl = - 1 then 0 else ttl)\<rparr>)"
proof -
  obtain out where out: "echo_header q 0 1 = Some out" "12 \<le> length out"
    "be16_of (out ! 0) (out ! 1) = q_id q" "out ! 3 AND 0x0F = 0 AND 0x0F"
    "be16_of (out ! 4) (out ! 5) = 1" "be16_of (out ! 6) (out ! 7) = 1"
    "\<And>ext. skip_questions 1 (out @ ext) 12 = Inr (length out)"
    using echo_header_question [OF assms, of 0 1] by metis
  let ?rr = "[0xC0, 0x0C, 0, 1, 0, 1] @ to_be32 ttl @ [0, 4] @ to_be32 ip"
  define buf' where "buf' = out @ ?rr"
  have len: "length buf' = length out + 16"
    by (simp add: buf'_def)
  have hd: "buf' ! i = out ! i" if "i < 12" for i
    using that out(2) by (simp add: buf'_def nth_append)
  have "skip_name buf' (length out) = Inr (length out + 2)"
    by (rule skip_name_pointer) (simp_all add: buf'_def nth_append)
  then have "answers_loop 1 buf' (length out) r =
      Inr (r\<lparr>r_v4 := r_v4 r @ [ip], r_min_ttl := min (r_min_ttl r) ttl\<rparr>)" for r
    by (rule answers_loop_a_record) (simp_all add: buf'_def nth_append to_be32_def)
  moreover have "skip_questions 1 buf' 12 = Inr (length out)"
    using out(7) by (simp only: buf'_def)
  ultimately have "parse_response buf' =
      Inr ((empty_response (q_id q) RCODE_NOERROR)\<lparr>r_v4 := [ip], r_min_ttl := (if ttl = - 1 then 0 else ttl)\<rparr>)"
    using out(2-6) hd len
    by (simp add: parse_response_def Let_def del: skip_questions.simps answers_loop.simps)
  then show ?thesis
    using out(1) by (simp add: answers_by_header buf'_def)
qed

text \<open>C31: for a query with one question, the answer the server builds by patching the echoed
  packet is a well-formed response: the response parser reads back the query's id, no error, exactly
  the assigned address, and its time to live (the parser's "no record" marker \<open>u32::MAX\<close> aside).\<close>

theorem answer_a_roundtrip:
  assumes "parse_query buf = Inr q" and "be16_of (buf ! 4) (buf ! 5) = 1"
  shows "\<exists>out. answer_a q ip ttl = Some out \<and>
    parse_response out =
      Inr ((empty_response (q_id q) RCODE_NOERROR)\<lparr>r_v4 := [ip], r_min_ttl := (if ttl = - 1 then 0 else ttl)\<rparr>)"
  by (rule answer_a_parses [OF assms])

theorem answer_a_roundtrip_witness:
  "\<exists>q. parse_query sample_query = Inr q \<and>
     (\<exists>out. answer_a q 0x07010203 3 = Some out \<and>
        parse_response out =
          Inr ((empty_response (q_id q) RCODE_NOERROR)\<lparr>r_v4 := [0x07010203], r_min_ttl := 3\<rparr>))"
proof -
  have "parse_query sample_query = Inr \<lparr> q_id = 0x1234, q_rd = True, q_name = bytes_of ''ab.io'',
      q_qtype = 1, q_qclass = 1, question_end = 23, q_raw = sample_query \<rparr>"
    by code_simp
  moreover have "be16_of (sample_query ! 4) (sample_query ! 5) = 1"
    by code_simp
  ultimately show ?thesis
    using answer_a_roundtrip [of sample_query _ "0x07010203" 3] by simp
qed

section \<open>A built query parses\<close>

definition enc_label :: "bytes \<Rightarrow> bytes" where
  "enc_label l = of_nat (length l) # l"

lemma length_enc_label [simp]: "length (enc_label l) = Suc (length l)"
  by (simp add: enc_label_def)

lemma encode_labels_Inr_iff:
  "encode_labels out ls = Inr r \<longleftrightarrow>
     (\<forall>l\<in>set ls. l \<noteq> [] \<and> length l \<le> 63) \<and> r = out @ concat (map enc_label ls)"
  by (induction out ls rule: encode_labels.induct) (auto simp: enc_label_def)

lemma label_byte:
  assumes "l \<noteq> []" and "length l \<le> 63"
  shows "(of_nat (length l) :: u8) \<noteq> 0" and "unat (of_nat (length l) :: u8) = length l"
    and "(of_nat (length l) :: u8) AND 0xC0 = 0"
proof -
  have "\<forall>n\<in>set [0..<64]. (of_nat n :: u8) AND 0xC0 = 0"
    by code_simp
  with assms(2) show "(of_nat (length l) :: u8) AND 0xC0 = 0"
    by simp
  show u: "unat (of_nat (length l) :: u8) = length l"
    using assms(2) by (simp add: unat_of_nat)
  show "(of_nat (length l) :: u8) \<noteq> 0"
  proof
    assume "(of_nat (length l) :: u8) = 0"
    with u have "length l = 0"
      by simp
    with assms(1) show False
      by simp
  qed
qed

lemma foldl_push_label_mono: "length name \<le> length (foldl push_label name ls)"
proof (induction ls arbitrary: name)
  case (Cons l ls)
  have "length name \<le> length (push_label name l)"
    using push_label_length [of name l] by simp
  with Cons [of "push_label name l"] show ?case
    by simp
qed simp

lemma parse_name_encoded:
  assumes "\<forall>l\<in>set ls. l \<noteq> [] \<and> length l \<le> 63" and "length (foldl push_label name ls) \<le> 255"
  shows "parse_name (pre @ concat (map enc_label ls) @ 0 # rest) (length pre) name =
    Inr (foldl push_label name ls, length pre + length (concat (map enc_label ls)) + 1)"
  using assms
proof (induction ls arbitrary: pre name)
  case Nil
  then show ?case
    by (simp add: parse_name_root)
next
  case (Cons l ls)
  let ?buf = "pre @ concat (map enc_label (l # ls)) @ 0 # rest"
  have l: "l \<noteq> []" "length l \<le> 63"
    using Cons.prems(1) by auto
  note lb = label_byte [OF l]
  have at: "?buf ! length pre = of_nat (length l)" "label_at ?buf (length pre) = l"
    by (simp_all add: enc_label_def lb(2))
  have "length (push_label name l) \<le> 255"
    using foldl_push_label_mono [of "push_label name l" ls] Cons.prems(2) by simp
  then have "parse_name ?buf (length pre) name =
      parse_name ?buf (length pre + 1 + length l) (push_label name l)"
    using parse_name_label [of "length pre" ?buf name] at lb by simp
  also have "\<dots> = Inr (foldl push_label (push_label name l) ls,
      length (pre @ enc_label l) + length (concat (map enc_label ls)) + 1)"
    using Cons.IH [of "push_label name l" "pre @ enc_label l"] Cons.prems by simp
  finally show ?case
    by simp
qed

lemma push_label_ascii:
  "\<forall>b\<in>set l. b < 128 \<Longrightarrow> push_label name l = (if name = [] then [] else name @ [dot]) @ lowers l"
proof -
  have "\<forall>b\<in>set l. b < 128 \<Longrightarrow> concat (map (\<lambda>b. push_char (lower b)) l) = lowers l"
  proof (induction l)
    case (Cons b l)
    have "lower b < 128"
      using Cons.prems is_alnum_ascii [of "lower b"] is_alnum_lower [of b]
      by (cases "is_upper b") (auto simp: lower_def is_alnum_def)
    with Cons show ?case
      by (simp add: push_char_def lowers_def)
  qed (simp add: lowers_def)
  then show "\<forall>b\<in>set l. b < 128 \<Longrightarrow> ?thesis"
    by (simp add: push_label_def)
qed

lemma foldl_push_label:
  assumes "\<forall>l\<in>set ls. l \<noteq> [] \<and> (\<forall>b\<in>set l. b < 128)"
  shows "name \<noteq> [] \<Longrightarrow> foldl push_label name ls = name @ concat (map (\<lambda>l. dot # lowers l) ls)"
    and "foldl push_label [] ls = lowers (join_with dot ls)"
proof -
  show *: "name \<noteq> [] \<Longrightarrow> foldl push_label name ls = name @ concat (map (\<lambda>l. dot # lowers l) ls)" for name
    using assms by (induction ls arbitrary: name) (auto simp: push_label_ascii)
  have join: "join_with dot (l # ls) = l @ concat (map (\<lambda>l. dot # l) ls)" for l :: bytes and ls
    by (induction ls arbitrary: l) auto
  have low: "lowers (concat xs) = concat (map lowers xs)" for xs
    by (induction xs) (auto simp: lowers_def)
  have hd: "lowers (dot # l) = dot # lowers l" for l
    by (simp add: lowers_def)
  show "foldl push_label [] ls = lowers (join_with dot ls)"
  proof (cases ls)
    case (Cons l ls')
    then have "lowers l \<noteq> []" and "\<forall>l\<in>set ls'. l \<noteq> [] \<and> (\<forall>b\<in>set l. b < 128)"
      using assms by (auto simp: lowers_def)
    moreover have "foldl push_label n ls' = n @ concat (map (\<lambda>l. dot # lowers l) ls')"
      if "n \<noteq> []" for n
      using that calculation(2) by (induction ls' arbitrary: n) (auto simp: push_label_ascii)
    ultimately show ?thesis
      using Cons assms by (simp add: push_label_ascii join low hd o_def)
  qed (simp add: lowers_def)
qed

lemma built_query_parses:
  assumes "build_query_with qid name qtype rd = Inr out" and "\<forall>b\<in>set name. b < 128"
  shows "parse_query out = Inr \<lparr> q_id = qid, q_rd = rd, q_name = lowers name, q_qtype = qtype,
    q_qclass = CLASS_IN, question_end = length out, q_raw = out \<rparr>"
proof -
  define ls where "ls = (if name = [] then [] else split_on dot name)"
  define hd where "hd = to_be16 qid @ to_be16 (if rd then 0x0100 else 0) @ to_be16 1 @ [0, 0, 0, 0, 0, 0]"
  have lhd: "length hd = 12"
    by (simp add: hd_def)
  have ls: "\<forall>l\<in>set ls. l \<noteq> [] \<and> length l \<le> 63"
    and out: "out = hd @ concat (map enc_label ls) @ 0 # to_be16 qtype @ to_be16 CLASS_IN"
    and len: "length (concat (map enc_label ls)) \<le> 254"
    using assms(1)
    by (auto simp: build_query_with_def Let_def on_ok_Inr_iff encode_labels_Inr_iff ls_def hd_def
        split: if_splits)
  have asc: "\<forall>l\<in>set ls. l \<noteq> [] \<and> (\<forall>b\<in>set l. b < 128)"
    using ls assms(2) split_on_pieces [of _ dot name] by (fastforce simp: ls_def split: if_splits)
  have nm: "foldl push_label [] ls = lowers name"
    using foldl_push_label(2) [OF asc] by (simp add: ls_def lowers_def split: if_splits)
  have "length (join_with dot xs) \<le> length (concat (map enc_label xs))" for xs
    by (induction xs rule: induct_list012) (auto simp: enc_label_def)
  from this [of ls] have "length name \<le> 254"
    using len by (simp add: ls_def split: if_splits)
  then have pn: "parse_name out 12 [] = Inr (lowers name, 12 + length (concat (map enc_label ls)) + 1)"
    using parse_name_encoded [OF ls, of "[]" hd "to_be16 qtype @ to_be16 CLASS_IN"] lhd nm
    by (simp add: out)
  let ?k = "length (concat (map enc_label ls))"
  have tail: "out ! (13 + ?k + i) = (to_be16 qtype @ to_be16 CLASS_IN) ! i" for i
    by (simp add: out lhd nth_append)
  have head: "out ! i = hd ! i" if "i < 12" for i
    using that by (simp add: out lhd nth_append)
  have "be16_of 0 1 = 1" and "be16_of 1 0 = 0x0100" and "be16_of 0 0 = 0"
    by (simp_all add: be16_of_def)
  then have "be16_of (out ! 0) (out ! 1) = qid" and "be16_of (out ! 2) (out ! 3) = (if rd then 0x0100 else 0)"
    and "be16_of (out ! 4) (out ! 5) = 1" and "be16_of (out ! (13 + ?k)) (out ! (14 + ?k)) = qtype"
    and "be16_of (out ! (15 + ?k)) (out ! (16 + ?k)) = CLASS_IN"
    using tail [of 0] tail [of 1] tail [of 2] tail [of 3]
    by (simp_all add: head hd_def to_be16_def)
  moreover have "length out = 17 + ?k"
    by (simp add: out lhd)
  ultimately show ?thesis
    using pn by (simp add: parse_query_def)
qed

text \<open>A query built for an ASCII name parses back to the same id, recursion flag, type and
  class, and to the name in lower case, with the question ending where the packet does.\<close>

theorem build_query_parse_query:
  assumes "build_query_with qid name qtype rd = Inr out" and "\<forall>b\<in>set name. b < 128"
  shows "parse_query out = Inr \<lparr> q_id = qid, q_rd = rd, q_name = lowers name, q_qtype = qtype,
    q_qclass = CLASS_IN, question_end = length out, q_raw = out \<rparr>"
  by (rule built_query_parses [OF assms])

theorem build_query_parse_query_witness:
  "\<exists>out. build_query_with 7 (bytes_of ''Ab.Io'') 1 True = Inr out \<and>
     parse_query out = Inr \<lparr> q_id = 7, q_rd = True, q_name = bytes_of ''ab.io'', q_qtype = 1,
       q_qclass = 1, question_end = length out, q_raw = out \<rparr>"
proof -
  have "build_query_with 7 (bytes_of ''Ab.Io'') 1 True =
      Inr [0, 7, 1, 0, 0, 1, 0, 0, 0, 0, 0, 0, 2, 65, 98, 2, 73, 111, 0, 0, 1, 0, 1]"
    by code_simp
  moreover have "\<forall>b\<in>set (bytes_of ''Ab.Io''). b < 128" and "lowers (bytes_of ''Ab.Io'') = bytes_of ''ab.io''"
    by code_simp+
  ultimately show ?thesis
    using build_query_parse_query [of 7 "bytes_of ''Ab.Io''" 1 True] by simp
qed

text \<open>Names the FakeIP check accepts (without a trailing dot) can always be put into a query.\<close>

lemma enc_labels_length:
  "ls \<noteq> [] \<Longrightarrow> length (concat (map enc_label ls)) = length (join_with dot ls) + 1"
  by (induction ls rule: induct_list012) auto

lemma build_query_valid_name:
  assumes "is_valid_fakeip_domain name" and "last name \<noteq> dot"
  shows "\<exists>out. build_query_with qid name qtype rd = Inr out"
proof -
  have sd: "strip_dot name = name"
    using assms(2) by (simp add: strip_dot_def)
  have v: "1 \<le> length name" "length name \<le> 253" "list_all is_valid_label (split_on dot name)"
    using assms(1) by (simp_all add: valid_domain_iff valid_domain_spec_def sd Let_def)
  have "\<forall>l\<in>set (split_on dot name). l \<noteq> [] \<and> length l \<le> 63"
    using v(3) is_valid_label_bounds(1,2) by (auto simp: list_all_iff)
  then have enc: "encode_labels o0 (split_on dot name) =
      Inr (o0 @ concat (map enc_label (split_on dot name)))" for o0
    by (simp only: encode_labels_Inr_iff simp_thms)
  have "length (concat (map enc_label (split_on dot name))) = length name + 1"
    using enc_labels_length [of "split_on dot name"] by simp
  moreover have "name \<noteq> []"
    using v(1) by auto
  ultimately show ?thesis
    using v(2) by (simp add: build_query_with_def Let_def enc)
qed

section \<open>Errors\<close>

lemma error_response_parses:
  "\<exists>out. error_response buf rcode = Some out \<and>
     parse_response out =
       Inr (empty_response (if 2 \<le> length buf then be16_of (buf ! 0) (buf ! 1) else 0) (rcode AND 0x0F)) \<and>
     length out = 12 \<and> out ! 2 = 0x80"
proof -
  have "(0x80 OR (rcode AND 0x0F)) AND 0x0F = rcode AND 0x0F"
    by (simp add: bit.conj_disj_distrib2 and.assoc)
  moreover have "be16_of 0 0 = 0"
    by (simp add: be16_of_def)
  moreover have "replicate 12 0 = [0, 0, 0, 0, 0, 0, 0, 0, 0, 0, 0, 0 :: u8]"
    by (simp add: numeral_eq_Suc)
  ultimately show ?thesis
    by (simp add: error_response_def write_response_header_def parse_response_def to_be16_def Let_def)
qed

text \<open>The packet sent when a query does not parse is a bare header for any input, even an empty
  one: twelve bytes, the response bit set, the id echoed when there is one, no records.\<close>

theorem error_response_wellformed:
  "\<exists>out. error_response buf rcode = Some out \<and>
     parse_response out =
       Inr (empty_response (if 2 \<le> length buf then be16_of (buf ! 0) (buf ! 1) else 0) (rcode AND 0x0F)) \<and>
     length out = 12 \<and> out ! 2 = 0x80"
  by (rule error_response_parses)

text \<open>A query that announces two questions is accepted, but its answer keeps the count of two
  while only the first question is echoed, so the answer does not parse.\<close>

theorem two_questions_break_the_answer:
  "\<exists>q out. parse_query (sample_query[5 := 2]) = Inr q \<and> answer_a q 0x07010203 3 = Some out \<and>
     be16_of (out ! 4) (out ! 5) = 2 \<and> parse_response out = Inl Truncated"
proof -
  let ?q = "\<lparr> q_id = 0x1234, q_rd = True, q_name = bytes_of ''ab.io'', q_qtype = 1, q_qclass = 1,
    question_end = 23, q_raw = sample_query[5 := 2] \<rparr>"
  let ?out = "the (answer_a ?q 0x07010203 3)"
  have "parse_query (sample_query[5 := 2]) = Inr ?q"
    by code_simp
  moreover have "answer_a ?q 0x07010203 3 = Some ?out"
    by code_simp
  moreover have "be16_of (?out ! 4) (?out ! 5) = 2" and "parse_response ?out = Inl Truncated"
    by code_simp+
  ultimately show ?thesis
    by blast
qed

end
