(* ===== verification/DnsHash.thy ===== *)
theory DnsHash
  imports Base
begin

text \<open>
  The hash functions of \<open>sb-dns/src/hash.rs\<close>: the finaliser \<open>fmix64\<close>, the small byte hashes, the
  port of rapidhash that places a domain in the FakeIP pool, and the range reductions.
\<close>

section \<open>Finaliser and small hashes\<close>

definition fmix64 :: "u64 \<Rightarrow> u64" where
  "fmix64 h0 =
     (let h1 = h0 XOR drop_bit 33 h0;
          h2 = h1 * 0xff51afd7ed558ccd;
          h3 = h2 XOR drop_bit 33 h2;
          h4 = h3 * 0xc4ceb9fe1a85ec53
      in h4 XOR drop_bit 33 h4)"

definition fnv1a :: "bytes \<Rightarrow> u64" where
  "fnv1a bs = foldl (\<lambda>h b. (h XOR ucast b) * 0x100000001b3) 0xcbf29ce484222325 bs"

definition djb2 :: "bytes \<Rightarrow> u64" where
  "djb2 bs = foldl (\<lambda>h b. (push_bit 5 h + h) XOR ucast b) 5381 bs"

text \<open>\<open>as_chunks::<8>\<close>: the whole chunks of eight bytes and the remainder.\<close>

fun chunks8 :: "bytes \<Rightarrow> bytes list \<times> bytes" where
  "chunks8 bs =
     (if length bs < 8 then ([], bs)
      else case chunks8 (drop 8 bs) of (cs, rem) \<Rightarrow> (take 8 bs # cs, rem))"

declare chunks8.simps [simp del]

text \<open>The remainder is copied to the front of a zeroed eight-byte buffer.\<close>

definition pad8 :: "bytes \<Rightarrow> bytes" where
  "pad8 r = r @ replicate (8 - length r) 0"

definition fx_round :: "u64 \<Rightarrow> u64 \<Rightarrow> u64" where
  "fx_round h w = (word_rotl 5 h XOR w) * 0x517cc1b727220a95"

definition fxhash :: "bytes \<Rightarrow> u64" where
  "fxhash bs =
     (let (cs, r) = chunks8 bs;
          h = foldl (\<lambda>h c. fx_round h (le_word c)) 0 cs
      in if r \<noteq> [] then fx_round h (le_word (pad8 r)) else h)"

definition mum :: "u64 \<Rightarrow> u64 \<Rightarrow> u64" where
  "mum a b = (let r = (ucast a :: u128) * ucast b in ucast r XOR ucast (drop_bit 64 r))"

definition mum128 :: "u64 \<Rightarrow> u64 \<Rightarrow> u64 \<times> u64" where
  "mum128 a b = (let r = (ucast a :: u128) * ucast b in (ucast r, ucast (drop_bit 64 r)))"

definition wyhash_lite :: "bytes \<Rightarrow> u64" where
  "wyhash_lite bs =
     (let s0 = 0xa0761d6478bd642f; s1 = 0xe7037ed1a0b428db;
          seed0 = s0 XOR mum s0 s1;
          (cs, r) = chunks8 bs;
          seed1 = foldl (\<lambda>sd c. mum (sd XOR s1) (le_word c XOR s0)) seed0 cs;
          w = le_word (pad8 r);
          seed2 = mum (seed1 XOR s1) (w XOR s0 XOR word_rotl 32 (of_nat (length bs)))
      in mum (seed2 XOR s0) s1)"

section \<open>rapidhash\<close>

text \<open>\<open>read64(&key[p..])\<close> and \<open>read32(&key[p..])\<close>; a slice that is too short panics.\<close>

definition read64 :: "bytes \<Rightarrow> nat \<Rightarrow> u64 option" where
  "read64 key p = (if p + 8 \<le> length key then Some (le_word (take 8 (drop p key))) else None)"

definition read32 :: "bytes \<Rightarrow> nat \<Rightarrow> u64 option" where
  "read32 key p = (if p + 4 \<le> length key then Some (le_word (take 4 (drop p key))) else None)"

definition rapid_secret :: "u64 list" where
  "rapid_secret =
     [0x2d358dccaa6c78a5, 0x8bb84b93962eacc9, 0x4b33a62ed433d4a3, 0x4d5a2da51de1aa47,
      0xa0761d6478bd642f, 0xe7037ed1a0b428db, 0x90ed1765281c388c, 0xaaaaaaaaaaaaaaaa]"

definition rapidhash_seed :: u64 where
  "rapidhash_seed = 2162917476049"

text \<open>One mixing step, \<open>mum(read64(&key[p..]) ^ s[j], read64(&key[p + 8..]) ^ seed)\<close>.\<close>

definition rapid_mix :: "bytes \<Rightarrow> nat \<Rightarrow> nat \<Rightarrow> u64 \<Rightarrow> u64 option" where
  "rapid_mix key p j seed = do {
     x \<leftarrow> read64 key p;
     y \<leftarrow> read64 key (p + 8);
     Some (mum (x XOR rapid_secret ! j) (y XOR seed)) }"

text \<open>The loop over 112-byte blocks: it returns the position, the bytes left and the seven lanes.\<close>

fun rapid_loop :: "bytes \<Rightarrow> nat \<Rightarrow> nat \<Rightarrow> u64 list \<Rightarrow> (nat \<times> nat \<times> u64 list) option" where
  "rapid_loop key p i [seed, s1, s2, s3, s4, s5, s6] = do {
     seed' \<leftarrow> rapid_mix key p 0 seed;
     s1' \<leftarrow> rapid_mix key (p + 16) 1 s1;
     s2' \<leftarrow> rapid_mix key (p + 32) 2 s2;
     s3' \<leftarrow> rapid_mix key (p + 48) 3 s3;
     s4' \<leftarrow> rapid_mix key (p + 64) 4 s4;
     s5' \<leftarrow> rapid_mix key (p + 80) 5 s5;
     s6' \<leftarrow> rapid_mix key (p + 96) 6 s6;
     (if i - 112 \<le> 112 then Some (p + 112, i - 112, [seed', s1', s2', s3', s4', s5', s6'])
      else rapid_loop key (p + 112) (i - 112) [seed', s1', s2', s3', s4', s5', s6']) }"
| "rapid_loop key p i _ = None"

declare rapid_loop.simps [simp del]

text \<open>The fold of the lanes after the loop.\<close>

fun rapid_fold :: "u64 list \<Rightarrow> u64" where
  "rapid_fold [seed, s1, s2, s3, s4, s5, s6] =
     (seed XOR s1) XOR s6 XOR ((s2 XOR s3) XOR (s4 XOR s5))"
| "rapid_fold _ = 0"

text \<open>The nested conditionals on the bytes left, which mix 16 more bytes each.\<close>

definition rapid_tail :: "bytes \<Rightarrow> nat \<Rightarrow> nat \<Rightarrow> u64 \<Rightarrow> u64 option" where
  "rapid_tail key p i seed =
     (if i > 16 then do {
        seed \<leftarrow> rapid_mix key p 2 seed;
        if i > 32 then do {
          seed \<leftarrow> rapid_mix key (p + 16) 2 seed;
          if i > 48 then do {
            seed \<leftarrow> rapid_mix key (p + 32) 1 seed;
            if i > 64 then do {
              seed \<leftarrow> rapid_mix key (p + 48) 1 seed;
              if i > 80 then do {
                seed \<leftarrow> rapid_mix key (p + 64) 2 seed;
                if i > 96 then rapid_mix key (p + 80) 1 seed else Some seed }
              else Some seed }
            else Some seed }
          else Some seed }
        else Some seed }
      else Some seed)"

text \<open>The three branches of \<open>rapidhash\<close> that read the key: \<open>(seed, a, b, i)\<close>.\<close>

definition rapid_read :: "bytes \<Rightarrow> u64 \<Rightarrow> (u64 \<times> u64 \<times> u64 \<times> nat) option" where
  "rapid_read key seed =
     (let len = length key in
      if len \<le> 16 then
        (if len \<ge> 4 then
           (let seed = seed XOR of_nat len in
            if len \<ge> 8 then do {
              a \<leftarrow> read64 key 0; b \<leftarrow> read64 key (len - 8); Some (seed, a, b, len) }
            else do {
              a \<leftarrow> read32 key 0; b \<leftarrow> read32 key (len - 4); Some (seed, a, b, len) })
         else if len > 0 then
           Some (seed, push_bit 45 (ucast (key ! 0)) OR ucast (key ! (len - 1)),
                 ucast (key ! (len div 2)), len)
         else Some (seed, 0, 0, len))
      else do {
        (p, i, seed) \<leftarrow>
          (if len > 112 then do {
             (p, i, lanes) \<leftarrow> rapid_loop key 0 len (replicate 7 seed);
             Some (p, i, rapid_fold lanes) }
           else Some (0, len, seed));
        seed \<leftarrow> rapid_tail key p i seed;
        a \<leftarrow> read64 key (p + i - 16);
        b \<leftarrow> read64 key (p + i - 8);
        Some (seed, a XOR of_nat i, b, i) })"

definition rapidhash :: "bytes \<Rightarrow> u64 \<Rightarrow> u64 option" where
  "rapidhash key seed0 = do {
     let seed1 = seed0 XOR mum (seed0 XOR rapid_secret ! 2) (rapid_secret ! 1);
     (seed, a, b, i) \<leftarrow> rapid_read key seed1;
     let (a2, b2) = mum128 (a XOR rapid_secret ! 1) (b XOR seed);
     Some (mum (a2 XOR rapid_secret ! 7) (b2 XOR rapid_secret ! 1 XOR of_nat i)) }"

section \<open>Range reduction\<close>

definition fastrange :: "u64 \<Rightarrow> u32 \<Rightarrow> u32" where
  "fastrange h n = ucast (drop_bit 64 ((ucast h :: u128) * ucast n))"

definition probe_step :: "u64 \<Rightarrow> u32 \<Rightarrow> u32" where
  "probe_step h n =
     (if n \<le> 1 then 1 else 1 + fastrange (fmix64 (h XOR 0x9e3779b97f4a7c15)) (n - 1))"

section \<open>Ranges\<close>

lemma unat_fastrange: "unat (fastrange h n) = unat h * unat n div 2 ^ 64"
proof -
  have h: "unat h < 2 ^ 64" and n: "unat n < 2 ^ 32"
    using unat_u64_less [of h] unat_u32_less [of n] by simp_all
  then have prod: "unat h * unat n < 2 ^ 64 * 2 ^ 32"
    by (intro mult_strict_mono) auto
  have "unat (ucast h :: u128) = unat h" and "unat (ucast n :: u128) = unat n"
    using h n by (simp_all add: unsigned_ucast_eq take_bit_nat_eq_self)
  then have "unat ((ucast h :: u128) * ucast n) = unat h * unat n"
    using prod by (simp add: unat_word_ariths)
  then have "unat (drop_bit 64 ((ucast h :: u128) * ucast n)) = unat h * unat n div 2 ^ 64"
    by (simp add: drop_bit_eq_div unat_div_distrib)
  moreover have "unat h * unat n div 2 ^ 64 < 2 ^ 32"
    using prod by (simp add: less_mult_imp_div_less mult.commute)
  ultimately show ?thesis
    by (simp add: fastrange_def unsigned_ucast_eq take_bit_nat_eq_self)
qed

lemma fastrange_less: "0 < n \<Longrightarrow> fastrange h n < n"
proof -
  assume "0 < n"
  then have "0 < unat n"
    by (simp add: unat_gt_0 word_gt_0)
  then have "unat h * unat n < 2 ^ 64 * unat n"
    using unat_u64_less [of h] by simp
  then have "unat h * unat n div 2 ^ 64 < unat n"
    by (simp add: less_mult_imp_div_less mult.commute)
  then show ?thesis
    by (simp add: word_less_nat_alt unat_fastrange)
qed

lemma probe_step_range: "1 < n \<Longrightarrow> 1 \<le> probe_step h n \<and> probe_step h n < n"
proof -
  assume n: "1 < n"
  let ?f = "fastrange (fmix64 (h XOR 0x9e3779b97f4a7c15)) (n - 1)"
  have "0 < n - 1"
    using n by (metis diff_0_right less_irrefl right_minus_eq word_gt_0)
  then have "?f < n - 1"
    by (rule fastrange_less)
  moreover have "unat (n - 1) = unat n - 1" and "1 < unat n"
    using n by (auto simp: unat_sub word_le_nat_alt word_less_nat_alt)
  ultimately have f: "unat ?f < unat n - 1"
    by (simp add: word_less_nat_alt)
  then have "unat (1 + ?f) = 1 + unat ?f"
    using unat_u32_less [of n] by (simp add: unat_word_ariths)
  with f n show ?thesis
    by (simp add: probe_step_def word_le_nat_alt word_less_nat_alt not_le)
qed

section \<open>The finaliser is a bijection\<close>

definition unfmix64 :: "u64 \<Rightarrow> u64" where
  "unfmix64 h0 =
     (let h1 = h0 XOR drop_bit 33 h0;
          h2 = h1 * 0x9cb4b2f8129337db;
          h3 = h2 XOR drop_bit 33 h2;
          h4 = h3 * 0x4f74430c22a54005
      in h4 XOR drop_bit 33 h4)"

lemma xorshift33_inv: "(x XOR drop_bit 33 x) XOR drop_bit 33 (x XOR drop_bit 33 x) = (x :: u64)"
  by (rule bit_word_eqI) (auto simp: bit_simps dest: bit_imp_le_length)

lemma mult_inv_1: "(x :: u64) * 0xff51afd7ed558ccd * 0x4f74430c22a54005 = x"
proof -
  have "(0xff51afd7ed558ccd :: u64) * 0x4f74430c22a54005 = 1"
    by simp
  then show ?thesis
    by (simp only: mult.assoc mult_1_right)
qed

lemma mult_inv_2: "(x :: u64) * 0xc4ceb9fe1a85ec53 * 0x9cb4b2f8129337db = x"
proof -
  have "(0xc4ceb9fe1a85ec53 :: u64) * 0x9cb4b2f8129337db = 1"
    by simp
  then show ?thesis
    by (simp only: mult.assoc mult_1_right)
qed

lemma unfmix64_fmix64: "unfmix64 (fmix64 h) = h"
  unfolding fmix64_def unfmix64_def Let_def
  by (simp only: xorshift33_inv mult_inv_1 mult_inv_2)

text \<open>C20: the finaliser \<open>fmix64\<close> that derives a domain's place in its shard from its hash loses
  nothing: it is a bijection of the 64-bit words.\<close>

theorem fmix64_bijective: "bij fmix64"
proof -
  have inj: "inj fmix64"
    by (rule inj_on_inverseI [where g = unfmix64]) (rule unfmix64_fmix64)
  moreover from inj have "surj fmix64"
    by (rule finite_UNIV_inj_surj [rotated]) simp
  ultimately show ?thesis
    by (rule bijI)
qed

section \<open>rapidhash reads inside the key\<close>

lemma read64_some: "p + 8 \<le> length key \<Longrightarrow> \<exists>w. read64 key p = Some w"
  by (simp add: read64_def)

lemma rapid_mix_some: "p + 16 \<le> length key \<Longrightarrow> \<exists>w. rapid_mix key p j seed = Some w"
  by (simp add: rapid_mix_def read64_def)

lemma rapid_loop_some:
  assumes "length lanes = 7" and "p + i = length key" and "112 < i"
  shows "\<exists>p' i' lanes'. rapid_loop key p i lanes = Some (p', i', lanes') \<and>
           p' + i' = length key \<and> 112 \<le> p' \<and> length lanes' = 7"
  using assms
proof (induction key p i lanes rule: rapid_loop.induct)
  case (1 key p i seed s1 s2 s3 s4 s5 s6)
  have "\<exists>w. rapid_mix key (p + k) j s = Some w" if "k \<le> 96" for k j s
    using that "1.prems" by (intro rapid_mix_some) simp
  from this [of 0] this [of 16] this [of 32] this [of 48] this [of 64] this [of 80] this [of 96]
  obtain w w1 w2 w3 w4 w5 w6 where w:
    "rapid_mix key p 0 seed = Some w" "rapid_mix key (p + 16) 1 s1 = Some w1"
    "rapid_mix key (p + 32) 2 s2 = Some w2" "rapid_mix key (p + 48) 3 s3 = Some w3"
    "rapid_mix key (p + 64) 4 s4 = Some w4" "rapid_mix key (p + 80) 5 s5 = Some w5"
    "rapid_mix key (p + 96) 6 s6 = Some w6"
    by simp metis
  show ?case
  proof (cases "i - 112 \<le> 112")
    case True
    with w "1.prems" show ?thesis
      by (simp add: rapid_loop.simps(1) [of key p i])
  next
    case False
    with "1.IH" [OF w False] "1.prems" w show ?thesis
      by (simp add: rapid_loop.simps(1) [of key p i])
  qed
qed auto

lemma rapid_tail_some:
  assumes "p + i \<le> length key"
  shows "\<exists>seed'. rapid_tail key p i seed = Some seed'"
proof -
  have mix: "\<exists>w. rapid_mix key (p + k) j s = Some w" if "k + 16 \<le> i" for k j s
    using that assms by (intro rapid_mix_some) simp
  have mix0: "\<exists>w. rapid_mix key p j s = Some w" if "16 \<le> i" for j s
    using that mix [of 0] by simp
  show ?thesis
    by (auto simp: rapid_tail_def intro!: bind_total mix mix0)
qed

lemma rapid_read_some: "\<exists>r. rapid_read key seed = Some r"
proof -
  consider "length key \<le> 16" | "16 < length key" "length key \<le> 112" | "112 < length key"
    by linarith
  then show ?thesis
  proof cases
    case 1
    then show ?thesis
      by (auto simp: rapid_read_def read64_def read32_def Let_def)
  next
    case 2
    moreover obtain seed' where "rapid_tail key 0 (length key) seed = Some seed'"
      using rapid_tail_some [of 0 "length key" key seed] by auto
    ultimately show ?thesis
      by (simp add: rapid_read_def read64_def Let_def)
  next
    case 3
    obtain p i lanes where loop: "rapid_loop key 0 (length key) (replicate 7 seed) = Some (p, i, lanes)"
      and pi: "p + i = length key" "112 \<le> p"
      using rapid_loop_some [of "replicate 7 seed" 0 "length key" key] 3 by auto
    obtain seed' where "rapid_tail key p i (rapid_fold lanes) = Some seed'"
      using rapid_tail_some [of p i key] pi by auto
    with 3 loop pi show ?thesis
      by (simp add: rapid_read_def read64_def Let_def)
  qed
qed

text \<open>rapidhash returns a value for every key and seed: none of its slices runs past the key.\<close>

lemma rapidhash_total: "\<exists>h. rapidhash key seed = Some h"
proof -
  let ?seed = "seed XOR mum (seed XOR rapid_secret ! 2) (rapid_secret ! 1)"
  obtain s a b i where "rapid_read key ?seed = Some (s, a, b, i)"
    using rapid_read_some [of key ?seed] by auto
  then show ?thesis
    by (simp add: rapidhash_def Let_def split: prod.splits)
qed

text \<open>The port computes the published rapidhash: it agrees with the C implementation on the
  reference vectors that the repository's own test records.\<close>

theorem rapidhash_matches_c_reference:
  "rapidhash (bytes_of ''google.com'') 0 = Some 0x459b11a54d9a0a40 \<and>
   rapidhash (bytes_of ''a'') 0 = Some 0x599f47df33a2e1eb \<and>
   rapidhash (bytes_of ''abcd'') 0 = Some 0xf8f44f4a65e26132 \<and>
   rapidhash (bytes_of ''login.microsoftonline.com'') 0 = Some 0x8aaeb2c893862ad1"
  by code_simp

end
