(* ===== verification/FakeIpShard.thy ===== *)
theory FakeIpShard
  imports DnsHash
begin

text \<open>
  One shard of the FakeIP pool (\<open>struct Shard\<close> of \<open>sb-dns/src/pool.rs\<close>): a vector of nodes threaded
  into a doubly linked list by index (\<open>head\<close> is the most recently used entry), a stack of free node
  indices, and two hash maps from domain and from address to the node. Indexing past the vector is a
  panic, the value \<open>None\<close>; so is \<open>unreachable!\<close>.
\<close>

section \<open>State\<close>

definition NIL :: u32 where "NIL = - 1"

record node =
  n_ip :: u32
  n_domain :: bytes
  n_older :: u32
  n_newer :: u32

record shard =
  s_nodes :: "node list"
  s_free :: "u32 list"
  s_by_domain :: "bytes \<rightharpoonup> u32"
  s_by_ip :: "u32 \<rightharpoonup> u32"
  s_head :: u32
  s_tail :: u32
  s_count :: nat
  s_cap :: nat
  s_lo :: u32
  s_usable :: u32

definition shard_new :: "u32 \<Rightarrow> u32 \<Rightarrow> nat \<Rightarrow> shard" where
  "shard_new lo usable cap =
     \<lparr> s_nodes = [], s_free = [], s_by_domain = Map.empty, s_by_ip = Map.empty, s_head = NIL,
       s_tail = NIL, s_count = 0, s_cap = cap, s_lo = lo, s_usable = usable \<rparr>"

text \<open>\<open>self.nodes[i as usize]\<close>, read and written.\<close>

definition node_at :: "shard \<Rightarrow> u32 \<Rightarrow> node option" where
  "node_at s i = (if unat i < length (s_nodes s) then Some (s_nodes s ! unat i) else None)"

definition upd_node :: "u32 \<Rightarrow> (node \<Rightarrow> node) \<Rightarrow> shard \<Rightarrow> shard option" where
  "upd_node i f s =
     (if unat i < length (s_nodes s)
      then Some (s\<lparr>s_nodes := (s_nodes s)[unat i := f (s_nodes s ! unat i)]\<rparr>) else None)"

lemma unat_NIL: "unat NIL = 4294967295"
proof -
  have "NIL = 4294967295" by (simp add: NIL_def)
  moreover have "unat (4294967295 :: u32) = 4294967295" by simp
  ultimately show ?thesis by (rule ssubst)
qed

section \<open>The linked list\<close>

definition unlink :: "u32 \<Rightarrow> shard \<Rightarrow> shard option" where
  "unlink idx s = do {
     n \<leftarrow> node_at s idx;
     let (older, newer) = (n_older n, n_newer n);
     s \<leftarrow> (if newer \<noteq> NIL then upd_node newer (\<lambda>n. n\<lparr>n_older := older\<rparr>) s
           else Some (s\<lparr>s_head := older\<rparr>));
     s \<leftarrow> (if older \<noteq> NIL then upd_node older (\<lambda>n. n\<lparr>n_newer := newer\<rparr>) s
           else Some (s\<lparr>s_tail := newer\<rparr>));
     upd_node idx (\<lambda>n. n\<lparr>n_older := NIL, n_newer := NIL\<rparr>) s }"

definition push_front :: "u32 \<Rightarrow> shard \<Rightarrow> shard option" where
  "push_front idx s = do {
     let old_head = s_head s;
     s \<leftarrow> upd_node idx (\<lambda>n. n\<lparr>n_older := old_head, n_newer := NIL\<rparr>) s;
     s \<leftarrow> (if old_head \<noteq> NIL then upd_node old_head (\<lambda>n. n\<lparr>n_newer := idx\<rparr>) s else Some s);
     let s = s\<lparr>s_head := idx\<rparr>;
     Some (if s_tail s = NIL then s\<lparr>s_tail := idx\<rparr> else s) }"

definition promote :: "u32 \<Rightarrow> shard \<Rightarrow> shard option" where
  "promote idx s =
     (if s_head s = idx then Some s else do { s \<leftarrow> unlink idx s; push_front idx s })"

section \<open>Allocation and eviction\<close>

definition alloc_node :: "u32 \<Rightarrow> bytes \<Rightarrow> shard \<Rightarrow> (u32 \<times> shard) option" where
  "alloc_node ip domain s0 = do {
     let s = s0\<lparr>s_count := s_count s0 + 1\<rparr>;
     let fresh = \<lparr> n_ip = ip, n_domain = domain, n_older = NIL, n_newer = NIL \<rparr>;
     if s_free s \<noteq> [] then do {
       let idx = last (s_free s);
       s \<leftarrow> upd_node idx (\<lambda>_. fresh) (s\<lparr>s_free := butlast (s_free s)\<rparr>);
       Some (idx, s) }
     else Some (of_nat (length (s_nodes s)), s\<lparr>s_nodes := s_nodes s @ [fresh]\<rparr>) }"

definition evict_tail :: "shard \<Rightarrow> shard option" where
  "evict_tail s = do {
     let idx = s_tail s;
     n \<leftarrow> node_at s idx;
     s \<leftarrow> unlink idx s;
     s \<leftarrow> upd_node idx (\<lambda>n. n\<lparr>n_domain := []\<rparr>)
           (s\<lparr>s_by_ip := (s_by_ip s)(n_ip n := None), s_by_domain := (s_by_domain s)(n_domain n := None)\<rparr>);
     Some (s\<lparr>s_free := s_free s @ [idx], s_count := s_count s - 1\<rparr>) }"

text \<open>
  The search for a free address: the hashed slot, then \<open>PROBE_LIMIT\<close> steps of a second hash, then
  every slot in turn. \<open>taken\<close> is \<open>by_ip\<close>.
\<close>

primrec probe_loop :: "nat \<Rightarrow> (u32 \<rightharpoonup> u32) \<Rightarrow> u32 \<Rightarrow> u32 \<Rightarrow> u32 \<Rightarrow> u32 \<Rightarrow> u32 option" where
  "probe_loop 0 taken lo n step s = None"
| "probe_loop (Suc k) taken lo n step s =
     (let s = ucast (((ucast s :: u64) + ucast step) mod ucast n); ip = lo + s in
      if taken ip = None then Some ip else probe_loop k taken lo n step s)"

primrec scan_loop :: "nat \<Rightarrow> (u32 \<rightharpoonup> u32) \<Rightarrow> u32 \<Rightarrow> u32 \<Rightarrow> u32 \<Rightarrow> u32 option" where
  "scan_loop 0 taken lo n s = None"
| "scan_loop (Suc k) taken lo n s =
     (let s = (if s + 1 = n then 0 else s + 1); ip = lo + s in
      if taken ip = None then Some ip else scan_loop k taken lo n s)"

definition PROBE_LIMIT :: nat where "PROBE_LIMIT = 32"

definition find_slot :: "(u32 \<rightharpoonup> u32) \<Rightarrow> u32 \<Rightarrow> u32 \<Rightarrow> u64 \<Rightarrow> u32 option" where
  "find_slot taken lo n h =
     (let idx0 = fastrange h n; ip0 = lo + idx0 in
      if taken ip0 = None then Some ip0
      else case probe_loop PROBE_LIMIT taken lo n (probe_step h n) idx0 of
        Some ip \<Rightarrow> Some ip
      | None \<Rightarrow> scan_loop (unat n) taken lo n idx0)"

definition find_free_ip :: "shard \<Rightarrow> u64 \<Rightarrow> u32 option" where
  "find_free_ip s h = find_slot (s_by_ip s) (s_lo s) (s_usable s) h"

definition shard_intern :: "bytes \<Rightarrow> u64 \<Rightarrow> shard \<Rightarrow> (u32 \<times> shard) option" where
  "shard_intern domain place_hash s =
     (case s_by_domain s domain of
        Some idx \<Rightarrow> do { s \<leftarrow> promote idx s; n \<leftarrow> node_at s idx; Some (n_ip n, s) }
      | None \<Rightarrow> do {
          s \<leftarrow> (if s_count s \<ge> s_cap s then evict_tail s else Some s);
          ip \<leftarrow> find_free_ip s place_hash;
          (idx, s) \<leftarrow> alloc_node ip domain s;
          s \<leftarrow> push_front idx (s\<lparr>s_by_domain := (s_by_domain s)(domain \<mapsto> idx),
                                 s_by_ip := (s_by_ip s)(ip \<mapsto> idx)\<rparr>);
          Some (ip, s) })"

definition shard_lookback :: "u32 \<Rightarrow> shard \<Rightarrow> (bytes option \<times> shard) option" where
  "shard_lookback ip s =
     (case s_by_ip s ip of
        None \<Rightarrow> Some (None, s)
      | Some idx \<Rightarrow> do { s \<leftarrow> promote idx s; n \<leftarrow> node_at s idx; Some (Some (n_domain n), s) })"

section \<open>Segments of the list\<close>

text \<open>
  \<open>seg ns p xs q\<close>: the nodes \<open>xs\<close>, from newer to older, are linked in both directions, the first
  one's newer neighbour is \<open>p\<close> and the last one's older neighbour is \<open>q\<close>.
\<close>

fun seg :: "node list \<Rightarrow> u32 \<Rightarrow> u32 list \<Rightarrow> u32 \<Rightarrow> bool" where
  "seg ns p [] q = True"
| "seg ns p (x # xs) q =
     (unat x < length ns \<and> n_newer (ns ! unat x) = p \<and> n_older (ns ! unat x) = hd (xs @ [q]) \<and>
      seg ns x xs q)"

lemma seg_append: "seg ns p (xs @ ys) q \<longleftrightarrow> seg ns p xs (hd (ys @ [q])) \<and> seg ns (last (p # xs)) ys q"
proof (induction xs arbitrary: p)
  case (Cons x xs)
  have "hd ((xs @ ys) @ [q]) = hd (xs @ [hd (ys @ [q])])"
    by (cases xs) auto
  with Cons show ?case
    by auto
qed simp

lemma seg_bound: "seg ns p xs q \<Longrightarrow> x \<in> set xs \<Longrightarrow> unat x < length ns"
  by (induction xs arbitrary: p) auto

lemma seg_update_other [simp]:
  "i \<notin> set xs \<Longrightarrow> seg (ns[unat i := v]) p xs q = seg ns p xs q"
  by (induction xs arbitrary: p) auto

lemma seg_snoc: "seg ns p (as @ [a]) q \<longleftrightarrow>
    seg ns p as a \<and> unat a < length ns \<and> n_newer (ns ! unat a) = last (p # as) \<and> n_older (ns ! unat a) = q"
  by (simp add: seg_append)

text \<open>Redirecting the last node's older link, and the first node's newer link.\<close>

lemma seg_set_next:
  assumes "seg ns p (as @ [a]) q" and "a \<notin> set as"
  shows "seg (ns[unat a := (ns ! unat a)\<lparr>n_older := q'\<rparr>]) p (as @ [a]) q'"
  using assms by (simp add: seg_snoc)

lemma seg_set_prev:
  assumes "seg ns p (b # bs) q" and "b \<notin> set bs"
  shows "seg (ns[unat b := (ns ! unat b)\<lparr>n_newer := p'\<rparr>]) p' (b # bs) q"
  using assms by simp

text \<open>The list of a shard and the part of its state the links do not touch.\<close>

definition linked :: "shard \<Rightarrow> u32 list \<Rightarrow> bool" where
  "linked s xs \<longleftrightarrow> distinct xs \<and> seg (s_nodes s) NIL xs NIL \<and> s_head s = hd (xs @ [NIL]) \<and>
     s_tail s = last (NIL # xs) \<and> length (s_nodes s) \<le> unat NIL"

definition payload :: "node \<Rightarrow> bytes \<times> u32" where
  "payload n = (n_domain n, n_ip n)"

definition same_data :: "shard \<Rightarrow> shard \<Rightarrow> bool" where
  "same_data s t \<longleftrightarrow> map payload (s_nodes t) = map payload (s_nodes s) \<and>
     s_free t = s_free s \<and> s_by_domain t = s_by_domain s \<and> s_by_ip t = s_by_ip s \<and>
     s_count t = s_count s \<and> s_cap t = s_cap s \<and> s_lo t = s_lo s \<and> s_usable t = s_usable s"

lemma same_data_refl [simp]: "same_data s s"
  by (simp add: same_data_def)

lemma same_data_trans [trans]: "same_data s t \<Longrightarrow> same_data t u \<Longrightarrow> same_data s u"
  by (simp add: same_data_def)

lemma not_NIL: "linked s xs \<Longrightarrow> x \<in> set xs \<Longrightarrow> x \<noteq> NIL"
  using seg_bound by (fastforce simp: linked_def)

lemma payload_update:
  "(\<And>n. payload (f n) = payload n) \<Longrightarrow> map payload (ns[i := f (ns ! i)]) = map payload ns"
  by (metis list_update_id map_update)

lemma payload_set:
  "map payload (ns[i := (ns ! i)\<lparr>n_older := a\<rparr>]) = map payload ns"
  "map payload (ns[i := (ns ! i)\<lparr>n_newer := b\<rparr>]) = map payload ns"
  "map payload (ns[i := (ns ! i)\<lparr>n_older := a, n_newer := b\<rparr>]) = map payload ns"
  by (rule payload_update, simp add: payload_def)+

section \<open>List operations on linked shards\<close>

lemma same_data_upd:
  assumes "upd_node i f s = Some t" and "\<And>n. payload (f n) = payload n"
  shows "same_data s t"
  using assms payload_update [of f "s_nodes s"] by (auto simp: upd_node_def same_data_def split: if_splits)

lemma unlink_linked:
  assumes s: "linked s (as @ i # bs)"
  shows "\<exists>t. unlink i s = Some t \<and> linked t (as @ bs) \<and> same_data s t"
proof -
  let ?ns = "s_nodes s" and ?a = "last (NIL # as)" and ?b = "hd (bs @ [NIL])"
  have dist: "distinct (as @ i # bs)" and len: "length ?ns \<le> unat NIL"
    and hd: "s_head s = hd ((as @ i # bs) @ [NIL])" and tl: "s_tail s = last (NIL # as @ i # bs)"
    and sas: "seg ?ns NIL as i" and sbs: "seg ?ns i bs NIL"
    and i: "unat i < length ?ns" "n_newer (?ns ! unat i) = ?a" "n_older (?ns ! unat i) = ?b"
    using s by (auto simp: linked_def seg_append)
  note nn = not_NIL [OF s]
  define ns1 where "ns1 = (if as = [] then ?ns else ?ns[unat ?a := (?ns ! unat ?a)\<lparr>n_older := ?b\<rparr>])"
  define ns2 where "ns2 = (if bs = [] then ns1 else ns1[unat ?b := (ns1 ! unat ?b)\<lparr>n_newer := ?a\<rparr>])"
  define ns3 where "ns3 = ns2[unat i := (ns2 ! unat i)\<lparr>n_older := NIL, n_newer := NIL\<rparr>]"
  define t where "t = s\<lparr>s_nodes := ns3, s_head := (if as = [] then ?b else s_head s),
                        s_tail := (if bs = [] then ?a else s_tail s)\<rparr>"
  have ain: "as \<noteq> [] \<Longrightarrow> ?a \<in> set as" and bin: "bs \<noteq> [] \<Longrightarrow> ?b \<in> set bs"
    by (auto simp: hd_append)
  have anil: "?a \<noteq> NIL \<longleftrightarrow> as \<noteq> []" and bnil: "?b \<noteq> NIL \<longleftrightarrow> bs \<noteq> []"
    using nn ain bin by (auto simp: hd_append)
  have al: "as \<noteq> [] \<Longrightarrow> unat ?a < length ?ns" and bl: "bs \<noteq> [] \<Longrightarrow> unat ?b < length ?ns"
    using seg_bound [OF sas] seg_bound [OF sbs] ain bin by auto
  have l1: "length ns1 = length ?ns" and l2: "length ns2 = length ?ns"
    by (simp_all add: ns1_def ns2_def)
  have "unlink i s = Some t"
    using anil bnil al bl i
    by (auto simp: unlink_def node_at_def upd_node_def ns1_def ns2_def ns3_def t_def l1 l2)
  moreover have "seg ns1 NIL as ?b \<and> seg ns1 i bs NIL"
  proof (cases as rule: rev_cases)
    case Nil
    with sbs show ?thesis
      by (simp add: ns1_def)
  next
    case (snoc as' a)
    with sas dist sbs show ?thesis
      using seg_set_next [of ?ns NIL as' a i ?b] by (simp add: ns1_def)
  qed
  then have "seg ns2 NIL as ?b \<and> seg ns2 ?a bs NIL"
    using dist seg_set_prev [of ns1 i _ _ NIL ?a]
    by (cases bs) (auto simp: ns2_def)
  then have "seg ns3 NIL as ?b \<and> seg ns3 ?a bs NIL"
    using dist by (auto simp: ns3_def)
  then have "linked t (as @ bs)"
    using dist len hd tl l2 by (auto simp: linked_def t_def seg_append ns3_def hd_append)
  moreover have "map payload ns3 = map payload ?ns"
    unfolding ns1_def ns2_def ns3_def by (auto simp: payload_set)
  ultimately show ?thesis
    by (auto simp: same_data_def t_def)
qed

lemma push_front_linked:
  assumes s: "linked s xs" and new: "i \<notin> set xs" "unat i < length (s_nodes s)"
  shows "\<exists>t. push_front i s = Some t \<and> linked t (i # xs) \<and> same_data s t"
proof -
  let ?ns = "s_nodes s" and ?h = "hd (xs @ [NIL])"
  have dist: "distinct xs" and len: "length ?ns \<le> unat NIL" and sxs: "seg ?ns NIL xs NIL"
    and hd: "s_head s = ?h" and tl: "s_tail s = last (NIL # xs)"
    using s by (auto simp: linked_def)
  note nn = not_NIL [OF s]
  define ns1 where "ns1 = ?ns[unat i := (?ns ! unat i)\<lparr>n_older := ?h, n_newer := NIL\<rparr>]"
  define ns2 where "ns2 = (if xs = [] then ns1 else ns1[unat ?h := (ns1 ! unat ?h)\<lparr>n_newer := i\<rparr>])"
  define t where "t = s\<lparr>s_nodes := ns2, s_head := i, s_tail := last (i # xs)\<rparr>"
  have hin: "xs \<noteq> [] \<Longrightarrow> ?h \<in> set xs"
    by (auto simp: hd_append)
  then have hnil: "?h \<noteq> NIL \<longleftrightarrow> xs \<noteq> []" and hl: "xs \<noteq> [] \<Longrightarrow> unat ?h < length ?ns"
    using nn seg_bound [OF sxs] by (cases xs; auto)+
  have tnil: "s_tail s = NIL \<longleftrightarrow> xs = []"
    using nn tl by auto
  have "push_front i s = Some t"
    using hnil hl new hd tnil tl
    by (auto simp: push_front_def upd_node_def ns1_def ns2_def t_def Let_def)
  moreover have "seg ns1 NIL xs NIL"
    using sxs new by (auto simp: ns1_def)
  then have "seg ns2 i xs NIL"
    using dist seg_set_prev [of ns1 NIL _ _ NIL i] by (cases xs) (auto simp: ns2_def)
  then have "linked t (i # xs)"
    using dist len new hin by (auto simp: linked_def t_def ns1_def ns2_def nth_list_update)
  moreover have "map payload ns2 = map payload ?ns"
    unfolding ns1_def ns2_def by (auto simp: payload_set)
  ultimately show ?thesis
    by (auto simp: same_data_def t_def)
qed

section \<open>The interface of a linked sequence\<close>

text \<open>
  What the shard needs of its list: taking out any element and putting an unused one in front. The
  move to the front (\<open>promote\<close>) is derived once from the two. \<open>rep s xs\<close> says that the state \<open>s\<close>
  holds the sequence \<open>xs\<close>; \<open>same\<close> is what the operations leave alone.
\<close>

definition touch :: "'a \<Rightarrow> 'a list \<Rightarrow> 'a list" where
  "touch x xs = x # remove1 x xs"

lemma set_touch: "x \<in> set xs \<Longrightarrow> set (touch x xs) = set xs"
  by (induction xs) (auto simp: touch_def)

lemma length_touch: "x \<in> set xs \<Longrightarrow> length (touch x xs) = length xs"
  using length_pos_if_in_set by (fastforce simp: touch_def length_remove1)

lemma touch_split: "x \<notin> set as \<Longrightarrow> touch x (as @ x # bs) = x # as @ bs"
  by (simp add: touch_def remove1_append)

lemma map_touch: "inj_on f (set xs) \<Longrightarrow> x \<in> set xs \<Longrightarrow> map f (touch x xs) = touch (f x) (map f xs)"
  by (induction xs) (auto simp: touch_def inj_on_def)

locale linked_seq =
  fixes rep :: "'s \<Rightarrow> 'i list \<Rightarrow> bool"
    and same :: "'s \<Rightarrow> 's \<Rightarrow> bool"
    and slot :: "'s \<Rightarrow> 'i \<Rightarrow> bool"
    and front :: "'s \<Rightarrow> 'i"
    and cut :: "'i \<Rightarrow> 's \<Rightarrow> 's option"
    and push :: "'i \<Rightarrow> 's \<Rightarrow> 's option"
  assumes distinct: "rep s xs \<Longrightarrow> distinct xs"
    and in_slot: "\<lbrakk>rep s xs; i \<in> set xs\<rbrakk> \<Longrightarrow> slot s i"
    and front: "rep s (x # xs) \<Longrightarrow> front s = x"
    and cut: "rep s (as @ i # bs) \<Longrightarrow> \<exists>t. cut i s = Some t \<and> rep t (as @ bs) \<and> same s t"
    and push: "\<lbrakk>rep s xs; i \<notin> set xs; slot s i\<rbrakk> \<Longrightarrow> \<exists>t. push i s = Some t \<and> rep t (i # xs) \<and> same s t"
    and same_refl: "same s s"
    and same_trans: "\<lbrakk>same s t; same t u\<rbrakk> \<Longrightarrow> same s u"
    and same_slot: "same s t \<Longrightarrow> slot t i = slot s i"
begin

lemma to_front:
  assumes s: "rep s xs" and i: "i \<in> set xs"
  shows "\<exists>t. (if front s = i then Some s else Option.bind (cut i s) (push i)) = Some t \<and>
             rep t (touch i xs) \<and> same s t"
proof -
  obtain as bs where xs: "xs = as @ i # bs" and new: "i \<notin> set as"
    using split_list_first [OF i] by blast
  from distinct [OF s] have "i \<notin> set bs" by (simp add: xs)
  obtain t where t: "cut i s = Some t" "rep t (as @ bs)" "same s t"
    using cut s xs by blast
  have "slot t i" using in_slot [OF s i] same_slot [OF t(3)] by simp
  then obtain u where "push i t = Some u" "rep u (i # as @ bs)" "same t u"
    using push [OF t(2)] new \<open>i \<notin> set bs\<close> by auto
  then have moved: "\<exists>u. Option.bind (cut i s) (push i) = Some u \<and> rep u (touch i xs) \<and> same s u"
    using t(1) same_trans [OF t(3)] touch_split [OF new] xs by auto
  have "xs = touch i xs" if "front s = i"
  proof (cases as)
    case Nil
    then show ?thesis using touch_split [OF new] xs by simp
  next
    case (Cons a as')
    then show ?thesis using that s xs new front by auto
  qed
  with moved s same_refl show ?thesis
    by auto
qed

end

definition has_slot :: "shard \<Rightarrow> u32 \<Rightarrow> bool" where
  "has_slot s i \<longleftrightarrow> unat i < length (s_nodes s)"

interpretation links: linked_seq linked same_data has_slot s_head unlink push_front
proof unfold_locales
  show "\<lbrakk>linked s xs; i \<in> set xs\<rbrakk> \<Longrightarrow> has_slot s i" for s xs i
    using seg_bound by (auto simp: linked_def has_slot_def)
  show "same_data s t \<Longrightarrow> has_slot t i = has_slot s i" for s t i
    by (auto simp: same_data_def has_slot_def dest: arg_cong [of _ _ length])
  show "linked s (x # xs) \<Longrightarrow> s_head s = x" for s x xs
    by (simp add: linked_def)
  show "linked s xs \<Longrightarrow> distinct xs" for s xs
    by (simp add: linked_def)
qed (simp_all add: has_slot_def unlink_linked push_front_linked, erule (1) same_data_trans)

lemma promote_linked:
  assumes "linked s xs" and "i \<in> set xs"
  shows "\<exists>t. promote i s = Some t \<and> linked t (touch i xs) \<and> same_data s t"
  using links.to_front [OF assms] by (simp add: promote_def bind_eq_Some_conv)

section \<open>The invariant\<close>

text \<open>
  \<open>xs\<close> lists the live nodes, most recent first. The other nodes are on the free stack; the two maps
  index exactly the live nodes by their domain and by their address; every address lies in the
  shard's slice.
\<close>

definition in_slice :: "u32 \<Rightarrow> u32 \<Rightarrow> u32 \<Rightarrow> bool" where
  "in_slice lo n ip \<longleftrightarrow> unat lo \<le> unat ip \<and> unat ip < unat lo + unat n"

definition entry :: "shard \<Rightarrow> u32 \<Rightarrow> bytes \<times> u32" where
  "entry s i = payload (s_nodes s ! unat i)"

definition slots_ok :: "shard \<Rightarrow> u32 list \<Rightarrow> bool" where
  "slots_ok s xs \<longleftrightarrow>
     length xs = s_count s \<and> s_count s \<le> s_cap s \<and> 1 \<le> s_cap s \<and> s_cap s \<le> unat (s_usable s) \<and>
     length (s_nodes s) = length (s_free s) + length xs \<and> length (s_nodes s) \<le> s_cap s \<and>
     distinct (s_free s) \<and> set (s_free s) \<inter> set xs = {} \<and> (\<forall>i\<in>set (s_free s). has_slot s i) \<and>
     unat (s_lo s) + unat (s_usable s) \<le> 2 ^ 32"

definition maps_ok :: "shard \<Rightarrow> u32 list \<Rightarrow> bool" where
  "maps_ok s xs \<longleftrightarrow>
     (\<forall>d i. s_by_domain s d = Some i \<longleftrightarrow> i \<in> set xs \<and> fst (entry s i) = d) \<and>
     (\<forall>ip i. s_by_ip s ip = Some i \<longleftrightarrow> i \<in> set xs \<and> snd (entry s i) = ip) \<and>
     (\<forall>i\<in>set xs. in_slice (s_lo s) (s_usable s) (snd (entry s i)))"

definition shard_inv :: "shard \<Rightarrow> u32 list \<Rightarrow> bool" where
  "shard_inv s xs \<longleftrightarrow> linked s xs \<and> slots_ok s xs \<and> maps_ok s xs"

text \<open>The live nodes, read off the links: at most \<open>k\<close> steps from \<open>i\<close> to older nodes.\<close>

fun older_from :: "nat \<Rightarrow> node list \<Rightarrow> u32 \<Rightarrow> u32 list" where
  "older_from 0 ns i = []"
| "older_from (Suc k) ns i =
     (if unat i < length ns then i # older_from k ns (n_older (ns ! unat i)) else [])"

definition recency :: "shard \<Rightarrow> u32 list" where
  "recency s = older_from (s_count s) (s_nodes s) (s_head s)"

definition shard_ok :: "shard \<Rightarrow> bool" where
  "shard_ok s \<longleftrightarrow> shard_inv s (recency s)"

definition entries :: "shard \<Rightarrow> (bytes \<times> u32) list" where
  "entries s = map (entry s) (recency s)"

lemma seg_walk: "seg ns p xs q \<Longrightarrow> older_from (length xs) ns (hd (xs @ [q])) = xs"
proof (induction xs arbitrary: p)
  case (Cons x xs)
  then show ?case by (auto simp del: hd_append)
qed simp

lemma inv_recency: "shard_inv s xs \<Longrightarrow> recency s = xs"
  by (auto simp: shard_inv_def linked_def slots_ok_def recency_def dest: seg_walk)

lemma shard_ok_iff: "shard_ok s \<longleftrightarrow> (\<exists>xs. shard_inv s xs)"
  using inv_recency by (auto simp: shard_ok_def)

lemma same_data_length: "same_data s t \<Longrightarrow> length (s_nodes t) = length (s_nodes s)"
  unfolding same_data_def by (elim conjE) (rule map_eq_imp_length_eq)

lemma same_data_entry:
  assumes t: "same_data s t" and i: "has_slot s i"
  shows "entry t i = entry s i"
proof -
  have "map payload (s_nodes t) ! unat i = map payload (s_nodes s) ! unat i"
    using t by (simp add: same_data_def)
  then show ?thesis
    using i same_data_length [OF t] by (simp add: entry_def has_slot_def)
qed

lemmas same_data_fields = same_data_length same_data_def [THEN iffD1]

text \<open>Operations that only relink keep the invariant for any reordering of the live nodes.\<close>

lemma relink_inv:
  assumes s: "shard_inv s xs" and t: "linked t ys" "same_data s t"
    and set: "set ys = set xs" "length ys = length xs"
  shows "shard_inv t ys"
proof -
  have "entry t i = entry s i" if "i \<in> set xs" for i
    using that s t(2) same_data_entry links.in_slot by (auto simp: shard_inv_def)
  with s t set show ?thesis
    using same_data_fields [OF t(2)]
    by (simp add: shard_inv_def slots_ok_def maps_ok_def has_slot_def cong: conj_cong)
qed

lemma promote_inv:
  assumes s: "shard_inv s xs" and i: "i \<in> set xs"
  shows "\<exists>t. promote i s = Some t \<and> shard_inv t (touch i xs) \<and> same_data s t"
proof -
  obtain t where t: "promote i s = Some t" "linked t (touch i xs)" "same_data s t"
    using promote_linked [of s xs i] s i unfolding shard_inv_def by blast
  with relink_inv [OF s t(2,3)] i show ?thesis
    by (simp add: set_touch length_touch)
qed

lemma entry_inj: "shard_inv s xs \<Longrightarrow> inj_on (entry s) (set xs)"
  unfolding shard_inv_def maps_ok_def inj_on_def by (metis option.inject)

lemma entries_same_data:
  assumes "shard_inv s xs" "same_data s t" "set ys \<subseteq> set xs"
  shows "map (entry t) ys = map (entry s) ys"
  using assms same_data_entry links.in_slot by (auto simp: shard_inv_def)

text \<open>Adding a node to the two maps and taking one out.\<close>

lemma maps_add:
  assumes s: "maps_ok s xs" and new: "i \<notin> set xs" "s_by_domain s d = None" "s_by_ip s ip = None"
    and ip: "in_slice (s_lo s) (s_usable s) ip"
    and t: "s_by_domain t = (s_by_domain s)(d \<mapsto> i)" "s_by_ip t = (s_by_ip s)(ip \<mapsto> i)"
      "s_lo t = s_lo s" "s_usable t = s_usable s"
    and e: "entry t i = (d, ip)" "\<forall>j\<in>set xs. entry t j = entry s j"
  shows "maps_ok t (i # xs)"
proof -
  have "\<forall>j\<in>set xs. fst (entry s j) \<noteq> d" "\<forall>j\<in>set xs. snd (entry s j) \<noteq> ip"
    using s new unfolding maps_ok_def by (metis option.distinct(1))+
  then show ?thesis
    using s new ip t e unfolding maps_ok_def by auto
qed

lemma maps_remove:
  assumes s: "maps_ok s ys" and ys: "set ys = insert i (set xs)" "i \<notin> set xs"
    and t: "s_by_domain t = (s_by_domain s)(fst (entry s i) := None)"
      "s_by_ip t = (s_by_ip s)(snd (entry s i) := None)"
      "s_lo t = s_lo s" "s_usable t = s_usable s"
    and e: "\<forall>j\<in>set xs. entry t j = entry s j"
  shows "maps_ok t xs"
proof -
  have "\<forall>j\<in>set xs. fst (entry s j) \<noteq> fst (entry s i) \<and> snd (entry s j) \<noteq> snd (entry s i)"
    using s ys unfolding maps_ok_def by (metis insert_iff option.inject)
  then show ?thesis
    using s ys t e unfolding maps_ok_def by auto
qed

lemma linked_same_links:
  assumes "linked s xs" "s_head t = s_head s" "s_tail t = s_tail s" "length (s_nodes t) \<le> unat NIL"
    and "seg (s_nodes t) NIL xs NIL"
  shows "linked t xs"
  using assms by (simp add: linked_def)

lemma evict_inv:
  assumes s: "shard_inv s (xs @ [i])"
  shows "\<exists>t. evict_tail s = Some t \<and> shard_inv t xs \<and> map (entry t) xs = map (entry s) xs \<and>
             s_cap t = s_cap s \<and> s_lo t = s_lo s \<and> s_usable t = s_usable s"
proof -
  let ?n = "s_nodes s ! unat i"
  have s': "linked s (xs @ [i])" "slots_ok s (xs @ [i])" "maps_ok s (xs @ [i])"
    using s by (simp_all add: shard_inv_def)
  then have tail: "s_tail s = i" and i: "i \<notin> set xs" and slot: "has_slot s i"
    using links.in_slot [OF s'(1), of i] by (auto simp: linked_def)
  obtain u where u: "unlink i s = Some u" "linked u xs" "same_data s u"
    using unlink_linked [of s xs i "[]"] s'(1) by auto
  note f = same_data_fields [OF u(3)]
  define ns where "ns = (s_nodes u)[unat i := (s_nodes u ! unat i)\<lparr>n_domain := []\<rparr>]"
  define t where "t = u\<lparr>s_by_ip := (s_by_ip u)(n_ip ?n := None), s_by_domain := (s_by_domain u)(n_domain ?n := None),
                         s_nodes := ns, s_free := s_free u @ [i], s_count := s_count u - 1\<rparr>"
  have ev: "evict_tail s = Some t"
    using slot u(1) f(1) by (simp add: evict_tail_def tail node_at_def has_slot_def upd_node_def t_def ns_def)
  have e: "entry t j = entry s j" if "j \<in> set xs" for j
  proof -
    have "unat i \<noteq> unat j" using that i by (metis unat_inj)
    then have "entry t j = entry u j" by (simp add: entry_def t_def ns_def)
    then show ?thesis using same_data_entry [OF u(3)] links.in_slot [OF s'(1), of j] that by simp
  qed
  have "linked t xs"
    using u(2) i by (auto intro: linked_same_links simp: t_def ns_def linked_def)
  moreover have "slots_ok t xs"
    using s'(2) f slot i by (auto simp: slots_ok_def t_def ns_def has_slot_def)
  moreover have "maps_ok t xs"
    using s'(3) i f e by (intro maps_remove [OF s'(3), of i]) (auto simp: t_def entry_def payload_def)
  ultimately show ?thesis
    using ev e f by (auto simp: shard_inv_def t_def)
qed

text \<open>Taking a node for a new entry: what the node vector and the free stack become.\<close>

lemma seg_same_nodes:
  "\<forall>x\<in>set xs. unat x < length ns' \<and> ns' ! unat x = ns ! unat x \<Longrightarrow> seg ns p xs q \<Longrightarrow> seg ns' p xs q"
  by (induction xs arbitrary: p) auto

lemma alloc_takes_slot:
  assumes s: "shard_inv s xs" and room: "s_count s < s_cap s"
  shows "\<exists>i ns fr. alloc_node ip d s = Some (i, s\<lparr>s_count := s_count s + 1, s_free := fr, s_nodes := ns\<rparr>) \<and>
     i \<notin> set xs \<and> unat i < length ns \<and> payload (ns ! unat i) = (d, ip) \<and>
     (\<forall>j\<in>set xs. unat j < length ns \<and> ns ! unat j = s_nodes s ! unat j) \<and>
     length ns = length fr + Suc (length xs) \<and> length ns \<le> s_cap s \<and> length ns \<le> unat NIL \<and>
     distinct fr \<and> set fr \<inter> set (i # xs) = {} \<and> (\<forall>j\<in>set fr. unat j < length ns)"
proof -
  let ?new = "\<lparr> n_ip = ip, n_domain = d, n_older = NIL, n_newer = NIL \<rparr>"
  have s': "linked s xs" "slots_ok s xs"
    using s by (simp_all add: shard_inv_def)
  then have xs: "\<forall>j\<in>set xs. unat j < length (s_nodes s)"
    using links.in_slot has_slot_def by blast
  have big: "s_cap s \<le> unat NIL"
    using s'(2) unat_u32_less [of "s_usable s"] unat_NIL unfolding slots_ok_def by linarith
  show ?thesis
  proof (cases "s_free s" rule: rev_cases)
    case Nil
    let ?i = "of_nat (length (s_nodes s)) :: u32"
    have "length (s_nodes s) < s_cap s"
      using Nil s'(2) room by (simp add: slots_ok_def)
    moreover have i: "unat ?i = length (s_nodes s)"
      using calculation big unat_u32_less [of NIL] by (simp add: unat_of_nat)
    ultimately show ?thesis
      using Nil s'(2) xs room big
      by (intro exI [of _ ?i] exI [of _ "s_nodes s @ [?new]"] exI [of _ "[]"])
        (auto simp: alloc_node_def slots_ok_def payload_def nth_append)
  next
    case (snoc fr i)
    then have i: "i \<notin> set xs" "unat i < length (s_nodes s)" "i \<notin> set fr"
      using s'(2) by (auto simp: slots_ok_def has_slot_def)
    have "(s_nodes s)[unat i := ?new] ! unat j = s_nodes s ! unat j" if "j \<in> set xs" for j
      using that i(1) by (subst nth_list_update_neq) auto
    then show ?thesis
      using snoc s'(2) xs room big i
      by (intro exI [of _ i] exI [of _ "(s_nodes s)[unat i := ?new]"] exI [of _ fr])
        (auto simp: alloc_node_def upd_node_def slots_ok_def payload_def has_slot_def)
  qed
qed

lemma insert_inv:
  assumes s: "shard_inv s xs" and room: "s_count s < s_cap s"
    and new: "s_by_domain s d = None" "s_by_ip s ip = None" and ip: "in_slice (s_lo s) (s_usable s) ip"
  shows "\<exists>i t u. alloc_node ip d s = Some (i, t) \<and>
     push_front i (t\<lparr>s_by_domain := (s_by_domain t)(d \<mapsto> i), s_by_ip := (s_by_ip t)(ip \<mapsto> i)\<rparr>) = Some u \<and>
     shard_inv u (i # xs) \<and> map (entry u) (i # xs) = (d, ip) # map (entry s) xs \<and>
     s_cap u = s_cap s \<and> s_lo u = s_lo s \<and> s_usable u = s_usable s"
proof -
  obtain i ns fr where al: "alloc_node ip d s = Some (i, s\<lparr>s_count := s_count s + 1, s_free := fr, s_nodes := ns\<rparr>)"
    and i: "i \<notin> set xs" "unat i < length ns" "payload (ns ! unat i) = (d, ip)"
    and keep: "\<forall>j\<in>set xs. unat j < length ns \<and> ns ! unat j = s_nodes s ! unat j"
    and len: "length ns = length fr + Suc (length xs)" "length ns \<le> s_cap s" "length ns \<le> unat NIL"
    and fr: "distinct fr" "set fr \<inter> set (i # xs) = {}" "\<forall>j\<in>set fr. unat j < length ns"
    using alloc_takes_slot [OF s room] by blast
  let ?t = "s\<lparr>s_count := s_count s + 1, s_free := fr, s_nodes := ns\<rparr>"
  let ?v = "?t\<lparr>s_by_domain := (s_by_domain s)(d \<mapsto> i), s_by_ip := (s_by_ip s)(ip \<mapsto> i)\<rparr>"
  have s': "linked s xs" "slots_ok s xs" "maps_ok s xs"
    using s by (simp_all add: shard_inv_def)
  have "linked ?v xs"
    using s'(1) keep len by (auto simp: linked_def intro: seg_same_nodes)
  then obtain u where u: "push_front i ?v = Some u" "linked u (i # xs)" "same_data ?v u"
    using push_front_linked i by fastforce
  note f = same_data_fields [OF u(3)]
  have ev: "entry ?v i = (d, ip)" "\<forall>j\<in>set xs. entry ?v j = entry s j"
    using i keep by (simp_all add: entry_def)
  have eu: "entry u i = (d, ip)" "\<forall>j\<in>set xs. entry u j = entry s j"
    using same_data_entry [OF u(3)] ev i keep by (simp_all add: has_slot_def)
  have "slots_ok u (i # xs)"
    using s'(2) f len fr room by (auto simp: slots_ok_def has_slot_def)
  moreover have "maps_ok u (i # xs)"
    using maps_add [OF s'(3) i(1) new ip _ _ _ _ eu] f by simp
  ultimately show ?thesis
    using al u eu f by (auto simp: shard_inv_def)
qed

section \<open>The search finds a free address\<close>

lemma probe_mod:
  assumes "0 < (n :: u32)"
  shows "unat (ucast (((ucast s :: u64) + ucast step) mod ucast n) :: u32) =
    (unat (s :: u32) + unat (step :: u32)) mod unat n"
proof -
  have n: "0 < unat n" using assms by (simp add: word_less_nat_alt)
  have u: "unat (ucast x :: u64) = unat x" for x :: u32
    using unat_u32_less [of x] by (simp add: unsigned_ucast_eq take_bit_nat_eq_self)
  have "unat ((ucast s :: u64) + ucast step) = unat s + unat step"
    using unat_u32_less [of s] unat_u32_less [of step] by (simp add: unat_word_ariths u)
  then have m: "unat (((ucast s :: u64) + ucast step) mod ucast n) = (unat s + unat step) mod unat n"
    by (simp add: unat_mod_distrib u)
  have "(unat s + unat step) mod unat n < 2 ^ 32"
    using mod_less_divisor [OF n, of "unat s + unat step"] unat_u32_less [of n] by simp
  with m show ?thesis
    by (simp add: unsigned_ucast_eq take_bit_nat_eq_self)
qed

lemma scan_step:
  assumes "s < (n :: u32)"
  shows "unat (if s + 1 = n then 0 else s + 1) = (unat s + 1) mod unat n"
proof -
  have s: "unat s < unat n" using assms by (simp add: word_less_nat_alt)
  then have "unat (s + 1) = unat s + 1"
    using unat_u32_less [of n] by (simp add: unat_word_ariths)
  moreover have "s + 1 = n \<longleftrightarrow> unat s + 1 = unat n"
    using calculation by (metis unat_inj)
  ultimately show ?thesis
    using s by (auto simp: mod_less)
qed

lemma below_mod: "0 < (n :: u32) \<Longrightarrow> unat m = k mod unat n \<Longrightarrow> m < n"
  by (simp add: word_less_nat_alt)

lemma probe_loop_free:
  assumes n: "0 < n"
  shows "probe_loop k taken lo n step s = Some ip \<Longrightarrow> taken ip = None \<and> (\<exists>s < n. ip = lo + s)"
proof (induction k arbitrary: s)
  case (Suc k)
  from below_mod [OF n probe_mod [OF n]] Suc show ?case
    by (auto simp: Let_def split: if_splits)
qed simp

lemma scan_loop_free:
  "\<lbrakk>scan_loop k taken lo n s = Some ip; s < n\<rbrakk> \<Longrightarrow> taken ip = None \<and> (\<exists>s < n. ip = lo + s)"
proof (induction k arbitrary: s)
  case (Suc k)
  have "0 < n" using Suc.prems(2) by (simp add: word_less_nat_alt)
  let ?s = "if s + 1 = n then 0 else s + 1"
  have "?s < n" using below_mod [OF \<open>0 < n\<close> scan_step] Suc.prems(2) by blast
  with Suc show ?case
    by (auto simp: Let_def simp del: if_split_asm split: if_splits)
qed simp

lemma find_slot_free:
  assumes n: "0 < n" and f: "find_slot taken lo n h = Some ip"
  shows "taken ip = None \<and> (\<exists>s < n. ip = lo + s)"
  using f probe_loop_free [OF n] scan_loop_free fastrange_less [OF n]
  by (auto simp: find_slot_def Let_def split: if_splits option.splits)

lemma scan_loop_None:
  "\<lbrakk>scan_loop k taken lo n s = None; s < n; 0 < j; j \<le> k\<rbrakk>
     \<Longrightarrow> taken (lo + of_nat ((unat s + j) mod unat n)) \<noteq> None"
proof (induction k arbitrary: s j)
  case (Suc k)
  let ?s = "if s + 1 = n then 0 else s + 1"
  have n: "0 < n" using Suc.prems(2) by (simp add: word_less_nat_alt)
  have u: "unat ?s = (unat s + 1) mod unat n" by (rule scan_step [OF Suc.prems(2)])
  have t: "taken (lo + ?s) \<noteq> None" and r: "scan_loop k taken lo n ?s = None"
    using Suc.prems(1) by (auto simp: Let_def split: if_splits)
  show ?case
  proof (cases "j = 1")
    case True
    have "of_nat ((unat s + 1) mod unat n) = ?s" unfolding u [symmetric] by simp
    with t True show ?thesis by simp
  next
    case False
    then obtain i where j: "j = Suc i" "0 < i" "i \<le> k"
      using Suc.prems by (cases j) auto
    have "(unat ?s + i) mod unat n = (unat s + j) mod unat n"
      unfolding u j by (simp add: mod_simps)
    with Suc.IH [OF r below_mod [OF n u] j(2,3)] show ?thesis by simp
  qed
qed simp

text \<open>The code's \<open>unreachable!\<close> is unreachable as long as the shard's slice has a free address.\<close>

lemma find_slot_total:
  assumes fin: "finite (dom taken)" and room: "card (dom taken) < unat n"
  shows "\<exists>ip. find_slot taken lo n h = Some ip"
proof (rule ccontr)
  assume no: "\<nexists>ip. find_slot taken lo n h = Some ip"
  have n: "0 < n" using room by (cases "n = 0") (auto simp: word_gt_0)
  let ?s = "fastrange h n"
  have s: "?s < n" by (rule fastrange_less [OF n])
  have scan: "scan_loop (unat n) taken lo n ?s = None"
    using no by (auto simp: find_slot_def Let_def split: if_splits option.splits)
  have "lo + of_nat r \<in> dom taken" if r: "r < unat n" for r
  proof -
    let ?j = "if unat ?s < r then r - unat ?s else r + unat n - unat ?s"
    have lt: "unat ?s < unat n" using s by (simp add: word_less_nat_alt)
    then have "0 < ?j" "?j \<le> unat n" and "unat ?s + ?j = r \<or> unat ?s + ?j = r + unat n"
      using r by auto
    then have "(unat ?s + ?j) mod unat n = r" using r by auto
    then show ?thesis
      using scan_loop_None [OF scan s \<open>0 < ?j\<close> \<open>?j \<le> unat n\<close>] by (simp add: domIff)
  qed
  then have "(\<lambda>r. lo + of_nat r) ` {..<unat n} \<subseteq> dom taken" by auto
  moreover have "inj_on (\<lambda>r. lo + of_nat r :: u32) {..<unat n}"
  proof (rule inj_onI)
    fix x y assume "x \<in> {..<unat n}" "y \<in> {..<unat n}" "lo + of_nat x = (lo + of_nat y :: u32)"
    moreover have "unat (of_nat k :: u32) = k" if "k < unat n" for k
      using that unat_u32_less [of n] by (simp add: unat_of_nat)
    ultimately show "x = y" by (metis add_left_cancel lessThan_iff)
  qed
  ultimately have "unat n \<le> card (dom taken)"
    using card_mono [OF fin] by (metis card_image card_lessThan)
  with room show False by simp
qed

section \<open>The specification: a bounded list of entries in order of use\<close>

text \<open>
  The promise of the shard, over the list of its entries (domain and address, most recent first): a
  known domain keeps its address and moves to the front; a new one takes a free address, at the cost
  of the least recently used entry when the list is full; looking an address up is a use of it too.
\<close>

type_synonym entries = "(bytes \<times> u32) list"

definition taken_in :: "entries \<Rightarrow> u32 \<rightharpoonup> u32" where
  "taken_in es ip = (if ip \<in> snd ` set es then Some ip else None)"

definition make_room :: "nat \<Rightarrow> entries \<Rightarrow> entries" where
  "make_room cap es = (if cap \<le> length es then butlast es else es)"

definition lru_intern :: "nat \<Rightarrow> u32 \<Rightarrow> u32 \<Rightarrow> bytes \<Rightarrow> u64 \<Rightarrow> entries \<Rightarrow> (u32 \<times> entries) option" where
  "lru_intern cap lo n d h es =
     (case map_of es d of
        Some ip \<Rightarrow> Some (ip, touch (d, ip) es)
      | None \<Rightarrow> let es' = make_room cap es in
          map_option (\<lambda>ip. (ip, (d, ip) # es')) (find_slot (taken_in es') lo n h))"

definition lru_lookback :: "u32 \<Rightarrow> entries \<Rightarrow> bytes option \<times> entries" where
  "lru_lookback ip es =
     (case map_of (map prod.swap es) ip of
        Some d \<Rightarrow> (Some d, touch (d, ip) es)
      | None \<Rightarrow> (None, es))"

definition same_shape :: "shard \<Rightarrow> shard \<Rightarrow> bool" where
  "same_shape s t \<longleftrightarrow> s_cap t = s_cap s \<and> s_lo t = s_lo s \<and> s_usable t = s_usable s"

lemma find_slot_cong:
  assumes "\<And>ip. taken ip = None \<longleftrightarrow> taken' ip = None"
  shows "find_slot taken lo n h = find_slot taken' lo n h"
proof -
  have "probe_loop k taken lo n step s = probe_loop k taken' lo n step s" for k step s
    by (induction k arbitrary: s) (simp_all add: assms Let_def)
  moreover have "scan_loop k taken lo n s = scan_loop k taken' lo n s" for k s
    by (induction k arbitrary: s) (simp_all add: assms Let_def)
  ultimately show ?thesis
    by (simp add: find_slot_def assms Let_def cong: option.case_cong)
qed

lemma inv_distinct:
  assumes "shard_inv s xs"
  shows "distinct (map fst (map (entry s) xs))" "distinct (map snd (map (entry s) xs))"
proof -
  have "distinct xs" using assms by (simp add: shard_inv_def linked_def)
  moreover have "inj_on (\<lambda>i. fst (entry s i)) (set xs)" "inj_on (\<lambda>i. snd (entry s i)) (set xs)"
    using assms unfolding shard_inv_def maps_ok_def inj_on_def by (metis option.inject)+
  ultimately show "distinct (map fst (map (entry s) xs))" "distinct (map snd (map (entry s) xs))"
    by (simp_all add: distinct_map comp_def)
qed

lemma index_iff:
  assumes "shard_inv s xs"
  shows "s_by_domain s d = Some i \<longleftrightarrow> i \<in> set xs \<and> fst (entry s i) = d"
    and "s_by_ip s ip = Some i \<longleftrightarrow> i \<in> set xs \<and> snd (entry s i) = ip"
  using assms unfolding shard_inv_def maps_ok_def by blast+

lemma by_domain_entries:
  assumes s: "shard_inv s xs"
  shows "map_of (map (entry s) xs) d = map_option (\<lambda>i. snd (entry s i)) (s_by_domain s d)"
proof (cases "s_by_domain s d")
  case None
  then have "\<forall>i\<in>set xs. fst (entry s i) \<noteq> d"
    using index_iff(1) [OF s, of d] by simp
  with None show ?thesis by (auto simp: map_of_eq_None_iff)
next
  case (Some i)
  then have "i \<in> set xs" "fst (entry s i) = d"
    using index_iff(1) [OF s] by auto
  then have "(d, snd (entry s i)) \<in> set (map (entry s) xs)"
    by (force simp: image_iff)
  with Some inv_distinct(1) [OF s] show ?thesis
    by (simp add: map_of_eq_Some_iff)
qed

lemma by_ip_entries:
  assumes s: "shard_inv s xs"
  shows "map_of (map prod.swap (map (entry s) xs)) ip = map_option (\<lambda>i. fst (entry s i)) (s_by_ip s ip)"
    and "s_by_ip s ip = None \<longleftrightarrow> taken_in (map (entry s) xs) ip = None"
proof -
  have d: "distinct (map fst (map prod.swap (map (entry s) xs)))"
    using inv_distinct(2) [OF s] by (simp add: comp_def)
  note iff = index_iff(2) [OF s, of ip]
  show "map_of (map prod.swap (map (entry s) xs)) ip = map_option (\<lambda>i. fst (entry s i)) (s_by_ip s ip)"
  proof (cases "s_by_ip s ip")
    case None
    then have "\<forall>i\<in>set xs. snd (entry s i) \<noteq> ip"
      using iff by simp
    with None show ?thesis by (auto simp: map_of_eq_None_iff)
  next
    case (Some i)
    then have "(ip, fst (entry s i)) \<in> set (map prod.swap (map (entry s) xs))"
      using iff by (force simp: image_iff prod_eq_iff)
    with Some d show ?thesis by (simp add: map_of_eq_Some_iff)
  qed
  have "s_by_ip s ip = None \<longleftrightarrow> (\<forall>i\<in>set xs. snd (entry s i) \<noteq> ip)"
    using iff by (metis not_None_eq)
  also have "\<dots> \<longleftrightarrow> ip \<notin> snd ` set (map (entry s) xs)"
    by auto
  finally show "s_by_ip s ip = None \<longleftrightarrow> taken_in (map (entry s) xs) ip = None"
    by (simp add: taken_in_def)
qed

lemma make_room_inv:
  assumes s: "shard_inv s xs"
  shows "\<exists>t ys. (if s_cap s \<le> s_count s then evict_tail s else Some s) = Some t \<and> shard_inv t ys \<and>
    map (entry t) ys = make_room (s_cap s) (map (entry s) xs) \<and> s_count t < s_cap t \<and> same_shape s t \<and>
    (s_by_domain s d = None \<longrightarrow> s_by_domain t d = None)"
proof (cases "s_cap s \<le> s_count s")
  case True
  have n: "length xs = s_count s" "1 \<le> s_cap s" "s_count s \<le> s_cap s"
    using s by (simp_all add: shard_inv_def slots_ok_def)
  then obtain ys i where xs: "xs = ys @ [i]"
    using True by (cases xs rule: rev_cases) auto
  obtain t where t: "evict_tail s = Some t" "shard_inv t ys" "map (entry t) ys = map (entry s) ys"
      "s_cap t = s_cap s" "s_lo t = s_lo s" "s_usable t = s_usable s"
    using evict_inv s xs by blast
  have "length ys = s_count t" using t(2) by (simp add: shard_inv_def slots_ok_def)
  moreover have "s_by_domain t d = None" if "s_by_domain s d = None"
    using by_domain_entries [OF t(2), of d] by_domain_entries [OF s, of d] that t(3)
    by (simp add: xs map_of_eq_None_iff)
  ultimately show ?thesis
    using True n t xs by (intro exI [of _ t] exI [of _ ys]) (auto simp: make_room_def same_shape_def)
next
  case False
  moreover have "length xs = s_count s" using s by (simp add: shard_inv_def slots_ok_def)
  ultimately show ?thesis
    using s by (intro exI [of _ s] exI [of _ xs]) (auto simp: make_room_def same_shape_def)
qed

lemma use_entry:
  assumes s: "shard_inv s xs" and i: "i \<in> set xs"
  shows "\<exists>t. promote i s = Some t \<and> shard_inv t (touch i xs) \<and> map_option payload (node_at t i) = Some (entry s i) \<and> same_shape s t \<and>
    map (entry t) (touch i xs) = touch (entry s i) (map (entry s) xs)"
proof -
  obtain t where t: "promote i s = Some t" "shard_inv t (touch i xs)" "same_data s t"
    using promote_inv [OF s i] by blast
  have slot: "has_slot s i" using links.in_slot s i by (auto simp: shard_inv_def)
  have "map (entry t) (touch i xs) = map (entry s) (touch i xs)"
    using entries_same_data [OF s t(3), of "touch i xs"] set_touch [OF i] by simp
  then have "map (entry t) (touch i xs) = touch (entry s i) (map (entry s) xs)"
    using map_touch [OF entry_inj [OF s] i] by simp
  moreover have "map_option payload (node_at t i) = Some (entry s i)"
    using slot same_data_entry [OF t(3) slot] same_data_length [OF t(3)]
    by (simp add: node_at_def has_slot_def entry_def)
  ultimately show ?thesis
    using t same_data_fields [OF t(3)] by (auto simp: same_shape_def)
qed

lemma slice_bound: "in_slice lo n ip \<longleftrightarrow> (\<exists>s < n. ip = lo + s)" if "unat lo + unat n \<le> 2 ^ 32"
proof
  assume a: "in_slice lo n ip"
  then have "unat (ip - lo) = unat ip - unat lo"
    by (simp add: in_slice_def unat_sub word_le_nat_alt)
  with a have "ip - lo < n" "ip = lo + (ip - lo)"
    by (auto simp: in_slice_def word_less_nat_alt)
  then show "\<exists>s < n. ip = lo + s" by blast
next
  assume "\<exists>s < n. ip = lo + s"
  then obtain s where s: "s < n" "ip = lo + s" by blast
  then have "unat s < unat n" by (simp add: word_less_nat_alt)
  with that have "unat (lo + s) = unat lo + unat s"
    by (simp add: unat_word_ariths)
  with \<open>unat s < unat n\<close> s show "in_slice lo n ip"
    by (simp add: in_slice_def)
qed

lemma find_free_ip_inv:
  assumes s: "shard_inv s xs" and room: "s_count s < s_cap s"
  shows "\<exists>ip. find_free_ip s h = Some ip \<and> s_by_ip s ip = None \<and> in_slice (s_lo s) (s_usable s) ip"
proof -
  have n: "s_cap s \<le> unat (s_usable s)" "length xs = s_count s" "unat (s_lo s) + unat (s_usable s) \<le> 2 ^ 32"
    using s by (simp_all add: shard_inv_def slots_ok_def)
  have "dom (s_by_ip s) = (\<lambda>i. snd (entry s i)) ` set xs"
    using index_iff(2) [OF s] by (auto simp: dom_def)
  then have fin: "finite (dom (s_by_ip s))" and "card (dom (s_by_ip s)) \<le> length xs"
    using order.trans [OF card_image_le [OF finite_set] card_length] by simp_all
  then have "card (dom (s_by_ip s)) < unat (s_usable s)" using n room by linarith
  then obtain ip where ip: "find_free_ip s h = Some ip"
    using find_slot_total [OF fin, of "s_usable s" "s_lo s" h] by (auto simp: find_free_ip_def)
  moreover have "0 < s_usable s" using n room by (simp add: word_less_nat_alt)
  ultimately show ?thesis
    using find_slot_free slice_bound [OF n(3)] unfolding find_free_ip_def by blast
qed

lemma shard_intern_refines:
  assumes "shard_ok s"
  shows "\<exists>ip t. shard_intern d h s = Some (ip, t) \<and> shard_ok t \<and> same_shape s t \<and>
    lru_intern (s_cap s) (s_lo s) (s_usable s) d h (entries s) = Some (ip, entries t)"
proof -
  obtain xs where s: "shard_inv s xs" using assms shard_ok_def by blast
  have es: "entries s = map (entry s) xs" by (simp add: entries_def inv_recency [OF s])
  show ?thesis
  proof (cases "s_by_domain s d")
    case (Some i)
    then have i: "i \<in> set xs" "fst (entry s i) = d" using index_iff(1) [OF s] by auto
    obtain t n where t: "promote i s = Some t" "shard_inv t (touch i xs)" "node_at t i = Some n"
        "payload n = entry s i" "same_shape s t"
        "map (entry t) (touch i xs) = touch (entry s i) (map (entry s) xs)"
      using use_entry [OF s i(1)] by (auto simp: map_option_eq_Some)
    have e: "entry s i = (d, snd (entry s i))" using i(2) by (simp add: prod_eq_iff)
    have "shard_intern d h s = Some (snd (entry s i), t)"
      using Some t(1,3) by (simp add: shard_intern_def payload_def flip: t(4))
    moreover have "entries t = touch (d, snd (entry s i)) (entries s)"
      using t(6) e by (simp add: entries_def inv_recency [OF t(2)] inv_recency [OF s])
    ultimately show ?thesis
      using t(2,5) Some by (auto simp: shard_ok_iff lru_intern_def es by_domain_entries [OF s])
  next
    case None
    obtain u ys where u: "(if s_cap s \<le> s_count s then evict_tail s else Some s) = Some u" "shard_inv u ys"
        "map (entry u) ys = make_room (s_cap s) (entries s)" "s_count u < s_cap u" "same_shape s u"
        "s_by_domain u d = None"
      using make_room_inv [OF s, of d] None es by auto
    obtain ip where ip: "find_free_ip u h = Some ip" "s_by_ip u ip = None" "in_slice (s_lo u) (s_usable u) ip"
      using find_free_ip_inv [OF u(2,4)] by blast
    obtain i v t where t: "alloc_node ip d u = Some (i, v)"
        "push_front i (v\<lparr>s_by_domain := (s_by_domain v)(d \<mapsto> i), s_by_ip := (s_by_ip v)(ip \<mapsto> i)\<rparr>) = Some t"
        "shard_inv t (i # ys)" "map (entry t) (i # ys) = (d, ip) # map (entry u) ys"
        "s_cap t = s_cap u" "s_lo t = s_lo u" "s_usable t = s_usable u"
      using insert_inv [OF u(2,4,6) ip(2,3)] by (elim exE conjE) (rule that)
    have "shard_intern d h s = Some (ip, t)"
      using None u(1) ip(1) t(1,2) by (auto simp: shard_intern_def)
    moreover have "entries t = (d, ip) # make_room (s_cap s) (entries s)"
      using t(4) u(3) by (simp only: entries_def inv_recency [OF t(3)])
    moreover have "find_slot (taken_in (make_room (s_cap s) (entries s))) (s_lo s) (s_usable s) h = Some ip"
      using ip(1) find_slot_cong [OF by_ip_entries(2) [OF u(2)]] u(3,5)
      by (simp add: find_free_ip_def same_shape_def)
    ultimately show ?thesis
      using t(3,5-7) u(5) None
      by (auto simp: shard_ok_iff lru_intern_def Let_def es by_domain_entries [OF s] same_shape_def)
  qed
qed

lemma shard_lookback_refines:
  assumes "shard_ok s"
  shows "\<exists>t. shard_lookback ip s = Some (fst (lru_lookback ip (entries s)), t) \<and> shard_ok t \<and>
    same_shape s t \<and> entries t = snd (lru_lookback ip (entries s))"
proof -
  obtain xs where s: "shard_inv s xs" using assms shard_ok_def by blast
  have m: "map_of (map prod.swap (entries s)) ip = map_option (\<lambda>i. fst (entry s i)) (s_by_ip s ip)"
    using by_ip_entries(1) [OF s, of ip] by (simp only: entries_def inv_recency [OF s])
  show ?thesis
  proof (cases "s_by_ip s ip")
    case None
    then show ?thesis
      using assms m by (simp add: shard_lookback_def lru_lookback_def same_shape_def)
  next
    case (Some i)
    then have i: "i \<in> set xs" "snd (entry s i) = ip" using index_iff(2) [OF s] by auto
    obtain t n where t: "promote i s = Some t" "shard_inv t (touch i xs)" "node_at t i = Some n"
        "payload n = entry s i" "same_shape s t"
        "map (entry t) (touch i xs) = touch (entry s i) (map (entry s) xs)"
      using use_entry [OF s i(1)] by (auto simp: map_option_eq_Some)
    have e: "entry s i = (fst (entry s i), ip)" using i(2) by (simp add: prod_eq_iff)
    have "shard_lookback ip s = Some (Some (fst (entry s i)), t)"
      using Some t(1,3) by (simp add: shard_lookback_def payload_def flip: t(4))
    moreover have "entries t = touch (fst (entry s i), ip) (entries s)"
      using t(6) e by (simp add: entries_def inv_recency [OF t(2)] inv_recency [OF s])
    ultimately show ?thesis
      using t(2,5) Some m by (auto simp: shard_ok_iff lru_lookback_def)
  qed
qed

section \<open>Consequences for the entries\<close>

lemma shard_new_ok:
  assumes "1 \<le> cap" "cap \<le> unat usable" "unat lo + unat usable \<le> 2 ^ 32"
  shows "shard_ok (shard_new lo usable cap) \<and> entries (shard_new lo usable cap) = []"
proof -
  have "shard_inv (shard_new lo usable cap) []"
    using assms by (simp add: shard_inv_def linked_def slots_ok_def maps_ok_def shard_new_def)
  moreover from this have "recency (shard_new lo usable cap) = []" by (rule inv_recency)
  ultimately show ?thesis by (simp add: shard_ok_def entries_def)
qed

lemma shard_entries_ok:
  assumes "shard_ok s"
  shows "distinct (map fst (entries s))" "distinct (map snd (entries s))" "length (entries s) = s_count s"
    "s_count s \<le> s_cap s" "1 \<le> s_cap s" "e \<in> set (entries s) \<Longrightarrow> in_slice (s_lo s) (s_usable s) (snd e)"
proof -
  have s: "shard_inv s (recency s)" using assms by (simp add: shard_ok_def)
  show "distinct (map fst (entries s))" "distinct (map snd (entries s))"
    using inv_distinct [OF s] by (simp_all only: entries_def)
  show "length (entries s) = s_count s" "s_count s \<le> s_cap s" "1 \<le> s_cap s"
    using s by (simp_all add: entries_def shard_inv_def slots_ok_def)
  show "e \<in> set (entries s) \<Longrightarrow> in_slice (s_lo s) (s_usable s) (snd e)"
    using s by (auto simp: entries_def shard_inv_def maps_ok_def)
qed

lemma lru_intern_front:
  assumes "lru_intern cap lo n d h es = Some (ip, es')"
  shows "\<exists>rest. es' = (d, ip) # rest \<and> set rest \<subseteq> set es"
proof (cases "map_of es d")
  case None
  then show ?thesis
    using assms in_set_butlastD [of _ es] by (auto simp: lru_intern_def make_room_def Let_def split: if_splits)
next
  case (Some a)
  then show ?thesis
    using assms set_remove1_subset [of "(d, a)" es] by (auto simp: lru_intern_def touch_def)
qed

lemma lru_lookback_known:
  "distinct (map snd es) \<Longrightarrow> (d, ip) \<in> set es \<Longrightarrow> lru_lookback ip es = (Some d, touch (d, ip) es)"
proof -
  assume e: "distinct (map snd es)" "(d, ip) \<in> set es"
  then have "(ip, d) \<in> set (map prod.swap es)" "distinct (map fst (map prod.swap es))"
    by (auto simp: image_iff comp_def intro: bexI [of _ "(d, ip)"])
  then have "map_of (map prod.swap es) ip = Some d"
    using map_of_is_SomeI by fastforce
  then show ?thesis by (simp add: lru_lookback_def)
qed

lemma lru_lookback_unknown: "ip \<notin> snd ` set es \<Longrightarrow> lru_lookback ip es = (None, es)"
  by (auto simp: lru_lookback_def map_of_eq_None_iff image_iff split: option.splits dest!: map_of_SomeD)

lemma lru_lookback_set: "set (snd (lru_lookback ip es)) = set es"
  by (auto simp: lru_lookback_def set_touch split: option.splits dest!: map_of_SomeD)

lemma lru_intern_known: "distinct (map fst es) \<Longrightarrow> (d, ip) \<in> set es \<Longrightarrow>
    lru_intern cap lo n d h es = Some (ip, touch (d, ip) es)"
  by (simp add: lru_intern_def)

text \<open>An entry among the \<open>k\<close> most recent is among the \<open>k + 1\<close> most recent after any one operation.\<close>

lemma take_remove1: "set (take k xs) \<subseteq> insert x (set (take k (remove1 x xs)))"
proof (induction xs arbitrary: k)
  case (Cons y ys)
  show ?case
  proof (cases k)
    case (Suc j)
    with Cons.IH [of j] show ?thesis
      using set_take_subset_set_take [of j k ys] by auto
  qed simp
qed simp

lemma take_touch: "set (take k xs) \<subseteq> set (take (Suc k) (touch x xs))"
  using take_remove1 [of k xs x] by (simp add: touch_def)

lemma take_make_room: "k < cap \<Longrightarrow> length xs \<le> cap \<Longrightarrow> set (take k xs) \<subseteq> set (take k (make_room cap xs))"
  by (auto simp: make_room_def take_butlast)

lemma lru_intern_rank:
  assumes "lru_intern cap lo n d h es = Some (ip, es')" and "length es \<le> cap" "k < cap"
  shows "set (take k es) \<subseteq> set (take (Suc k) es')"
proof (cases "map_of es d")
  case None
  then show ?thesis
    using assms take_make_room [OF assms(3,2)] by (auto simp: lru_intern_def Let_def)
next
  case (Some a)
  then show ?thesis
    using assms take_touch [of k es "(d, a)"] by (auto simp: lru_intern_def)
qed

lemma lru_lookback_rank: "set (take k es) \<subseteq> set (take (Suc k) (snd (lru_lookback ip es)))"
  using take_touch [of k es] set_take_subset_set_take [of k "Suc k" es]
  by (auto simp: lru_lookback_def split: option.splits)

text \<open>
  C28: the shard, with its index-linked nodes, free stack and two maps, is the bounded list of entries
  in order of use: interning and looking back never panic, keep the invariant, answer what the list
  operations answer, and leave the list those leave.
\<close>

theorem shard_ops_refine_lru:
  assumes "shard_ok s"
  shows "(\<exists>ip t. shard_intern d h s = Some (ip, t) \<and> shard_ok t \<and> same_shape s t \<and>
      lru_intern (s_cap s) (s_lo s) (s_usable s) d h (entries s) = Some (ip, entries t)) \<and>
    (\<exists>t. shard_lookback ip s = Some (fst (lru_lookback ip (entries s)), t) \<and> shard_ok t \<and>
      same_shape s t \<and> entries t = snd (lru_lookback ip (entries s)))"
  using shard_intern_refines [OF assms] shard_lookback_refines [OF assms] by blast

theorem shard_ops_refine_lru_witness:
  "\<exists>ip t u. shard_intern (bytes_of ''a'') 0 (shard_new 10 20 2) = Some (ip, t) \<and> entries t = [(bytes_of ''a'', ip)] \<and>
     shard_lookback ip t = Some (Some (bytes_of ''a''), u) \<and> entries u = entries t"
proof -
  have new: "shard_ok (shard_new 10 20 2)" "entries (shard_new 10 20 2) = []"
    using shard_new_ok [of 2 20 10] by simp_all
  obtain ip t where t: "shard_intern (bytes_of ''a'') 0 (shard_new 10 20 2) = Some (ip, t)" "shard_ok t"
      "lru_intern (s_cap (shard_new 10 20 2)) (s_lo (shard_new 10 20 2)) (s_usable (shard_new 10 20 2))
         (bytes_of ''a'') 0 [] = Some (ip, entries t)"
    using shard_ops_refine_lru [OF new(1), of "bytes_of ''a''" 0 0] new(2) by auto
  then have e: "entries t = [(bytes_of ''a'', ip)]"
    using lru_intern_front [OF t(3)] by auto
  with shard_ops_refine_lru [OF t(2), of "[]" 0 ip] t(1) show ?thesis
    by (auto simp: lru_lookback_def touch_def)
qed

end
