(* ===== verification/FakeIpPool.thy ===== *)
theory FakeIpPool
  imports FakeIpShard
begin

text \<open>
  The FakeIP pool (\<open>struct FakeIpPool\<close> of \<open>sb-dns/src/pool.rs\<close>): the address range behind the
  configured prefix, cut into equal slices, one shard per slice. A name is hashed to its shard; an
  address finds its shard by division. The prefix itself is the \<open>ipnet\<close> crate's \<open>Ipv4Net\<close>, here a
  record of the operations the code calls.
\<close>

section \<open>Configuration\<close>

record 'n ipv4net =
  net_trunc :: "'n \<Rightarrow> 'n"
  net_network :: "'n \<Rightarrow> u32"
  net_broadcast :: "'n \<Rightarrow> u32"
  net_prefix_len :: "'n \<Rightarrow> u8"
  net_contains :: "'n \<Rightarrow> u32 \<Rightarrow> bool"

record 'n fakeip_config =
  c_cidr :: "'n"
  c_max_entries :: nat
  c_ttl :: u32
  c_shards :: u32

datatype fakeip_error = CidrTooSmall (e_prefix: u8) (e_usable: u32) (e_min: u32)

record 'n pool =
  p_shards :: "shard list"
  p_net :: "'n"
  p_ttl :: u32
  p_lo :: u32
  p_span :: u32
  p_n_shards :: u32

definition FIRST_OFFSET :: u32 where "FIRST_OFFSET = 4"
definition MIN_USABLE :: u32 where "MIN_USABLE = 16"
definition MIN_SHARD_USABLE :: u32 where "MIN_SHARD_USABLE = 16"
definition DEFAULT_SHARDS :: u32 where "DEFAULT_SHARDS = 16"

text \<open>\<open>u32::saturating_add\<close>, \<open>u32::saturating_sub\<close>, \<open>usize::div_ceil\<close> and \<open>Ord::clamp\<close>.\<close>

definition sat_add :: "u32 \<Rightarrow> u32 \<Rightarrow> u32" where
  "sat_add a b = (if unat a + unat b < 2 ^ 32 then a + b else - 1)"

definition sat_sub :: "u32 \<Rightarrow> u32 \<Rightarrow> u32" where
  "sat_sub a b = (if b \<le> a then a - b else 0)"

definition div_ceil :: "nat \<Rightarrow> nat \<Rightarrow> nat" where
  "div_ceil a b = (a + b - 1) div b"

definition clamp :: "nat \<Rightarrow> nat \<Rightarrow> nat \<Rightarrow> nat" where
  "clamp lo hi x = (if x < lo then lo else if hi < x then hi else x)"

definition cidr_geometry :: "'n ipv4net \<Rightarrow> 'n \<Rightarrow> 'n \<times> u32 \<times> u32" where
  "cidr_geometry N cidr =
     (let net = net_trunc N cidr; base = net_network N net; bcast = net_broadcast N net;
          lo = sat_add base FIRST_OFFSET in (net, lo, sat_sub bcast lo))"

definition usable_addrs :: "'n ipv4net \<Rightarrow> 'n \<Rightarrow> u32" where
  "usable_addrs N cidr = snd (snd (cidr_geometry N cidr))"

definition pool_new :: "'n ipv4net \<Rightarrow> 'n fakeip_config \<Rightarrow> fakeip_error + 'n pool" where
  "pool_new N cfg =
     (let (net, lo, usable) = cidr_geometry N (c_cidr cfg) in
      if usable < MIN_USABLE then Inl (CidrTooSmall (net_prefix_len N net) usable MIN_USABLE)
      else
        let max_shards = max (usable div MIN_SHARD_USABLE) 1;
            requested = max (c_shards cfg) 1;
            n = min requested max_shards;
            span = usable div n;
            total_cap = clamp 1 (unat usable) (c_max_entries cfg);
            per_shard_cap = clamp 1 (unat span) (div_ceil total_cap (unat n));
            shards = map (\<lambda>s. shard_new (lo + of_nat s * span) span per_shard_cap) [0..<unat n]
        in Inr \<lparr> p_shards = shards, p_net = net, p_ttl = c_ttl cfg, p_lo = lo, p_span = span,
                 p_n_shards = n \<rparr>)"

section \<open>Operations\<close>

text \<open>The shard of a name, and the name and hash it is stored under.\<close>

definition key_of :: "bytes \<Rightarrow> bytes" where
  "key_of domain = (if list_ex is_upper domain then lowers domain else domain)"

definition pool_intern :: "bytes \<Rightarrow> 'n pool \<Rightarrow> (u32 \<times> 'n pool) option" where
  "pool_intern domain p = do {
     let d = key_of domain;
     h \<leftarrow> rapidhash d rapidhash_seed;
     let idx = unat (fastrange h (p_n_shards p));
     let place_hash = fmix64 h;
     if idx < length (p_shards p) then do {
       (ip, s) \<leftarrow> shard_intern d place_hash (p_shards p ! idx);
       Some (ip, p\<lparr>p_shards := (p_shards p)[idx := s]\<rparr>) }
     else None }"

definition pool_lookback :: "u32 \<Rightarrow> 'n pool \<Rightarrow> (bytes option \<times> 'n pool) option" where
  "pool_lookback ip p =
     (if ip < p_lo p then Some (None, p)
      else
        let idx = unat ((ip - p_lo p) div p_span p) in
        if idx \<ge> length (p_shards p) then Some (None, p)
        else do {
          (d, s) \<leftarrow> shard_lookback ip (p_shards p ! idx);
          Some (d, p\<lparr>p_shards := (p_shards p)[idx := s]\<rparr>) })"

definition pool_contains :: "'n ipv4net \<Rightarrow> 'n pool \<Rightarrow> ip_addr \<Rightarrow> bool" where
  "pool_contains N p ip = (case ip of V4 v4 \<Rightarrow> net_contains N (p_net p) v4 | V6 _ \<Rightarrow> False)"

definition pool_len :: "'n pool \<Rightarrow> nat" where
  "pool_len p = sum_list (map s_count (p_shards p))"

definition pool_is_empty :: "'n pool \<Rightarrow> bool" where
  "pool_is_empty p \<longleftrightarrow> pool_len p = 0"

section \<open>The invariant\<close>

definition shard_at :: "'n pool \<Rightarrow> nat \<Rightarrow> shard" where
  "shard_at p i = p_shards p ! i"

definition shard_cap :: "'n pool \<Rightarrow> nat" where
  "shard_cap p = s_cap (shard_at p 0)"

text \<open>
  Every shard keeps its own invariant and owns the \<open>i\<close>-th slice of the range; all hold the same
  number of entries at most.
\<close>

definition pool_ok :: "'n pool \<Rightarrow> bool" where
  "pool_ok p \<longleftrightarrow>
     0 < p_n_shards p \<and> 0 < p_span p \<and> length (p_shards p) = unat (p_n_shards p) \<and>
     unat (p_lo p) + unat (p_n_shards p) * unat (p_span p) < 2 ^ 32 \<and>
     (\<forall>i<length (p_shards p).
        shard_ok (shard_at p i) \<and> unat (s_lo (shard_at p i)) = unat (p_lo p) + i * unat (p_span p) \<and>
        s_usable (shard_at p i) = p_span p \<and> s_cap (shard_at p i) = shard_cap p)"

text \<open>All the entries of the pool, as the pairs of names and addresses it would answer.\<close>

definition pool_entries :: "'n pool \<Rightarrow> (bytes \<times> u32) list" where
  "pool_entries p = concat (map FakeIpShard.entries (p_shards p))"

lemma key_of_lowers: "key_of d = lowers d"
  using lowers_no_upper by (simp add: key_of_def)

definition home :: "'n pool \<Rightarrow> bytes \<Rightarrow> nat" where
  "home p d = unat (fastrange (the (rapidhash (lowers d) rapidhash_seed)) (p_n_shards p))"

definition place :: "bytes \<Rightarrow> u64" where
  "place d = fmix64 (the (rapidhash (lowers d) rapidhash_seed))"

definition slice_of :: "'n pool \<Rightarrow> u32 \<Rightarrow> nat" where
  "slice_of p ip = unat ((ip - p_lo p) div p_span p)"

lemma home_lowers [simp]: "home p (lowers d) = home p d"
  by (simp add: home_def)

lemma home_less: "pool_ok p \<Longrightarrow> home p d < length (p_shards p)"
  using fastrange_less [of "p_n_shards p"] by (simp add: home_def pool_ok_def word_less_nat_alt)

text \<open>Replacing a shard by one of the same shape that keeps its invariant.\<close>

definition set_shard :: "nat \<Rightarrow> shard \<Rightarrow> 'n pool \<Rightarrow> 'n pool" where
  "set_shard i s p = p\<lparr>p_shards := (p_shards p)[i := s]\<rparr>"

lemma set_shard_simps [simp]:
  "p_net (set_shard i s p) = p_net p" "p_ttl (set_shard i s p) = p_ttl p"
  "p_lo (set_shard i s p) = p_lo p" "p_span (set_shard i s p) = p_span p"
  "p_n_shards (set_shard i s p) = p_n_shards p" "p_shards (set_shard i s p) = (p_shards p)[i := s]"
  "home (set_shard i s p) d = home p d" "slice_of (set_shard i s p) ip = slice_of p ip"
  by (simp_all add: set_shard_def home_def slice_of_def)

lemma shard_at_set [simp]:
  "j < length (p_shards p) \<Longrightarrow> shard_at (set_shard i s p) j = (if j = i then s else shard_at p j)"
  by (simp add: shard_at_def nth_list_update)

lemma pool_okD:
  assumes "pool_ok p" and "i < length (p_shards p)"
  shows "shard_ok (shard_at p i)" "unat (s_lo (shard_at p i)) = unat (p_lo p) + i * unat (p_span p)"
    "s_usable (shard_at p i) = p_span p" "s_cap (shard_at p i) = shard_cap p"
  using assms unfolding pool_ok_def by blast+

lemma set_shard_ok:
  assumes p: "pool_ok p" and i: "i < length (p_shards p)"
    and s: "shard_ok s" "same_shape (shard_at p i) s"
  shows "pool_ok (set_shard i s p) \<and> shard_cap (set_shard i s p) = shard_cap p"
proof -
  have old: "s_lo s = s_lo (shard_at p i)" "s_usable s = s_usable (shard_at p i)"
    "s_cap s = shard_cap p"
    using s(2) pool_okD(4) [OF p i] by (simp_all add: same_shape_def)
  have pos: "0 < length (p_shards p)" using i by auto
  have cap0: "shard_cap (set_shard i s p) = shard_cap p"
    unfolding shard_cap_def [of "set_shard i s p"] shard_at_set [OF pos]
    using old(3) pool_okD(4) [OF p pos] by simp
  have "shard_ok t \<and> unat (s_lo t) = unat (p_lo p) + j * unat (p_span p) \<and> s_usable t = p_span p \<and>
      s_cap t = shard_cap (set_shard i s p)"
    if j: "j < length (p_shards p)" and t: "shard_at (set_shard i s p) j = t" for j t
    using pool_okD [OF p j] pool_okD [OF p i] s(1) old t j cap0 by (cases "j = i") auto
  then show ?thesis
    using p cap0 unfolding pool_ok_def by (simp only: set_shard_simps length_list_update simp_thms) blast
qed

text \<open>Names are stored folded to lower case, in the shard their hash selects.\<close>

definition placed :: "'n pool \<Rightarrow> bool" where
  "placed p \<longleftrightarrow> (\<forall>i<length (p_shards p). \<forall>e\<in>set (FakeIpShard.entries (shard_at p i)).
     lowers (fst e) = fst e \<and> home p (fst e) = i)"

definition pool_inv :: "'n pool \<Rightarrow> bool" where
  "pool_inv p \<longleftrightarrow> pool_ok p \<and> placed p"

abbreviation shard_entries :: "'n pool \<Rightarrow> nat \<Rightarrow> (bytes \<times> u32) list" where
  "shard_entries p i \<equiv> FakeIpShard.entries (shard_at p i)"

lemma placed_set:
  assumes "placed p" and "\<forall>e\<in>set (FakeIpShard.entries s). lowers (fst e) = fst e \<and> home p (fst e) = i"
  shows "placed (set_shard i s p)"
  using assms by (auto simp: placed_def)

text \<open>What an operation does to the pool: one shard takes the step of the specification.\<close>

lemma pool_intern_step:
  assumes p: "pool_inv p"
  shows "\<exists>ip s. pool_intern d p = Some (ip, set_shard (home p d) s p) \<and> shard_ok s \<and>
    lru_intern (shard_cap p) (s_lo (shard_at p (home p d))) (p_span p) (lowers d) (place d)
      (shard_entries p (home p d)) = Some (ip, FakeIpShard.entries s) \<and>
    pool_inv (set_shard (home p d) s p) \<and> shard_cap (set_shard (home p d) s p) = shard_cap p"
proof -
  let ?i = "home p d"
  have ok: "pool_ok p" "placed p" using p by (simp_all add: pool_inv_def)
  note i = home_less [OF ok(1), of d]
  obtain h where h: "rapidhash (lowers d) rapidhash_seed = Some h"
    using rapidhash_total by blast
  then have hi: "unat (fastrange h (p_n_shards p)) = ?i" and pl: "place d = fmix64 h"
    by (simp_all add: home_def place_def)
  obtain ip s where s: "shard_intern (lowers d) (fmix64 h) (shard_at p ?i) = Some (ip, s)" "shard_ok s"
      "same_shape (shard_at p ?i) s"
      "lru_intern (shard_cap p) (s_lo (shard_at p ?i)) (p_span p) (lowers d) (place d) (shard_entries p ?i)
         = Some (ip, FakeIpShard.entries s)"
    using shard_intern_refines [OF pool_okD(1) [OF ok(1) i], of "lowers d" "fmix64 h"]
    by (auto simp: pool_okD [OF ok(1) i] pl)
  have "pool_intern d p = Some (ip, set_shard ?i s p)"
    using s(1) i by (simp add: pool_intern_def key_of_lowers h hi shard_at_def set_shard_def)
  moreover have "\<forall>e\<in>set (FakeIpShard.entries s). lowers (fst e) = fst e \<and> home p (fst e) = ?i"
  proof
    fix e assume "e \<in> set (FakeIpShard.entries s)"
    then have "e = (lowers d, ip) \<or> e \<in> set (shard_entries p ?i)"
      using lru_intern_front [OF s(4)] by auto
    then show "lowers (fst e) = fst e \<and> home p (fst e) = ?i"
      using ok(2) i by (auto simp: placed_def home_lowers)
  qed
  ultimately show ?thesis
    using s set_shard_ok [OF ok(1) i s(2,3)] placed_set [OF ok(2)] by (auto simp: pool_inv_def)
qed

lemma pool_lookback_step:
  assumes p: "pool_inv p" and i: "p_lo p \<le> ip" "slice_of p ip < length (p_shards p)"
  shows "\<exists>s. pool_lookback ip p =
      Some (fst (lru_lookback ip (shard_entries p (slice_of p ip))), set_shard (slice_of p ip) s p) \<and>
    FakeIpShard.entries s = snd (lru_lookback ip (shard_entries p (slice_of p ip))) \<and>
    pool_inv (set_shard (slice_of p ip) s p) \<and> shard_cap (set_shard (slice_of p ip) s p) = shard_cap p"
proof -
  let ?i = "slice_of p ip"
  have ok: "pool_ok p" "placed p" using p by (simp_all add: pool_inv_def)
  obtain s where s: "shard_lookback ip (shard_at p ?i) = Some (fst (lru_lookback ip (shard_entries p ?i)), s)"
      "shard_ok s" "same_shape (shard_at p ?i) s" "FakeIpShard.entries s = snd (lru_lookback ip (shard_entries p ?i))"
    using shard_lookback_refines [OF pool_okD(1) [OF ok(1) i(2)]] by blast
  have "pool_lookback ip p = Some (fst (lru_lookback ip (shard_entries p ?i)), set_shard ?i s p)"
    using s(1) i by (auto simp: pool_lookback_def shard_at_def set_shard_def slice_of_def not_less not_le Let_def)
  moreover have "\<forall>e\<in>set (FakeIpShard.entries s). lowers (fst e) = fst e \<and> home p (fst e) = ?i"
    unfolding s(4) lru_lookback_set using ok(2) i(2) by (auto simp: placed_def)
  ultimately show ?thesis
    using s set_shard_ok [OF ok(1) i(2) s(2,3)] placed_set [OF ok(2)] by (auto simp: pool_inv_def)
qed

lemma pool_lookback_outside:
  "ip < p_lo p \<or> length (p_shards p) \<le> slice_of p ip \<Longrightarrow> pool_lookback ip p = Some (None, p)"
  by (auto simp: pool_lookback_def slice_of_def)

text \<open>Division finds the slice an address lies in.\<close>

lemma slice_of_entry:
  assumes p: "pool_ok p" and i: "i < length (p_shards p)"
    and ip: "in_slice (s_lo (shard_at p i)) (p_span p) ip"
  shows "slice_of p ip = i" and "p_lo p \<le> ip"
proof -
  let ?k = "unat (p_span p)"
  have b: "unat (p_lo p) + i * ?k \<le> unat ip" "unat ip < unat (p_lo p) + i * ?k + ?k"
    using ip pool_okD(2) [OF p i] by (simp_all add: in_slice_def)
  then show le: "p_lo p \<le> ip" by (simp add: word_le_nat_alt)
  then have "unat (ip - p_lo p) = unat ip - unat (p_lo p)"
    by (simp add: unat_sub word_le_nat_alt)
  moreover have "(unat ip - unat (p_lo p)) div ?k = i"
    using b by (intro div_nat_eqI) (auto simp: algebra_simps)
  ultimately show "slice_of p ip = i"
    by (simp add: slice_of_def unat_div_distrib)
qed

section \<open>Interning and looking back\<close>

lemma pool_entry_lookback:
  assumes p: "pool_inv p" and i: "i < length (p_shards p)" and e: "(d, ip) \<in> set (shard_entries p i)"
  shows "\<exists>q. pool_lookback ip p = Some (Some d, q)"
proof -
  have ok: "pool_ok p" using p by (simp add: pool_inv_def)
  note sh = shard_entries_ok [OF pool_okD(1) [OF ok i]]
  have "in_slice (s_lo (shard_at p i)) (p_span p) ip"
    using sh(6) [OF e] pool_okD(3) [OF ok i] by simp
  note sl = slice_of_entry [OF ok i this]
  obtain s where "pool_lookback ip p = Some (fst (lru_lookback ip (shard_entries p i)), set_shard i s p)"
    using pool_lookback_step [OF p sl(2)] sl(1) i by auto
  then show ?thesis
    using lru_lookback_known [OF sh(2) e] by simp
qed

text \<open>After interning, the entry heads the list of its shard.\<close>

lemma pool_intern_entry:
  assumes p: "pool_inv p"
  shows "\<exists>ip q rest. pool_intern d p = Some (ip, q) \<and> pool_inv q \<and> shard_cap q = shard_cap p \<and>
    home q d < length (p_shards q) \<and> shard_entries q (home q d) = (lowers d, ip) # rest"
proof -
  obtain ip s where s: "pool_intern d p = Some (ip, set_shard (home p d) s p)"
      "lru_intern (shard_cap p) (s_lo (shard_at p (home p d))) (p_span p) (lowers d) (place d)
         (shard_entries p (home p d)) = Some (ip, FakeIpShard.entries s)"
      "pool_inv (set_shard (home p d) s p)" "shard_cap (set_shard (home p d) s p) = shard_cap p"
    using pool_intern_step [OF p, of d] by blast
  have "home p d < length (p_shards p)" using home_less [of p d] p by (simp add: pool_inv_def)
  with s lru_intern_front [OF s(2)] show ?thesis by auto
qed

lemma pool_entry_intern:
  assumes p: "pool_inv p" and e: "(lowers d, ip) \<in> set (shard_entries p (home p d))"
  shows "\<exists>q. pool_intern d p = Some (ip, q)"
proof -
  have ok: "pool_ok p" using p by (simp add: pool_inv_def)
  note sh = shard_entries_ok [OF pool_okD(1) [OF ok home_less [OF ok]]]
  show ?thesis
    using pool_intern_step [OF p, of d] lru_intern_known [OF sh(1) e] by auto
qed

section \<open>Sequences of operations\<close>

datatype pool_op = Intern bytes | Lookback u32

fun run_op :: "pool_op \<Rightarrow> 'n pool \<Rightarrow> 'n pool option" where
  "run_op (Intern d) p = map_option snd (pool_intern d p)"
| "run_op (Lookback ip) p = map_option snd (pool_lookback ip p)"

fun run_ops :: "pool_op list \<Rightarrow> 'n pool \<Rightarrow> 'n pool option" where
  "run_ops [] p = Some p"
| "run_ops (a # as) p = do { p \<leftarrow> run_op a p; run_ops as p }"

definition same_geometry :: "'n pool \<Rightarrow> 'n pool \<Rightarrow> bool" where
  "same_geometry p q \<longleftrightarrow> p_net q = p_net p \<and> p_ttl q = p_ttl p \<and> p_lo q = p_lo p \<and> p_span q = p_span p \<and>
     p_n_shards q = p_n_shards p \<and> shard_cap q = shard_cap p"

lemma home_geometry: "same_geometry p q \<Longrightarrow> home q d = home p d"
  by (simp add: same_geometry_def home_def)

lemma take_Suc_subset: "set (take k xs) \<subseteq> set (take (Suc k) xs)"
  by (rule set_take_subset_set_take) simp

lemma rank_set_shard:
  assumes "\<And>k. k < c \<Longrightarrow> set (take k (shard_entries p j)) \<subseteq> set (take (Suc k) (FakeIpShard.entries s))"
    and "i < length (p_shards p)" "k < c"
  shows "set (take k (shard_entries p i)) \<subseteq> set (take (Suc k) (shard_entries (set_shard j s p) i))"
proof (cases "i = j")
  case True
  with assms show ?thesis by simp
next
  case False
  with assms(2) show ?thesis by (simp only: shard_at_set if_False take_Suc_subset)
qed

text \<open>One operation: it returns, keeps the invariant, and pushes every entry back by one place at most.\<close>

lemma run_op_step:
  assumes p: "pool_inv p"
  shows "\<exists>q. run_op a p = Some q \<and> pool_inv q \<and> same_geometry p q \<and>
    (\<forall>i<length (p_shards p). \<forall>k < shard_cap p.
       set (take k (shard_entries p i)) \<subseteq> set (take (Suc k) (shard_entries q i)))"
proof (cases a)
  case (Intern d)
  obtain ip s where s: "pool_intern d p = Some (ip, set_shard (home p d) s p)"
      "lru_intern (shard_cap p) (s_lo (shard_at p (home p d))) (p_span p) (lowers d) (place d)
         (shard_entries p (home p d)) = Some (ip, FakeIpShard.entries s)"
      "pool_inv (set_shard (home p d) s p)" "shard_cap (set_shard (home p d) s p) = shard_cap p"
    using pool_intern_step [OF p, of d] by blast
  have ok: "pool_ok p" using p by (simp add: pool_inv_def)
  note h = home_less [OF ok, of d]
  have "length (shard_entries p (home p d)) \<le> shard_cap p"
    using shard_entries_ok(3,4) [OF pool_okD(1) [OF ok h]] pool_okD(4) [OF ok h] by simp
  then have "set (take k (shard_entries p i)) \<subseteq> set (take (Suc k) (shard_entries (set_shard (home p d) s p) i))"
    if "i < length (p_shards p)" "k < shard_cap p" for i k
    using rank_set_shard lru_intern_rank [OF s(2)] that by blast
  with s Intern show ?thesis by (simp add: same_geometry_def)
next
  case (Lookback ip)
  show ?thesis
  proof (cases "ip < p_lo p \<or> length (p_shards p) \<le> slice_of p ip")
    case True
    with p Lookback show ?thesis
      by (simp add: pool_lookback_outside same_geometry_def take_Suc_subset)
  next
    case False
    then obtain s where s: "pool_lookback ip p =
        Some (fst (lru_lookback ip (shard_entries p (slice_of p ip))), set_shard (slice_of p ip) s p)"
        "FakeIpShard.entries s = snd (lru_lookback ip (shard_entries p (slice_of p ip)))"
        "pool_inv (set_shard (slice_of p ip) s p)" "shard_cap (set_shard (slice_of p ip) s p) = shard_cap p"
      using pool_lookback_step [OF p, of ip] by (auto simp: not_less not_le)
    have "set (take k (shard_entries p i)) \<subseteq> set (take (Suc k) (shard_entries (set_shard (slice_of p ip) s p) i))"
      if "i < length (p_shards p)" "k < shard_cap p" for i k
    proof (rule rank_set_shard [OF _ that])
      show "set (take k (shard_entries p (slice_of p ip))) \<subseteq> set (take (Suc k) (FakeIpShard.entries s))" for k
        unfolding s(2) by (rule lru_lookback_rank)
    qed
    with s Lookback show ?thesis by (simp add: same_geometry_def)
  qed
qed

lemma same_geometry_length:
  "pool_inv p \<Longrightarrow> pool_inv q \<Longrightarrow> same_geometry p q \<Longrightarrow> length (p_shards q) = length (p_shards p)"
  by (simp add: pool_inv_def pool_ok_def same_geometry_def)

lemma run_ops_rank:
  assumes "pool_inv p" and "i < length (p_shards p)" and "e \<in> set (take k (shard_entries p i))"
    and "k + length ops \<le> shard_cap p"
  shows "\<exists>q. run_ops ops p = Some q \<and> pool_inv q \<and> same_geometry p q \<and>
    e \<in> set (take (k + length ops) (shard_entries q i))"
  using assms
proof (induction ops arbitrary: p k)
  case Nil
  then show ?case by (auto simp: same_geometry_def)
next
  case (Cons a ops)
  obtain q where q: "run_op a p = Some q" "pool_inv q" "same_geometry p q"
      "\<forall>i<length (p_shards p). \<forall>k < shard_cap p.
         set (take k (shard_entries p i)) \<subseteq> set (take (Suc k) (shard_entries q i))"
    using run_op_step [OF Cons.prems(1), of a] by blast
  have "e \<in> set (take (Suc k) (shard_entries q i))"
    using subsetD [OF q(4) [rule_format, OF Cons.prems(2), of k] Cons.prems(3)] Cons.prems(4) by simp
  moreover have "i < length (p_shards q)" "Suc k + length ops \<le> shard_cap q"
    using same_geometry_length [OF Cons.prems(1) q(2,3)] Cons.prems(2,4) q(3)
    by (simp_all add: same_geometry_def)
  ultimately obtain r where "run_ops ops q = Some r" "pool_inv r" "same_geometry q r"
      "e \<in> set (take (Suc k + length ops) (shard_entries r i))"
    using Cons.IH [OF q(2)] by blast
  with q(1,3) show ?case
    by (auto simp: same_geometry_def)
qed

lemma run_ops_total: "pool_inv p \<Longrightarrow> \<exists>q. run_ops ops p = Some q \<and> pool_inv q \<and> same_geometry p q"
proof (induction ops arbitrary: p)
  case Nil
  then show ?case by (simp add: same_geometry_def)
next
  case (Cons a ops)
  obtain q where q: "run_op a p = Some q" "pool_inv q" "same_geometry p q"
    using run_op_step [OF Cons.prems, of a] by blast
  with Cons.IH [OF q(2)] show ?case by (auto simp: same_geometry_def)
qed

lemma run_ops_append: "run_ops (xs @ ys) p = Option.bind (run_ops xs p) (run_ops ys)"
  by (induction xs arbitrary: p) (auto split: bind_splits)

text \<open>A name that was just interned stays resolvable, at the same address, through any sequence of
  fewer operations than a shard holds entries.\<close>

lemma interned_survives:
  assumes p: "pool_inv p" and few: "length ops < shard_cap p"
  shows "\<exists>ip q r. pool_intern d p = Some (ip, q) \<and> run_ops ops q = Some r \<and> pool_inv r \<and>
    (\<exists>t. pool_lookback ip r = Some (Some (lowers d), t)) \<and>
    (\<forall>d'. lowers d' = lowers d \<longrightarrow> (\<exists>t. pool_intern d' r = Some (ip, t)))"
proof -
  obtain ip q rest where q: "pool_intern d p = Some (ip, q)" "pool_inv q" "shard_cap q = shard_cap p"
      "home q d < length (p_shards q)" "shard_entries q (home q d) = (lowers d, ip) # rest"
    using pool_intern_entry [OF p, of d] by blast
  have "(lowers d, ip) \<in> set (take 1 (shard_entries q (home q d)))" using q(5) by simp
  then obtain r where r: "run_ops ops q = Some r" "pool_inv r" "same_geometry q r"
      "(lowers d, ip) \<in> set (take (1 + length ops) (shard_entries r (home q d)))"
    using run_ops_rank [OF q(2,4), of _ 1 ops] few q(3) by auto
  then have e: "(lowers d, ip) \<in> set (shard_entries r (home q d))" by (auto dest: in_set_takeD)
  have len: "home q d < length (p_shards r)" using same_geometry_length [OF q(2) r(2,3)] q(4) by simp
  have "\<exists>t. pool_intern d' r = Some (ip, t)" if "lowers d' = lowers d" for d'
  proof (rule pool_entry_intern [OF r(2)])
    have "home r d' = home q d" using that home_geometry [OF r(3)] by (metis home_lowers)
    then show "(lowers d', ip) \<in> set (shard_entries r (home r d'))" using e that by simp
  qed
  with q(1) r(1,2) pool_entry_lookback [OF r(2) len e] show ?thesis by blast
qed

section \<open>A new pool\<close>

text \<open>What the code relies on of the \<open>ipnet\<close> crate.\<close>

definition ipnet_laws :: "'n ipv4net \<Rightarrow> bool" where
  "ipnet_laws N \<longleftrightarrow> (\<forall>c. net_network N (net_trunc N c) \<le> net_broadcast N (net_trunc N c)) \<and>
     (\<forall>c ip. net_contains N c ip \<longleftrightarrow> net_network N c \<le> ip \<and> ip \<le> net_broadcast N c)"

lemma unat_sat_add: "unat (sat_add a b) = min (unat a + unat b) (2 ^ 32 - 1)"
proof (cases "unat a + unat b < 2 ^ 32")
  case True
  then show ?thesis by (simp add: sat_add_def unat_word_ariths)
next
  case False
  then show ?thesis using unat_NIL by (simp add: sat_add_def NIL_def)
qed

lemma unat_sat_sub: "unat (sat_sub a b) = unat a - unat b"
  by (auto simp: sat_sub_def unat_sub word_le_nat_alt)

lemma div_ceil_pos: "0 < a \<Longrightarrow> 0 < b \<Longrightarrow> 0 < div_ceil a b"
  by (simp add: div_ceil_def div_greater_zero_iff)

lemma clamp_range: "lo \<le> hi \<Longrightarrow> lo \<le> clamp lo hi x \<and> clamp lo hi x \<le> hi"
  by (simp add: clamp_def)

lemma geometry_range:
  assumes "0 < usable_addrs N c"
  shows "unat (fst (snd (cidr_geometry N c))) + unat (usable_addrs N c) = unat (net_broadcast N (net_trunc N c))"
    and "unat (net_network N (net_trunc N c)) + 4 \<le> unat (fst (snd (cidr_geometry N c)))"
proof -
  let ?b = "net_network N (net_trunc N c)" and ?e = "net_broadcast N (net_trunc N c)"
  have u: "unat (usable_addrs N c) = unat ?e - unat (sat_add ?b FIRST_OFFSET)"
    by (simp add: usable_addrs_def cidr_geometry_def Let_def unat_sat_sub)
  moreover have "0 < unat (usable_addrs N c)" using assms by (simp add: word_less_nat_alt)
  ultimately have lt: "unat (sat_add ?b FIRST_OFFSET) < unat ?e" by linarith
  with u show "unat (fst (snd (cidr_geometry N c))) + unat (usable_addrs N c) = unat ?e"
    by (simp add: cidr_geometry_def Let_def)
  have "unat (sat_add ?b FIRST_OFFSET) < 2 ^ 32 - 1" using lt unat_u32_less [of ?e] by simp
  then have "unat (sat_add ?b FIRST_OFFSET) = unat ?b + 4"
    unfolding unat_sat_add by (simp add: FIRST_OFFSET_def min_def split: if_splits)
  then show "unat ?b + 4 \<le> unat (fst (snd (cidr_geometry N c)))"
    by (simp add: cidr_geometry_def Let_def)
qed

lemma split_range:
  assumes u: "16 \<le> (usable :: u32)" and n: "n = min (max req 1) (max (usable div 16) 1)"
  shows "0 < n" "16 \<le> usable div n" "unat n * unat (usable div n) \<le> unat usable"
proof -
  have d: "unat (usable div 16) = unat usable div 16" by (simp add: unat_div_distrib)
  have u': "16 \<le> unat usable" using u by (simp add: word_le_nat_alt)
  have "1 \<le> unat (usable div 16)" using d u' by simp
  then have "max (usable div 16) 1 = usable div 16"
    by (simp add: max_def word_le_nat_alt word_unat_eq_iff del: unat_inj)
  then have "n \<le> usable div 16" "1 \<le> n"
    using n \<open>1 \<le> unat (usable div 16)\<close> by (auto simp: word_le_nat_alt min_def max_def split: if_splits)
  then have n': "unat n \<le> unat usable div 16" "1 \<le> unat n" using d by (simp_all add: word_le_nat_alt)
  then show "0 < n" by (simp add: word_less_nat_alt)
  have "16 * unat n \<le> unat usable" using n'(1) by simp
  then have "16 \<le> unat usable div unat n" using n'(2) by (simp add: less_eq_div_iff_mult_less_eq)
  then show "16 \<le> usable div n" by (simp add: word_le_nat_alt unat_div_distrib)
  show "unat n * unat (usable div n) \<le> unat usable" by (simp add: unat_div_distrib)
qed

lemma pool_new_error:
  "pool_new N cfg = Inl e \<longleftrightarrow> usable_addrs N (c_cidr cfg) < 16 \<and>
     e = CidrTooSmall (net_prefix_len N (net_trunc N (c_cidr cfg))) (usable_addrs N (c_cidr cfg)) 16"
  by (auto simp: pool_new_def usable_addrs_def cidr_geometry_def Let_def MIN_USABLE_def)

lemma pool_new_ok:
  assumes u: "16 \<le> usable_addrs N (c_cidr cfg)"
  shows "\<exists>p. pool_new N cfg = Inr p \<and> pool_inv p \<and> pool_entries p = [] \<and> p_ttl p = c_ttl cfg \<and>
    p_net p = net_trunc N (c_cidr cfg) \<and> unat (net_network N (p_net p)) + 4 \<le> unat (p_lo p) \<and>
    unat (p_lo p) + unat (p_n_shards p) * unat (p_span p) \<le> unat (net_broadcast N (p_net p)) \<and>
    16 \<le> p_span p \<and> 1 \<le> shard_cap p \<and> shard_cap p \<le> unat (p_span p)"
proof -
  let ?c = "c_cidr cfg"
  define usable where "usable = usable_addrs N ?c"
  define lo where "lo = fst (snd (cidr_geometry N ?c))"
  define n where "n = min (max (c_shards cfg) 1) (max (usable div 16) 1)"
  define span where "span = usable div n"
  define cap where "cap = clamp 1 (unat span) (div_ceil (clamp 1 (unat usable) (c_max_entries cfg)) (unat n))"
  define p where "p = \<lparr> p_shards = map (\<lambda>s. shard_new (lo + of_nat s * span) span cap) [0..<unat n],
    p_net = net_trunc N ?c, p_ttl = c_ttl cfg, p_lo = lo, p_span = span, p_n_shards = n \<rparr>"
  have g: "cidr_geometry N ?c = (net_trunc N ?c, lo, usable)"
    by (simp add: lo_def usable_def usable_addrs_def cidr_geometry_def Let_def)
  have new: "pool_new N cfg = Inr p"
    using u by (simp add: pool_new_def g Let_def MIN_USABLE_def MIN_SHARD_USABLE_def p_def n_def span_def
        cap_def usable_def not_less [symmetric])
  have u16: "16 \<le> usable" using u by (simp add: usable_def)
  note sp = split_range [OF u16 n_def, folded span_def]
  have "0 < usable" using u16 by (simp add: word_le_nat_alt word_less_nat_alt)
  then have range: "unat lo + unat usable = unat (net_broadcast N (net_trunc N ?c))"
      "unat (net_network N (net_trunc N ?c)) + 4 \<le> unat lo"
    using geometry_range [of N ?c] by (simp_all add: lo_def usable_def)
  then have top: "unat lo + unat n * unat span \<le> unat (net_broadcast N (net_trunc N ?c))"
    using sp(3) by simp
  then have top32: "unat lo + unat n * unat span < 2 ^ 32"
    using unat_u32_less [of "net_broadcast N (net_trunc N ?c)"] by simp
  have span: "16 \<le> unat span" using sp(2) by (simp add: word_le_nat_alt)
  have cap: "1 \<le> cap" "cap \<le> unat span"
    using clamp_range [of 1 "unat span"] span unfolding cap_def by simp_all
  have slo: "unat (lo + of_nat i * span) = unat lo + i * unat span" and sl: "unat lo + i * unat span + unat span \<le> 2 ^ 32"
    if i: "i < unat n" for i
  proof -
    have "Suc i * unat span \<le> unat n * unat span" using i by (intro mult_le_mono1) simp
    then have b: "i * unat span + unat span \<le> unat n * unat span" by simp
    then show "unat lo + i * unat span + unat span \<le> 2 ^ 32" using top32 by linarith
    have "unat (of_nat i :: u32) = i" using i unat_u32_less [of n] by (simp add: unat_of_nat)
    moreover have "unat lo + i * unat span < 2 ^ 32" using b top32 by linarith
    moreover have "i * unat span < 2 ^ 32" using b top32 by linarith
    ultimately show "unat (lo + of_nat i * span) = unat lo + i * unat span"
      by (simp add: unat_word_ariths)
  qed
  have sh: "shard_at p i = shard_new (lo + of_nat i * span) span cap" if "i < unat n" for i
    using that by (simp add: p_def shard_at_def)
  have fresh: "shard_ok (shard_at p i)" "shard_entries p i = []" if i: "i < unat n" for i
    using shard_new_ok [OF cap] slo [OF i] sl [OF i] by (simp_all add: sh [OF i])
  have n0: "0 < unat n" using sp(1) by (simp add: word_less_nat_alt)
  have c: "shard_cap p = cap" by (simp add: shard_cap_def sh [OF n0] shard_new_def)
  have s0: "0 < span" using span by (simp add: word_less_nat_alt)
  have "pool_ok p"
    unfolding pool_ok_def c using sp(1) s0 top32 fresh(1) slo
    by (simp add: p_def shard_at_def) (simp add: shard_new_def)
  then have "pool_inv p"
    using fresh(2) by (simp add: pool_inv_def placed_def p_def)
  moreover have "pool_entries p = []"
    using fresh(2) by (simp add: pool_entries_def p_def shard_at_def)
  ultimately show ?thesis
    using new range(2) top sp(2) cap c by (auto simp: p_def)
qed

section \<open>Reachable pools\<close>

inductive pool_reachable :: "'n ipv4net \<Rightarrow> 'n fakeip_config \<Rightarrow> 'n pool \<Rightarrow> bool" for N cfg where
  created: "pool_new N cfg = Inr p \<Longrightarrow> pool_reachable N cfg p"
| interned: "\<lbrakk>pool_reachable N cfg p; pool_intern d p = Some (ip, q)\<rbrakk> \<Longrightarrow> pool_reachable N cfg q"
| looked_back: "\<lbrakk>pool_reachable N cfg p; pool_lookback ip p = Some (d, q)\<rbrakk> \<Longrightarrow> pool_reachable N cfg q"

text \<open>The range of the pool sits inside the prefix, clear of its first four addresses and of the
  broadcast address.\<close>

definition inside_prefix :: "'n ipv4net \<Rightarrow> 'n pool \<Rightarrow> bool" where
  "inside_prefix N p \<longleftrightarrow> unat (net_network N (p_net p)) + 4 \<le> unat (p_lo p) \<and>
     unat (p_lo p) + unat (p_n_shards p) * unat (p_span p) \<le> unat (net_broadcast N (p_net p))"

lemma pool_new_inv: "pool_new N cfg = Inr p \<Longrightarrow> pool_inv p \<and> inside_prefix N p \<and> 1 \<le> shard_cap p"
proof -
  assume p: "pool_new N cfg = Inr p"
  then have "\<not> usable_addrs N (c_cidr cfg) < 16"
    using pool_new_error [of N cfg] by (metis Inl_Inr_False)
  then have "16 \<le> usable_addrs N (c_cidr cfg)" by simp
  from pool_new_ok [OF this] p show ?thesis by (auto simp: inside_prefix_def)
qed

lemma run_ops_geometry: "pool_inv p \<Longrightarrow> run_ops ops p = Some q \<Longrightarrow> pool_inv q \<and> same_geometry p q"
proof (induction ops arbitrary: p)
  case (Cons a ops)
  obtain p1 where p1: "run_op a p = Some p1" "pool_inv p1" "same_geometry p p1" using run_op_step [OF Cons.prems(1), of a] by blast
  then have "pool_inv q \<and> same_geometry p1 q" using Cons.IH [OF p1(2)] Cons.prems(2) by simp
  then show ?case using p1(3) by (auto simp: same_geometry_def)
qed (simp add: same_geometry_def)

lemma inside_prefix_geometry: "same_geometry p q \<Longrightarrow> inside_prefix N p \<Longrightarrow> inside_prefix N q"
  by (simp add: same_geometry_def inside_prefix_def)

lemma intern_next:
  assumes "pool_inv p" and "pool_intern d p = Some (ip, q)"
  shows "pool_inv q" "same_geometry p q"
  using run_op_step [OF assms(1), of "Intern d"] assms(2) by auto

lemma lookback_next:
  assumes "pool_inv p" and "pool_lookback ip p = Some (d, q)"
  shows "pool_inv q" "same_geometry p q"
  using run_op_step [OF assms(1), of "Lookback ip"] assms(2) by auto

lemma reachable_inv: "pool_reachable N cfg p \<Longrightarrow> pool_inv p \<and> inside_prefix N p \<and> 1 \<le> shard_cap p"
proof (induction rule: pool_reachable.induct)
  case (interned p d ip q)
  with intern_next [of p d ip q] inside_prefix_geometry [of p q] show ?case
    by (auto simp: same_geometry_def)
next
  case (looked_back p ip d q)
  with lookback_next [of p ip d q] inside_prefix_geometry [of p q] show ?case
    by (auto simp: same_geometry_def)
qed (rule pool_new_inv)

section \<open>The entries of the whole pool\<close>

lemma pool_entries_iff: "e \<in> set (pool_entries p) \<longleftrightarrow> (\<exists>i<length (p_shards p). e \<in> set (shard_entries p i))"
proof -
  have "set (pool_entries p) = (\<Union>s\<in>set (p_shards p). set (FakeIpShard.entries s))"
    by (simp add: pool_entries_def)
  then show ?thesis by (auto simp: shard_at_def set_conv_nth [of "p_shards p"])
qed

lemma pool_entry_home:
  assumes p: "pool_inv p" and e: "(d, ip) \<in> set (pool_entries p)"
  shows "(d, ip) \<in> set (shard_entries p (home p d))" "lowers d = d" "p_lo p \<le> ip"
    "slice_of p ip = home p d" "unat ip < unat (p_lo p) + unat (p_n_shards p) * unat (p_span p)"
proof -
  have ok: "pool_ok p" "placed p" using p by (simp_all add: pool_inv_def)
  obtain i where i: "i < length (p_shards p)" "(d, ip) \<in> set (shard_entries p i)"
    using e pool_entries_iff by blast
  then have d: "lowers d = d" "home p d = i" using ok(2) unfolding placed_def by fastforce+
  with i(2) show "(d, ip) \<in> set (shard_entries p (home p d))" "lowers d = d" by simp_all
  have sl: "in_slice (s_lo (shard_at p i)) (p_span p) ip"
    using shard_entries_ok(6) [OF pool_okD(1) [OF ok(1) i(1)] i(2)] pool_okD(3) [OF ok(1) i(1)] by simp
  from slice_of_entry [OF ok(1) i(1) sl] d(2) show "slice_of p ip = home p d" "p_lo p \<le> ip" by simp_all
  have "Suc i * unat (p_span p) \<le> unat (p_n_shards p) * unat (p_span p)"
    using i(1) ok(1) by (intro mult_le_mono1) (simp add: pool_ok_def)
  with sl pool_okD(2) [OF ok(1) i(1)]
  show "unat ip < unat (p_lo p) + unat (p_n_shards p) * unat (p_span p)"
    by (simp add: in_slice_def)
qed

lemma distinct_concat_keyed:
  assumes "\<And>i. i < length xss \<Longrightarrow> distinct (map f (xss ! i))"
    and "\<And>i x. i < length xss \<Longrightarrow> x \<in> set (xss ! i) \<Longrightarrow> g (f x) = i"
  shows "distinct (map f (concat xss)) \<and> (\<forall>x\<in>set (concat xss). g (f x) < length xss)"
  using assms
proof (induction xss rule: rev_induct)
  case (snoc xs xss)
  have IH: "distinct (map f (concat xss)) \<and> (\<forall>x\<in>set (concat xss). g (f x) < length xss)"
  proof (rule snoc.IH)
    fix i assume i: "i < length xss"
    then show "distinct (map f (xss ! i))" using snoc.prems(1) [of i] by (simp add: nth_append)
    show "g (f x) = i" if "x \<in> set (xss ! i)" for x using i that snoc.prems(2) [of i x] by (simp add: nth_append)
  qed
  have last: "distinct (map f xs)" "\<forall>x\<in>set xs. g (f x) = length xss"
    using snoc.prems(1) [of "length xss"] snoc.prems(2) [of "length xss"] by simp_all
  have "f ` set (concat xss) \<inter> f ` set xs = {}"
    using IH last(2) by fastforce
  with IH last show ?case by (auto simp: less_Suc_eq)
qed simp

lemma pool_entries_distinct:
  assumes p: "pool_inv p"
  shows "distinct (map fst (pool_entries p))" "distinct (map snd (pool_entries p))"
proof -
  have ok: "pool_ok p" using p by (simp add: pool_inv_def)
  let ?xss = "map FakeIpShard.entries (p_shards p)"
  have at: "?xss ! i = shard_entries p i" if "i < length ?xss" for i
    using that by (simp add: shard_at_def)
  have mem: "home p (fst e) = i \<and> slice_of p (snd e) = i" if "i < length ?xss" "e \<in> set (?xss ! i)" for i e
  proof -
    have e: "(fst e, snd e) \<in> set (shard_entries p i)" using that at by simp
    then have "(fst e, snd e) \<in> set (pool_entries p)"
      unfolding pool_entries_iff using that(1) by (intro exI [of _ i]) simp
    moreover have "home p (fst e) = i" using p e that by (auto simp: pool_inv_def placed_def)
    ultimately show ?thesis using pool_entry_home(4) [OF p, of "fst e" "snd e"] by simp
  qed
  have sh: "distinct (map fst (?xss ! i)) \<and> distinct (map snd (?xss ! i))" if "i < length ?xss" for i
    using shard_entries_ok(1,2) [OF pool_okD(1) [OF ok, of i]] that by (simp add: shard_at_def)
  show "distinct (map fst (pool_entries p))"
    unfolding pool_entries_def using distinct_concat_keyed [of ?xss fst "home p"] sh mem by blast
  show "distinct (map snd (pool_entries p))"
    unfolding pool_entries_def using distinct_concat_keyed [of ?xss snd "slice_of p"] sh mem by blast
qed

lemma pool_entry_live:
  assumes p: "pool_inv p" and e: "(d, ip) \<in> set (pool_entries p)"
  shows "\<exists>q. pool_lookback ip p = Some (Some d, q)"
    and "\<exists>q. pool_intern d p = Some (ip, q)"
proof -
  note h = pool_entry_home [OF p e]
  have "home p d < length (p_shards p)" using home_less p by (auto simp: pool_inv_def)
  with h(1) show "\<exists>q. pool_lookback ip p = Some (Some d, q)"
    by (rule pool_entry_lookback [OF p, rotated])
  show "\<exists>q. pool_intern d p = Some (ip, q)"
    using pool_entry_intern [OF p, of d ip] h(1,2) by simp
qed

text \<open>Looking back answers exactly the live entries.\<close>

lemma pool_lookback_iff:
  assumes p: "pool_inv p"
  shows "\<exists>r q. pool_lookback ip p = Some (r, q) \<and> (\<forall>d. r = Some d \<longleftrightarrow> (d, ip) \<in> set (pool_entries p))"
proof (cases "\<exists>d. (d, ip) \<in> set (pool_entries p)")
  case True
  then obtain d where d: "(d, ip) \<in> set (pool_entries p)" by blast
  then have "\<And>d'. (d', ip) \<in> set (pool_entries p) \<Longrightarrow> d' = d"
    using pool_entries_distinct(2) [OF p] eq_snd_iff by (metis distinct_map inj_onD prod.inject snd_conv)
  with d pool_entry_live(1) [OF p d] show ?thesis by blast
next
  case False
  show ?thesis
  proof (cases "ip < p_lo p \<or> length (p_shards p) \<le> slice_of p ip")
    case True
    then show ?thesis using False by (auto simp: pool_lookback_outside)
  next
    case in_range: False
    let ?i = "slice_of p ip"
    have i: "p_lo p \<le> ip" "?i < length (p_shards p)" using in_range by (auto simp: not_less)
    then have "ip \<notin> snd ` set (shard_entries p ?i)" using False pool_entries_iff by force
    then show ?thesis
      using pool_lookback_step [OF p i] lru_lookback_unknown False by (metis fst_conv option.distinct(1))
  qed
qed

lemma pool_len_entries:
  assumes p: "pool_inv p"
  shows "pool_len p = length (pool_entries p)"
    "length (pool_entries p) \<le> unat (p_n_shards p) * shard_cap p"
proof -
  have ok: "pool_ok p" using p by (simp add: pool_inv_def)
  have each: "length (FakeIpShard.entries s) = s_count s \<and> s_count s \<le> shard_cap p" if "s \<in> set (p_shards p)" for s
  proof -
    obtain i where "i < length (p_shards p)" "s = shard_at p i"
      using \<open>s \<in> set (p_shards p)\<close> by (auto simp: in_set_conv_nth shard_at_def)
    then show ?thesis
      using shard_entries_ok(3,4) [OF pool_okD(1) [OF ok, of i]] pool_okD(4) [OF ok, of i] by simp
  qed
  then have m: "map (\<lambda>s. length (FakeIpShard.entries s)) (p_shards p) = map s_count (p_shards p)"
    by (simp cong: map_cong)
  then show len: "pool_len p = length (pool_entries p)"
    using arg_cong [OF m, of sum_list] by (simp add: pool_len_def pool_entries_def length_concat comp_def)
  have sum: "sum_list (map s_count ss) \<le> length ss * shard_cap p" if "\<forall>s\<in>set ss. s_count s \<le> shard_cap p" for ss
    using that by (induction ss) auto
  have "pool_len p \<le> length (p_shards p) * shard_cap p"
    unfolding pool_len_def using each by (intro sum) simp
  then have "pool_len p \<le> unat (p_n_shards p) * shard_cap p"
    using ok by (simp add: pool_ok_def)
  with len show "length (pool_entries p) \<le> unat (p_n_shards p) * shard_cap p"
    by simp
qed

section \<open>Properties\<close>

text \<open>The instance of \<open>Ipv4Net\<close> that the witnesses use: an address and a prefix length.\<close>

definition mask4 :: "u8 \<Rightarrow> u32" where
  "mask4 l = NOT (mask (32 - unat l))"

definition cidr4 :: "(u32 \<times> u8) ipv4net" where
  "cidr4 = \<lparr> net_trunc = (\<lambda>(a, l). (a AND mask4 l, l)), net_network = (\<lambda>(a, l). a AND mask4 l),
     net_broadcast = (\<lambda>(a, l). a OR NOT (mask4 l)), net_prefix_len = snd,
     net_contains = (\<lambda>(a, l) ip. a AND mask4 l \<le> ip \<and> ip \<le> a OR NOT (mask4 l)) \<rparr>"

definition example_config :: "(u32 \<times> u8) fakeip_config" where
  "example_config = \<lparr> c_cidr = (0x07000000, 24), c_max_entries = 100, c_ttl = 3, c_shards = 4 \<rparr>"

definition example_pool :: "(u32 \<times> u8) pool" where
  "example_pool = projr (pool_new cidr4 example_config)"

lemma cidr4_laws: "ipnet_laws cidr4"
proof -
  have "a AND m \<le> a" "a \<le> a OR m" for a m :: u32
    by (simp_all add: word_and_le2 le_word_or2)
  then show ?thesis
    by (auto simp: ipnet_laws_def cidr4_def intro: order_trans)
qed

lemma example_geometry: "cidr_geometry cidr4 (c_cidr example_config) = ((0x07000000, 24), 0x07000004, 251)"
proof -
  have m: "mask4 24 = 0xFFFFFF00" unfolding mask4_def by code_simp
  have "(0x07000000 AND 0xFFFFFF00 :: u32) = 0x07000000" "(0x07000000 OR NOT 0xFFFFFF00 :: u32) = 0x070000FF"
    "(0x07000000 AND 0xFFFFFF00 OR NOT 0xFFFFFF00 :: u32) = 0x070000FF"
    by code_simp+
  then show ?thesis
    by (simp add: cidr_geometry_def cidr4_def example_config_def m Let_def sat_add_def sat_sub_def
        FIRST_OFFSET_def)
qed

lemma example_pool_new: "pool_new cidr4 example_config = Inr example_pool"
  using pool_new_ok [of cidr4 example_config] by (auto simp: example_pool_def usable_addrs_def example_geometry)

lemma example_split: "min (max (c_shards example_config) 1) 15 = 4"
  by (simp add: example_config_def)

lemma example_shard_cap: "shard_cap example_pool = 25"
proof -
  have "unat (4 :: u32) = 4" "251 div 4 = (62 :: u32)" "c_max_entries example_config = 100"
    by (simp_all add: example_config_def)
  then show ?thesis
    by (simp add: example_pool_def pool_new_def example_geometry MIN_USABLE_def MIN_SHARD_USABLE_def Let_def
        example_split shard_cap_def shard_at_def shard_new_def clamp_def div_ceil_def)
qed

lemma example_reachable: "pool_reachable cidr4 example_config example_pool"
  by (rule pool_reachable.created [OF example_pool_new])

text \<open>The slot a name hashes to.\<close>

definition home_address :: "'n pool \<Rightarrow> bytes \<Rightarrow> u32" where
  "home_address p d = s_lo (shard_at p (home p d)) + fastrange (place d) (p_span p)"

text \<open>
  C18: a name that is interned in any pool the program can reach is resolvable from its address, in
  lower case, and every spelling of it gets the same address again, through any further sequence of
  interns and lookups (which all return) shorter than a shard's capacity: the least-recently-used
  eviction cannot reach it sooner.
\<close>

theorem interned_name_survives:
  assumes "pool_reachable N cfg p" and "length ops < shard_cap p"
  shows "\<exists>ip q r. pool_intern d p = Some (ip, q) \<and> run_ops ops q = Some r \<and>
    (\<exists>t. pool_lookback ip r = Some (Some (lowers d), t)) \<and>
    (\<forall>d'. lowers d' = lowers d \<longrightarrow> (\<exists>t. pool_intern d' r = Some (ip, t)))"
proof -
  have "pool_inv p" using reachable_inv assms(1) by blast
  from interned_survives [OF this assms(2), of d] show ?thesis by blast
qed

theorem interned_name_survives_witness:
  "\<exists>ip q r. pool_intern (bytes_of ''Example.com'') example_pool = Some (ip, q) \<and>
    run_ops [Intern (bytes_of ''a.com''), Lookback 0x07000005] q = Some r \<and>
    (\<exists>t. pool_lookback ip r = Some (Some (lowers (bytes_of ''Example.com'')), t))"
  using interned_name_survives [OF example_reachable, of "[Intern (bytes_of ''a.com''), Lookback 0x07000005]"
      "bytes_of ''Example.com''"] example_shard_cap by auto

text \<open>
  C19: in every reachable pool no two names share an address and no name has two, looking an address
  up answers the name of exactly the live entry there is (nothing otherwise), interning a live name
  answers its address, and the number of entries the pool reports is their number and within the
  capacity of its shards.
\<close>

theorem pool_is_a_bijection:
  assumes "pool_reachable N cfg p"
  shows "distinct (map fst (pool_entries p)) \<and> distinct (map snd (pool_entries p)) \<and>
    (\<forall>ip. \<exists>r q. pool_lookback ip p = Some (r, q) \<and> (\<forall>d. r = Some d \<longleftrightarrow> (d, ip) \<in> set (pool_entries p))) \<and>
    (\<forall>(d, ip) \<in> set (pool_entries p). \<exists>q. pool_intern d p = Some (ip, q)) \<and>
    pool_len p = length (pool_entries p) \<and> pool_len p \<le> unat (p_n_shards p) * shard_cap p"
proof -
  have p: "pool_inv p" using reachable_inv assms by blast
  show ?thesis
    using pool_entries_distinct [OF p] pool_lookback_iff [OF p] pool_entry_live(2) [OF p] pool_len_entries [OF p]
    by auto
qed

theorem pool_is_a_bijection_witness:
  "\<exists>ip q r t. pool_intern (bytes_of ''a.com'') example_pool = Some (ip, q) \<and>
     (lowers (bytes_of ''a.com''), ip) \<in> set (pool_entries q) \<and>
     pool_intern (lowers (bytes_of ''a.com'')) q = Some (ip, t) \<and>
     pool_lookback ip q = Some (Some (lowers (bytes_of ''a.com'')), r) \<and> 1 \<le> pool_len q"
proof -
  let ?d = "bytes_of ''a.com''"
  have "pool_inv example_pool" using reachable_inv example_reachable by blast
  then obtain ip q rest where q: "pool_intern ?d example_pool = Some (ip, q)" "home q ?d < length (p_shards q)"
      "shard_entries q (home q ?d) = (lowers ?d, ip) # rest"
    using pool_intern_entry [of example_pool ?d] by blast
  then have e: "(lowers ?d, ip) \<in> set (pool_entries q)"
    unfolding pool_entries_iff by (intro exI [of _ "home q ?d"]) simp
  have r: "pool_reachable cidr4 example_config q"
    by (rule pool_reachable.interned [OF example_reachable q(1)])
  note c = pool_is_a_bijection [OF r]
  obtain x t where "pool_lookback ip q = Some (x, t)" "x = Some (lowers ?d)" using c e by blast
  moreover obtain u where "pool_intern (lowers ?d) q = Some (ip, u)" using c e by blast
  moreover have "1 \<le> pool_len q" using c e by (cases "pool_entries q") auto
  ultimately show ?thesis using q(1) e by blast
qed

lemma interned_inside:
  assumes "ipnet_laws N" and "pool_reachable N cfg p" and "pool_intern d p = Some (ip, q)"
  shows "unat (net_network N (p_net p)) + 4 \<le> unat ip \<and> unat ip < unat (net_broadcast N (p_net p)) \<and>
    pool_contains N q (V4 ip)"
proof -
  have p: "pool_inv p" and pre: "inside_prefix N p" using reachable_inv assms(2) by blast+
  obtain rest where q: "pool_inv q" "home q d < length (p_shards q)" "shard_entries q (home q d) = (lowers d, ip) # rest"
    using pool_intern_entry [OF p, of d] assms(3) by auto
  then have "(lowers d, ip) \<in> set (pool_entries q)"
    unfolding pool_entries_iff by (intro exI [of _ "home q d"]) simp
  note e = pool_entry_home(3,5) [OF q(1) this]
  have g: "same_geometry p q" by (rule intern_next(2) [OF p assms(3)])
  then have "inside_prefix N q" by (rule inside_prefix_geometry [OF _ pre])
  with e have "unat (net_network N (p_net q)) + 4 \<le> unat ip" "unat ip < unat (net_broadcast N (p_net q))"
    by (auto simp: inside_prefix_def word_le_nat_alt)
  moreover from this have "pool_contains N q (V4 ip)"
    using assms(1) by (simp add: pool_contains_def ipnet_laws_def word_le_nat_alt)
  ultimately show ?thesis using g by (simp add: same_geometry_def)
qed

text \<open>
  C29: an address handed out by a reachable pool lies in the configured prefix, after its first four
  addresses and before its broadcast address, so that \<open>contains\<close> recognises it.
\<close>

theorem interned_address_in_prefix:
  assumes "ipnet_laws N" and "pool_reachable N cfg p" and "pool_intern d p = Some (ip, q)"
  shows "unat (net_network N (p_net p)) + 4 \<le> unat ip \<and> unat ip < unat (net_broadcast N (p_net p)) \<and>
    pool_contains N q (V4 ip)"
  by (rule interned_inside [OF assms])

theorem interned_address_in_prefix_witness:
  "\<exists>ip q. pool_intern (bytes_of ''a.com'') example_pool = Some (ip, q) \<and> 4 \<le> unat ip \<and>
     pool_contains cidr4 q (V4 ip)"
proof -
  have "pool_inv example_pool" using reachable_inv example_reachable by blast
  then obtain ip q where "pool_intern (bytes_of ''a.com'') example_pool = Some (ip, q)"
    using pool_intern_entry by blast
  with interned_address_in_prefix [OF cidr4_laws example_reachable this] show ?thesis by auto
qed

text \<open>
  Creating a pool fails exactly when the prefix leaves fewer than 16 usable addresses, with the
  numbers of that prefix in the error; otherwise the pool is empty, every shard has room for at least
  one entry and for no more than its slice has addresses, and the slices fill the usable range
  without leaving it.
\<close>

theorem pool_new_outcome:
  "case pool_new N cfg of
     Inl e \<Rightarrow> usable_addrs N (c_cidr cfg) < 16 \<and>
       e = CidrTooSmall (net_prefix_len N (net_trunc N (c_cidr cfg))) (usable_addrs N (c_cidr cfg)) 16
   | Inr p \<Rightarrow> 16 \<le> usable_addrs N (c_cidr cfg) \<and> pool_entries p = [] \<and> p_ttl p = c_ttl cfg \<and>
       p_net p = net_trunc N (c_cidr cfg) \<and> 16 \<le> p_span p \<and> 1 \<le> shard_cap p \<and>
       shard_cap p \<le> unat (p_span p) \<and> unat (net_network N (p_net p)) + 4 \<le> unat (p_lo p) \<and>
       unat (p_lo p) + unat (p_n_shards p) * unat (p_span p) \<le> unat (net_broadcast N (p_net p))"
proof (cases "usable_addrs N (c_cidr cfg) < 16")
  case True
  then obtain e where "pool_new N cfg = Inl e"
    using pool_new_error [of N cfg] by blast
  with pool_new_error [of N cfg e] show ?thesis by simp
next
  case False
  then have "16 \<le> usable_addrs N (c_cidr cfg)" by simp
  from this pool_new_ok [OF this] show ?thesis by auto
qed

text \<open>
  The address of a new name is a function of the name and of the pool's geometry as long as its
  hashed slot is free: it does not depend on what else was interned, nor on the order. (Restarting
  the program therefore gives back the same addresses, up to collisions.)
\<close>

theorem first_address_is_hashed:
  assumes "pool_reachable N cfg p" and "lowers d \<notin> fst ` set (pool_entries p)"
    and "home_address p d \<notin> snd ` set (pool_entries p)"
  shows "\<exists>q. pool_intern d p = Some (home_address p d, q)"
proof -
  have p: "pool_inv p" using reachable_inv assms(1) by blast
  let ?es = "shard_entries p (home p d)"
  have h: "home p d < length (p_shards p)" using home_less p by (auto simp: pool_inv_def)
  then have sub: "set ?es \<subseteq> set (pool_entries p)" using pool_entries_iff by blast
  then have "map_of ?es (lowers d) = None" using assms(2) by (auto simp: map_of_eq_None_iff)
  moreover have "home_address p d \<notin> snd ` set (make_room (shard_cap p) ?es)"
  proof -
    have "set (make_room (shard_cap p) ?es) \<subseteq> set ?es"
      by (auto simp: make_room_def dest: in_set_butlastD)
    then show ?thesis using assms(3) sub by blast
  qed
  ultimately have "lru_intern (shard_cap p) (s_lo (shard_at p (home p d))) (p_span p) (lowers d) (place d) ?es =
      Some (home_address p d, (lowers d, home_address p d) # make_room (shard_cap p) ?es)"
    by (simp add: lru_intern_def Let_def find_slot_def taken_in_def home_address_def)
  with pool_intern_step [OF p, of d] show ?thesis by auto
qed

theorem first_address_is_hashed_witness:
  "\<exists>q. pool_intern (bytes_of ''a.com'') example_pool = Some (home_address example_pool (bytes_of ''a.com''), q)"
proof (rule first_address_is_hashed [OF example_reachable])
  have "pool_entries example_pool = []"
    using pool_new_ok [of cidr4 example_config] example_pool_new by (auto simp: usable_addrs_def example_geometry)
  then show "lowers (bytes_of ''a.com'') \<notin> fst ` set (pool_entries example_pool)"
    and "home_address example_pool (bytes_of ''a.com'') \<notin> snd ` set (pool_entries example_pool)"
    by simp_all
qed

end
