(* ===== verification/DnsServer.thy ===== *)
theory DnsServer
  imports DnsMessage FakeIpPool
begin

text \<open>
  The DNS server of \<open>sniffbox/src/dns_server.rs\<close>: one packet in, one packet out, with the FakeIP pool
  as its only state. What it needs of the pool is stated as an interface, which the pool of
  \<open>FakeIpPool\<close> is shown to provide.
\<close>

section \<open>The interface of an address allocator\<close>

text \<open>
  \<open>ok\<close> is the provider's invariant. Interning and looking back always return; a name just interned
  is what its address looks back to, in lower case.
\<close>

locale fakeip_service =
  fixes ok :: "'s \<Rightarrow> bool"
    and intern :: "bytes \<Rightarrow> 's \<Rightarrow> (u32 \<times> 's) option"
    and lookback :: "u32 \<Rightarrow> 's \<Rightarrow> (bytes option \<times> 's) option"
  assumes intern_lookback:
      "ok p \<Longrightarrow> \<exists>ip q. intern d p = Some (ip, q) \<and> ok q \<and> (\<exists>r. lookback ip q = Some (Some (lowers d), r))"
    and lookback_returns: "ok p \<Longrightarrow> \<exists>r q. lookback ip p = Some (r, q) \<and> ok q"

section \<open>Handling one packet\<close>

text \<open>\<open>handle_query\<close>, with the pool's \<open>intern\<close> and its time to live as arguments.\<close>

definition answer_packet ::
  "(bytes \<Rightarrow> 's \<Rightarrow> (u32 \<times> 's) option) \<Rightarrow> u32 \<Rightarrow> bytes \<Rightarrow> 's \<Rightarrow> (bytes \<times> 's) option" where
  "answer_packet intern ttl buf p =
     (case parse_query buf of
        Inl e \<Rightarrow> map_option (\<lambda>r. (r, p)) (error_response buf RCODE_FORMERR)
      | Inr q \<Rightarrow>
          if q_qclass q \<noteq> CLASS_IN then map_option (\<lambda>r. (r, p)) (query_error q RCODE_NOTIMP)
          else if q_qtype q = TYPE_A then
            (if \<not> is_valid_fakeip_domain (q_name q)
             then map_option (\<lambda>r. (r, p)) (query_error q RCODE_NXDOMAIN)
             else do { (ip, p) \<leftarrow> intern (q_name q) p; r \<leftarrow> answer_a q ip ttl; Some (r, p) })
          else map_option (\<lambda>r. (r, p)) (nodata q))"

definition handle_query :: "bytes \<Rightarrow> 'n pool \<Rightarrow> (bytes \<times> 'n pool) option" where
  "handle_query buf pool = answer_packet pool_intern (p_ttl pool) buf pool"

text \<open>Does this packet get an address?\<close>

definition wants_address :: "bytes \<Rightarrow> bool" where
  "wants_address buf \<longleftrightarrow>
     (case parse_query buf of Inl e \<Rightarrow> False
      | Inr q \<Rightarrow> is_a q \<and> is_valid_fakeip_domain (q_name q))"

section \<open>The receive loop\<close>

text \<open>
  What the loop's \<open>select!\<close> can deliver: a change of the shutdown flag, a datagram, a receive error
  (logged, then a pause). \<open>recv_from\<close> cuts a datagram to the 1500 bytes of the buffer. A failed send
  is only logged, so an answer is recorded as sent.
\<close>

datatype 'a dns_event = Shutdown bool | Datagram 'a bytes | RecvError

fun run_dns_server :: "'a dns_event list \<Rightarrow> 'n pool \<Rightarrow> ('a \<times> bytes) list \<Rightarrow> (('a \<times> bytes) list \<times> 'n pool) option" where
  "run_dns_server [] p out = Some (out, p)"
| "run_dns_server (Shutdown b # es) p out = (if b then Some (out, p) else run_dns_server es p out)"
| "run_dns_server (RecvError # es) p out = run_dns_server es p out"
| "run_dns_server (Datagram peer data # es) p out = do {
     (r, p) \<leftarrow> handle_query (take 1500 data) p;
     run_dns_server es p (out @ [(peer, r)]) }"

text \<open>The senders that are due an answer: those heard before the first true shutdown flag.\<close>

fun heard :: "'a dns_event list \<Rightarrow> 'a list" where
  "heard [] = []"
| "heard (Shutdown b # es) = (if b then [] else heard es)"
| "heard (RecvError # es) = heard es"
| "heard (Datagram peer data # es) = peer # heard es"

section \<open>One packet, for any allocator\<close>

lemma echo_header_some:
  assumes "parse_query buf = Inr q"
  shows "\<exists>out. echo_header q rcode an = Some out \<and> length out = question_end q \<and> 12 \<le> length out \<and>
    be16_of (out ! 6) (out ! 7) = an \<and> out ! 2 = 0x80 OR (if q_rd q then 1 else 0) \<and> out ! 3 = 0x80 OR (rcode AND 0x0F) \<and>
    be16_of (out ! 0) (out ! 1) = q_id q"
proof -
  note b = parse_query_bounds [OF assms]
  from b have "echo_prefix q = Some (take (question_end q) buf)" by (simp add: echo_prefix_def)
  moreover have "12 \<le> length (take (question_end q) buf)" using b(2,3) by simp
  moreover obtain o' where o': "write_response_header (take (question_end q) buf) (q_rd q) rcode an = Some o'"
    using calculation(2) write_response_header_Some by blast
  moreover have "be16_of (buf ! 0) (buf ! 1) = q_id q"
    using assms by (auto elim: parse_query_Inr)
  ultimately show ?thesis
    using write_response_header_nth [OF o'] b(2,3) by (simp add: echo_header_def)
qed

text \<open>A response as a resolver recognises one: a header with the response bit.\<close>

definition is_response :: "bytes \<Rightarrow> bool" where
  "is_response r \<longleftrightarrow> 12 \<le> length r \<and> r ! 2 AND 0x80 \<noteq> 0"

lemma response_bit: "(0x80 OR x) AND 0x80 \<noteq> (0 :: u8)"
proof -
  have "bit ((0x80 OR x) AND 0x80 :: u8) 7" by (simp add: bit_simps)
  then show ?thesis by (metis bit_0_eq bot_apply bot_bool_def)
qed

lemma echo_header_response:
  "parse_query buf = Inr q \<Longrightarrow> \<exists>out. echo_header q rcode an = Some out \<and> is_response (out @ ext)"
  using echo_header_some [of buf q rcode an] response_bit by (auto simp: is_response_def nth_append)

lemma rcode_bits: "(0x80 OR (x AND 0x0F)) AND 0x0F = (x AND 0x0F :: u8)"
  by (simp add: bit.conj_disj_distrib2 and.assoc)

lemma echo_header_fields:
  assumes "parse_query buf = Inr q"
  shows "\<exists>out. echo_header q rcode an = Some out \<and> 12 \<le> length out \<and> out ! 2 AND 0x80 \<noteq> 0 \<and>
    be16_of (out ! 6) (out ! 7) = an \<and> out ! 3 AND 0x0F = rcode AND 0x0F"
  using echo_header_some [OF assms, of rcode an] response_bit rcode_bits by auto

lemma error_response_header:
  "\<exists>out. error_response buf rcode = Some out \<and> length out = 12 \<and> out ! 2 = 0x80 \<and>
     out ! 3 = 0x80 OR (rcode AND 0x0F) \<and> be16_of (out ! 6) (out ! 7) = 0"
  by (simp add: error_response_def write_response_header_def Let_def numeral_eq_Suc to_be16_def be16_of_def)

text \<open>The query a client builds announces one question; its valid names are ASCII.\<close>

lemma built_query_count:
  assumes "build_query_with qid name qtype rd = Inr out"
  shows "be16_of (out ! 4) (out ! 5) = 1"
proof -
  have enc: "encode_labels o0 ls = Inr o1 \<Longrightarrow> \<exists>ext. o1 = o0 @ ext" for ls o0 o1
    by (induction ls arbitrary: o0) (simp, fastforce split: if_splits)
  obtain ext where "out = to_be16 qid @ to_be16 (if rd then 0x0100 else 0) @ to_be16 1 @ ext"
    using assms by (auto simp: build_query_with_def Let_def on_ok_Inr_iff split: if_splits dest!: enc)
  then show ?thesis by (simp add: to_be16_def be16_of_def)
qed

lemma valid_domain_ascii:
  assumes "is_valid_fakeip_domain name" and "last name \<noteq> dot"
  shows "\<forall>b\<in>set name. b < 128"
proof
  fix b assume b: "b \<in> set name"
  have sd: "strip_dot name = name" using assms(2) by (simp add: strip_dot_def)
  have v: "list_all is_valid_label (split_on dot name)"
    using assms(1) by (simp add: valid_domain_iff valid_domain_spec_def sd Let_def)
  have "b \<in> set (join_with dot (split_on dot name))" using b by simp
  moreover have "set (join_with dot ls) \<subseteq> insert dot (\<Union> (set ` set ls))" for ls
    by (induction ls rule: induct_list012) auto
  ultimately have "b = dot \<or> (\<exists>l\<in>set (split_on dot name). b \<in> set l)" by blast
  then show "b < 128"
    using v is_valid_label_bounds(3) by (auto simp: list_all_iff)
qed

context fakeip_service
begin

lemma answers:
  assumes "ok p"
  shows "\<exists>r q. answer_packet intern ttl buf p = Some (r, q) \<and> ok q \<and> is_response r"
proof (cases "parse_query buf")
  case (Inl e)
  obtain out where "error_response buf RCODE_FORMERR = Some out" "length out = 12" "out ! 2 = 0x80"
    using error_response_parses by blast
  with Inl assms show ?thesis
    by (simp add: answer_packet_def is_response_def)
next
  case (Inr q)
  note e = echo_header_response [OF Inr, of _ _ "[]", simplified]
  show ?thesis
  proof (cases "q_qclass q = CLASS_IN \<and> q_qtype q = TYPE_A \<and> is_valid_fakeip_domain (q_name q)")
    case True
    obtain ip p' where "intern (q_name q) p = Some (ip, p')" "ok p'"
      using intern_lookback [OF assms] by blast
    then show ?thesis
      using Inr True echo_header_response [OF Inr, of 0 1]
      by (fastforce simp: answer_packet_def answers_by_header)
  next
    case False
    then show ?thesis
      using Inr assms e [of RCODE_NOTIMP 0] e [of RCODE_NXDOMAIN 0] e [of RCODE_NOERROR 0]
      by (auto simp: answer_packet_def answers_by_header)
  qed
qed

lemma keeps_pool:
  assumes "\<not> wants_address buf" and "answer_packet intern ttl buf p = Some (r, q)"
  shows "q = p"
  using assms by (auto simp: answer_packet_def wants_address_def is_a_def split: sum.splits if_splits)

lemma resolves:
  assumes p: "ok p" and q: "parse_query buf = Inr q" "be16_of (buf ! 4) (buf ! 5) = 1"
    and w: "wants_address buf"
  shows "\<exists>r p' ip t. answer_packet intern ttl buf p = Some (r, p') \<and> ok p' \<and>
    parse_response r = Inr ((empty_response (q_id q) RCODE_NOERROR)
      \<lparr>r_v4 := [ip], r_min_ttl := (if ttl = - 1 then 0 else ttl)\<rparr>) \<and>
    lookback ip p' = Some (Some (lowers (q_name q)), t) \<and> intern (q_name q) p = Some (ip, p')"
proof -
  obtain ip p' t where i: "intern (q_name q) p = Some (ip, p')" "ok p'"
      "lookback ip p' = Some (Some (lowers (q_name q)), t)"
    using intern_lookback [OF p] by blast
  obtain r where "answer_a q ip ttl = Some r" "parse_response r = Inr ((empty_response (q_id q) RCODE_NOERROR)
      \<lparr>r_v4 := [ip], r_min_ttl := (if ttl = - 1 then 0 else ttl)\<rparr>)"
    using answer_a_parses [OF q, of ip ttl] by blast
  with i q w show ?thesis
    by (auto simp: answer_packet_def wants_address_def is_a_def)
qed

end

section \<open>The pool provides the interface\<close>

interpretation pool_service: fakeip_service pool_inv pool_intern pool_lookback
proof unfold_locales
  fix p :: "'n pool" and d ip
  assume p: "pool_inv p"
  obtain a q rest where q: "pool_intern d p = Some (a, q)" "pool_inv q" "home q d < length (p_shards q)"
      "shard_entries q (home q d) = (lowers d, a) # rest"
    using pool_intern_entry [OF p, of d] by blast
  then have "(lowers d, a) \<in> set (shard_entries q (home q d))" by simp
  from pool_entry_lookback [OF q(2,3) this] q(1,2)
  show "\<exists>ip q. pool_intern d p = Some (ip, q) \<and> pool_inv q \<and>
      (\<exists>r. pool_lookback ip q = Some (Some (lowers d), r))"
    by blast
  show "\<exists>r q. pool_lookback ip p = Some (r, q) \<and> pool_inv q"
    using run_op_step [OF p, of "Lookback ip"] by fastforce
qed

section \<open>Properties\<close>

lemma handle_query_reachable:
  assumes "pool_reachable N cfg p"
  shows "\<exists>r q. handle_query buf p = Some (r, q) \<and> pool_reachable N cfg q \<and> is_response r"
proof -
  have p: "pool_inv p" using reachable_inv assms by blast
  obtain r q where q: "handle_query buf p = Some (r, q)" "is_response r"
    using pool_service.answers [OF p] unfolding handle_query_def by blast
  have "pool_reachable N cfg q"
  proof (cases "wants_address buf")
    case True
    then obtain pq ip where "parse_query buf = Inr pq" "pool_intern (q_name pq) p = Some (ip, q)"
      using q(1) by (auto simp: handle_query_def answer_packet_def wants_address_def is_a_def
          split: sum.splits bind_splits)
    then show ?thesis using assms by (blast intro: pool_reachable.interned)
  next
    case False
    then show ?thesis
      using pool_service.keeps_pool q(1) assms unfolding handle_query_def by metis
  qed
  with q show ?thesis by blast
qed

lemma valid_name_query:
  assumes "pool_inv p" and "is_valid_fakeip_domain name" and "last name \<noteq> dot"
  shows "\<exists>pkt r q ip t. build_query qid name TYPE_A = Inr pkt \<and> handle_query pkt p = Some (r, q) \<and>
    parse_response r = Inr ((empty_response qid RCODE_NOERROR)
        \<lparr>r_v4 := [ip], r_min_ttl := (if p_ttl p = - 1 then 0 else p_ttl p)\<rparr>) \<and>
    pool_lookback ip q = Some (Some (lowers name), t) \<and> pool_intern (lowers name) p = Some (ip, q)"
proof -
  obtain pkt where pkt: "build_query qid name TYPE_A = Inr pkt"
    using build_query_valid_name [OF assms(2,3)] unfolding build_query_def by blast
  have asc: "\<forall>b\<in>set name. b < 128" by (rule valid_domain_ascii [OF assms(2,3)])
  let ?q = "\<lparr> q_id = qid, q_rd = True, q_name = lowers name, q_qtype = TYPE_A, q_qclass = CLASS_IN,
    question_end = length pkt, q_raw = pkt \<rparr>"
  have q: "parse_query pkt = Inr ?q"
    using built_query_parses pkt asc unfolding build_query_def by blast
  have one: "be16_of (pkt ! 4) (pkt ! 5) = 1" by (rule built_query_count [OF pkt [unfolded build_query_def]])
  have "wants_address pkt"
    using q assms(2) by (simp add: wants_address_def is_a_def valid_domain_case_insensitive)
  from pool_service.resolves [OF assms(1) q one this, of "p_ttl p"] show ?thesis
    using pkt by (auto simp: handle_query_def)
qed

text \<open>
  C17: a query for the address of a valid name, built as a resolver builds it and served by any pool
  the program can reach, is answered with a packet that parses to that query's id, no error, exactly
  one address and the pool's time to live; and that address looks back to the name.
\<close>

theorem dns_answer_resolves_back:
  assumes "pool_reachable N cfg p" and "is_valid_fakeip_domain name" and "last name \<noteq> dot"
  shows "\<exists>pkt r q ip t. build_query qid name TYPE_A = Inr pkt \<and> handle_query pkt p = Some (r, q) \<and>
    parse_response r = Inr \<lparr> r_id = qid, r_rcode = RCODE_NOERROR, r_v4 = [ip], r_v6 = [], r_txt = [], r_mx = [],
      r_srv = [], r_min_ttl = (if p_ttl p = - 1 then 0 else p_ttl p) \<rparr> \<and>
    pool_lookback ip q = Some (Some (lowers name), t) \<and> pool_reachable N cfg q"
proof -
  have p: "pool_inv p" using reachable_inv assms(1) by blast
  from valid_name_query [OF p assms(2,3), of qid] obtain pkt r q ip t where
    r: "build_query qid name TYPE_A = Inr pkt" "handle_query pkt p = Some (r, q)"
      "parse_response r = Inr ((empty_response qid RCODE_NOERROR)
        \<lparr>r_v4 := [ip], r_min_ttl := (if p_ttl p = - 1 then 0 else p_ttl p)\<rparr>)"
      "pool_lookback ip q = Some (Some (lowers name), t)"
    by blast
  moreover have "pool_reachable N cfg q"
    using handle_query_reachable [OF assms(1), of pkt] r(2) by auto
  ultimately show ?thesis by auto
qed

theorem dns_answer_resolves_back_witness:
  "\<exists>pkt r q ip t. build_query 7 (bytes_of ''Ab.io'') TYPE_A = Inr pkt \<and> handle_query pkt example_pool = Some (r, q) \<and>
    (\<exists>rsp. parse_response r = Inr rsp \<and> r_id rsp = 7 \<and> r_v4 rsp = [ip]) \<and>
    pool_lookback ip q = Some (Some (lowers (bytes_of ''Ab.io'')), t)"
proof -
  have "is_valid_fakeip_domain (bytes_of ''Ab.io'')" "last (bytes_of ''Ab.io'') \<noteq> dot" by code_simp+
  from dns_answer_resolves_back [OF example_reachable this, of 7] show ?thesis by fastforce
qed

text \<open>
  A packet that is not a well-formed address query for a valid name gets no address and leaves
  the pool as it is; the answer carries no record and the code the server means: format error for
  what does not parse, not implemented for another class, name error for an invalid or reserved
  name, no error for another type.
\<close>

theorem other_packets_get_no_address:
  assumes "\<not> wants_address buf"
  shows "\<exists>r. handle_query buf p = Some (r, p) \<and> is_response r \<and> be16_of (r ! 6) (r ! 7) = 0 \<and>
    r ! 3 AND 0x0F =
      (case parse_query buf of Inl e \<Rightarrow> RCODE_FORMERR
       | Inr q \<Rightarrow> if q_qclass q \<noteq> CLASS_IN then RCODE_NOTIMP
                 else if q_qtype q = TYPE_A then RCODE_NXDOMAIN else RCODE_NOERROR)"
proof (cases "parse_query buf")
  case (Inl e)
  obtain out where "error_response buf RCODE_FORMERR = Some out" "length out = 12" "out ! 2 = 0x80"
      "out ! 3 = 0x80 OR (RCODE_FORMERR AND 0x0F)" "be16_of (out ! 6) (out ! 7) = 0"
    using error_response_header by blast
  with Inl show ?thesis by (simp add: handle_query_def answer_packet_def is_response_def)
next
  case (Inr q)
  have h: "\<exists>out. echo_header q rcode 0 = Some out \<and> is_response out \<and> be16_of (out ! 6) (out ! 7) = 0 \<and>
      out ! 3 AND 0x0F = rcode AND 0x0F" for rcode
    using echo_header_fields [OF Inr] by (auto simp: is_response_def)
  show ?thesis
    using Inr assms h [of RCODE_NOTIMP] h [of RCODE_NXDOMAIN] h [of RCODE_NOERROR]
    by (auto simp: handle_query_def answer_packet_def answers_by_header wants_address_def is_a_def)
qed

theorem other_packets_get_no_address_witness:
  "\<exists>r. handle_query [0, 1, 2] example_pool = Some (r, example_pool) \<and> r ! 3 AND 0x0F = RCODE_FORMERR"
proof -
  have "parse_query [0, 1, 2] = Inl Truncated" by code_simp
  then show ?thesis
    using other_packets_get_no_address [of "[0, 1, 2]" example_pool] by (auto simp: wants_address_def)
qed

text \<open>
  C30: whatever the socket delivers, the server never panics: it answers every datagram it hears before
  it is told to stop, each to its sender and in order, with a response packet, and the pool stays one
  that the pool's operations can reach.
\<close>

theorem dns_server_answers_all:
  assumes "pool_reachable N cfg p"
  shows "\<exists>out q. run_dns_server es p [] = Some (out, q) \<and> map fst out = heard es \<and>
    list_all (\<lambda>(peer, r). is_response r) out \<and> pool_reachable N cfg q"
proof -
  have "\<exists>out q. run_dns_server es p acc = Some (acc @ out, q) \<and> map fst out = heard es \<and>
      list_all (\<lambda>(peer, r). is_response r) out \<and> pool_reachable N cfg q" for acc
    using assms
  proof (induction es arbitrary: p acc)
    case (Cons e es)
    show ?case
    proof (cases e)
      case (Datagram peer data)
      obtain r q where q: "handle_query (take 1500 data) p = Some (r, q)" "pool_reachable N cfg q" "is_response r"
        using handle_query_reachable [OF Cons.prems] by blast
      from Cons.IH [OF q(2), of "acc @ [(peer, r)]"] obtain out q' where
        "run_dns_server es q (acc @ [(peer, r)]) = Some ((acc @ [(peer, r)]) @ out, q')"
        "map fst out = heard es" "list_all (\<lambda>(peer, r). is_response r) out" "pool_reachable N cfg q'"
        by blast
      with q Datagram show ?thesis by (intro exI [of _ "(peer, r) # out"] exI [of _ q']) simp
    qed (use Cons in auto)
  qed simp
  from this [of "[]"] show ?thesis by simp
qed

theorem dns_server_answers_all_witness:
  "\<exists>out q. run_dns_server [Datagram ''a'' [], RecvError, Datagram ''b'' [7], Shutdown True, Datagram ''c'' []]
     example_pool [] = Some (out, q) \<and> map fst out = [''a'', ''b'']"
  using dns_server_answers_all [OF example_reachable,
      of "[Datagram ''a'' [], RecvError, Datagram ''b'' [7], Shutdown True, Datagram ''c'' []]"] by fastforce

end
