(* ===== verification/TlsSniff.thy ===== *)
theory TlsSniff
  imports Base
begin

text \<open>
  Reading the server name out of a TLS ClientHello (\<open>sb-sniff/src/tls.rs\<close> and the error type of
  \<open>sb-sniff/src/error.rs\<close>): the reassembly of a handshake message from TLS records, the cursor the
  parser reads through, and the parser itself.
\<close>

section \<open>Errors and the cursor\<close>

datatype parse_err = Short (err_need: nat) (err_have: nat) | NotHandshake | NotClientHello | TruncatedExt
  | Malformed string

record reader =
  rd_buf :: bytes
  rd_pos :: nat

type_synonym 'a parser = "(reader, parse_err, 'a) comp"

definition reader_new :: "bytes \<Rightarrow> reader" where
  "reader_new buf = \<lparr> rd_buf = buf, rd_pos = 0 \<rparr>"

definition rd_is_empty :: "reader \<Rightarrow> bool" where
  "rd_is_empty r \<longleftrightarrow> rd_pos r \<ge> length (rd_buf r)"

definition rd_remaining :: "reader \<Rightarrow> nat" where
  "rd_remaining r = length (rd_buf r) - rd_pos r"

definition rd_need :: "nat \<Rightarrow> unit parser" where
  "rd_need n = (\<lambda>r. if rd_remaining r < n then (Inl (Short n (rd_remaining r)), r) else (Inr (), r))"

text \<open>Reading the bytes under the cursor; \<open>rd_need\<close> has checked that they are there.\<close>

definition rd_byte :: "nat \<Rightarrow> reader \<Rightarrow> u8" where
  "rd_byte i r = rd_buf r ! (rd_pos r + i)"

definition rd_advance :: "nat \<Rightarrow> (reader \<Rightarrow> 'a) \<Rightarrow> 'a parser" where
  "rd_advance n f = (\<lambda>r. (Inr (f r), r\<lparr>rd_pos := rd_pos r + n\<rparr>))"

definition rd_u8 :: "u8 parser" where
  "rd_u8 = and_then (rd_need 1) (\<lambda>_. rd_advance 1 (rd_byte 0))"

definition rd_u16 :: "u16 parser" where
  "rd_u16 = and_then (rd_need 2) (\<lambda>_. rd_advance 2 (\<lambda>r. be16_of (rd_byte 0 r) (rd_byte 1 r)))"

definition rd_u24 :: "u32 parser" where
  "rd_u24 = and_then (rd_need 3) (\<lambda>_. rd_advance 3 (\<lambda>r.
     push_bit 16 (ucast (rd_byte 0 r)) OR push_bit 8 (ucast (rd_byte 1 r)) OR ucast (rd_byte 2 r)))"

definition rd_slice :: "nat \<Rightarrow> bytes parser" where
  "rd_slice n = and_then (rd_need n) (\<lambda>_. rd_advance n (\<lambda>r. take n (drop (rd_pos r) (rd_buf r))))"

definition rd_skip :: "nat \<Rightarrow> unit parser" where
  "rd_skip n = and_then (rd_need n) (\<lambda>_. rd_advance n (\<lambda>_. ()))"

section \<open>Reassembling the handshake message\<close>

definition MAX_HANDSHAKE :: nat where "MAX_HANDSHAKE = 64 * 1024"

definition u24_at :: "bytes \<Rightarrow> nat" where
  "u24_at buf = unat (buf ! 1) * 2 ^ 16 + unat (buf ! 2) * 2 ^ 8 + unat (buf ! 3)"

definition record_at :: "bytes \<Rightarrow> nat \<Rightarrow> parse_err + (bytes \<times> nat)" where
  "record_at buf off =
     (if length buf < off + 5 then Inl (Short (off + 5) (length buf))
      else if buf ! off \<noteq> 0x16 then Inl NotHandshake
      else let len = unat (be16_of (buf ! (off + 3)) (buf ! (off + 4))); end = off + 5 + len in
        if length buf < end then Inl (Short end (length buf))
        else Inr (take len (drop (off + 5) buf), end))"

lemma record_at_progress: "record_at buf off = Inr (body, n) \<Longrightarrow> off + 5 \<le> n \<and> n \<le> length buf"
  by (auto simp: record_at_def Let_def split: if_splits)

text \<open>The message in \<open>out\<close>, when its length is known and all of it is there.\<close>

definition message_ready :: "bytes \<Rightarrow> parse_err + bytes option" where
  "message_ready out =
     (if length out \<ge> 4 then
        (let need = 4 + u24_at out in
         if need > MAX_HANDSHAKE then Inl (Malformed ''tls handshake too large'')
         else if length out \<ge> need then Inr (Some (take need out)) else Inr None)
      else Inr None)"

function collect_loop :: "bytes \<Rightarrow> bytes \<Rightarrow> nat \<Rightarrow> parse_err + bytes" where
  "collect_loop buf out next =
     on_ok (message_ready out) (\<lambda>m. case m of Some hs \<Rightarrow> Inr hs
       | None \<Rightarrow> (case record_at buf next of Inl e \<Rightarrow> Inl e
         | Inr (body, n) \<Rightarrow>
             if length out + length body > MAX_HANDSHAKE then Inl (Malformed ''tls handshake too large'')
             else collect_loop buf (out @ body) n))"
  by pat_completeness auto
termination
  by (relation "measure (\<lambda>(buf, out, next). length buf - next)") (auto dest!: record_at_progress)

declare collect_loop.simps [simp del]

definition collect_handshake :: "bytes \<Rightarrow> parse_err + bytes" where
  "collect_handshake buf =
     on_ok (record_at buf 0) (\<lambda>(first, next).
       on_ok (message_ready first) (\<lambda>m. case m of Some hs \<Rightarrow> Inr hs | None \<Rightarrow> collect_loop buf first next))"

section \<open>The ClientHello\<close>

record client_hello =
  ch_version :: u16
  ch_sni :: "bytes option"
  ch_alpns :: "bytes list"
  ch_ech_outer :: bool

text \<open>A loop \<open>while !r.is_empty() { ... }\<close> over length-prefixed items: one item is read at a time.\<close>

definition read_name_item :: "(u8 \<times> bytes) parser" where
  "read_name_item = and_then rd_u8 (\<lambda>name_type. and_then rd_u16 (\<lambda>name_len.
     and_then (rd_slice (unat name_len)) (\<lambda>name. ret (name_type, name))))"

definition read_alpn_item :: "bytes parser" where
  "read_alpn_item = and_then rd_u8 (\<lambda>n. rd_slice (unat n))"

definition read_extension :: "(u16 \<times> bytes) parser" where
  "read_extension = and_then rd_u16 (\<lambda>kind. and_then rd_u16 (\<lambda>len.
     and_then (rd_slice (unat len)) (\<lambda>body. ret (kind, body))))"

lemmas reader_simps = rd_need_def rd_advance_def rd_u8_def rd_u16_def rd_u24_def rd_slice_def rd_skip_def
  rd_remaining_def rd_is_empty_def and_then_def ret_def

lemma read_name_item_progress: "read_name_item r = (Inr x, r') \<Longrightarrow> rd_remaining r' < rd_remaining r"
  by (auto simp: read_name_item_def reader_simps split: if_splits)

lemma read_alpn_item_progress: "read_alpn_item r = (Inr x, r') \<Longrightarrow> rd_remaining r' < rd_remaining r"
  by (auto simp: read_alpn_item_def reader_simps split: if_splits)

lemma read_extension_progress: "read_extension r = (Inr x, r') \<Longrightarrow> rd_remaining r' < rd_remaining r"
  by (auto simp: read_extension_def reader_simps split: if_splits)

function sni_loop :: "reader \<Rightarrow> parse_err + bytes option" where
  "sni_loop lr =
     (if rd_is_empty lr then Inr None
      else case read_name_item lr of
        (Inl e, _) \<Rightarrow> Inl e
      | (Inr (name_type, name), lr) \<Rightarrow>
          if name_type = 0 then Inr (if utf8_ok name then Some name else None) else sni_loop lr)"
  by pat_completeness auto
termination
  by (relation "measure rd_remaining") (auto dest!: sym [of _ "read_name_item _"] read_name_item_progress)

function alpn_loop :: "reader \<Rightarrow> bytes list \<Rightarrow> parse_err + bytes list" where
  "alpn_loop lr out =
     (if rd_is_empty lr then Inr out
      else case read_alpn_item lr of (Inl e, _) \<Rightarrow> Inl e | (Inr p, lr) \<Rightarrow> alpn_loop lr (out @ [p]))"
  by pat_completeness auto
termination
  by (relation "measure (rd_remaining \<circ> fst)") (auto dest!: sym [of _ "read_alpn_item _"] read_alpn_item_progress)

declare sni_loop.simps [simp del] alpn_loop.simps [simp del]

text \<open>Both extension bodies are a 16-bit length and a list of that many bytes.\<close>

definition read_list :: "bytes parser" where
  "read_list = and_then rd_u16 (\<lambda>n. rd_slice (unat n))"

definition parse_sni_ext :: "bytes \<Rightarrow> parse_err + bytes option" where
  "parse_sni_ext body = on_ok (fst (read_list (reader_new body))) (\<lambda>list. sni_loop (reader_new list))"

definition parse_alpn_ext :: "bytes \<Rightarrow> parse_err + bytes list" where
  "parse_alpn_ext body = on_ok (fst (read_list (reader_new body))) (\<lambda>list. alpn_loop (reader_new list) [])"

definition take_extension :: "u16 \<Rightarrow> bytes \<Rightarrow> client_hello \<Rightarrow> parse_err + client_hello" where
  "take_extension kind body out =
     (if kind = 0x0000 then
        on_ok (parse_sni_ext body) (\<lambda>sni. Inr (if sni \<noteq> None then out\<lparr>ch_sni := sni\<rparr> else out))
      else if kind = 0x0010 then on_ok (parse_alpn_ext body) (\<lambda>a. Inr (out\<lparr>ch_alpns := a\<rparr>))
      else if kind = 0xfe0d then Inr (out\<lparr>ch_ech_outer := (body \<noteq> [] \<and> hd body = 0)\<rparr>)
      else Inr out)"

function ext_loop :: "reader \<Rightarrow> client_hello \<Rightarrow> parse_err + client_hello" where
  "ext_loop er out =
     (if rd_is_empty er then Inr out
      else case read_extension er of
        (Inl e, _) \<Rightarrow> Inl e
      | (Inr (kind, body), er) \<Rightarrow>
          (case take_extension kind body out of Inl e \<Rightarrow> Inl e | Inr out \<Rightarrow> ext_loop er out))"
  by pat_completeness auto
termination
  by (relation "measure (rd_remaining \<circ> fst)") (auto dest!: sym [of _ "read_extension _"] read_extension_progress)

declare ext_loop.simps [simp del]

text \<open>The fields before the extensions.\<close>

definition read_hello_head :: "u16 parser" where
  "read_hello_head =
     and_then rd_u16 (\<lambda>legacy_version. and_then (rd_slice 32) (\<lambda>_.
     and_then rd_u8 (\<lambda>sid_len. and_then (rd_skip (unat sid_len)) (\<lambda>_.
     and_then rd_u16 (\<lambda>cs_len. and_then (rd_skip (unat cs_len)) (\<lambda>_.
     and_then rd_u8 (\<lambda>cm_len. and_then (rd_skip (unat cm_len)) (\<lambda>_. ret legacy_version))))))))"

definition parse_hello_body :: "bytes \<Rightarrow> parse_err + client_hello" where
  "parse_hello_body body =
     (case read_hello_head (reader_new body) of
        (Inl e, _) \<Rightarrow> Inl e
      | (Inr v, br) \<Rightarrow>
          let out = \<lparr> ch_version = v, ch_sni = None, ch_alpns = [], ch_ech_outer = False \<rparr> in
          if rd_is_empty br then Inr out
          else on_ok (fst (read_list br)) (\<lambda>exts. ext_loop (reader_new exts) out))"

definition parse_handshake :: "bytes \<Rightarrow> parse_err + client_hello" where
  "parse_handshake hs =
     on_ok (fst (and_then rd_u8 (\<lambda>ht. if ht \<noteq> 0x01 then raise NotClientHello
         else and_then rd_u24 (\<lambda>hs_len. rd_slice (unat hs_len))) (reader_new hs)))
       parse_hello_body"

definition parse_client_hello :: "bytes \<Rightarrow> parse_err + client_hello" where
  "parse_client_hello buf =
     on_ok (fst (and_then rd_u8 (\<lambda>ct. if ct \<noteq> 0x16 then raise NotHandshake
         else and_then rd_u16 (\<lambda>_. and_then rd_u16 (\<lambda>rec_len. rd_slice (unat rec_len)))) (reader_new buf)))
       parse_handshake"

section \<open>Reassembly waits, and does not depend on the record boundaries\<close>

text \<open>A record seen through a prefix of the buffer is the record of the buffer, or is not there yet.\<close>

definition waits :: "parse_err + 'a \<Rightarrow> bool" where
  "waits r \<longleftrightarrow> (\<exists>n h. r = Inl (Short n h))"

lemma waits_Short [simp]: "waits (Inl (Short n h))"
  by (simp add: waits_def)

lemma record_at_take: "waits (record_at (take k buf) off) \<or> record_at (take k buf) off = record_at buf off"
proof (cases "length (take k buf) < off + 5")
  case True
  then show ?thesis by (simp add: record_at_def)
next
  case False
  then have n: "take k buf ! i = buf ! i" if "i < off + 5" for i
    using that by simp
  have have5: "off + 5 \<le> length buf" using False by simp
  let ?len = "unat (be16_of (buf ! (off + 3)) (buf ! (off + 4)))"
  show ?thesis
  proof (cases "length (take k buf) < off + 5 + ?len")
    case True
    then show ?thesis
      using False have5 n [of off] n [of "off + 3"] n [of "off + 4"] by (simp add: record_at_def Let_def)
  next
    case F: False
    then have "?len \<le> k - (off + 5)" by simp
    then have "take ?len (drop (off + 5) (take k buf)) = take ?len (drop (off + 5) buf)"
      by (simp add: drop_take min_def)
    then show ?thesis
      using False F have5 n [of off] n [of "off + 3"] n [of "off + 4"] by (auto simp: record_at_def Let_def)
  qed
qed

lemma collect_loop_take:
  "waits (collect_loop (take k buf) out next) \<or> collect_loop (take k buf) out next = collect_loop buf out next"
proof (induction "length buf - next" arbitrary: out "next" rule: less_induct)
  case less
  note step = collect_loop.simps [of "take k buf" out "next"] collect_loop.simps [of buf out "next"]
  show ?case
  proof (cases "message_ready out = Inr None")
    case False
    then show ?thesis unfolding step by (cases "message_ready out") (auto split: option.splits)
  next
    case True
    consider "waits (record_at (take k buf) next)" | e where "record_at (take k buf) next = Inl e" "record_at buf next = Inl e"
      | body n where "record_at (take k buf) next = Inr (body, n)" "record_at buf next = Inr (body, n)"
      using record_at_take [of k buf "next"] by (metis old.sum.exhaust surj_pair)
    then show ?thesis
    proof cases
      case 1
      then show ?thesis unfolding step True by (auto simp: waits_def)
    next
      case 2
      then show ?thesis unfolding step True by simp
    next
      case 3
      then have "length buf - n < length buf - next" using record_at_progress by fastforce
      from less [OF this, of "out @ body"] 3 show ?thesis unfolding step True by auto
    qed
  qed
qed

lemma collect_take:
  "waits (collect_handshake (take k buf)) \<or> collect_handshake (take k buf) = collect_handshake buf"
proof -
  consider "waits (record_at (take k buf) 0)" | "record_at (take k buf) 0 = record_at buf 0"
    using record_at_take by blast
  then show ?thesis
  proof cases
    case 1
    then show ?thesis by (auto simp: collect_handshake_def waits_def)
  next
    case 2
    show ?thesis
    proof (cases "record_at buf 0")
      case (Inr x)
      obtain a b where x: "x = (a, b)" by fastforce
      show ?thesis
        using 2 Inr x collect_loop_take [of k buf a b]
        by (cases "message_ready a") (auto simp: collect_handshake_def split: option.splits)
    qed (use 2 in \<open>simp add: collect_handshake_def\<close>)
  qed
qed

text \<open>A handshake message cut into records with bodies \<open>fs\<close>, under any record version.\<close>

definition tls_record :: "u16 \<Rightarrow> bytes \<Rightarrow> bytes" where
  "tls_record v body = 0x16 # to_be16 v @ to_be16 (of_nat (length body)) @ body"

lemma length_tls_record [simp]: "length (tls_record v body) = 5 + length body"
  by (simp add: tls_record_def)

lemma record_at_record:
  assumes "length body < 65536"
  shows "record_at (pre @ tls_record v body @ rest) (length pre) = Inr (body, length pre + 5 + length body)"
proof -
  have l: "unat (of_nat (length body) :: u16) = length body"
    using assms by (simp add: unat_of_nat)
  then show ?thesis
    by (simp add: record_at_def Let_def nth_append tls_record_def to_be16_def)
qed

definition whole_message :: "bytes \<Rightarrow> bool" where
  "whole_message hs \<longleftrightarrow> 4 \<le> length hs \<and> length hs = 4 + u24_at hs \<and> length hs \<le> MAX_HANDSHAKE"

lemma message_ready_prefix:
  assumes "whole_message (p @ q)"
  shows "message_ready p = Inr (if q = [] then Some p else None)"
proof -
  have "u24_at (p @ q) = u24_at p" if "4 \<le> length p"
    using that by (simp add: u24_at_def nth_append)
  then show ?thesis
    using assms by (cases q) (auto simp: whole_message_def message_ready_def Let_def)
qed

lemma collect_loop_records:
  assumes "whole_message (out @ concat fs)" and "\<forall>f\<in>set fs. length f < 65536"
  shows "collect_loop (pre @ concat (map (tls_record v) fs) @ rest) out (length pre) = Inr (out @ concat fs)"
  using assms
proof (induction fs arbitrary: out pre)
  case Nil
  then have "message_ready out = Inr (Some out)" using message_ready_prefix [of out "[]"] by simp
  then show ?case by (subst collect_loop.simps) simp
next
  case (Cons f fs)
  show ?case
  proof (cases "concat (f # fs) = []")
    case True
    then show ?thesis
      using Cons.prems(1) by (subst collect_loop.simps) (simp add: message_ready_prefix)
  next
    case False
    have "length out + length f \<le> MAX_HANDSHAKE"
      using Cons.prems(1) by (simp add: whole_message_def)
    moreover have "collect_loop ((pre @ tls_record v f) @ concat (map (tls_record v) fs) @ rest) (out @ f)
        (length (pre @ tls_record v f)) = Inr ((out @ f) @ concat fs)"
      by (rule Cons.IH) (use Cons.prems in simp_all)
    ultimately show ?thesis
      using message_ready_prefix [OF Cons.prems(1)] False Cons.prems(2)
        record_at_record [of f pre v "concat (map (tls_record v) fs) @ rest"]
      by (subst collect_loop.simps) (simp add: add.assoc)
  qed
qed

lemma collect_records:
  assumes "whole_message (concat fs)" and "\<forall>f\<in>set fs. length f < 65536"
  shows "collect_handshake (concat (map (tls_record v) fs) @ rest) = Inr (concat fs)"
proof (cases fs)
  case Nil
  then show ?thesis using assms by (simp add: whole_message_def)
next
  case (Cons f gs)
  have "record_at (concat (map (tls_record v) fs) @ rest) 0 = Inr (f, 5 + length f)"
    using record_at_record [of f "[]" v "concat (map (tls_record v) gs) @ rest"] assms(2) Cons by simp
  moreover have "collect_loop (tls_record v f @ concat (map (tls_record v) gs) @ rest) f
      (length (tls_record v f)) = Inr (f @ concat gs)"
    by (rule collect_loop_records) (use assms Cons in simp_all)
  moreover have "message_ready f = Inr (if concat gs = [] then Some f else None)"
    by (rule message_ready_prefix) (use assms Cons in simp)
  ultimately show ?thesis
    using Cons by (simp add: collect_handshake_def)
qed

lemma message_ready_bound: "message_ready out = Inr (Some hs) \<Longrightarrow> length hs \<le> MAX_HANDSHAKE"
  by (auto simp: message_ready_def Let_def split: if_splits)

lemma collect_loop_bound: "collect_loop buf out next = Inr hs \<Longrightarrow> length hs \<le> MAX_HANDSHAKE"
proof (induction "length buf - next" arbitrary: out "next" rule: less_induct)
  case less
  show ?case
  proof (cases "message_ready out = Inr None")
    case True
    then obtain body n where r: "record_at buf next = Inr (body, n)" "collect_loop buf (out @ body) n = Inr hs"
      using less.prems by (subst (asm) collect_loop.simps) (auto split: sum.splits if_splits)
    have "length buf - n < length buf - next" using record_at_progress [OF r(1)] by linarith
    from less.hyps [OF this r(2)] show ?thesis .
  next
    case False
    then have "message_ready out = Inr (Some hs)"
      using less.prems by (subst (asm) collect_loop.simps) (auto simp: on_ok_Inr_iff split: option.splits)
    then show ?thesis by (rule message_ready_bound)
  qed
qed

lemma collect_bound: "collect_handshake buf = Inr hs \<Longrightarrow> length hs \<le> MAX_HANDSHAKE"
  using message_ready_bound collect_loop_bound
  by (auto simp: collect_handshake_def on_ok_Inr_iff split: option.splits)

section \<open>Reading what a client writes\<close>

text \<open>A cursor with \<open>pre\<close> read and \<open>rest\<close> ahead.\<close>

definition rd_at :: "bytes \<Rightarrow> bytes \<Rightarrow> reader" where
  "rd_at pre rest = \<lparr> rd_buf = pre @ rest, rd_pos = length pre \<rparr>"

named_theorems cursor \<open>reading a field that lies ahead of the cursor\<close>

lemma reader_new_at: "reader_new buf = rd_at [] buf"
  by (simp add: reader_new_def rd_at_def)

lemma rd_is_empty_at [cursor]: "rd_is_empty (rd_at pre rest) \<longleftrightarrow> rest = []"
  by (cases rest) (simp_all add: rd_is_empty_def rd_at_def)

lemma rd_u8_at [cursor]: "rd_u8 (rd_at pre (b # rest)) = (Inr b, rd_at (pre @ [b]) rest)"
  by (simp add: rd_at_def reader_simps rd_byte_def)

lemma rd_u16_at [cursor]: "rd_u16 (rd_at pre (to_be16 x @ rest)) = (Inr x, rd_at (pre @ to_be16 x) rest)"
  by (simp add: rd_at_def reader_simps rd_byte_def nth_append) (simp add: to_be16_def)

lemma rd_slice_at [cursor]:
  "length xs = n \<Longrightarrow> rd_slice n (rd_at pre (xs @ rest)) = (Inr xs, rd_at (pre @ xs) rest)"
  by (simp add: rd_at_def reader_simps)

lemma rd_skip_at [cursor]:
  "length xs = n \<Longrightarrow> rd_skip n (rd_at pre (xs @ rest)) = (Inr (), rd_at (pre @ xs) rest)"
  by (simp add: rd_at_def reader_simps)

definition to_be24 :: "nat \<Rightarrow> bytes" where
  "to_be24 n = [of_nat (n div 2 ^ 16), of_nat (n div 2 ^ 8), of_nat n]"

text \<open>Length-prefixed fields, as RFC 8446 writes them.\<close>

definition vec8 :: "bytes \<Rightarrow> bytes" where
  "vec8 xs = of_nat (length xs) # xs"

definition vec16 :: "bytes \<Rightarrow> bytes" where
  "vec16 xs = to_be16 (of_nat (length xs)) @ xs"

definition enc_ext :: "u16 \<times> bytes \<Rightarrow> bytes" where
  "enc_ext e = to_be16 (fst e) @ vec16 (snd e)"

definition enc_sni :: "bytes \<Rightarrow> bytes" where
  "enc_sni name = vec16 (0 # vec16 name)"

definition hello_body :: "u16 \<Rightarrow> bytes \<Rightarrow> bytes \<Rightarrow> bytes \<Rightarrow> bytes \<Rightarrow> (u16 \<times> bytes) list \<Rightarrow> bytes" where
  "hello_body v random sid ciphers comps exts =
     to_be16 v @ random @ vec8 sid @ vec16 ciphers @ vec8 comps @ vec16 (concat (map enc_ext exts))"

definition handshake_msg :: "bytes \<Rightarrow> bytes" where
  "handshake_msg body = 1 # to_be24 (length body) @ body"

lemma unat_len8: "n < 256 \<Longrightarrow> unat (of_nat n :: u8) = n"
  by (simp add: unat_of_nat)

lemma unat_len16: "n < 65536 \<Longrightarrow> unat (of_nat n :: u16) = n"
  by (simp add: unat_of_nat)

lemma read_list_at [cursor]:
  "length xs < 65536 \<Longrightarrow> read_list (rd_at pre (vec16 xs @ rest)) = (Inr xs, rd_at (pre @ vec16 xs) rest)"
  by (simp add: read_list_def and_then_def vec16_def cursor unat_len16)

lemma read_extension_at [cursor]:
  "length b < 65536 \<Longrightarrow>
   read_extension (rd_at pre (enc_ext (k, b) @ rest)) = (Inr (k, b), rd_at (pre @ enc_ext (k, b)) rest)"
  by (simp add: read_extension_def and_then_def enc_ext_def vec16_def cursor unat_len16)

lemma parse_sni_ext_enc:
  assumes "length name < 65500" and "utf8_ok name"
  shows "parse_sni_ext (enc_sni name) = Inr (Some name)"
proof -
  have l: "length (0 # vec16 name) < 65536" using assms by (simp add: vec16_def)
  have "read_list (rd_at [] (vec16 (0 # vec16 name))) = (Inr (0 # vec16 name), rd_at (vec16 (0 # vec16 name)) [])"
    using read_list_at [OF l, of "[]" "[]"] by simp
  moreover have "read_name_item (rd_at [] (0 # vec16 name)) = (Inr (0, name), rd_at (0 # vec16 name) [])"
    using assms(1) rd_slice_at [of name "length name" "0 # to_be16 (of_nat (length name))" "[]"]
    by (simp add: read_name_item_def and_then_def cursor vec16_def unat_len16)
  ultimately show ?thesis
    using assms(2)
    by (simp add: parse_sni_ext_def enc_sni_def reader_new_at sni_loop.simps [of "rd_at [] _"] cursor)
qed

text \<open>The extension loop, over a list of extensions as the client writes them.\<close>

fun take_extensions :: "(u16 \<times> bytes) list \<Rightarrow> client_hello \<Rightarrow> parse_err + client_hello" where
  "take_extensions [] out = Inr out"
| "take_extensions ((k, b) # es) out = on_ok (take_extension k b out) (take_extensions es)"

lemma ext_loop_enc:
  assumes "\<forall>(k, b) \<in> set exts. length b < 65536"
  shows "ext_loop (rd_at pre (concat (map enc_ext exts))) out = take_extensions exts out"
  using assms
proof (induction exts arbitrary: pre out)
  case Nil
  then show ?case by (subst ext_loop.simps) (simp add: cursor)
next
  case (Cons e exts)
  obtain k b where e: "e = (k, b)" by fastforce
  have "enc_ext (k, b) \<noteq> []" by (simp add: enc_ext_def to_be16_def)
  then have "ext_loop (rd_at pre (concat (map enc_ext (e # exts)))) out =
      on_ok (take_extension k b out) (ext_loop (rd_at (pre @ enc_ext (k, b)) (concat (map enc_ext exts))))"
    using Cons.prems e
    by (subst ext_loop.simps) (simp add: cursor on_ok_def split: sum.splits)
  also have "\<dots> = on_ok (take_extension k b out) (take_extensions exts)"
    using Cons by (auto simp: on_ok_def split: sum.splits)
  finally show ?case by (simp add: e)
qed

lemma parse_hello_body_enc:
  assumes "length random = 32" "length sid < 256" "length ciphers < 65536" "length comps < 256"
    "length (concat (map enc_ext exts)) < 65536"
  shows "parse_hello_body (hello_body v random sid ciphers comps exts) =
    take_extensions exts \<lparr> ch_version = v, ch_sni = None, ch_alpns = [], ch_ech_outer = False \<rparr>"
proof -
  let ?x = "concat (map enc_ext exts)"
  have b: "\<forall>(k, b) \<in> set exts. length b < 65536"
  proof safe
    fix k b assume "(k, b) \<in> set exts"
    then have "length (enc_ext (k, b)) \<le> length ?x"
      by (auto simp: length_concat comp_def intro!: member_le_sum_list)
    then show "length b < 65536" using assms(5) by (simp add: enc_ext_def vec16_def)
  qed
  let ?pre = "to_be16 v @ random @ vec8 sid @ vec16 ciphers @ vec8 comps"
  have "read_hello_head (rd_at [] (hello_body v random sid ciphers comps exts)) = (Inr v, rd_at ?pre (vec16 ?x))"
    using assms by (simp add: read_hello_head_def hello_body_def and_then_def vec8_def vec16_def cursor unat_len8
        unat_len16)
  moreover have "vec16 ?x \<noteq> []" by (simp add: vec16_def to_be16_def)
  moreover have "read_list (rd_at ?pre (vec16 ?x)) = (Inr ?x, rd_at (?pre @ vec16 ?x) [])"
    using read_list_at [OF assms(5), of ?pre "[]"] by simp
  ultimately show ?thesis
    using ext_loop_enc [OF b, of "[]"] by (simp add: parse_hello_body_def reader_new_at cursor)
qed

lemma rd_u24_at:
  assumes "n < 2 ^ 24"
  shows "\<exists>w. rd_u24 (rd_at pre (to_be24 n @ rest)) = (Inr w, rd_at (pre @ to_be24 n) rest) \<and> unat w = n"
proof -
  let ?a = "of_nat (n div 2 ^ 16) :: u8" and ?b = "of_nat (n div 2 ^ 8) :: u8" and ?c = "of_nat n :: u8"
  let ?w = "push_bit 16 (ucast ?a) OR push_bit 8 (ucast ?b) OR ucast ?c :: u32"
  have n: "take_bit 24 n = n" using assms by (simp add: take_bit_nat_eq_self)
  have "?w = of_nat n"
  proof (rule bit_word_eqI)
    fix i assume "i < LENGTH(32)"
    have "bit n i \<Longrightarrow> i < 24" using n by (metis bit_take_bit_iff)
    moreover have "bit (n div 65536) j = bit n (16 + j)" "bit (n div 256) j = bit n (8 + j)" for j
      using bit_drop_bit_eq [of 16 n] bit_drop_bit_eq [of 8 n] by (simp_all add: drop_bit_eq_div fun_eq_iff)
    ultimately show "bit ?w i = bit (of_nat n :: u32) i"
      using \<open>i < LENGTH(32)\<close> by (cases "16 \<le> i") (auto simp: bit_simps)
  qed
  then have "unat ?w = n" using assms by (simp add: unat_of_nat)
  then show ?thesis
    by (simp add: rd_at_def reader_simps rd_byte_def to_be24_def nth_append)
qed

lemma handshake_msg_whole:
  assumes "length body \<le> 65532"
  shows "whole_message (handshake_msg body)"
proof -
  let ?n = "length body"
  have "unat (of_nat (?n div 2 ^ 16) :: u8) = ?n div 2 ^ 16" using assms by (simp add: unat_of_nat)
  moreover have "unat (of_nat (?n div 2 ^ 8) :: u8) = ?n div 2 ^ 8" using assms by (simp add: unat_of_nat)
  moreover have "unat (of_nat ?n :: u8) = ?n mod 2 ^ 8" by (simp add: unat_of_nat)
  moreover have "?n div 2 ^ 16 = 0" using assms by simp
  ultimately show ?thesis
    using assms by (simp add: whole_message_def handshake_msg_def u24_at_def to_be24_def MAX_HANDSHAKE_def)
qed

lemma parse_handshake_msg:
  assumes "length body < 2 ^ 24"
  shows "parse_handshake (handshake_msg body) = parse_hello_body body"
proof -
  obtain w where w: "rd_u24 (rd_at [1] (to_be24 (length body) @ body)) = (Inr w, rd_at ([1] @ to_be24 (length body)) body)"
      "unat w = length body"
    using rd_u24_at [OF assms, of "[1]" body] by blast
  moreover have "rd_slice (unat w) (rd_at ([1] @ to_be24 (length body)) body) =
      (Inr body, rd_at ([1] @ to_be24 (length body) @ body) [])"
    using rd_slice_at [of body "unat w" "[1] @ to_be24 (length body)" "[]"] w(2) by simp
  ultimately show ?thesis
    using rd_u8_at [of "[]" 1 "to_be24 (length body) @ body"]
    by (simp add: parse_handshake_def handshake_msg_def reader_new_at and_then_def)
qed

lemma take_extensions_other:
  assumes "\<forall>(k, b) \<in> set es. k \<noteq> 0x0000 \<and> k \<noteq> 0x0010"
  shows "\<exists>h. take_extensions es out = Inr h \<and> ch_sni h = ch_sni out \<and> ch_version h = ch_version out"
  using assms
proof (induction es arbitrary: out)
  case (Cons e es)
  obtain k b where e: "e = (k, b)" by fastforce
  with Cons.prems have "\<exists>h. take_extension k b out = Inr h \<and> ch_sni h = ch_sni out \<and> ch_version h = ch_version out"
    by (auto simp: take_extension_def)
  then obtain h where h: "take_extension k b out = Inr h" "ch_sni h = ch_sni out" "ch_version h = ch_version out"
    by blast
  from Cons.IH [of h] Cons.prems h e show ?case by auto
qed simp

lemma take_extensions_append:
  "take_extensions (es @ fs) out = on_ok (take_extensions es out) (take_extensions fs)"
  by (induction es arbitrary: out) (auto simp: on_ok_def split: sum.splits)

lemma take_extensions_sni:
  assumes "\<forall>(k, b) \<in> set (es @ fs). k \<noteq> 0x0000 \<and> k \<noteq> 0x0010" and "length name < 65500" "utf8_ok name"
  shows "\<exists>h. take_extensions (es @ (0, enc_sni name) # fs) out = Inr h \<and> ch_sni h = Some name \<and>
    ch_version h = ch_version out"
proof -
  obtain h where h: "take_extensions es out = Inr h" "ch_version h = ch_version out"
    using take_extensions_other [of es out] assms(1) by auto
  moreover have "take_extension 0 (enc_sni name) h = Inr (h\<lparr>ch_sni := Some name\<rparr>)"
    using parse_sni_ext_enc [OF assms(2,3)] by (simp add: take_extension_def)
  moreover obtain g where "take_extensions fs (h\<lparr>ch_sni := Some name\<rparr>) = Inr g" "ch_sni g = Some name"
      "ch_version g = ch_version out"
    using take_extensions_other [of fs "h\<lparr>ch_sni := Some name\<rparr>"] assms(1) h(2) by auto
  ultimately show ?thesis
    by (simp add: take_extensions_append)
qed

text \<open>The body of a ClientHello that names a server, among extensions of other kinds.\<close>

definition named_hello :: "bytes \<Rightarrow> bytes \<Rightarrow> bool" where
  "named_hello name body \<longleftrightarrow> (\<exists>v random sid ciphers comps es fs.
     body = hello_body v random sid ciphers comps (es @ (0, enc_sni name) # fs) \<and> length random = 32 \<and>
     length sid < 256 \<and> length comps < 256 \<and> (\<forall>(k, b) \<in> set (es @ fs). k \<noteq> 0x0000 \<and> k \<noteq> 0x0010) \<and>
     utf8_ok name \<and> length body \<le> 65532)"

lemma parse_named_hello:
  assumes "named_hello name body"
  shows "\<exists>h. parse_handshake (handshake_msg body) = Inr h \<and> ch_sni h = Some name"
proof -
  obtain v random sid ciphers comps es fs where b:
      "body = hello_body v random sid ciphers comps (es @ (0, enc_sni name) # fs)" "length random = 32"
      "length sid < 256" "length comps < 256" "\<forall>(k, b) \<in> set (es @ fs). k \<noteq> 0x0000 \<and> k \<noteq> 0x0010" "utf8_ok name"
      "length body \<le> 65532"
    using assms unfolding named_hello_def by blast
  let ?x = "concat (map enc_ext (es @ (0, enc_sni name) # fs))"
  have len: "length ciphers + length ?x + 39 < length body"
    unfolding b(1) by (simp add: hello_body_def vec8_def vec16_def b(2))
  have "length (enc_sni name) \<le> length ?x" by (simp add: enc_ext_def vec16_def)
  then have n: "length name < 65500"
    using len b(7) by (simp add: enc_sni_def vec16_def)
  obtain h where "take_extensions (es @ (0, enc_sni name) # fs)
      \<lparr> ch_version = v, ch_sni = None, ch_alpns = [], ch_ech_outer = False \<rparr> = Inr h" "ch_sni h = Some name"
    using take_extensions_sni [OF b(5) n b(6)] by blast
  moreover have "parse_hello_body body = take_extensions (es @ (0, enc_sni name) # fs)
      \<lparr> ch_version = v, ch_sni = None, ch_alpns = [], ch_ech_outer = False \<rparr>"
    unfolding b(1) by (rule parse_hello_body_enc) (use b len in simp_all)
  moreover have "length body < 2 ^ 24" using b(7) by simp
  ultimately show ?thesis by (simp add: parse_handshake_msg)
qed

section \<open>Properties\<close>


definition example_hello :: bytes where
  "example_hello = hello_body 0x0303 (replicate 32 7) [] [0x13, 0x01] [0] [(0xfe0d, [0]), (0, enc_sni (bytes_of ''a.com''))]"

lemma example_hello_length: "length example_hello = 62"
  by (simp add: example_hello_def hello_body_def vec8_def vec16_def enc_ext_def enc_sni_def)

lemma named_helloI:
  "\<lbrakk>length random = 32; length sid < 256; length comps < 256; \<forall>(k, b) \<in> set (es @ fs). k \<noteq> 0x0000 \<and> k \<noteq> 0x0010;
    utf8_ok name; length (hello_body v random sid ciphers comps (es @ (0, enc_sni name) # fs)) \<le> 65532\<rbrakk> \<Longrightarrow>
   named_hello name (hello_body v random sid ciphers comps (es @ (0, enc_sni name) # fs))"
  unfolding named_hello_def by blast

lemma example_hello_named: "named_hello (bytes_of ''a.com'') example_hello"
proof -
  have "utf8_ok (bytes_of ''a.com'')" by (rule utf8_ok_ascii) code_simp
  then show ?thesis
    using named_helloI [of "replicate 32 7" "[]" "[0]" "[(0xfe0d, [0])]" "[]" "bytes_of ''a.com''" "0x0303" "[0x13, 0x01]"]
      example_hello_length
    by (simp add: example_hello_def)
qed


text \<open>
  The sniffer never settles early: on any prefix of a stream the reassembly either asks for more
  bytes or gives the answer it gives on the whole stream, and a message it returns has at most 64 KiB.
\<close>

theorem reassembly_is_monotone:
  "(waits (collect_handshake (take k buf)) \<or> collect_handshake (take k buf) = collect_handshake buf) \<and>
   (case collect_handshake buf of Inl e \<Rightarrow> True | Inr hs \<Rightarrow> length hs \<le> 65536)"
  using collect_take [of k buf] collect_bound [of buf] by (auto simp: MAX_HANDSHAKE_def split: sum.splits)

end
