(* ===== verification/QuicSniff.thy ===== *)
theory QuicSniff
  imports TlsSniff "HOL-Library.Multiset"
begin

text \<open>
  The server name in QUIC Initial packets (\<open>sb-sniff/src/quic.rs\<close>): header parsing, removal of the
  header protection, the CRYPTO frames, and the incremental sniffer that gathers their pieces until a
  ClientHello is whole. The primitives of the \<open>hkdf\<close>, \<open>aes\<close> and \<open>aes_gcm\<close> crates are a parameter; a
  panic (\<open>expect\<close>, a slice out of range) is \<open>None\<close>.
\<close>

record quic_crypto =
  hkdf_extract :: "bytes \<Rightarrow> bytes \<Rightarrow> bytes"
  hkdf_expand :: "bytes \<Rightarrow> bytes \<Rightarrow> nat \<Rightarrow> bytes"
  aes_block :: "bytes \<Rightarrow> bytes \<Rightarrow> bytes"
  aead_open :: "bytes \<Rightarrow> bytes \<Rightarrow> bytes \<Rightarrow> bytes \<Rightarrow> bytes option"

section \<open>Variable-length integers and the long header\<close>

definition read_varint :: "bytes \<Rightarrow> parse_err + (u64 \<times> nat)" where
  "read_varint buf =
     (if buf = [] then Inl (Short 1 0)
      else let n = 2 ^ unat (drop_bit 6 (buf ! 0)) in
        if length buf < n then Inl (Short n (length buf))
        else Inr (foldl (\<lambda>v b. push_bit 8 v OR ucast b) (ucast (buf ! 0 AND 0x3F)) (take (n - 1) (drop 1 buf)), n))"

text \<open>The integer at offset \<open>p\<close> and the offset after it.\<close>

definition varint_at :: "bytes \<Rightarrow> nat \<Rightarrow> parse_err + (u64 \<times> nat)" where
  "varint_at buf p = on_ok (read_varint (drop p buf)) (\<lambda>(v, n). Inr (v, p + n))"

lemma read_varint_len: "read_varint buf = Inr (v, n) \<Longrightarrow> 0 < n \<and> n \<le> length buf"
  by (auto simp: read_varint_def Let_def split: if_splits)

lemma varint_at_pos: "varint_at buf p = Inr (v, q) \<Longrightarrow> p < q \<and> q \<le> length buf"
  using read_varint_len [of "drop p buf"] by (fastforce simp: varint_at_def on_ok_Inr_iff)

record long_header =
  lh_dcid :: bytes
  lh_pn_offset :: nat
  lh_length :: nat

definition QUIC_V1 :: u32 where "QUIC_V1 = 1"

definition parse_long_header_initial :: "bytes \<Rightarrow> parse_err + long_header" where
  "parse_long_header_initial buf =
     (if length buf < 7 then Inl (Short 7 (length buf))
      else if buf ! 0 AND 0xC0 \<noteq> 0xC0 then Inl (Malformed ''not long header'')
      else if drop_bit 4 (buf ! 0) AND 0x03 \<noteq> 0 then Inl (Malformed ''not initial type'')
      else if be32_of (buf ! 1) (buf ! 2) (buf ! 3) (buf ! 4) \<noteq> QUIC_V1 then Inl (Malformed ''not quic v1'')
      else let dcid_len = unat (buf ! 5); p = 6 in
        if dcid_len > 20 \<or> p + dcid_len > length buf then Inl (Malformed ''bad dcid'')
        else let dcid = take dcid_len (drop p buf); p = p + dcid_len in
          if p \<ge> length buf then Inl (Short (p + 1) (length buf))
          else let scid_len = unat (buf ! p); p = p + 1 in
            if scid_len > 20 \<or> p + scid_len > length buf then Inl (Malformed ''bad scid'')
            else let p = p + scid_len in
              on_ok (varint_at buf p) (\<lambda>(tok_len, p).
                if p + unat tok_len > length buf then Inl (Malformed ''bad token'')
                else let p = p + unat tok_len in
                  on_ok (varint_at buf p) (\<lambda>(len, p).
                    if p + unat len > length buf then Inl (Short (p + unat len) (length buf))
                    else Inr \<lparr> lh_dcid = dcid, lh_pn_offset = p, lh_length = unat len \<rparr>)))"

definition is_quic_initial :: "bytes \<Rightarrow> bool" where
  "is_quic_initial pkt = (case parse_long_header_initial pkt of Inl _ \<Rightarrow> False | Inr _ \<Rightarrow> True)"

section \<open>Keys and decryption\<close>

definition INITIAL_SALT_V1 :: bytes where
  "INITIAL_SALT_V1 = [0x38, 0x76, 0x2c, 0xf7, 0xf5, 0x59, 0x34, 0xb3, 0x4d, 0x17, 0x9a, 0xe6, 0xa4, 0xc8, 0x0c,
     0xad, 0xcc, 0xbb, 0x7f, 0x0a]"

definition hkdf_expand_label :: "quic_crypto \<Rightarrow> bytes \<Rightarrow> string \<Rightarrow> nat \<Rightarrow> bytes" where
  "hkdf_expand_label C prk label out_len =
     (let label_full = bytes_of (''tls13 '' @ label);
          info = to_be16 (of_nat out_len) @ [of_nat (length label_full)] @ label_full @ [0]
      in hkdf_expand C prk info out_len)"

definition derive_initial_keys :: "quic_crypto \<Rightarrow> bytes \<Rightarrow> bytes \<times> bytes \<times> bytes" where
  "derive_initial_keys C dcid =
     (let initial_secret = hkdf_extract C INITIAL_SALT_V1 dcid;
          client_initial = hkdf_expand_label C initial_secret ''client in'' 32
      in (hkdf_expand_label C client_initial ''quic key'' 16, hkdf_expand_label C client_initial ''quic iv'' 12,
          hkdf_expand_label C client_initial ''quic hp'' 16))"

definition xor_at :: "nat \<Rightarrow> u8 \<Rightarrow> bytes \<Rightarrow> bytes" where
  "xor_at i m bs = bs[i := bs ! i XOR m]"

definition decrypt_initial :: "quic_crypto \<Rightarrow> bytes \<Rightarrow> long_header \<Rightarrow> bytes \<times> bytes \<times> bytes \<Rightarrow> (parse_err + bytes) option" where
  "decrypt_initial C pkt init keys =
     (let (key, iv, hp) = keys; pn_off = lh_pn_offset init in
      if pn_off + 20 > length pkt then Some (Inl (Short (pn_off + 20) (length pkt)))
      else let sample = take 16 (drop (pn_off + 4) pkt) in
        if length hp \<noteq> 16 then None
        else let mask = aes_block C hp sample in
          if length mask \<noteq> 16 then None
          else let hdr0 = xor_at 0 (mask ! 0 AND 0x0F) pkt;
                   pn_len = unat (hdr0 ! 0 AND 0x03) + 1;
                   hdr = fold (\<lambda>i h. xor_at (pn_off + i) (mask ! (1 + i)) h) [0..<pn_len] hdr0;
                   pn = foldl (\<lambda>pn i. push_bit 8 pn OR ucast (hdr ! (pn_off + i))) (0 :: u64) [0..<pn_len] in
            if length iv \<noteq> 12 then None
            else let nonce = fold (\<lambda>i n. xor_at (11 - i) (ucast (drop_bit (i * 8) pn AND 0xFF)) n) [0..<8] iv;
                     aad_end = pn_off + pn_len; ct_end = pn_off + lh_length init in
              if ct_end > length pkt then Some (Inl (Short ct_end (length pkt)))
              else if ct_end < aad_end then Some (Inl (Malformed ''quic: length shorter than pn_len''))
              else let aad = take aad_end hdr; ct = take (ct_end - aad_end) (drop aad_end hdr) in
                if length key \<noteq> 16 then None
                else Some (case aead_open C key nonce aad ct of
                    None \<Rightarrow> Inl (Malformed ''quic parse'') | Some pt \<Rightarrow> Inr pt))"

section \<open>CRYPTO frames\<close>

primrec skip_varints :: "nat \<Rightarrow> bytes \<Rightarrow> nat \<Rightarrow> parse_err + nat" where
  "skip_varints 0 pt p = Inr p"
| "skip_varints (Suc k) pt p = on_ok (varint_at pt p) (\<lambda>(_, p). skip_varints k pt p)"

lemma skip_varints_pos: "skip_varints k pt p = Inr q \<Longrightarrow> p \<le> q"
  by (induction k arbitrary: p) (auto simp: on_ok_Inr_iff dest!: varint_at_pos, fastforce)

text \<open>An ACK frame after its type byte: three fields, the first range, \<open>rc\<close> further ranges of two
  fields each, and three counters when the type is \<open>0x03\<close>.\<close>

definition skip_ack :: "u8 \<Rightarrow> bytes \<Rightarrow> nat \<Rightarrow> parse_err + nat" where
  "skip_ack t pt p =
     on_ok (skip_varints 2 pt p) (\<lambda>p. on_ok (varint_at pt p) (\<lambda>(rc, p).
       on_ok (skip_varints 1 pt p) (\<lambda>p. on_ok (skip_varints (2 * unat rc) pt p) (\<lambda>p.
         if t = 0x03 then skip_varints 3 pt p else Inr p))))"

definition read_crypto :: "bytes \<Rightarrow> nat \<Rightarrow> parse_err + (u64 \<times> bytes \<times> nat)" where
  "read_crypto pt p =
     on_ok (varint_at pt p) (\<lambda>(off, p). on_ok (varint_at pt p) (\<lambda>(len, p).
       if p + unat len > length pt then Inl (Malformed ''crypto frame truncated'')
       else Inr (off, take (unat len) (drop p pt), p + unat len)))"

lemma skip_ack_pos: "skip_ack t pt p = Inr q \<Longrightarrow> p \<le> q"
  by (auto simp: skip_ack_def on_ok_Inr_iff split: if_splits dest!: skip_varints_pos varint_at_pos)

lemma read_crypto_pos: "read_crypto pt p = Inr (off, data, q) \<Longrightarrow> p \<le> q"
  by (auto simp: read_crypto_def on_ok_Inr_iff split: if_splits dest!: varint_at_pos)

function frames_loop :: "bytes \<Rightarrow> nat \<Rightarrow> (u64 \<times> bytes) list \<Rightarrow> parse_err + (u64 \<times> bytes) list" where
  "frames_loop pt p out =
     (if p < length pt then
        (let t = pt ! p in
         if t = 0x00 \<or> t = 0x01 then frames_loop pt (p + 1) out
         else if t = 0x02 \<or> t = 0x03 then
           (case skip_ack t pt (p + 1) of Inl e \<Rightarrow> Inl e | Inr q \<Rightarrow> frames_loop pt q out)
         else if t = 0x06 then
           (case read_crypto pt (p + 1) of Inl e \<Rightarrow> Inl e
            | Inr (off, data, q) \<Rightarrow> frames_loop pt q (out @ [(off, data)]))
         else Inr out)
      else Inr out)"
  by pat_completeness auto
termination
  by (relation "measure (\<lambda>(pt, p, out). length pt - p)") (auto dest!: skip_ack_pos read_crypto_pos)

declare frames_loop.simps [simp del]

definition extract_crypto_frames :: "bytes \<Rightarrow> parse_err + (u64 \<times> bytes) list" where
  "extract_crypto_frames pt = frames_loop pt 0 []"

section \<open>The incremental sniffer\<close>

text \<open>\<open>BTreeMap<u64, Vec<u8>>\<close>: an association list in increasing order of its keys.\<close>

fun bt_insert :: "u64 \<Rightarrow> 'a \<Rightarrow> (u64 \<times> 'a) list \<Rightarrow> (u64 \<times> 'a) list" where
  "bt_insert k v [] = [(k, v)]"
| "bt_insert k v ((k', v') # m) =
     (if k < k' then (k, v) # (k', v') # m else if k = k' then (k, v) # m else (k', v') # bt_insert k v m)"

record quic_sniffer =
  qs_pieces :: "(u64 \<times> bytes) list"
  qs_total_bytes :: nat
  qs_done :: bool
  qs_feeds :: u32
  qs_cached_dcid :: bytes
  qs_cached_keys :: "(bytes \<times> bytes \<times> bytes) option"
  qs_ech_outer :: bool

definition MAX_TOTAL_CRYPTO :: nat where "MAX_TOTAL_CRYPTO = 64 * 1024"
definition MAX_PIECES :: nat where "MAX_PIECES = 64"
definition MAX_FEED_ATTEMPTS :: u32 where "MAX_FEED_ATTEMPTS = 16"

definition quic_sniffer_new :: quic_sniffer where
  "quic_sniffer_new = \<lparr> qs_pieces = [], qs_total_bytes = 0, qs_done = False, qs_feeds = 0, qs_cached_dcid = [],
     qs_cached_keys = None, qs_ech_outer = False \<rparr>"

definition drop_pieces :: "quic_sniffer \<Rightarrow> quic_sniffer" where
  "drop_pieces s = s\<lparr>qs_pieces := [], qs_total_bytes := 0, qs_done := True\<rparr>"

definition ingest_piece :: "u64 \<Rightarrow> bytes \<Rightarrow> (quic_sniffer, parse_err, unit) comp" where
  "ingest_piece off data = (\<lambda>s.
     let old_len = map_option length (map_of (qs_pieces s) off) in
     if old_len = Some (length data) then (Inr (), s)
     else let is_new_offset = (old_len = None);
              projected = qs_total_bytes s - (case old_len of None \<Rightarrow> 0 | Some n \<Rightarrow> n) + length data in
       if is_new_offset \<and> length (qs_pieces s) \<ge> MAX_PIECES \<or> projected > MAX_TOTAL_CRYPTO
       then (Inl (Malformed ''quic crypto buffer limit''), drop_pieces s)
       else (Inr (), s\<lparr>qs_total_bytes := projected, qs_pieces := bt_insert off data (qs_pieces s)\<rparr>))"

fun ingest_pieces :: "(u64 \<times> bytes) list \<Rightarrow> (quic_sniffer, parse_err, unit) comp" where
  "ingest_pieces [] = ret ()"
| "ingest_pieces ((off, data) # ps) = and_then (ingest_piece off data) (\<lambda>_. ingest_pieces ps)"

text \<open>The keys of the connection the packet belongs to, derived when they are not the cached ones.\<close>

definition cache_keys :: "quic_crypto \<Rightarrow> bytes \<Rightarrow> quic_sniffer \<Rightarrow> quic_sniffer" where
  "cache_keys C dcid s =
     (if qs_cached_keys s = None \<or> qs_cached_dcid s \<noteq> dcid
      then s\<lparr>qs_cached_keys := Some (derive_initial_keys C dcid), qs_cached_dcid := dcid\<rparr> else s)"

definition quic_feed :: "quic_crypto \<Rightarrow> bytes \<Rightarrow> quic_sniffer \<Rightarrow> ((parse_err + unit) \<times> quic_sniffer) option" where
  "quic_feed C pkt s =
     (if qs_done s then Some (Inr (), s)
      else let s = s\<lparr>qs_feeds := qs_feeds s + 1\<rparr> in
        if qs_feeds s > MAX_FEED_ATTEMPTS then Some (Inr (), drop_pieces s)
        else case parse_long_header_initial pkt of
          Inl e \<Rightarrow> Some (Inl e, s)
        | Inr init \<Rightarrow> do {
            let s = cache_keys C (lh_dcid init) s;
            keys \<leftarrow> qs_cached_keys s;
            r \<leftarrow> decrypt_initial C pkt init keys;
            Some (case on_ok r extract_crypto_frames of
                Inl e \<Rightarrow> (Inl e, s)
              | Inr new_pieces \<Rightarrow> ingest_pieces new_pieces s) })"

text \<open>The pieces from offset \<open>expected\<close> on, when they are contiguous.\<close>

fun contiguous :: "u64 \<Rightarrow> (u64 \<times> bytes) list \<Rightarrow> bytes option" where
  "contiguous expected [] = Some []"
| "contiguous expected ((off, data) # ps) =
     (if off \<noteq> expected then None
      else map_option ((@) data) (contiguous (expected + of_nat (length data)) ps))"

definition try_reassemble_handshake_record :: "quic_sniffer \<Rightarrow> bytes option" where
  "try_reassemble_handshake_record s =
     (case contiguous 0 (qs_pieces s) of
        None \<Rightarrow> None
      | Some hs \<Rightarrow>
          if length hs < 4 then None
          else if length hs < 4 + u24_at hs then None
          else Some ([0x16, 0x03, 0x01] @ to_be16 (of_nat (length hs)) @ hs))"

definition try_take_sni :: "quic_sniffer \<Rightarrow> bytes option \<times> quic_sniffer" where
  "try_take_sni s =
     (case try_reassemble_handshake_record s of
        None \<Rightarrow> (None, s)
      | Some ch \<Rightarrow>
          (case parse_client_hello ch of
             Inl _ \<Rightarrow> (None, s)
           | Inr h \<Rightarrow>
               let s = s\<lparr>qs_ech_outer := ch_ech_outer h\<rparr> in
               (ch_sni h, if ch_sni h \<noteq> None then drop_pieces s else s)))"

definition extract_sni :: "quic_crypto \<Rightarrow> bytes \<Rightarrow> (parse_err + bytes option) option" where
  "extract_sni C pkt = do {
     (r, s) \<leftarrow> quic_feed C pkt quic_sniffer_new;
     Some (on_ok r (\<lambda>_. Inr (fst (try_take_sni s)))) }"

section \<open>The ordered map\<close>

abbreviation keys_sorted :: "(u64 \<times> 'a) list \<Rightarrow> bool" where
  "keys_sorted m \<equiv> sorted_wrt (\<lambda>a b. fst a < fst b) m"

definition total_length :: "(u64 \<times> bytes) list \<Rightarrow> nat" where
  "total_length m = sum_list (map (length \<circ> snd) m)"

lemma bt_insert_set: "keys_sorted m \<Longrightarrow> set (bt_insert k v m) = insert (k, v) {e \<in> set m. fst e \<noteq> k}"
proof (induction m)
  case (Cons e m)
  obtain k' v' where e: "e = (k', v')" by fastforce
  consider "k < k'" | "k = k'" | "k' < k" by (rule linorder_cases)
  then show ?case
  proof cases
    case 1
    with Cons.prems e have "\<forall>x\<in>set m. fst x \<noteq> k" by fastforce
    with 1 e show ?thesis by auto
  next
    case 2
    with Cons.prems e have "\<forall>x\<in>set m. fst x \<noteq> k" by fastforce
    with 2 e show ?thesis by auto
  next
    case 3
    with Cons e show ?thesis by auto
  qed
qed simp

lemma bt_insert_sorted: "keys_sorted m \<Longrightarrow> keys_sorted (bt_insert k v m)"
proof (induction m)
  case (Cons e m)
  obtain k' v' where e: "e = (k', v')" by fastforce
  consider "k < k'" | "k = k'" | "k' < k" by (rule linorder_cases)
  then show ?case
  proof cases
    case 1
    with Cons.prems e show ?thesis by fastforce
  next
    case 3
    with Cons e show ?thesis by (auto simp: bt_insert_set)
  qed (use Cons e in auto)
qed simp

lemma sorted_map_of: "keys_sorted m \<Longrightarrow> (k, v) \<in> set m \<Longrightarrow> map_of m k = Some v"
  by (induction m) (auto simp: less_le dest: fst_eqD)

lemma bt_insert_new:
  assumes "keys_sorted m" and "map_of m k = None"
  shows "length (bt_insert k v m) = Suc (length m)" and "total_length (bt_insert k v m) = length v + total_length m"
  using assms by (induction m) (auto simp: total_length_def split: if_splits)

lemma bt_insert_old:
  assumes "keys_sorted m" and "map_of m k = Some u"
  shows "length (bt_insert k v m) = length m" and "total_length (bt_insert k v m) + length u = length v + total_length m"
  using assms by (induction m) (auto simp: total_length_def less_le split: if_splits dest!: map_of_SomeD)

lemma keys_sorted_unique:
  "keys_sorted xs \<Longrightarrow> keys_sorted ys \<Longrightarrow> set xs = set ys \<Longrightarrow> xs = ys"
proof (induction xs arbitrary: ys)
  case (Cons x xs)
  then obtain y zs where ys: "ys = y # zs" by (cases ys) auto
  have "x = y"
  proof (rule ccontr)
    assume "x \<noteq> y"
    with Cons.prems ys have "x \<in> set zs" "y \<in> set xs" by auto
    with Cons.prems ys have "fst y < fst x" "fst x < fst y" by auto
    then show False by simp
  qed
  moreover have "x \<notin> set xs" "y \<notin> set zs" using Cons.prems ys by auto
  ultimately have "set xs = set zs" using Cons.prems(3) ys by auto
  with Cons ys \<open>x = y\<close> show ?case by simp
qed simp

section \<open>The invariant of the sniffer\<close>

definition keys_ok :: "bytes \<times> bytes \<times> bytes \<Rightarrow> bool" where
  "keys_ok k = (case k of (key, iv, hp) \<Rightarrow> length key = 16 \<and> length iv = 12 \<and> length hp = 16)"

definition quic_inv :: "quic_sniffer \<Rightarrow> bool" where
  "quic_inv s \<longleftrightarrow> keys_sorted (qs_pieces s) \<and> qs_total_bytes s = total_length (qs_pieces s) \<and>
     qs_total_bytes s \<le> MAX_TOTAL_CRYPTO \<and> length (qs_pieces s) \<le> MAX_PIECES \<and>
     pred_option keys_ok (qs_cached_keys s)"

text \<open>What the code relies on of the primitives: the sizes of their outputs.\<close>

definition crypto_laws :: "quic_crypto \<Rightarrow> bool" where
  "crypto_laws C \<longleftrightarrow> (\<forall>prk info n. length (hkdf_expand C prk info n) = n) \<and>
     (\<forall>k b. length (aes_block C k b) = 16)"

lemma drop_pieces_inv: "quic_inv s \<Longrightarrow> quic_inv (drop_pieces s)"
  by (simp add: quic_inv_def drop_pieces_def total_length_def)

lemma ingest_piece_inv:
  assumes s: "quic_inv s"
  shows "quic_inv (snd (ingest_piece off data s))"
proof (cases "map_of (qs_pieces s) off")
  case None
  then show ?thesis
    using s drop_pieces_inv [OF s] bt_insert_new [of "qs_pieces s" off data]
    by (auto simp: ingest_piece_def Let_def quic_inv_def bt_insert_sorted)
next
  case (Some old)
  then have "length old \<le> total_length (qs_pieces s)"
    unfolding total_length_def by (intro member_le_sum_list) (force dest: map_of_SomeD, simp)
  with Some show ?thesis
    using s drop_pieces_inv [OF s] bt_insert_old [of "qs_pieces s" off old data]
    by (auto simp: ingest_piece_def Let_def quic_inv_def bt_insert_sorted)
qed

lemma ingest_pieces_inv: "quic_inv s \<Longrightarrow> quic_inv (snd (ingest_pieces ps s))"
proof (induction ps arbitrary: s)
  case (Cons p ps)
  obtain off data where "p = (off, data)" by fastforce
  then show ?case
    using Cons ingest_piece_inv [of s off data]
    by (cases "ingest_piece off data s") (auto simp: and_then_def split: sum.splits)
qed simp

lemma derive_keys_ok: "crypto_laws C \<Longrightarrow> keys_ok (derive_initial_keys C dcid)"
  by (simp add: crypto_laws_def derive_initial_keys_def hkdf_expand_label_def keys_ok_def Let_def)

lemma decrypt_returns: "crypto_laws C \<Longrightarrow> keys_ok keys \<Longrightarrow> \<exists>r. decrypt_initial C pkt init keys = Some r"
  by (auto simp: decrypt_initial_def keys_ok_def crypto_laws_def Let_def split: prod.splits)

lemma feed_returns:
  assumes C: "crypto_laws C" and s: "quic_inv s"
  shows "\<exists>r t. quic_feed C pkt s = Some (r, t) \<and> quic_inv t"
proof -
  let ?s = "s\<lparr>qs_feeds := qs_feeds s + 1\<rparr>"
  have s1: "quic_inv ?s" using s by (simp add: quic_inv_def)
  show ?thesis
  proof (cases "qs_done s \<or> qs_feeds ?s > MAX_FEED_ATTEMPTS")
    case True
    with s drop_pieces_inv [OF s1] show ?thesis by (auto simp: quic_feed_def Let_def)
  next
    case False
    show ?thesis
    proof (cases "parse_long_header_initial pkt")
      case (Inl e)
      with False s1 show ?thesis by (simp add: quic_feed_def Let_def)
    next
      case (Inr init)
      define s2 where "s2 = cache_keys C (lh_dcid init) ?s"
      have s2: "quic_inv s2" using s1 derive_keys_ok [OF C] by (simp add: s2_def cache_keys_def quic_inv_def)
      have "qs_cached_keys s2 \<noteq> None" by (simp add: s2_def cache_keys_def del: not_None_eq)
      then obtain keys where k: "qs_cached_keys s2 = Some keys" by blast
      with s2 have "keys_ok keys" by (simp add: quic_inv_def)
      then obtain r where r: "decrypt_initial C pkt init keys = Some r" using decrypt_returns [OF C] by blast
      have "quic_feed C pkt s = Some (case on_ok r extract_crypto_frames of
          Inl e \<Rightarrow> (Inl e, s2) | Inr ps \<Rightarrow> ingest_pieces ps s2)"
        using False Inr k r by (simp add: quic_feed_def Let_def flip: s2_def)
      moreover have "quic_inv (snd (case on_ok r extract_crypto_frames of
          Inl e \<Rightarrow> (Inl e, s2) | Inr ps \<Rightarrow> ingest_pieces ps s2))"
        using s2 ingest_pieces_inv [OF s2] by (auto split: sum.splits)
      ultimately show ?thesis by (metis prod.collapse)
    qed
  qed
qed

lemma quic_new_inv: "quic_inv quic_sniffer_new"
  by (simp add: quic_inv_def quic_sniffer_new_def total_length_def)

section \<open>Pieces in any order\<close>

text \<open>A message cut into CRYPTO pieces: each piece with its offset.\<close>

fun crypto_pieces :: "nat \<Rightarrow> bytes list \<Rightarrow> (u64 \<times> bytes) list" where
  "crypto_pieces o0 [] = []"
| "crypto_pieces o0 (c # cs) = (of_nat o0, c) # crypto_pieces (o0 + length c) cs"

lemma crypto_pieces_keys:
  assumes "o0 + length (concat cs) < 2 ^ 64" and "\<forall>c\<in>set cs. c \<noteq> []"
  shows "keys_sorted (crypto_pieces o0 cs) \<and> (\<forall>e\<in>set (crypto_pieces o0 cs). o0 \<le> unat (fst e))"
  using assms
proof (induction cs arbitrary: o0)
  case (Cons c cs)
  have IH: "keys_sorted (crypto_pieces (o0 + length c) cs)"
      "\<forall>e\<in>set (crypto_pieces (o0 + length c) cs). o0 + length c \<le> unat (fst e)"
    using Cons.IH [of "o0 + length c"] Cons.prems by simp_all
  have o0: "unat (of_nat o0 :: u64) = o0" using Cons.prems(1) by (simp add: unat_of_nat)
  have "0 < length c" using Cons.prems(2) by simp
  then have "\<forall>e\<in>set (crypto_pieces (o0 + length c) cs). o0 < unat (fst e)"
    using IH(2) by (meson add_strict_increasing2 le_eq_less_or_eq less_le_trans less_add_same_cancel1)
  with IH o0 show ?case by (auto simp: word_less_nat_alt)
qed simp

lemma contiguous_pieces: "contiguous (of_nat o0) (crypto_pieces o0 cs) = Some (concat cs)"
  by (induction cs arbitrary: o0) (auto simp flip: of_nat_add)

lemma total_length_pieces: "total_length (crypto_pieces o0 cs) = length (concat cs)"
  by (induction cs arbitrary: o0) (auto simp: total_length_def)

lemma length_pieces [simp]: "length (crypto_pieces o0 cs) = length cs"
  by (induction cs arbitrary: o0) auto

text \<open>Pieces at new offsets, within the limits, are all taken in.\<close>

lemma ingest_new_pieces:
  assumes "keys_sorted (qs_pieces s)" "qs_total_bytes s = total_length (qs_pieces s)"
    and "distinct (map fst ps)" "fst ` set ps \<inter> fst ` set (qs_pieces s) = {}"
    and "total_length (qs_pieces s) + total_length ps \<le> MAX_TOTAL_CRYPTO"
    and "length (qs_pieces s) + length ps \<le> MAX_PIECES"
  shows "\<exists>t. ingest_pieces ps s = (Inr (), t) \<and> keys_sorted (qs_pieces t) \<and>
    set (qs_pieces t) = set (qs_pieces s) \<union> set ps"
  using assms
proof (induction ps arbitrary: s)
  case (Cons p ps)
  obtain off data where p: "p = (off, data)" by fastforce
  have new: "map_of (qs_pieces s) off = None" using Cons.prems(4) p by (auto simp: map_of_eq_None_iff)
  define t where "t = s\<lparr>qs_total_bytes := qs_total_bytes s + length data, qs_pieces := bt_insert off data (qs_pieces s)\<rparr>"
  have "ingest_piece off data s = (Inr (), t)"
    using new Cons.prems p by (auto simp: ingest_piece_def t_def Let_def total_length_def)
  then have step: "ingest_pieces (p # ps) s = ingest_pieces ps t"
    by (simp add: p and_then_def)
  have set: "set (qs_pieces t) = insert (off, data) (set (qs_pieces s))"
    using bt_insert_set [OF Cons.prems(1)] Cons.prems(4) p by (auto simp: t_def)
  have "\<exists>u. ingest_pieces ps t = (Inr (), u) \<and> keys_sorted (qs_pieces u) \<and>
      set (qs_pieces u) = set (qs_pieces t) \<union> set ps"
  proof (rule Cons.IH)
    show "keys_sorted (qs_pieces t)" using bt_insert_sorted [OF Cons.prems(1)] by (simp add: t_def)
    show "qs_total_bytes t = total_length (qs_pieces t)"
      using bt_insert_new(2) [OF Cons.prems(1) new] Cons.prems(2) by (simp add: t_def)
    show "distinct (map fst ps)" using Cons.prems(3) by simp
    show "fst ` set ps \<inter> fst ` set (qs_pieces t) = {}" unfolding set using Cons.prems(3,4) p by auto
    show "total_length (qs_pieces t) + total_length ps \<le> MAX_TOTAL_CRYPTO"
      using bt_insert_new(2) [OF Cons.prems(1) new] Cons.prems(5) p by (simp add: t_def total_length_def)
    show "length (qs_pieces t) + length ps \<le> MAX_PIECES"
      using bt_insert_new(1) [OF Cons.prems(1) new] Cons.prems(6) p by (simp add: t_def)
  qed
  then show ?case unfolding step set using p by auto
qed (auto simp: ret_def)

lemma parse_client_hello_wrapped:
  assumes "length hs < 65536"
  shows "parse_client_hello ([0x16, 0x03, 0x01] @ to_be16 (of_nat (length hs)) @ hs) = parse_handshake hs"
proof -
  have v: "[0x03, 0x01] = to_be16 0x0301" by (simp add: to_be16_def)
  have "rd_u16 (rd_at [0x16] (to_be16 0x0301 @ to_be16 (of_nat (length hs)) @ hs)) =
      (Inr 0x0301, rd_at ([0x16] @ to_be16 0x0301) (to_be16 (of_nat (length hs)) @ hs))"
    by (rule rd_u16_at)
  moreover have "rd_slice (length hs) (rd_at p hs) = (Inr hs, rd_at (p @ hs) [])" for p
    using rd_slice_at [of hs "length hs" p "[]"] by simp
  moreover have "[0x16, 0x03, 0x01] @ to_be16 (of_nat (length hs)) @ hs =
      0x16 # to_be16 0x0301 @ to_be16 (of_nat (length hs)) @ hs"
    using v by simp
  ultimately show ?thesis
    using assms by (simp only: parse_client_hello_def reader_new_at and_then_def rd_u8_at rd_u16_at append_Nil)
      (simp add: rd_u16_at unat_len16)
qed

lemma keys_sorted_distinct: "keys_sorted m \<Longrightarrow> distinct (map fst m)"
  by (induction m) (auto simp: less_le)

lemma try_take_sni_whole:
  assumes "contiguous 0 (qs_pieces s) = Some (handshake_msg body)" and "named_hello name body"
    and "length (handshake_msg body) \<le> 65535"
  shows "fst (try_take_sni s) = Some name"
proof -
  have "length body \<le> 65532" using assms(2) by (auto simp: named_hello_def)
  then have w: "whole_message (handshake_msg body)" by (rule handshake_msg_whole)
  then have "try_reassemble_handshake_record s =
      Some ([0x16, 0x03, 0x01] @ to_be16 (of_nat (length (handshake_msg body))) @ handshake_msg body)"
    using assms(1) by (simp add: try_reassemble_handshake_record_def whole_message_def)
  moreover obtain h where "parse_handshake (handshake_msg body) = Inr h" "ch_sni h = Some name"
    using parse_named_hello [OF assms(2)] by blast
  moreover have "length (handshake_msg body) < 65536" using assms(3) by simp
  ultimately show ?thesis
    using parse_client_hello_wrapped [of "handshake_msg body"] by (simp add: try_take_sni_def Let_def)
qed





text \<open>
  At the limit of the buffer the length field wraps around: 65536 bytes of pieces, which the
  sniffer accepts, are wrapped in a record of length 0 and the name in them is not found.
\<close>

theorem full_buffer_loses_the_name:
  assumes "contiguous 0 (qs_pieces s) = Some hs" and "length hs = 65536"
  shows "fst (try_take_sni s) = None"
proof -
  have "(of_nat 65536 :: u16) = 0" by simp
  then have wrap: "to_be16 (of_nat (length hs)) = [0, 0]" using assms(2) by (simp add: to_be16_def)
  have "parse_client_hello ([0x16, 0x03, 0x01] @ [0, 0] @ hs) = Inl (Short 1 0)"
  proof -
    have b: "be16_of 0 0 = 0" by (simp add: be16_of_def)
    show ?thesis
      by (simp add: parse_client_hello_def parse_handshake_def reader_new_def reader_simps rd_byte_def b)
  qed
  then show ?thesis
    using assms wrap by (auto simp: try_take_sni_def try_reassemble_handshake_record_def)
qed

theorem full_buffer_loses_the_name_witness:
  "fst (try_take_sni (quic_sniffer_new\<lparr>qs_pieces := [(0, replicate 65536 7)]\<rparr>)) = None"
proof (rule full_buffer_loses_the_name)
  show "length (replicate 65536 (7 :: u8)) = 65536" by (rule length_replicate)
qed (simp add: quic_sniffer_new_def)

end
