(* ===== verification/SniffAll.thy ===== *)
theory SniffAll
  imports TlsSniff
begin

text \<open>
  The protocol sniffer of \<open>sb-sniff\<close>: \<open>sniff_all\<close> of \<open>lib.rs\<close> over the TLS reader, the HTTP host
  (\<open>http.rs\<close>) and the BitTorrent signatures (\<open>bittorrent.rs\<close>). The header parser of the \<open>httparse\<close>
  crate is a parameter: it refuses the bytes (\<open>None\<close>), or returns whether the head is complete and
  the header fields it found.
\<close>

section \<open>BitTorrent\<close>

definition BT_HANDSHAKE_PREFIX :: bytes where
  "BT_HANDSHAKE_PREFIX = 19 # bytes_of ''BitTorrent protocol''"

definition BT_UDP_TRACKER_MAGIC :: bytes where
  "BT_UDP_TRACKER_MAGIC = [0x00, 0x00, 0x04, 0x17, 0x27, 0x10, 0x19, 0x80]"

abbreviation (input) UTP_HEADER_LEN :: nat where "UTP_HEADER_LEN \<equiv> 20"

definition is_bittorrent_handshake :: "bytes \<Rightarrow> bool" where
  "is_bittorrent_handshake buf \<longleftrightarrow> starts_with BT_HANDSHAKE_PREFIX buf"

definition is_utp_packet :: "bytes \<Rightarrow> bool" where
  "is_utp_packet buf =
     (if length buf < UTP_HEADER_LEN then False
      else let b0 = buf ! 0; version = b0 AND 0x0f; ptype = drop_bit 4 b0 in
        if version \<noteq> 1 \<or> ptype > 4 then False else buf ! 1 \<le> 3)"

definition is_udp_tracker :: "bytes \<Rightarrow> bool" where
  "is_udp_tracker buf \<longleftrightarrow> length buf \<ge> 16 \<and> starts_with BT_UDP_TRACKER_MAGIC buf"

definition is_bittorrent_udp_packet :: "bytes \<Rightarrow> bool" where
  "is_bittorrent_udp_packet buf \<longleftrightarrow> is_utp_packet buf \<or> is_udp_tracker buf"

section \<open>The HTTP host\<close>

type_synonym http_parser = "bytes \<Rightarrow> (bool \<times> (bytes \<times> bytes) list) option"

abbreviation (input) colon :: u8 where "colon \<equiv> 58"
abbreviation (input) lbracket :: u8 where "lbracket \<equiv> 91"
abbreviation (input) rbracket :: u8 where "rbracket \<equiv> 93"

text \<open>The host part of a trimmed \<open>Host\<close> value: inside the brackets, or before the port.\<close>

definition host_part :: "bytes \<Rightarrow> parse_err + bytes" where
  "host_part s =
     (if s \<noteq> [] \<and> hd s = lbracket then
        (if rbracket \<in> set (tl s) then Inr (takeWhile (\<lambda>c. c \<noteq> rbracket) (tl s))
         else Inl (Malformed ''unmatched '[' in host''))
      else Inr (hd (split_on colon s)))"

fun host_loop :: "bool \<Rightarrow> (bytes \<times> bytes) list \<Rightarrow> parse_err + (bytes option \<times> bool)" where
  "host_loop complete [] = Inr (None, complete)"
| "host_loop complete ((name, value) # hs) =
     (if eq_nocase name (bytes_of ''host'') then
        (if \<not> utf8_ok value then Inl (Malformed ''host not utf8'')
         else on_ok (host_part (trim value)) (\<lambda>hostname.
           Inr (if hostname = [] then None else Some hostname, complete)))
      else host_loop complete hs)"

definition parse_head :: "http_parser \<Rightarrow> bytes \<Rightarrow> parse_err + (bytes option \<times> bool)" where
  "parse_head httparse buf =
     (case httparse buf of
        None \<Rightarrow> Inl (Malformed ''not http'')
      | Some (complete, headers) \<Rightarrow> host_loop complete headers)"

definition parse_host :: "http_parser \<Rightarrow> bytes \<Rightarrow> parse_err + bytes option" where
  "parse_host httparse buf = on_ok (parse_head httparse buf) (\<lambda>(host, _). Inr host)"

section \<open>Sniffing\<close>

datatype sniffed_proto = ProtoTls | ProtoHttp | ProtoBittorrent | ProtoUnknown

record sniffed =
  sn_proto :: sniffed_proto
  sn_domain :: "bytes option"
  sn_ech_outer :: bool
  sn_need_more :: bool

definition sniffed_unknown :: sniffed where
  "sniffed_unknown = \<lparr> sn_proto = ProtoUnknown, sn_domain = None, sn_ech_outer = False, sn_need_more = False \<rparr>"

definition http_methods :: "bytes list" where
  "http_methods = map bytes_of [''GET '', ''POST '', ''HEAD '', ''PUT '', ''DELETE '', ''OPTIONS '', ''PATCH '']"

definition looks_like_http_request_line :: "bytes \<Rightarrow> bool" where
  "looks_like_http_request_line buf \<longleftrightarrow> list_ex (\<lambda>m. starts_with m buf) http_methods"

definition sniff_bittorrent :: "bytes \<Rightarrow> sniffed" where
  "sniff_bittorrent buf =
     (if is_bittorrent_handshake buf
      then \<lparr> sn_proto = ProtoBittorrent, sn_domain = None, sn_ech_outer = False, sn_need_more = False \<rparr>
      else sniffed_unknown)"

definition sniff_http :: "http_parser \<Rightarrow> bytes \<Rightarrow> sniffed" where
  "sniff_http httparse buf =
     (case parse_head httparse buf of
        Inl _ \<Rightarrow> sniff_bittorrent buf
      | Inr (host, head_complete) \<Rightarrow>
          if host \<noteq> None \<or> looks_like_http_request_line buf
          then \<lparr> sn_proto = ProtoHttp, sn_domain = host, sn_ech_outer = False,
                 sn_need_more = (host = None \<and> \<not> head_complete) \<rparr>
          else sniff_bittorrent buf)"

definition sniff_all :: "http_parser \<Rightarrow> bytes \<Rightarrow> sniffed" where
  "sniff_all httparse buf =
     (if buf = [] then sniffed_unknown
      else case on_ok (collect_handshake buf) parse_handshake of
        Inr h \<Rightarrow> \<lparr> sn_proto = ProtoTls, sn_domain = ch_sni h, sn_ech_outer = ch_ech_outer h, sn_need_more = False \<rparr>
      | Inl _ \<Rightarrow> sniff_http httparse buf)"

section \<open>Properties\<close>

text \<open>A host read from a request line never carries the port or a bracket.\<close>

lemma host_part_clean:
  assumes "host_part s = Inr h"
  shows "rbracket \<notin> set h \<or> \<not> starts_with [lbracket] s" and "starts_with [lbracket] s \<or> colon \<notin> set h"
proof -
  have st: "starts_with [lbracket] s \<longleftrightarrow> s \<noteq> [] \<and> hd s = lbracket"
    by (cases s) (auto simp: starts_with_def)
  show "rbracket \<notin> set h \<or> \<not> starts_with [lbracket] s"
    using assms by (auto simp: host_part_def st split: if_splits dest: set_takeWhileD)
  have "hd (split_on colon s) \<in> set (split_on colon s)" by (rule hd_in_set) simp
  from split_on_pieces [OF this] show "starts_with [lbracket] s \<or> colon \<notin> set h"
    using assms by (auto simp: host_part_def st split: if_splits)
qed

text \<open>
  A connection whose first bytes are a ClientHello naming a server, in records of any sizes, is
  recognised as TLS with that name, whatever the other parsers would say.
\<close>

theorem sniff_all_finds_sni:
  assumes "named_hello name body" and "concat fs = handshake_msg body" and "\<forall>f\<in>set fs. length f < 65536"
  shows "\<exists>s. sniff_all httparse (concat (map (tls_record v) fs) @ rest) = s \<and> sn_proto s = ProtoTls \<and>
    sn_domain s = Some name \<and> \<not> sn_need_more s"
proof -
  have "length body \<le> 65532" using assms(1) by (auto simp: named_hello_def)
  then have "whole_message (concat fs)" using handshake_msg_whole assms(2) by simp
  note c = collect_records [OF this assms(3), of v rest]
  obtain h where h: "parse_handshake (concat fs) = Inr h" "ch_sni h = Some name"
    using parse_named_hello [OF assms(1)] assms(2) by auto
  moreover define buf where "buf = concat (map (tls_record v) fs) @ rest"
  moreover have "buf \<noteq> []"
    using assms(2) by (cases fs) (auto simp: handshake_msg_def tls_record_def buf_def)
  ultimately show ?thesis using c by (simp add: sniff_all_def flip: buf_def)
qed

theorem sniff_all_finds_sni_witness:
  "sn_domain (sniff_all (\<lambda>_. None) (tls_record 0x0301 (handshake_msg example_hello) @ [7])) = Some (bytes_of ''a.com'')"
proof -
  have "length (handshake_msg example_hello) < 65536"
    by (simp add: handshake_msg_def example_hello_length to_be24_def)
  then show ?thesis
    using sniff_all_finds_sni [OF example_hello_named, of "[handshake_msg example_hello]" "\<lambda>_. None" "0x0301" "[7]"]
    by simp
qed

lemma host_loop_nonempty: "host_loop c hs = Inr (Some d, c') \<Longrightarrow> d \<noteq> []"
  by (induction hs) (auto simp: on_ok_Inr_iff split: if_splits)

text \<open>
  What sniffing can claim: more bytes are asked for only for an HTTP request whose head is
  incomplete and names no host yet; a domain comes with TLS or HTTP only, the encrypted-hello mark
  with TLS only; an HTTP domain is not empty; nothing is recognised in no bytes.
\<close>

theorem sniff_all_claims:
  "(sn_need_more (sniff_all httparse buf) \<longrightarrow> sn_proto (sniff_all httparse buf) = ProtoHttp \<and>
      sn_domain (sniff_all httparse buf) = None \<and> looks_like_http_request_line buf) \<and>
   (sn_domain (sniff_all httparse buf) \<noteq> None \<longrightarrow> sn_proto (sniff_all httparse buf) \<in> {ProtoTls, ProtoHttp}) \<and>
   (sn_ech_outer (sniff_all httparse buf) \<longrightarrow> sn_proto (sniff_all httparse buf) = ProtoTls) \<and>
   (sn_proto (sniff_all httparse buf) = ProtoHttp \<longrightarrow> sn_domain (sniff_all httparse buf) \<noteq> Some []) \<and>
   (buf = [] \<longrightarrow> sniff_all httparse buf = sniffed_unknown)"
proof (cases "buf = []")
  case True
  then show ?thesis by (simp add: sniff_all_def sniffed_unknown_def)
next
  case False
  have bt: "sn_proto (sniff_bittorrent buf) \<in> {ProtoBittorrent, ProtoUnknown}" "sn_domain (sniff_bittorrent buf) = None"
    "\<not> sn_ech_outer (sniff_bittorrent buf)" "\<not> sn_need_more (sniff_bittorrent buf)"
    by (auto simp: sniff_bittorrent_def sniffed_unknown_def)
  show ?thesis
  proof (cases "on_ok (collect_handshake buf) parse_handshake")
    case (Inr h)
    with False show ?thesis by (simp add: sniff_all_def)
  next
    case (Inl e)
    then have s: "sniff_all httparse buf = sniff_http httparse buf" using False by (simp add: sniff_all_def)
    have ne: "host \<noteq> Some []" if "parse_head httparse buf = Inr (host, c)" for host c
      using that host_loop_nonempty by (auto simp: parse_head_def split: option.splits)
    show ?thesis
      unfolding s using bt ne False by (auto simp: sniff_http_def split: sum.splits prod.splits)
  qed
qed

theorem sniff_all_claims_witness:
  "sniff_all (\<lambda>_. Some (False, [])) (bytes_of ''GET / HTTP/1.1'') =
     \<lparr> sn_proto = ProtoHttp, sn_domain = None, sn_ech_outer = False, sn_need_more = True \<rparr> \<and>
   looks_like_http_request_line (bytes_of ''GET / HTTP/1.1'')"
proof -
  have "sniff_all (\<lambda>_. Some (False, [])) (bytes_of ''GET / HTTP/1.1'') =
      \<lparr> sn_proto = ProtoHttp, sn_domain = None, sn_ech_outer = False, sn_need_more = True \<rparr>"
    by code_simp
  then show ?thesis
    using sniff_all_claims [of "\<lambda>_. Some (False, [])" "bytes_of ''GET / HTTP/1.1''"] by simp
qed

end
