(* ===== verification/NegCache.thy ===== *)
theory NegCache
  imports Base "HOL-Library.AList"
begin

text \<open>
  The negative cache of the sniffer (\<open>sb-sniff/src/neg_cache.rs\<close>): destinations whose connections
  could not be recognised a number of times in a row are not sniffed again for a while. Time is a
  count of milliseconds, given to each operation; the concurrent map is an association list and an
  operation on it is one step.
\<close>

section \<open>A map with a counter\<close>

text \<open>
  Several tables of the program keep an atomic counter beside a concurrent map, and skip the lookup
  when the counter is zero. The promise that makes the shortcut sound:
\<close>

locale counted_map =
  fixes ok :: "'s \<Rightarrow> bool"
    and find :: "'s \<Rightarrow> 'k \<Rightarrow> 'v option"
    and counter :: "'s \<Rightarrow> nat"
  assumes zero_empty: "\<lbrakk>ok s; counter s = 0\<rbrakk> \<Longrightarrow> find s k = None"
begin

lemma shortcut:
  assumes "ok s"
  shows "(if counter s = 0 then none else case find s k of None \<Rightarrow> none | Some v \<Rightarrow> some v) =
    (case find s k of None \<Rightarrow> none | Some v \<Rightarrow> some v)"
  using zero_empty [OF assms] by auto

lemma found_positive: "ok s \<Longrightarrow> find s k = Some v \<Longrightarrow> 0 < counter s"
  using zero_empty by force

end

section \<open>State and operations\<close>

record neg_entry =
  ne_fails :: u8
  ne_expires :: nat

record 'k neg_cache =
  nc_inner :: "('k \<times> neg_entry) list"
  nc_ttl :: nat
  nc_threshold :: u8
  nc_count :: nat

abbreviation (input) CAP_BEFORE_GC :: nat where "CAP_BEFORE_GC \<equiv> 4096"
abbreviation (input) DEFAULT_FAIL_THRESHOLD :: u8 where "DEFAULT_FAIL_THRESHOLD \<equiv> 3"
abbreviation (input) DEFAULT_NEG_TTL :: nat where "DEFAULT_NEG_TTL \<equiv> 30000"

definition with_threshold :: "nat \<Rightarrow> u8 \<Rightarrow> 'k neg_cache" where
  "with_threshold ttl threshold =
     \<lparr> nc_inner = [], nc_ttl = ttl, nc_threshold = max threshold 1, nc_count = 0 \<rparr>"

definition neg_cache_new :: "nat \<Rightarrow> 'k neg_cache" where
  "neg_cache_new ttl = with_threshold ttl DEFAULT_FAIL_THRESHOLD"

definition neg_len :: "'k neg_cache \<Rightarrow> nat" where
  "neg_len c = length (nc_inner c)"

definition neg_is_empty :: "'k neg_cache \<Rightarrow> bool" where
  "neg_is_empty c \<longleftrightarrow> nc_inner c = []"

definition is_hit :: "nat \<Rightarrow> 'k \<Rightarrow> 'k neg_cache \<Rightarrow> bool" where
  "is_hit now k c =
     (if nc_count c = 0 then False
      else case map_of (nc_inner c) k of
        Some e \<Rightarrow> ne_fails e \<ge> nc_threshold c \<and> now < ne_expires e
      | None \<Rightarrow> False)"

definition neg_gc :: "nat \<Rightarrow> 'k neg_cache \<Rightarrow> 'k neg_cache" where
  "neg_gc now c =
     (let inner = filter (\<lambda>(k, e). now < ne_expires e) (nc_inner c) in
      c\<lparr>nc_inner := inner, nc_count := length inner\<rparr>)"

text \<open>The entry after one more failure; the count of an expired entry starts again.\<close>

definition bump :: "nat \<Rightarrow> 'k neg_cache \<Rightarrow> neg_entry \<Rightarrow> neg_entry" where
  "bump now c e =
     (let fails = (if now \<ge> ne_expires e then 0 else ne_fails e) in
      \<lparr> ne_fails = min (fails + 1) (nc_threshold c), ne_expires = now + nc_ttl c \<rparr>)"

definition gc_when_full :: "nat \<Rightarrow> 'k neg_cache \<Rightarrow> 'k neg_cache" where
  "gc_when_full now c = (if length (nc_inner c) \<ge> CAP_BEFORE_GC then neg_gc now c else c)"

definition record_failure :: "nat \<Rightarrow> 'k \<Rightarrow> 'k neg_cache \<Rightarrow> 'k neg_cache" where
  "record_failure now k c =
     (case map_of (nc_inner c) k of
        Some e \<Rightarrow> c\<lparr>nc_inner := AList.update k (bump now c e) (nc_inner c)\<rparr>
      | None \<Rightarrow> c\<lparr>nc_inner := AList.update k \<lparr> ne_fails = min 1 (nc_threshold c), ne_expires = now + nc_ttl c \<rparr> (nc_inner c),
                 nc_count := nc_count c + 1\<rparr>)"

definition note_failure :: "nat \<Rightarrow> 'k \<Rightarrow> 'k neg_cache \<Rightarrow> 'k neg_cache" where
  "note_failure now k c = record_failure now k (gc_when_full now c)"

definition note_success :: "'k \<Rightarrow> 'k neg_cache \<Rightarrow> 'k neg_cache" where
  "note_success k c =
     (if nc_count c = 0 then c
      else if map_of (nc_inner c) k \<noteq> None
      then c\<lparr>nc_inner := AList.delete k (nc_inner c), nc_count := nc_count c - 1\<rparr>
      else c)"

section \<open>The counter mirrors the map\<close>

definition neg_ok :: "'k neg_cache \<Rightarrow> bool" where
  "neg_ok c \<longleftrightarrow> distinct (map fst (nc_inner c)) \<and> nc_count c = length (nc_inner c) \<and> 1 \<le> nc_threshold c"

definition neg_find :: "'k neg_cache \<Rightarrow> 'k \<Rightarrow> neg_entry option" where
  "neg_find c = map_of (nc_inner c)"

interpretation neg_map: counted_map neg_ok neg_find nc_count
  by unfold_locales (simp add: neg_ok_def neg_find_def)

lemma is_hit_iff: "neg_ok c \<Longrightarrow> is_hit now k c \<longleftrightarrow>
    (\<exists>e. neg_find c k = Some e \<and> nc_threshold c \<le> ne_fails e \<and> now < ne_expires e)"
  using neg_map.zero_empty [of c k] by (auto simp: is_hit_def neg_find_def split: option.splits)

lemma update_new_length: "k \<notin> fst ` set al \<Longrightarrow> length (AList.update k v al) = Suc (length al)"
  by (induction al) auto

lemma update_old_length: "k \<in> fst ` set al \<Longrightarrow> length (AList.update k v al) = length al"
  by (induction al) auto

lemma delete_length:
  "distinct (map fst al) \<Longrightarrow> k \<in> fst ` set al \<Longrightarrow> Suc (length (AList.delete k al)) = length al"
proof (induction al)
  case (Cons e al)
  obtain k' v where e: "e = (k', v)" by fastforce
  show ?case
  proof (cases "k = k'")
    case True
    then have "AList.delete k al = al" using Cons.prems(1) e by (simp add: delete_idem)
    with e True show ?thesis by simp
  qed (use Cons e in auto)
qed simp

lemma with_threshold_ok: "neg_ok (with_threshold ttl n)"
  by (simp add: neg_ok_def with_threshold_def)

lemma neg_gc_ok: "neg_ok c \<Longrightarrow> neg_ok (neg_gc now c)"
  by (auto simp: neg_ok_def neg_gc_def Let_def distinct_map inj_on_def)

lemma neg_gc_find: "neg_ok c \<Longrightarrow> neg_find (neg_gc now c) k =
    (case neg_find c k of Some e \<Rightarrow> if now < ne_expires e then Some e else None | None \<Rightarrow> None)"
proof -
  assume "neg_ok c"
  then have d: "distinct (map fst (nc_inner c))" by (simp add: neg_ok_def)
  have "map_of (filter (\<lambda>(k, e). P e) al) k =
      (case map_of al k of Some e \<Rightarrow> if P e then Some e else None | None \<Rightarrow> None)"
    if "distinct (map fst al)" for al :: "('a \<times> neg_entry) list" and P
    using that by (induction al) (auto simp: map_of_eq_None_iff split: option.splits)
  from this [OF d] show ?thesis by (simp add: neg_gc_def neg_find_def Let_def)
qed

lemma gc_when_full_ok: "neg_ok c \<Longrightarrow> neg_ok (gc_when_full now c)"
  by (simp add: gc_when_full_def neg_gc_ok)

lemma record_failure_ok: "neg_ok c \<Longrightarrow> neg_ok (record_failure now k c)"
proof (cases "map_of (nc_inner c) k")
  case None
  moreover from this have "k \<notin> fst ` set (nc_inner c)" by (simp add: map_of_eq_None_iff)
  moreover assume "neg_ok c"
  ultimately show ?thesis
    by (simp add: record_failure_def neg_ok_def distinct_update update_new_length)
next
  case (Some e)
  moreover from this have "k \<in> fst ` set (nc_inner c)" by (force dest: map_of_SomeD)
  moreover assume "neg_ok c"
  ultimately show ?thesis
    by (simp add: record_failure_def neg_ok_def distinct_update update_old_length)
qed

lemma note_failure_ok: "neg_ok c \<Longrightarrow> neg_ok (note_failure now k c)"
  by (simp add: note_failure_def record_failure_ok gc_when_full_ok)

lemma note_success_ok:
  assumes "neg_ok c"
  shows "neg_ok (note_success k c)" and "neg_find (note_success k c) k = None"
proof -
  have d: "Suc (length (AList.delete k (nc_inner c))) = length (nc_inner c)" if "map_of (nc_inner c) k \<noteq> None"
    using that assms by (intro delete_length) (auto simp: neg_ok_def map_of_eq_None_iff)
  show "neg_ok (note_success k c)"
    using assms d by (force simp: note_success_def neg_ok_def distinct_delete)
  show "neg_find (note_success k c) k = None"
    using assms neg_map.zero_empty [of c k] by (auto simp: note_success_def neg_find_def delete_conv)
qed

section \<open>Failures in a row\<close>

lemma note_failure_find:
  assumes c: "neg_ok c"
  shows "neg_find (note_failure now k c) k =
    Some (case neg_find c k of
        Some e \<Rightarrow> if now < ne_expires e then bump now c e
                   else \<lparr> ne_fails = min 1 (nc_threshold c), ne_expires = now + nc_ttl c \<rparr>
      | None \<Rightarrow> \<lparr> ne_fails = min 1 (nc_threshold c), ne_expires = now + nc_ttl c \<rparr>)"
proof -
  have shape: "nc_threshold (gc_when_full now c) = nc_threshold c" "nc_ttl (gc_when_full now c) = nc_ttl c"
    by (simp_all add: gc_when_full_def neg_gc_def Let_def)
  have old: "bump now c e = \<lparr> ne_fails = min 1 (nc_threshold c), ne_expires = now + nc_ttl c \<rparr>"
    if "\<not> now < ne_expires e" for e
    using that by (simp add: bump_def)
  have rec: "neg_find (record_failure now k d) k =
      Some (case neg_find d k of Some e \<Rightarrow> bump now d e
        | None \<Rightarrow> \<lparr> ne_fails = min 1 (nc_threshold d), ne_expires = now + nc_ttl d \<rparr>)" for d
    by (auto simp: record_failure_def neg_find_def update_conv split: option.splits)
  have "neg_find (gc_when_full now c) k = neg_find c k \<or>
      neg_find (gc_when_full now c) k = (case neg_find c k of Some e \<Rightarrow> if now < ne_expires e then Some e else None | None \<Rightarrow> None)"
    using neg_gc_find [OF c] by (auto simp: gc_when_full_def)
  then show ?thesis
    unfolding note_failure_def rec shape using old
    by (auto simp: bump_def shape split: option.splits if_splits)
qed

lemma note_failure_shape [simp]:
  "nc_threshold (note_failure now k c) = nc_threshold c" "nc_ttl (note_failure now k c) = nc_ttl c"
  by (auto simp: note_failure_def record_failure_def gc_when_full_def neg_gc_def Let_def split: option.splits)

text \<open>Failures of \<open>k\<close> at the given times, each before the previous one has expired.\<close>

definition fail_all :: "'k \<Rightarrow> nat list \<Rightarrow> 'k neg_cache \<Rightarrow> 'k neg_cache" where
  "fail_all k ts c = fold (\<lambda>t. note_failure t k) ts c"

lemma fail_all_ok: "neg_ok c \<Longrightarrow> neg_ok (fail_all k ts c)"
  by (induction ts arbitrary: c) (simp_all add: fail_all_def note_failure_ok)

fun in_a_row :: "nat \<Rightarrow> nat list \<Rightarrow> bool" where
  "in_a_row ttl (t # u # ts) \<longleftrightarrow> t \<le> u \<and> u < t + ttl \<and> in_a_row ttl (u # ts)"
| "in_a_row ttl _ \<longleftrightarrow> True"

lemma bump_count:
  assumes "now < ne_expires e" and "unat (ne_fails e) = min n (unat (nc_threshold c))" and "nc_threshold c < 255"
  shows "unat (ne_fails (bump now c e)) = min (Suc n) (unat (nc_threshold c))"
proof -
  have "unat (ne_fails e) < 255" using assms(2,3) by (simp add: word_less_nat_alt)
  then have "unat (ne_fails e + 1) = unat (ne_fails e) + 1" by (simp add: unat_word_ariths)
  then have "unat (ne_fails (bump now c e)) = min (unat (ne_fails e) + 1) (unat (nc_threshold c))"
    using assms(1) by (simp add: bump_def min_def word_le_nat_alt)
  with assms(2) show ?thesis by simp
qed

lemma fail_all_entry:
  assumes "neg_ok c" and "nc_threshold c < 255" and "neg_find c k = Some e" and "in_a_row (nc_ttl c) (t # ts)"
    and "unat (ne_fails e) = min n (unat (nc_threshold c))" and "ne_expires e = t + nc_ttl c"
  shows "neg_ok (fail_all k ts c) \<and> nc_threshold (fail_all k ts c) = nc_threshold c \<and>
    (\<exists>e'. neg_find (fail_all k ts c) k = Some e' \<and>
       unat (ne_fails e') = min (n + length ts) (unat (nc_threshold c)) \<and> ne_expires e' = last (t # ts) + nc_ttl c)"
  using assms
proof (induction ts arbitrary: c e n t)
  case Nil
  then show ?case by (simp add: fail_all_def)
next
  case (Cons u ts)
  have now: "u < ne_expires e" and row: "in_a_row (nc_ttl c) (u # ts)" using Cons.prems(4,6) by simp_all
  let ?c = "note_failure u k c"
  have "neg_find ?c k = Some (bump u c e)"
    using note_failure_find [OF Cons.prems(1), of u k] Cons.prems(3) now by simp
  moreover have "unat (ne_fails (bump u c e)) = min (Suc n) (unat (nc_threshold c))"
    by (rule bump_count [OF now Cons.prems(5,2)])
  moreover have "ne_expires (bump u c e) = u + nc_ttl c" by (simp add: bump_def)
  ultimately show ?case
    using Cons.IH [of ?c "bump u c e" u "Suc n"] note_failure_ok [OF Cons.prems(1)] Cons.prems(2) row
    by (simp add: fail_all_def)
qed

text \<open>
  A destination unknown to the cache is skipped exactly when at least the threshold number of
  failures in a row were noted, each before the previous one expired, and the last one has not
  expired yet; whatever garbage collection does in between, as long as the threshold is below 255.
\<close>

theorem hit_after_threshold_failures:
  assumes "neg_ok c" and "neg_find c k = None" and "nc_threshold c < 255" and "in_a_row (nc_ttl c) (t # ts)"
  shows "is_hit now k (fail_all k (t # ts) c) \<longleftrightarrow>
    unat (nc_threshold c) \<le> length (t # ts) \<and> now < last (t # ts) + nc_ttl c"
proof -
  let ?c = "note_failure t k c" and ?e = "\<lparr> ne_fails = min 1 (nc_threshold c), ne_expires = t + nc_ttl c \<rparr>"
  have e: "neg_find ?c k = Some ?e" using note_failure_find [OF assms(1), of t k] assms(2) by simp
  have u: "unat (ne_fails ?e) = min 1 (unat (nc_threshold ?c))" by (simp add: min_def word_le_nat_alt)
  have ok: "neg_ok ?c" by (rule note_failure_ok [OF assms(1)])
  have thr: "nc_threshold ?c < 255" and row: "in_a_row (nc_ttl ?c) (t # ts)" and ex: "ne_expires ?e = t + nc_ttl ?c"
    using assms(3,4) by simp_all
  from fail_all_entry [OF ok thr e row u ex] obtain e' where
    "neg_ok (fail_all k ts ?c)" "nc_threshold (fail_all k ts ?c) = nc_threshold c"
    "neg_find (fail_all k ts ?c) k = Some e'"
    "unat (ne_fails e') = min (1 + length ts) (unat (nc_threshold c))" "ne_expires e' = last (t # ts) + nc_ttl c"
    by auto
  moreover have "fail_all k (t # ts) c = fail_all k ts ?c" by (simp add: fail_all_def)
  ultimately show ?thesis by (auto simp: is_hit_iff word_le_nat_alt)
qed

theorem hit_after_threshold_failures_witness:
  "is_hit 45000 ''a'' (fail_all ''a'' [0, 10000, 20000] (neg_cache_new DEFAULT_NEG_TTL)) \<and>
   \<not> is_hit 50000 ''a'' (fail_all ''a'' [0, 10000, 20000] (neg_cache_new DEFAULT_NEG_TTL)) \<and>
   \<not> is_hit 15000 ''a'' (fail_all ''a'' [0, 10000] (neg_cache_new DEFAULT_NEG_TTL))"
proof -
  have ok: "neg_ok (neg_cache_new DEFAULT_NEG_TTL)" by (simp add: neg_cache_new_def with_threshold_ok)
  have t: "nc_threshold (neg_cache_new DEFAULT_NEG_TTL :: string neg_cache) = 3"
    "nc_ttl (neg_cache_new DEFAULT_NEG_TTL :: string neg_cache) = 30000"
    "neg_find (neg_cache_new DEFAULT_NEG_TTL) ''a'' = None"
    by (simp_all add: neg_cache_new_def with_threshold_def neg_find_def max_def word_le_nat_alt)
  have thr: "nc_threshold (neg_cache_new DEFAULT_NEG_TTL :: string neg_cache) < 255" using t(1) by simp
  have "is_hit now ''a'' (fail_all ''a'' (0 # ts) (neg_cache_new DEFAULT_NEG_TTL)) \<longleftrightarrow>
      3 \<le> length (0 # ts) \<and> now < last (0 # ts) + 30000" if "in_a_row 30000 (0 # ts)" for ts now
    using hit_after_threshold_failures [OF ok t(3) thr, of 0 ts now] that t(1,2) by simp
  from this [of "[10000, 20000]"] this [of "[10000]"] show ?thesis by simp
qed

text \<open>
  Noting a success forgets the destination: it is not skipped, whatever was noted before.
\<close>

theorem success_clears_hit:
  assumes "neg_ok c"
  shows "\<not> is_hit now k (note_success k c) \<and> neg_ok (note_success k c)"
  using note_success_ok [OF assms, of k] is_hit_iff [of "note_success k c" now k] by auto

theorem success_clears_hit_witness:
  "\<not> is_hit 1 ''a'' (note_success ''a'' (fail_all ''a'' [0, 0, 0] (neg_cache_new 100)))"
proof -
  have "neg_ok (fail_all ''a'' [0, 0, 0] (neg_cache_new 100))"
    by (rule fail_all_ok) (simp add: neg_cache_new_def with_threshold_ok)
  then show ?thesis by (rule success_clears_hit [THEN conjunct1])
qed

text \<open>
  With a threshold of 255 the counter wraps around: the failure after the 255th makes the entry
  a fresh one again.
\<close>

lemma threshold_255_wraps:
  assumes "nc_threshold c = 255" and "ne_fails e = 255" and "now < ne_expires e"
  shows "ne_fails (bump now c e) = 0"
proof -
  have "ne_fails (bump now c e) = min (ne_fails e + 1) (nc_threshold c)"
    using assms(3) by (simp add: bump_def)
  also have "\<dots> = min (255 + 1) 255" unfolding assms(1,2) by (rule refl)
  also have "\<dots> = 0" by code_simp
  finally show ?thesis .
qed

end
