(* ===== verification/PeekBuf.thy ===== *)
theory PeekBuf
  imports Base
begin

text \<open>
  The buffer that the first bytes of a connection are peeked into, the pool such buffers are recycled
  through, and the reader that replays them (\<open>sb-sniff/src/peek.rs\<close>). A stream is the bytes it still
  has to deliver; what one read delivers is the environment's choice. How a \<open>BytesMut\<close> grows is the
  \<open>bytes\<close> crate's choice, the parameter \<open>grow\<close>.
\<close>

section \<open>State\<close>

record bytes_mut =
  bm_data :: bytes
  bm_capacity :: nat

record peek_pool =
  pp_inner :: "bytes_mut list"
  pp_cap_slots :: nat
  pp_buf_size :: nat

record peek_buf =
  pb_buf :: bytes_mut
  pb_limit :: nat
  pb_pooled :: bool

record 'r replay_reader =
  rr_buffered :: bytes_mut
  rr_pos :: nat
  rr_inner :: 'r
  rr_pooled :: bool

abbreviation (input) DEFAULT_PEEK_LIMIT :: nat where "DEFAULT_PEEK_LIMIT \<equiv> 8 * 1024"
abbreviation (input) POOL_DEFAULT_SLOTS :: nat where "POOL_DEFAULT_SLOTS \<equiv> 32"

type_synonym growth = "nat \<Rightarrow> nat \<Rightarrow> nat"

definition with_capacity :: "nat \<Rightarrow> bytes_mut" where
  "with_capacity n = \<lparr> bm_data = [], bm_capacity = n \<rparr>"

text \<open>\<open>extend_from_slice\<close>: the capacity grows when the data does not fit.\<close>

definition extend_from_slice :: "growth \<Rightarrow> bytes \<Rightarrow> bytes_mut \<Rightarrow> bytes_mut" where
  "extend_from_slice grow data b =
     (let need = length (bm_data b) + length data in
      b\<lparr>bm_data := bm_data b @ data,
        bm_capacity := (if need \<le> bm_capacity b then bm_capacity b else grow (bm_capacity b) need)\<rparr>)"

section \<open>The pool\<close>

definition peek_pool_new :: "nat \<Rightarrow> nat \<Rightarrow> peek_pool" where
  "peek_pool_new cap_slots buf_size = \<lparr> pp_inner = [], pp_cap_slots = cap_slots, pp_buf_size = buf_size \<rparr>"

definition peek_pool_with_defaults :: peek_pool where
  "peek_pool_with_defaults = peek_pool_new POOL_DEFAULT_SLOTS DEFAULT_PEEK_LIMIT"

definition peek_idle :: "peek_pool \<Rightarrow> nat" where
  "peek_idle p = length (pp_inner p)"

definition peek_take :: "peek_pool \<Rightarrow> peek_buf \<times> peek_pool" where
  "peek_take p =
     (let (b, inner) = (if pp_inner p = [] then (with_capacity (pp_buf_size p), [])
                        else (last (pp_inner p), butlast (pp_inner p))) in
      (\<lparr> pb_buf = b, pb_limit = pp_buf_size p, pb_pooled = True \<rparr>, p\<lparr>pp_inner := inner\<rparr>))"

definition give_back :: "bytes_mut \<Rightarrow> peek_pool \<Rightarrow> peek_pool" where
  "give_back b p =
     (if bm_capacity b < pp_buf_size p then p
      else if length (pp_inner p) \<ge> pp_cap_slots p then p
      else p\<lparr>pp_inner := pp_inner p @ [b\<lparr>bm_data := []\<rparr>]\<rparr>)"

section \<open>The buffer\<close>

definition peek_with_limit :: "nat \<Rightarrow> peek_buf" where
  "peek_with_limit limit = \<lparr> pb_buf = with_capacity (min limit 4096), pb_limit = limit, pb_pooled = False \<rparr>"

definition peek_new :: peek_buf where
  "peek_new = peek_with_limit DEFAULT_PEEK_LIMIT"

definition peek_empty :: peek_buf where
  "peek_empty = \<lparr> pb_buf = with_capacity 0, pb_limit = 0, pb_pooled = False \<rparr>"

definition peek_from_prefix :: "bytes \<Rightarrow> peek_buf" where
  "peek_from_prefix data =
     (if data = [] then peek_empty
      else \<lparr> pb_buf = \<lparr> bm_data = data, bm_capacity = length data \<rparr>, pb_limit = length data, pb_pooled = False \<rparr>)"

definition peek_seed :: "growth \<Rightarrow> bytes \<Rightarrow> peek_buf \<Rightarrow> peek_buf" where
  "peek_seed grow data p =
     (if data = [] then p
      else let b = extend_from_slice grow data (pb_buf p) in
        p\<lparr>pb_buf := b, pb_limit := max (pb_limit p) (length (bm_data b))\<rparr>)"

definition peek_bytes :: "peek_buf \<Rightarrow> bytes" where
  "peek_bytes p = bm_data (pb_buf p)"

definition peek_len :: "peek_buf \<Rightarrow> nat" where
  "peek_len p = length (bm_data (pb_buf p))"

definition peek_is_empty :: "peek_buf \<Rightarrow> bool" where
  "peek_is_empty p \<longleftrightarrow> bm_data (pb_buf p) = []"

definition peek_is_full :: "peek_buf \<Rightarrow> bool" where
  "peek_is_full p \<longleftrightarrow> length (bm_data (pb_buf p)) \<ge> pb_limit p"

text \<open>What a read can do: fail, or deliver up to so many bytes.\<close>

datatype ready = Failed | Ready nat

definition stream_read :: "ready \<Rightarrow> nat \<Rightarrow> bytes \<Rightarrow> (unit + bytes) \<times> bytes" where
  "stream_read ev cap s =
     (case ev of Failed \<Rightarrow> (Inl (), s) | Ready k \<Rightarrow> (Inr (take (min k cap) s), drop (min k cap) s))"

definition read_some :: "growth \<Rightarrow> ready \<Rightarrow> peek_buf \<Rightarrow> bytes \<Rightarrow> (unit + nat) \<times> peek_buf \<times> bytes" where
  "read_some grow ev p s =
     (if peek_is_full p then (Inr 0, p, s)
      else let remaining = pb_limit p - length (bm_data (pb_buf p)); chunk = min remaining (4 * 1024) in
        case stream_read ev chunk s of
          (Inl e, s) \<Rightarrow> (Inl e, p, s)
        | (Inr data, s) \<Rightarrow> (Inr (length data), p\<lparr>pb_buf := extend_from_slice grow data (pb_buf p)\<rparr>, s))"

section \<open>The replay\<close>

definition into_replay :: "peek_buf \<Rightarrow> 'r \<Rightarrow> 'r replay_reader" where
  "into_replay p inner = \<lparr> rr_buffered = pb_buf p, rr_pos = 0, rr_inner = inner, rr_pooled = pb_pooled p \<rparr>"

definition poll_read :: "ready \<Rightarrow> nat \<Rightarrow> bytes replay_reader \<Rightarrow> (unit + bytes) \<times> bytes replay_reader" where
  "poll_read ev cap r =
     (if rr_pos r < length (bm_data (rr_buffered r)) then
        (let remaining = drop (rr_pos r) (bm_data (rr_buffered r)); n = min (length remaining) cap in
         (Inr (take n remaining), r\<lparr>rr_pos := rr_pos r + n\<rparr>))
      else case stream_read ev cap (rr_inner r) of (res, s) \<Rightarrow> (res, r\<lparr>rr_inner := s\<rparr>))"

text \<open>Dropping a buffer or a reader gives its storage back to the pool it came from.\<close>

definition drop_peek_buf :: "peek_buf \<Rightarrow> peek_pool \<Rightarrow> peek_pool" where
  "drop_peek_buf p pool = (if pb_pooled p then give_back (pb_buf p) pool else pool)"

definition drop_replay :: "'r replay_reader \<Rightarrow> peek_pool \<Rightarrow> peek_pool" where
  "drop_replay r pool = (if rr_pooled r then give_back (rr_buffered r) pool else pool)"

section \<open>Peeking and replaying a stream\<close>

fun peek_all :: "growth \<Rightarrow> ready list \<Rightarrow> peek_buf \<Rightarrow> bytes \<Rightarrow> peek_buf \<times> bytes" where
  "peek_all grow [] p s = (p, s)"
| "peek_all grow (ev # evs) p s = (case read_some grow ev p s of (_, p, s) \<Rightarrow> peek_all grow evs p s)"

fun replay_all :: "(ready \<times> nat) list \<Rightarrow> bytes replay_reader \<Rightarrow> bytes \<times> bytes replay_reader" where
  "replay_all [] r = ([], r)"
| "replay_all ((ev, cap) # evs) r =
     (case poll_read ev cap r of (res, r) \<Rightarrow>
        (case replay_all evs r of (out, r) \<Rightarrow> ((case res of Inl _ \<Rightarrow> [] | Inr d \<Rightarrow> d) @ out, r)))"

definition unread :: "bytes replay_reader \<Rightarrow> bytes" where
  "unread r = drop (rr_pos r) (bm_data (rr_buffered r)) @ rr_inner r"

lemma read_some_stream:
  assumes "read_some grow ev p s = (res, p', s')"
  shows "peek_bytes p' @ s' = peek_bytes p @ s \<and> pb_limit p' = pb_limit p \<and>
    (peek_len p \<le> pb_limit p \<longrightarrow> peek_len p' \<le> pb_limit p)"
proof (cases "peek_is_full p")
  case True
  then show ?thesis using assms by (simp add: read_some_def)
next
  case False
  show ?thesis
  proof (cases ev)
    case Failed
    then show ?thesis using False assms by (simp add: read_some_def stream_read_def Let_def)
  next
    case (Ready k)
    define n where "n = min k (min (pb_limit p - length (bm_data (pb_buf p))) (4 * 1024))"
    have "p' = p\<lparr>pb_buf := extend_from_slice grow (take n s) (pb_buf p)\<rparr>" "s' = drop n s"
      using Ready False assms by (simp_all add: read_some_def stream_read_def Let_def n_def)
    moreover have "n \<le> pb_limit p - length (bm_data (pb_buf p))" by (simp add: n_def)
    ultimately show ?thesis
      by (auto simp: extend_from_slice_def peek_bytes_def peek_len_def Let_def min_def)
  qed
qed

lemma peek_all_stream:
  assumes "peek_all grow evs p s = (p', s')"
  shows "peek_bytes p' @ s' = peek_bytes p @ s \<and> pb_limit p' = pb_limit p \<and>
    (peek_len p \<le> pb_limit p \<longrightarrow> peek_len p' \<le> pb_limit p)"
  using assms
proof (induction evs arbitrary: p s)
  case (Cons ev evs)
  obtain res q t where q: "read_some grow ev p s = (res, q, t)" using prod_cases3 by blast
  then have "peek_all grow evs q t = (p', s')" using Cons.prems by simp
  from Cons.IH [OF this] read_some_stream [OF q] show ?case by simp
qed simp

lemma poll_read_stream:
  assumes "poll_read ev cap r = (res, r')"
  shows "(case res of Inl _ \<Rightarrow> [] | Inr d \<Rightarrow> d) @ unread r' = unread r"
proof (cases "rr_pos r < length (bm_data (rr_buffered r))")
  case True
  have "take n (drop p xs) @ drop (p + n) xs = drop p xs" for n p and xs :: bytes
    by (metis add.commute append_take_drop_id drop_drop)
  then show ?thesis using True assms by (auto simp: poll_read_def unread_def Let_def)
next
  case False
  then show ?thesis
    using assms by (cases ev) (auto simp: poll_read_def stream_read_def unread_def)
qed

lemma replay_all_stream: "replay_all evs r = (out, r') \<Longrightarrow> out @ unread r' = unread r"
proof (induction evs arbitrary: r out)
  case (Cons e evs)
  obtain ev cap where "e = (ev, cap)" by fastforce
  with Cons show ?case
    using poll_read_stream [of ev cap r] by (fastforce split: prod.splits)
qed simp

text \<open>
  C34: sniffing is transparent to the relayed connection: whatever the sniffer peeked (in reads of any
  sizes, some of them failing) and however the relay then reads, the relay sees the bytes of the
  stream, from the first, in order, none missing and none twice; and the peeked bytes never exceed
  the limit.
\<close>

theorem peeked_bytes_are_replayed:
  assumes "peek_all grow evs peek_new s = (p, s')" and "replay_all revs (into_replay p s') = (out, r)"
  shows "out @ unread r = s \<and> peek_bytes p @ s' = s \<and> peek_len p \<le> 8192"
proof -
  have "peek_bytes p @ s' = s" "peek_len p \<le> 8192"
    using peek_all_stream [OF assms(1)]
    by (simp_all add: peek_new_def peek_with_limit_def peek_bytes_def peek_len_def with_capacity_def)
  moreover have "unread (into_replay p s') = peek_bytes p @ s'"
    by (simp add: unread_def into_replay_def peek_bytes_def)
  ultimately show ?thesis using replay_all_stream [OF assms(2)] by simp
qed

theorem peeked_bytes_are_replayed_witness:
  "\<exists>p s' out r. peek_all (\<lambda>_ n. n) [Ready 2, Failed, Ready 1] peek_new [1, 2, 3, 4, 5] = (p, s') \<and>
     replay_all [(Failed, 2), (Ready 9, 9)] (into_replay p s') = (out, r) \<and> out @ unread r = [1, 2, 3, 4, 5]"
proof -
  obtain p s' where p: "peek_all (\<lambda>_ n. n) [Ready 2, Failed, Ready 1] peek_new [1, 2, 3, 4, 5] = (p, s')" by fastforce
  obtain out r where r: "replay_all [(Failed, 2), (Ready 9, 9)] (into_replay p s') = (out, r)" by fastforce
  from peeked_bytes_are_replayed [OF p r] p r show ?thesis by blast
qed

section \<open>Recycled buffers are clean\<close>

definition peek_pool_ok :: "peek_pool \<Rightarrow> bool" where
  "peek_pool_ok p \<longleftrightarrow> length (pp_inner p) \<le> pp_cap_slots p \<and>
     (\<forall>b\<in>set (pp_inner p). bm_data b = [] \<and> pp_buf_size p \<le> bm_capacity b)"

lemma give_back_ok: "peek_pool_ok p \<Longrightarrow> peek_pool_ok (give_back b p)"
  by (auto simp: peek_pool_ok_def give_back_def)

lemma peek_take_ok:
  assumes "peek_pool_ok p"
  shows "peek_pool_ok (snd (peek_take p)) \<and> peek_bytes (fst (peek_take p)) = [] \<and>
    pp_buf_size p \<le> bm_capacity (pb_buf (fst (peek_take p)))"
proof (cases "pp_inner p" rule: rev_cases)
  case Nil
  then show ?thesis using assms by (simp add: peek_pool_ok_def peek_take_def peek_bytes_def with_capacity_def)
next
  case (snoc bs b)
  then show ?thesis using assms by (auto simp: peek_pool_ok_def peek_take_def peek_bytes_def)
qed

text \<open>What the connections do with the pool, in any order.\<close>

inductive pool_use :: "nat \<Rightarrow> nat \<Rightarrow> peek_pool \<Rightarrow> bool" for slots bsize where
  start: "pool_use slots bsize (peek_pool_new slots bsize)"
| taken: "pool_use slots bsize p \<Longrightarrow> pool_use slots bsize (snd (peek_take p))"
| dropped_buf: "pool_use slots bsize p \<Longrightarrow> pool_use slots bsize (drop_peek_buf b p)"
| dropped_replay: "pool_use slots bsize p \<Longrightarrow> pool_use slots bsize (drop_replay (r :: bytes replay_reader) p)"

lemma pool_use_ok:
  "pool_use slots bsize p \<Longrightarrow> peek_pool_ok p \<and> pp_cap_slots p = slots \<and> pp_buf_size p = bsize"
proof (induction rule: pool_use.induct)
  case (taken p)
  then show ?case using peek_take_ok [of p] by (simp add: peek_take_def Let_def split: prod.splits)
next
  case (dropped_buf p b)
  then show ?case using give_back_ok by (simp add: drop_peek_buf_def) (simp add: give_back_def)
next
  case (dropped_replay p r)
  then show ?case using give_back_ok by (simp add: drop_replay_def) (simp add: give_back_def)
qed (simp add: peek_pool_new_def peek_pool_ok_def)

text \<open>
  No byte of one connection reaches another through the pool: a buffer taken from it is empty and
  has room for a whole peek, whatever was given back before; and the pool never holds more buffers
  than its slots.
\<close>

theorem taken_buffers_are_clean:
  assumes "pool_use slots bsize p"
  shows "peek_bytes (fst (peek_take p)) = [] \<and> bsize \<le> bm_capacity (pb_buf (fst (peek_take p))) \<and>
    peek_idle p \<le> slots"
proof -
  have p: "peek_pool_ok p" "pp_cap_slots p = slots" "pp_buf_size p = bsize"
    using pool_use_ok [OF assms] by simp_all
  from peek_take_ok [OF p(1)] p show ?thesis by (simp add: peek_pool_ok_def peek_idle_def)
qed

theorem taken_buffers_are_clean_witness:
  "peek_bytes (fst (peek_take (drop_peek_buf \<lparr> pb_buf = \<lparr> bm_data = [1, 2], bm_capacity = 9 \<rparr>, pb_limit = 9,
     pb_pooled = True \<rparr> (peek_pool_new 2 8)))) = []"
  using taken_buffers_are_clean [OF pool_use.dropped_buf [OF pool_use.start]] by blast

end
