(* ===== verification/Socks.thy ===== *)
theory Socks
  imports Base
begin

text \<open>
  The SOCKS5 protocol of \<open>sb-outbound\<close>: the client that talks to an upstream (\<open>socks5.rs\<close>), the UDP
  association and its datagram format (\<open>socks5_udp.rs\<close>), and the inbound server (\<open>server.rs\<close>). A
  stream is the bytes the peer will still send, the bytes written so far, and how many more the peer
  will take before it resets the connection; the operations are computations over it.
\<close>

section \<open>Streams and errors\<close>

datatype outbound_err = Io | Proto string | Rejected u8 | HostTooLong nat | PoolClosed

record stream =
  st_rx :: bytes
  st_tx :: bytes
  st_tx_room :: nat

type_synonym 'a io = "(stream, outbound_err, 'a) comp"

text \<open>\<open>read_exact\<close> fails at the end of the stream, having consumed what was there.\<close>

definition read_exact :: "nat \<Rightarrow> bytes io" where
  "read_exact n = (\<lambda>s. if n \<le> length (st_rx s) then (Inr (take n (st_rx s)), s\<lparr>st_rx := drop n (st_rx s)\<rparr>)
     else (Inl Io, s\<lparr>st_rx := []\<rparr>))"

definition write_all :: "bytes \<Rightarrow> unit io" where
  "write_all data = (\<lambda>s. if length data \<le> st_tx_room s
     then (Inr (), s\<lparr>st_tx := st_tx s @ data, st_tx_room := st_tx_room s - length data\<rparr>)
     else (Inl Io, s\<lparr>st_tx := st_tx s @ take (st_tx_room s) data, st_tx_room := 0\<rparr>))"

abbreviation (input) VER :: u8 where "VER \<equiv> 0x05"
abbreviation (input) METHOD_NO_AUTH :: u8 where "METHOD_NO_AUTH \<equiv> 0x00"
abbreviation (input) METHOD_USERPASS :: u8 where "METHOD_USERPASS \<equiv> 0x02"
abbreviation (input) METHOD_REJECTED :: u8 where "METHOD_REJECTED \<equiv> 0xFF"
abbreviation (input) AUTH_VER :: u8 where "AUTH_VER \<equiv> 0x01"
abbreviation (input) CMD_CONNECT :: u8 where "CMD_CONNECT \<equiv> 0x01"
abbreviation (input) CMD_UDP_ASSOCIATE :: u8 where "CMD_UDP_ASSOCIATE \<equiv> 0x03"
abbreviation (input) REP_SUCCEEDED :: u8 where "REP_SUCCEEDED \<equiv> 0x00"
abbreviation (input) ATYP_IPV4 :: u8 where "ATYP_IPV4 \<equiv> 0x01"
abbreviation (input) ATYP_DOMAIN :: u8 where "ATYP_DOMAIN \<equiv> 0x03"
abbreviation (input) ATYP_IPV6 :: u8 where "ATYP_IPV6 \<equiv> 0x04"

section \<open>The client\<close>

definition read_method_reply :: "u8 io" where
  "read_method_reply = and_then (read_exact 2) (\<lambda>buf.
     if buf ! 0 \<noteq> VER then raise (Proto ''bad version in method reply'')
     else if buf ! 1 = METHOD_REJECTED then raise (Proto ''server rejected all methods'')
     else ret (buf ! 1))"

definition send_userpass :: "bytes \<Rightarrow> bytes \<Rightarrow> unit io" where
  "send_userpass user pass =
     (if length user > 255 then raise (HostTooLong (length user))
      else if length pass > 255 then raise (HostTooLong (length pass))
      else and_then (write_all ([AUTH_VER, of_nat (length user)] @ user @ [of_nat (length pass)] @ pass)) (\<lambda>_.
        and_then (read_exact 2) (\<lambda>rep.
          if rep ! 0 \<noteq> AUTH_VER then raise (Proto ''bad auth subnegotiation version'')
          else if rep ! 1 \<noteq> 0 then raise (Proto ''user/pass auth rejected by upstream'')
          else ret ())))"

definition handshake :: "(bytes \<times> bytes) option \<Rightarrow> unit io" where
  "handshake auth =
     (case auth of
        Some (user, pass) \<Rightarrow>
          and_then (write_all [VER, 0x02, METHOD_NO_AUTH, METHOD_USERPASS]) (\<lambda>_.
          and_then read_method_reply (\<lambda>chosen.
            if chosen = METHOD_NO_AUTH then ret ()
            else if chosen = METHOD_USERPASS then send_userpass user pass
            else raise (Proto ''server chose unsupported method'')))
      | None \<Rightarrow>
          and_then (write_all [VER, 0x01, METHOD_NO_AUTH]) (\<lambda>_.
          and_then read_method_reply (\<lambda>chosen.
            if chosen = METHOD_NO_AUTH then ret ()
            else raise (Proto ''server chose unsupported method''))))"

definition handshake_no_auth :: "unit io" where
  "handshake_no_auth = handshake None"

text \<open>An address as the protocol writes it: its type, its octets.\<close>

definition encode_ip :: "ip_addr \<Rightarrow> bytes" where
  "encode_ip ip = (case ip of V4 v4 \<Rightarrow> ATYP_IPV4 # to_be32 v4 | V6 v6 \<Rightarrow> ATYP_IPV6 # to_be128 v6)"

abbreviation (input) CONNECT_MAX_LEN :: nat where "CONNECT_MAX_LEN \<equiv> 3 + 1 + 1 + 255 + 2"

text \<open>The request in a buffer of \<open>cap\<close> bytes; a buffer too small is a panic.\<close>

definition encode_connect_into :: "nat \<Rightarrow> socket_addr \<Rightarrow> bytes option \<Rightarrow> (outbound_err + bytes) option" where
  "encode_connect_into cap dst host =
     (case (case host of
        Some h \<Rightarrow> if length h \<le> 255 \<and> h \<noteq> [] then Inr (ATYP_DOMAIN # of_nat (length h) # h)
                  else Inl (HostTooLong (length h))
      | None \<Rightarrow> Inr (encode_ip (sa_ip dst))) of
        Inl e \<Rightarrow> if cap < 3 then None else Some (Inl e)
      | Inr addr \<Rightarrow> let out = [VER, CMD_CONNECT, 0x00] @ addr @ to_be16 (sa_port dst) in
          if cap < length out then None else Some (Inr out))"

definition encode_connect :: "socket_addr \<Rightarrow> bytes option \<Rightarrow> (outbound_err + bytes) option" where
  "encode_connect dst host = encode_connect_into CONNECT_MAX_LEN dst host"

text \<open>The bound address of a reply is read and dropped.\<close>

definition read_connect_reply :: "unit io" where
  "read_connect_reply = and_then (read_exact 4) (\<lambda>head.
     if head ! 0 \<noteq> VER then raise (Proto ''bad version in connect reply'')
     else if head ! 1 \<noteq> REP_SUCCEEDED then raise (Rejected (head ! 1))
     else if head ! 2 \<noteq> 0x00 then raise (Proto ''RSV != 0 in connect reply'')
     else if head ! 3 = ATYP_IPV4 then and_then (read_exact (4 + 2)) (\<lambda>_. ret ())
     else if head ! 3 = ATYP_IPV6 then and_then (read_exact (16 + 2)) (\<lambda>_. ret ())
     else if head ! 3 = ATYP_DOMAIN then
       and_then (read_exact 1) (\<lambda>n. and_then (read_exact (unat (n ! 0) + 2)) (\<lambda>_. ret ()))
     else raise (Proto ''unknown ATYP in reply''))"

definition lift_result :: "outbound_err + 'a \<Rightarrow> 'a io" where
  "lift_result r = (case r of Inl e \<Rightarrow> raise e | Inr x \<Rightarrow> ret x)"

definition send_connect :: "socket_addr \<Rightarrow> bytes option \<Rightarrow> unit io option" where
  "send_connect dst host = map_option (\<lambda>r. and_then (lift_result r) (\<lambda>req.
     and_then (write_all req) (\<lambda>_. read_connect_reply))) (encode_connect_into CONNECT_MAX_LEN dst host)"

section \<open>UDP association\<close>

definition read_associate_reply :: "socket_addr io" where
  "read_associate_reply = and_then (read_exact 4) (\<lambda>head.
     if head ! 0 \<noteq> VER then raise (Proto ''bad version in associate reply'')
     else if head ! 1 \<noteq> REP_SUCCEEDED then raise (Rejected (head ! 1))
     else if head ! 2 \<noteq> 0x00 then raise (Proto ''RSV != 0 in associate reply'')
     else and_then
       (if head ! 3 = ATYP_IPV4 then and_then (read_exact 4) (\<lambda>b. ret (V4 (be32_of (b ! 0) (b ! 1) (b ! 2) (b ! 3))))
        else if head ! 3 = ATYP_IPV6 then and_then (read_exact 16) (\<lambda>b. ret (V6 (be128_of b)))
        else if head ! 3 = ATYP_DOMAIN then
          and_then (read_exact 1) (\<lambda>n. and_then (read_exact (unat (n ! 0) + 2)) (\<lambda>_.
            raise (Proto ''ASSOCIATE reply with domain not supported'')))
        else raise (Proto ''unknown ATYP in associate reply''))
       (\<lambda>ip. and_then (read_exact 2) (\<lambda>port. ret \<lparr> sa_ip = ip, sa_port = be16_of (port ! 0) (port ! 1) \<rparr>)))"

definition udp_associate_auth :: "socket_addr \<Rightarrow> (bytes \<times> bytes) option \<Rightarrow> socket_addr io" where
  "udp_associate_auth local_hint auth = and_then (handshake auth) (\<lambda>_.
     and_then (write_all ([VER, CMD_UDP_ASSOCIATE, 0x00] @ encode_ip (sa_ip local_hint) @ to_be16 (sa_port local_hint)))
       (\<lambda>_. read_associate_reply))"

definition udp_associate :: "socket_addr \<Rightarrow> socket_addr io" where
  "udp_associate local_hint = udp_associate_auth local_hint None"

definition encode_udp_request :: "socket_addr \<Rightarrow> bytes \<Rightarrow> bytes" where
  "encode_udp_request dst payload = [0, 0, 0] @ encode_ip (sa_ip dst) @ to_be16 (sa_port dst) @ payload"

definition encode_udp_request_domain :: "bytes \<Rightarrow> u16 \<Rightarrow> bytes \<Rightarrow> outbound_err + bytes" where
  "encode_udp_request_domain host dst_port payload =
     (if host = [] \<or> length host > 255 then Inl (HostTooLong (length host))
      else Inr ([0, 0, 0, ATYP_DOMAIN] @ [of_nat (length host)] @ host @ to_be16 dst_port @ payload))"

text \<open>The sender of a datagram and the offset of its payload. Reading past the buffer panics.\<close>

definition byte_at :: "bytes \<Rightarrow> nat \<Rightarrow> u8 option" where
  "byte_at buf i = (if i < length buf then Some (buf ! i) else None)"

definition decode_udp_reply :: "bytes \<Rightarrow> (outbound_err + (socket_addr \<times> nat)) option" where
  "decode_udp_reply buf =
     (if length buf < 4 then Some (Inl (Proto ''udp reply too short''))
      else if buf ! 0 \<noteq> 0 \<or> buf ! 1 \<noteq> 0 then Some (Inl (Proto ''udp reply RSV != 0''))
      else if buf ! 2 \<noteq> 0 then Some (Inl (Proto ''udp reply fragmented''))
      else case (if buf ! 3 = ATYP_IPV4 then
            (if length buf < 4 + 4 + 2 then Inl (Proto ''ipv4 udp reply truncated'')
             else Inr (V4 (be32_of (buf ! 4) (buf ! 5) (buf ! 6) (buf ! 7)), 8))
          else if buf ! 3 = ATYP_IPV6 then
            (if length buf < 4 + 16 + 2 then Inl (Proto ''ipv6 udp reply truncated'')
             else Inr (V6 (be128_of (take 16 (drop 4 buf))), 20))
          else if buf ! 3 = ATYP_DOMAIN then
            (if length buf < 5 then Inl (Proto ''domain udp reply truncated'')
             else let end = 5 + unat (buf ! 4) in
               if length buf < end + 2 then Inl (Proto ''domain udp reply truncated'') else Inr (V4 0, end))
          else Inl (Proto ''unknown ATYP in udp reply'')) of
        Inl e \<Rightarrow> Some (Inl e)
      | Inr (ip, off) \<Rightarrow> do {
          hi \<leftarrow> byte_at buf off;
          lo \<leftarrow> byte_at buf (off + 1);
          Some (Inr (\<lparr> sa_ip = ip, sa_port = be16_of hi lo \<rparr>, off + 2)) })"

section \<open>The server\<close>

datatype socks_cmd = Connect | UdpAssociate | Other u8
datatype dest_addr = Ip socket_addr | Domain bytes u16

definition dest_port :: "dest_addr \<Rightarrow> u16" where
  "dest_port d = (case d of Ip a \<Rightarrow> sa_port a | Domain _ p \<Rightarrow> p)"

abbreviation (input) METHOD_NONE_ACCEPTABLE :: u8 where "METHOD_NONE_ACCEPTABLE \<equiv> 0xFF"

definition verify_userpass :: "bytes \<Rightarrow> bytes \<Rightarrow> unit io" where
  "verify_userpass user pass = and_then (read_exact 2) (\<lambda>head.
     if head ! 0 \<noteq> AUTH_VER then raise (Proto ''bad auth subnegotiation version'')
     else and_then (read_exact (unat (head ! 1))) (\<lambda>ubuf.
       and_then (read_exact 1) (\<lambda>plen_b.
       and_then (read_exact (unat (plen_b ! 0))) (\<lambda>pbuf.
         if ubuf = user \<and> pbuf = pass then write_all [AUTH_VER, 0x00]
         else and_then (write_all [AUTH_VER, 0x01]) (\<lambda>_. raise (Proto ''user/pass auth failed''))))))"

definition negotiate_method :: "(bytes \<times> bytes) option \<Rightarrow> unit io" where
  "negotiate_method require_auth = and_then (read_exact 2) (\<lambda>head.
     if head ! 0 \<noteq> VER then raise (Proto ''bad version in client greeting'')
     else if head ! 1 = 0 then raise (Proto ''client offered zero methods'')
     else and_then (read_exact (unat (head ! 1))) (\<lambda>offered.
       case require_auth of
         Some (user, pass) \<Rightarrow>
           if METHOD_USERPASS \<notin> set offered
           then and_then (write_all [VER, METHOD_NONE_ACCEPTABLE]) (\<lambda>_.
             raise (Proto ''client did not offer user/pass auth''))
           else and_then (write_all [VER, METHOD_USERPASS]) (\<lambda>_. verify_userpass user pass)
       | None \<Rightarrow>
           if METHOD_NO_AUTH \<notin> set offered
           then and_then (write_all [VER, METHOD_NONE_ACCEPTABLE]) (\<lambda>_.
             raise (Proto ''client did not offer no-auth''))
           else write_all [VER, METHOD_NO_AUTH]))"

definition socks_cmd_of :: "u8 \<Rightarrow> socks_cmd" where
  "socks_cmd_of b = (if b = CMD_CONNECT then Connect else if b = CMD_UDP_ASSOCIATE then UdpAssociate else Other b)"

definition read_request :: "(socks_cmd \<times> dest_addr) io" where
  "read_request = and_then (read_exact 4) (\<lambda>head.
     if head ! 0 \<noteq> VER then raise (Proto ''bad version in request'')
     else let cmd = socks_cmd_of (head ! 1) in
       and_then
         (if head ! 3 = ATYP_IPV4 then and_then (read_exact 6) (\<lambda>b.
            ret (Ip \<lparr> sa_ip = V4 (be32_of (b ! 0) (b ! 1) (b ! 2) (b ! 3)), sa_port = be16_of (b ! 4) (b ! 5) \<rparr>))
          else if head ! 3 = ATYP_IPV6 then and_then (read_exact 18) (\<lambda>b.
            ret (Ip \<lparr> sa_ip = V6 (be128_of (take 16 b)), sa_port = be16_of (b ! 16) (b ! 17) \<rparr>))
          else if head ! 3 = ATYP_DOMAIN then and_then (read_exact 1) (\<lambda>n.
            if n ! 0 = 0 then raise (Proto ''empty domain in request'')
            else let len = unat (n ! 0) in and_then (read_exact (len + 2)) (\<lambda>buf.
              if \<not> utf8_ok (take len buf) then raise (Proto ''non-utf8 domain'')
              else ret (Domain (take len buf) (be16_of (buf ! len) (buf ! (len + 1))))))
          else raise (Proto ''unknown ATYP in request''))
         (\<lambda>dest. ret (cmd, dest)))"

definition write_reply :: "u8 \<Rightarrow> socket_addr \<Rightarrow> unit io" where
  "write_reply rep bnd = write_all ([VER, rep, 0x00] @ encode_ip (sa_ip bnd) @ to_be16 (sa_port bnd))"

definition write_success :: "socket_addr \<Rightarrow> unit io" where
  "write_success bnd = write_reply REP_SUCCEEDED bnd"

section \<open>Running the protocol\<close>

named_theorems io_simps \<open>reading what is there and writing what fits\<close>

lemma read_exact_at [io_simps]:
  "length xs = n \<Longrightarrow> read_exact n \<lparr> st_rx = xs @ ys, st_tx = tx, st_tx_room = room \<rparr> =
     (Inr xs, \<lparr> st_rx = ys, st_tx = tx, st_tx_room = room \<rparr>)"
  by (simp add: read_exact_def)

lemma write_all_at [io_simps]:
  "length data \<le> room \<Longrightarrow> write_all data \<lparr> st_rx = rx, st_tx = tx, st_tx_room = room \<rparr> =
     (Inr (), \<lparr> st_rx = rx, st_tx = tx @ data, st_tx_room = room - length data \<rparr>)"
  by (simp add: write_all_def)

lemma unat_len: "length xs \<le> 255 \<Longrightarrow> unat (of_nat (length xs) :: u8) = length xs"
  by (simp add: unat_of_nat)

lemma length_encode_ip: "length (encode_ip ip) \<le> 17"
  by (cases ip) (simp_all add: encode_ip_def)

text \<open>The credentials both ends can carry, and the targets a request can name.\<close>

definition auth_ok :: "(bytes \<times> bytes) option \<Rightarrow> bool" where
  "auth_ok auth = (case auth of None \<Rightarrow> True | Some (u, p) \<Rightarrow> length u \<le> 255 \<and> length p \<le> 255)"

definition host_ok :: "bytes option \<Rightarrow> bool" where
  "host_ok host = (case host of None \<Rightarrow> True | Some h \<Rightarrow> h \<noteq> [] \<and> length h \<le> 255 \<and> utf8_ok h)"

definition target_of :: "socket_addr \<Rightarrow> bytes option \<Rightarrow> dest_addr" where
  "target_of dst host = (case host of None \<Rightarrow> Ip dst | Some h \<Rightarrow> Domain h (sa_port dst))"

text \<open>What each side writes in a session that goes well.\<close>

definition client_greeting :: "(bytes \<times> bytes) option \<Rightarrow> bytes" where
  "client_greeting auth = (case auth of None \<Rightarrow> [5, 1, 0] | Some _ \<Rightarrow> [5, 2, 0, 2])"

definition client_auth :: "(bytes \<times> bytes) option \<Rightarrow> bytes" where
  "client_auth auth = (case auth of None \<Rightarrow> []
     | Some (u, p) \<Rightarrow> [1, of_nat (length u)] @ u @ [of_nat (length p)] @ p)"

definition server_choice :: "(bytes \<times> bytes) option \<Rightarrow> bytes" where
  "server_choice auth = (case auth of None \<Rightarrow> [5, 0] | Some _ \<Rightarrow> [5, 2])"

definition server_verdict :: "(bytes \<times> bytes) option \<Rightarrow> bytes" where
  "server_verdict auth = (case auth of None \<Rightarrow> [] | Some _ \<Rightarrow> [1, 0])"

definition connect_request :: "socket_addr \<Rightarrow> bytes option \<Rightarrow> bytes" where
  "connect_request dst host = [5, 1, 0] @
     (case host of None \<Rightarrow> encode_ip (sa_ip dst) | Some h \<Rightarrow> 3 # of_nat (length h) # h) @ to_be16 (sa_port dst)"

definition success_reply :: "socket_addr \<Rightarrow> bytes" where
  "success_reply bnd = [5, 0, 0] @ encode_ip (sa_ip bnd) @ to_be16 (sa_port bnd)"

lemmas session_bytes = client_greeting_def client_auth_def server_choice_def server_verdict_def

lemma encode_connect_request:
  assumes "host_ok host"
  shows "encode_connect_into CONNECT_MAX_LEN dst host = Some (Inr (connect_request dst host))"
  using assms length_encode_ip [of "sa_ip dst"]
  by (cases host) (auto simp: encode_connect_into_def host_ok_def connect_request_def Let_def)

lemma read_method_reply_at [io_simps]:
  "m \<noteq> METHOD_REJECTED \<Longrightarrow> read_method_reply \<lparr> st_rx = [5, m] @ ys, st_tx = tx, st_tx_room = room \<rparr> =
     (Inr m, \<lparr> st_rx = ys, st_tx = tx, st_tx_room = room \<rparr>)"
  using read_exact_at [of "[5, m]" 2 ys tx room] by (simp add: read_method_reply_def and_then_def)

lemma handshake_at:
  assumes "auth_ok auth" and "length (client_greeting auth @ client_auth auth) \<le> room"
  shows "handshake auth \<lparr> st_rx = server_choice auth @ server_verdict auth @ ys, st_tx = tx, st_tx_room = room \<rparr> =
    (Inr (), \<lparr> st_rx = ys, st_tx = tx @ client_greeting auth @ client_auth auth,
       st_tx_room = room - length (client_greeting auth @ client_auth auth) \<rparr>)"
proof (cases auth)
  case None
  then show ?thesis
    using assms read_method_reply_at [of 0 ys]
    by (simp add: handshake_def session_bytes and_then_def io_simps)
next
  case (Some a)
  obtain u p where a: "a = (u, p)" by fastforce
  have "read_method_reply \<lparr> st_rx = [5, 2] @ [1, 0] @ ys, st_tx = t, st_tx_room = r \<rparr> =
      (Inr 2, \<lparr> st_rx = [1, 0] @ ys, st_tx = t, st_tx_room = r \<rparr>)" for t r
    by (rule read_method_reply_at) simp
  moreover have "read_exact 2 \<lparr> st_rx = [1, 0] @ ys, st_tx = t, st_tx_room = r \<rparr> =
      (Inr [1, 0], \<lparr> st_rx = ys, st_tx = t, st_tx_room = r \<rparr>)" for t r
    by (rule read_exact_at) simp
  ultimately show ?thesis
    using assms Some a
    by (simp add: handshake_def send_userpass_def session_bytes auth_ok_def and_then_def io_simps)
qed

lemma negotiate_at:
  assumes "auth_ok auth" and "4 \<le> room"
  shows "negotiate_method auth \<lparr> st_rx = client_greeting auth @ client_auth auth @ ys, st_tx = tx, st_tx_room = room \<rparr> =
    (Inr (), \<lparr> st_rx = ys, st_tx = tx @ server_choice auth @ server_verdict auth,
       st_tx_room = room - length (server_choice auth @ server_verdict auth) \<rparr>)"
proof (cases auth)
  case None
  have "read_exact 2 \<lparr> st_rx = [5, 1] @ [0] @ ys, st_tx = t, st_tx_room = r \<rparr> =
      (Inr [5, 1], \<lparr> st_rx = [0] @ ys, st_tx = t, st_tx_room = r \<rparr>)" for t r
    by (rule read_exact_at) simp
  moreover have "read_exact 1 \<lparr> st_rx = [0] @ ys, st_tx = t, st_tx_room = r \<rparr> =
      (Inr [0], \<lparr> st_rx = ys, st_tx = t, st_tx_room = r \<rparr>)" for t r
    by (rule read_exact_at) simp
  ultimately show ?thesis
    using assms None by (simp add: negotiate_method_def session_bytes and_then_def io_simps)
next
  case (Some a)
  obtain u p where a: "a = (u, p)" by fastforce
  let ?rest = "[1, of_nat (length u)] @ u @ [of_nat (length p)] @ p @ ys"
  have l: "length u \<le> 255" "length p \<le> 255" using assms(1) Some a by (simp_all add: auth_ok_def)
  have "read_exact 2 \<lparr> st_rx = [5, 2] @ [0, 2] @ ?rest, st_tx = t, st_tx_room = r \<rparr> =
      (Inr [5, 2], \<lparr> st_rx = [0, 2] @ ?rest, st_tx = t, st_tx_room = r \<rparr>)" for t r
    by (rule read_exact_at) simp
  moreover have "read_exact 2 \<lparr> st_rx = [0, 2] @ ?rest, st_tx = t, st_tx_room = r \<rparr> =
      (Inr [0, 2], \<lparr> st_rx = ?rest, st_tx = t, st_tx_room = r \<rparr>)" for t r
    by (rule read_exact_at) simp
  moreover have "read_exact 2 \<lparr> st_rx = ?rest, st_tx = t, st_tx_room = r \<rparr> =
      (Inr [1, of_nat (length u)], \<lparr> st_rx = u @ [of_nat (length p)] @ p @ ys, st_tx = t, st_tx_room = r \<rparr>)" for t r
    by (rule read_exact_at) simp
  moreover have "read_exact 1 \<lparr> st_rx = [of_nat (length p)] @ p @ ys, st_tx = t, st_tx_room = r \<rparr> =
      (Inr [of_nat (length p)], \<lparr> st_rx = p @ ys, st_tx = t, st_tx_room = r \<rparr>)" for t r
    by (rule read_exact_at) simp
  ultimately show ?thesis
    using assms Some a l
    by (simp add: negotiate_method_def verify_userpass_def session_bytes and_then_def io_simps unat_len)
qed

lemma to_be32_nth: "be32_of (to_be32 x ! 0) (to_be32 x ! 1) (to_be32 x ! 2) (to_be32 x ! 3) = x"
  by (simp add: to_be32_def)

lemma to_be16_nth: "be16_of (to_be16 x ! 0) (to_be16 x ! Suc 0) = x"
  by (simp add: to_be16_def)

lemma be16_after: "length xs = n \<Longrightarrow> be16_of ((xs @ to_be16 x @ ys) ! n) ((xs @ to_be16 x @ ys) ! (n + 1)) = x"
  by (simp add: nth_append to_be16_def)

lemma read_request_at:
  assumes "host_ok host"
  shows "read_request \<lparr> st_rx = connect_request dst host @ ys, st_tx = tx, st_tx_room = room \<rparr> =
    (Inr (Connect, target_of dst host), \<lparr> st_rx = ys, st_tx = tx, st_tx_room = room \<rparr>)"
proof (cases host)
  case (Some h)
  have l: "length h \<le> 255" "h \<noteq> []" "utf8_ok h" using assms Some by (simp_all add: host_ok_def)
  have nz: "(of_nat (length h) :: u8) \<noteq> 0" using l(1,2) unat_len [of h] by (metis length_0_conv unsigned_0)
  have "read_exact 4 \<lparr> st_rx = [5, 1, 0, 3] @ [of_nat (length h)] @ (h @ to_be16 (sa_port dst)) @ ys, st_tx = tx, st_tx_room = room \<rparr> =
      (Inr [5, 1, 0, 3], \<lparr> st_rx = [of_nat (length h)] @ (h @ to_be16 (sa_port dst)) @ ys, st_tx = tx, st_tx_room = room \<rparr>)"
    by (rule read_exact_at) simp
  moreover have "read_exact 1 \<lparr> st_rx = [of_nat (length h)] @ (h @ to_be16 (sa_port dst)) @ ys, st_tx = tx, st_tx_room = room \<rparr> =
      (Inr [of_nat (length h)], \<lparr> st_rx = (h @ to_be16 (sa_port dst)) @ ys, st_tx = tx, st_tx_room = room \<rparr>)"
    by (rule read_exact_at) simp
  moreover have "read_exact (length h + 2) \<lparr> st_rx = (h @ to_be16 (sa_port dst)) @ ys, st_tx = tx, st_tx_room = room \<rparr> =
      (Inr (h @ to_be16 (sa_port dst)), \<lparr> st_rx = ys, st_tx = tx, st_tx_room = room \<rparr>)"
    by (rule read_exact_at) simp
  moreover have "be16_of ((h @ to_be16 (sa_port dst)) ! length h) ((h @ to_be16 (sa_port dst)) ! (length h + 1)) = sa_port dst"
    using be16_after [of h "length h" "sa_port dst" "[]"] by simp
  ultimately show ?thesis
    using Some l nz
    by (simp add: read_request_def connect_request_def and_then_def target_of_def unat_len socks_cmd_of_def Let_def)
next
  case None
  show ?thesis
  proof (cases "sa_ip dst")
    case (V4 v)
    have "read_exact 4 \<lparr> st_rx = [5, 1, 0, 1] @ (to_be32 v @ to_be16 (sa_port dst)) @ ys, st_tx = tx, st_tx_room = room \<rparr> =
        (Inr [5, 1, 0, 1], \<lparr> st_rx = (to_be32 v @ to_be16 (sa_port dst)) @ ys, st_tx = tx, st_tx_room = room \<rparr>)"
      by (rule read_exact_at) simp
    moreover have "read_exact 6 \<lparr> st_rx = (to_be32 v @ to_be16 (sa_port dst)) @ ys, st_tx = tx, st_tx_room = room \<rparr> =
        (Inr (to_be32 v @ to_be16 (sa_port dst)), \<lparr> st_rx = ys, st_tx = tx, st_tx_room = room \<rparr>)"
      by (rule read_exact_at) simp
    ultimately show ?thesis
      using None V4
      by (simp add: read_request_def connect_request_def and_then_def target_of_def socks_cmd_of_def encode_ip_def Let_def)
        (simp add: to_be32_def to_be16_def flip: V4)
  next
    case (V6 v)
    have dst: "\<lparr> sa_ip = V6 v, sa_port = sa_port dst \<rparr> = dst" using V6 by simp
    have "read_exact 4 \<lparr> st_rx = [5, 1, 0, 4] @ (to_be128 v @ to_be16 (sa_port dst)) @ ys, st_tx = tx, st_tx_room = room \<rparr> =
        (Inr [5, 1, 0, 4], \<lparr> st_rx = (to_be128 v @ to_be16 (sa_port dst)) @ ys, st_tx = tx, st_tx_room = room \<rparr>)"
      by (rule read_exact_at) simp
    moreover have "read_exact 18 \<lparr> st_rx = (to_be128 v @ to_be16 (sa_port dst)) @ ys, st_tx = tx, st_tx_room = room \<rparr> =
        (Inr (to_be128 v @ to_be16 (sa_port dst)), \<lparr> st_rx = ys, st_tx = tx, st_tx_room = room \<rparr>)"
      by (rule read_exact_at) simp
    ultimately show ?thesis
      using None V6 be16_after [of "to_be128 v" 16 "sa_port dst" "[]"] dst
      by (simp add: read_request_def connect_request_def and_then_def target_of_def socks_cmd_of_def encode_ip_def Let_def)
  qed
qed

lemma read_connect_reply_at:
  "read_connect_reply \<lparr> st_rx = success_reply bnd @ ys, st_tx = tx, st_tx_room = room \<rparr> =
     (Inr (), \<lparr> st_rx = ys, st_tx = tx, st_tx_room = room \<rparr>)"
proof (cases "sa_ip bnd")
  case (V4 v)
  have "read_exact 4 \<lparr> st_rx = [5, 0, 0, 1] @ (to_be32 v @ to_be16 (sa_port bnd)) @ ys, st_tx = tx, st_tx_room = room \<rparr> =
      (Inr [5, 0, 0, 1], \<lparr> st_rx = (to_be32 v @ to_be16 (sa_port bnd)) @ ys, st_tx = tx, st_tx_room = room \<rparr>)"
    by (rule read_exact_at) simp
  moreover have "read_exact 6 \<lparr> st_rx = (to_be32 v @ to_be16 (sa_port bnd)) @ ys, st_tx = tx, st_tx_room = room \<rparr> =
      (Inr (to_be32 v @ to_be16 (sa_port bnd)), \<lparr> st_rx = ys, st_tx = tx, st_tx_room = room \<rparr>)"
    by (rule read_exact_at) simp
  ultimately show ?thesis
    using V4 by (simp add: read_connect_reply_def success_reply_def and_then_def encode_ip_def)
next
  case (V6 v)
  have "read_exact 4 \<lparr> st_rx = [5, 0, 0, 4] @ (to_be128 v @ to_be16 (sa_port bnd)) @ ys, st_tx = tx, st_tx_room = room \<rparr> =
      (Inr [5, 0, 0, 4], \<lparr> st_rx = (to_be128 v @ to_be16 (sa_port bnd)) @ ys, st_tx = tx, st_tx_room = room \<rparr>)"
    by (rule read_exact_at) simp
  moreover have "read_exact 18 \<lparr> st_rx = (to_be128 v @ to_be16 (sa_port bnd)) @ ys, st_tx = tx, st_tx_room = room \<rparr> =
      (Inr (to_be128 v @ to_be16 (sa_port bnd)), \<lparr> st_rx = ys, st_tx = tx, st_tx_room = room \<rparr>)"
    by (rule read_exact_at) simp
  ultimately show ?thesis
    using V6 by (simp add: read_connect_reply_def success_reply_def and_then_def encode_ip_def)
qed

text \<open>The two ends of a session: what the client does, and what the server does.\<close>

definition client_session :: "(bytes \<times> bytes) option \<Rightarrow> socket_addr \<Rightarrow> bytes option \<Rightarrow> unit io option" where
  "client_session auth dst host = map_option (\<lambda>c. and_then (handshake auth) (\<lambda>_. c)) (send_connect dst host)"

definition server_session :: "(bytes \<times> bytes) option \<Rightarrow> socket_addr \<Rightarrow> (socks_cmd \<times> dest_addr) io" where
  "server_session auth bnd = and_then (negotiate_method auth) (\<lambda>_. and_then read_request (\<lambda>r.
     and_then (write_success bnd) (\<lambda>_. ret r)))"

text \<open>
  C26: the client and the server of the program understand each other: with the same credentials (or
  none) and any target a request can name, there is an exchange in which each side succeeds on
  exactly what the other writes, the server learns the client's target, and neither reads a byte of
  the traffic that follows.
\<close>

theorem socks_ends_interoperate:
  assumes "auth_ok auth" and "host_ok host" and "2000 \<le> room"
  shows "\<exists>c2s s2c session. client_session auth dst host = Some session \<and>
    session \<lparr> st_rx = s2c @ r1, st_tx = [], st_tx_room = room \<rparr> =
      (Inr (), \<lparr> st_rx = r1, st_tx = c2s, st_tx_room = room - length c2s \<rparr>) \<and>
    server_session auth bnd \<lparr> st_rx = c2s @ r2, st_tx = [], st_tx_room = room \<rparr> =
      (Inr (Connect, target_of dst host), \<lparr> st_rx = r2, st_tx = s2c, st_tx_room = room - length s2c \<rparr>)"
proof -
  let ?greet = "client_greeting auth @ client_auth auth"
  let ?c2s = "?greet @ connect_request dst host"
  let ?choice = "server_choice auth @ server_verdict auth"
  let ?s2c = "?choice @ success_reply bnd"
  have lg: "length ?greet \<le> 600"
    using assms(1) by (auto simp: session_bytes auth_ok_def split: option.splits)
  have lr: "length (connect_request dst host) \<le> 300"
    using assms(2) length_encode_ip [of "sa_ip dst"]
    by (auto simp: connect_request_def host_ok_def split: option.splits)
  have lc: "length ?choice \<le> 4" by (auto simp: session_bytes split: option.splits)
  have ls: "length (success_reply bnd) \<le> 30" using length_encode_ip [of "sa_ip bnd"] by (simp add: success_reply_def)
  define session where "session = and_then (handshake auth) (\<lambda>_. and_then (lift_result (Inr (connect_request dst host)))
    (\<lambda>req. and_then (write_all req) (\<lambda>_. read_connect_reply)))"
  have sess: "client_session auth dst host = Some session"
    using encode_connect_request [OF assms(2), of dst] by (simp add: client_session_def send_connect_def session_def)
  have "handshake auth \<lparr> st_rx = ?s2c @ r1, st_tx = [], st_tx_room = room \<rparr> =
      (Inr (), \<lparr> st_rx = success_reply bnd @ r1, st_tx = ?greet, st_tx_room = room - length ?greet \<rparr>)"
    using handshake_at [OF assms(1), of room "success_reply bnd @ r1" "[]"] lg assms(3) by simp
  then have c: "session \<lparr> st_rx = ?s2c @ r1, st_tx = [], st_tx_room = room \<rparr> =
      (Inr (), \<lparr> st_rx = r1, st_tx = ?c2s, st_tx_room = room - length ?c2s \<rparr>)"
    using lg lr assms(3) by (simp add: session_def and_then_def lift_result_def io_simps read_connect_reply_at)
  have "negotiate_method auth \<lparr> st_rx = ?c2s @ r2, st_tx = [], st_tx_room = room \<rparr> =
      (Inr (), \<lparr> st_rx = connect_request dst host @ r2, st_tx = ?choice, st_tx_room = room - length ?choice \<rparr>)"
    using negotiate_at [OF assms(1), of room "connect_request dst host @ r2" "[]"] assms(3) by simp
  then have s: "server_session auth bnd \<lparr> st_rx = ?c2s @ r2, st_tx = [], st_tx_room = room \<rparr> =
      (Inr (Connect, target_of dst host), \<lparr> st_rx = r2, st_tx = ?s2c, st_tx_room = room - length ?s2c \<rparr>)"
    using lc ls assms(3) read_request_at [OF assms(2), of dst r2]
    by (simp add: server_session_def and_then_def write_success_def write_reply_def success_reply_def io_simps)
  show ?thesis using sess c s by blast
qed

theorem socks_ends_interoperate_witness:
  "\<exists>c2s s2c session. client_session (Some (bytes_of ''u'', bytes_of ''p'')) \<lparr> sa_ip = V4 0, sa_port = 443 \<rparr>
      (Some (bytes_of ''a.com'')) = Some session \<and>
    session \<lparr> st_rx = s2c @ [9], st_tx = [], st_tx_room = 4000 \<rparr> =
      (Inr (), \<lparr> st_rx = [9], st_tx = c2s, st_tx_room = 4000 - length c2s \<rparr>) \<and>
    server_session (Some (bytes_of ''u'', bytes_of ''p'')) \<lparr> sa_ip = V6 1, sa_port = 1 \<rparr>
      \<lparr> st_rx = c2s @ [7], st_tx = [], st_tx_room = 4000 \<rparr> =
      (Inr (Connect, Domain (bytes_of ''a.com'') 443), \<lparr> st_rx = [7], st_tx = s2c, st_tx_room = 4000 - length s2c \<rparr>)"
proof -
  have "utf8_ok (bytes_of ''a.com'')" by (rule utf8_ok_ascii) code_simp
  then have h: "host_ok (Some (bytes_of ''a.com''))" by (simp add: host_ok_def bytes_of_def)
  have a: "auth_ok (Some (bytes_of ''u'', bytes_of ''p''))" by (simp add: auth_ok_def)
  from socks_ends_interoperate [OF a h, of 4000 "\<lparr> sa_ip = V4 0, sa_port = 443 \<rparr>" "[9]" "\<lparr> sa_ip = V6 1, sa_port = 1 \<rparr>" "[7]"]
  show ?thesis by (simp add: target_of_def)
qed

section \<open>The authentication gate\<close>

lemma read_exact_Inr: "read_exact n s = (Inr x, t) \<longleftrightarrow>
    length x = n \<and> st_rx s = x @ st_rx t \<and> st_tx t = st_tx s \<and> st_tx_room t = st_tx_room s"
  by (cases s, cases t) (auto simp: read_exact_def min_def)

lemma write_all_Inr: "write_all data s = (Inr (), t) \<longleftrightarrow> length data \<le> st_tx_room s \<and> st_rx t = st_rx s \<and>
    st_tx t = st_tx s @ data \<and> st_tx_room t = st_tx_room s - length data"
  by (cases s, cases t) (auto simp: write_all_def)

lemma raise_Inr: "\<not> raise e s = (Inr x, t)" by (simp add: raise_def)

lemmas inversion = and_then_Inr_iff read_exact_Inr write_all_Inr raise_Inr

lemma unat_byte: "unat (b :: u8) \<le> 255"
  using unsigned_less [of b, where ?'a = nat] by simp

lemma byte_len: "length xs = unat (b :: u8) \<Longrightarrow> b = of_nat (length xs)" by simp

lemma two_bytes: "length xs = 2 \<Longrightarrow> xs = [xs ! 0, xs ! 1]"
  by (cases xs; cases "tl xs") auto

lemma verify_userpass_Inr:
  assumes "verify_userpass user pass s = (Inr (), t)"
  shows "st_rx s = [1, of_nat (length user)] @ user @ [of_nat (length pass)] @ pass @ st_rx t"
    and "st_tx t = st_tx s @ [1, 0]" and "length user \<le> 255" and "length pass \<le> 255"
proof -
  obtain head ubuf plen_b pbuf where
    h: "length head = 2" "head ! 0 = 1" "length ubuf = unat (head ! 1)" and
    p: "length plen_b = 1" "length pbuf = unat (plen_b ! 0)" and
    e: "ubuf = user" "pbuf = pass" and
    r: "st_rx s = head @ ubuf @ plen_b @ pbuf @ st_rx t" "st_tx t = st_tx s @ [1, 0]"
    using assms by (auto simp: verify_userpass_def inversion split: if_splits)
  have "head = [1, of_nat (length user)]" using two_bytes [OF h(1)] h(2) byte_len [OF h(3)] e(1) by simp
  moreover have "plen_b = [of_nat (length pass)]" using p e(2) by (cases plen_b) auto
  ultimately show "st_rx s = [1, of_nat (length user)] @ user @ [of_nat (length pass)] @ pass @ st_rx t"
    using r(1) e by simp
  show "st_tx t = st_tx s @ [1, 0]" by (rule r(2))
  show "length user \<le> 255" using h(3) e(1) unat_byte [of "head ! 1"] by simp
  show "length pass \<le> 255" using p(2) e(2) unat_byte [of "plen_b ! 0"] by simp
qed

lemma negotiation_credentials:
  assumes "negotiate_method (Some (user, pass)) s = (Inr (), t)"
  shows "\<exists>methods. METHOD_USERPASS \<in> set methods \<and> length methods \<le> 255 \<and>
    st_rx s = [VER, of_nat (length methods)] @ methods @
      [AUTH_VER, of_nat (length user)] @ user @ [of_nat (length pass)] @ pass @ st_rx t \<and>
    length user \<le> 255 \<and> length pass \<le> 255 \<and> st_tx t = st_tx s @ [VER, METHOD_USERPASS, AUTH_VER, 0x00]"
proof -
  obtain head offered and q r :: stream where
    h: "length head = 2" "head ! 0 = 5" "length offered = unat (head ! 1)" and
    o: "2 \<in> set offered" and
    q: "st_rx s = head @ offered @ st_rx q" "st_tx q = st_tx s" and
    w: "st_rx r = st_rx q" "st_tx r = st_tx q @ [5, 2]" and
    v: "verify_userpass user pass r = (Inr (), t)"
    using assms by (auto simp: negotiate_method_def inversion split: if_splits)
  have r: "st_rx s = head @ offered @ st_rx r" "st_tx r = st_tx s @ [5, 2]" using q w by simp_all
  have "head = [5, of_nat (length offered)]" using two_bytes [OF h(1)] h(2) byte_len [OF h(3)] by simp
  moreover have "length offered \<le> 255" using h(3) unat_byte [of "head ! 1"] by simp
  ultimately show ?thesis
    using o r verify_userpass_Inr [OF v] by (intro exI [of _ offered]) simp
qed

section \<open>Datagrams\<close>

text \<open>
  A datagram encoded for an address decodes to that address, and the payload starts at the offset
  the decoder returns.
\<close>

theorem udp_request_roundtrip:
  "\<exists>off. decode_udp_reply (encode_udp_request dst payload) = Some (Inr (dst, off)) \<and>
     drop off (encode_udp_request dst payload) = payload"
proof (cases "sa_ip dst")
  case (V4 v)
  have d: "\<lparr> sa_ip = V4 v, sa_port = sa_port dst \<rparr> = dst" using V4 by simp
  show ?thesis
    using V4 d by (intro exI [of _ 10])
      (simp add: encode_udp_request_def decode_udp_reply_def encode_ip_def byte_at_def to_be32_def to_be16_def)
next
  case (V6 v)
  have d: "\<lparr> sa_ip = V6 v, sa_port = sa_port dst \<rparr> = dst" using V6 by simp
  let ?b = "[0, 0, 0, 4] @ to_be128 v @ to_be16 (sa_port dst) @ payload"
  have b: "encode_udp_request dst payload = ?b" using V6 by (simp add: encode_udp_request_def encode_ip_def)
  have p: "byte_at ?b 20 = Some (to_be16 (sa_port dst) ! 0)" "byte_at ?b 21 = Some (to_be16 (sa_port dst) ! 1)"
    by (simp_all add: byte_at_def nth_append)
  have "decode_udp_reply ?b = Some (Inr (\<lparr> sa_ip = V6 v, sa_port = sa_port dst \<rparr>, 22))"
    using p by (simp add: decode_udp_reply_def to_be16_nth)
  then show ?thesis using d b by (intro exI [of _ 22]) simp
qed

text \<open>
  The datagram decoder is total: no datagram makes it read past its buffer, and the payload offset
  it returns lies inside the datagram.
\<close>

theorem decode_udp_reply_total:
  "\<exists>r. decode_udp_reply buf = Some r \<and> (case r of Inl _ \<Rightarrow> True | Inr (_, off) \<Rightarrow> 10 \<le> off + 3 \<and> off \<le> length buf)"
  by (auto simp: decode_udp_reply_def byte_at_def Let_def split: sum.splits if_splits)

text \<open>A datagram for a name is decoded as coming from the unspecified address, its payload intact.\<close>

lemma udp_domain_request_decodes:
  assumes "encode_udp_request_domain host port payload = Inr buf"
  shows "\<exists>off. decode_udp_reply buf = Some (Inr (\<lparr> sa_ip = V4 0, sa_port = port \<rparr>, off)) \<and> drop off buf = payload"
proof -
  have l: "length host \<le> 255" and b: "buf = [0, 0, 0, 3] @ [of_nat (length host)] @ host @ to_be16 port @ payload"
    using assms by (auto simp: encode_udp_request_domain_def split: if_splits)
  have u: "unat (buf ! 4) = length host" using l unat_len [OF l] by (simp add: b)
  have p: "byte_at buf (5 + length host) = Some (to_be16 port ! 0)" "byte_at buf (5 + length host + 1) = Some (to_be16 port ! 1)"
    by (simp_all add: b byte_at_def nth_append)
  have h: "buf ! 0 = 0" "buf ! 1 = 0" "buf ! 2 = 0" "buf ! 3 = 3" "length buf = 7 + length host + length payload"
    by (simp_all add: b)
  have "decode_udp_reply buf = Some (Inr (\<lparr> sa_ip = V4 0, sa_port = port \<rparr>, 5 + length host + 2))"
    using h u p by (simp add: decode_udp_reply_def Let_def to_be16_nth)
  moreover have "drop (5 + length host + 2) buf = payload" by (simp add: b drop_Cons')
  ultimately show ?thesis by blast
qed

text \<open>
  The fixed buffer of the request holds every request, so encoding it never panics; it fails only for
  an empty or over-long host, with its length.
\<close>

theorem encode_connect_fits:
  "encode_connect dst host = Some (case host of
     None \<Rightarrow> Inr (connect_request dst None)
   | Some h \<Rightarrow> if h \<noteq> [] \<and> length h \<le> 255 then Inr (connect_request dst (Some h)) else Inl (HostTooLong (length h)))"
  using length_encode_ip [of "sa_ip dst"]
  by (auto simp: encode_connect_def encode_connect_into_def connect_request_def Let_def split: option.splits)

end
