(* ===== verification/DomainRules.thy ===== *)
theory DomainRules
  imports NegCache "HOL-Library.Multiset"
begin

text \<open>
  Destination groups (\<open>sniffbox/src/domain_rules.rs\<close>, \<open>sniffbox/src/ip_rules.rs\<close>): names and
  addresses that get a label of their own, and the bounded table of addresses learnt from names
  (\<open>IpHints\<close>), which is shown to keep its entries in order of use.
\<close>

section \<open>Groups\<close>

type_synonym label = string
type_synonym 'a group = "label \<times> 'a list"

abbreviation (input) CF_LABEL :: label where "CF_LABEL \<equiv> ''cloudflared''"

definition CLOUDFLARED_DOMAINS :: "bytes list" where
  "CLOUDFLARED_DOMAINS = [bytes_of ''cftunnel.com'', bytes_of ''argotunnel.com'']"

definition DOMAIN_GROUPS :: "bytes group list" where
  "DOMAIN_GROUPS = [(''cloudflared'', CLOUDFLARED_DOMAINS)]"

definition is_suffix_match :: "bytes \<Rightarrow> bytes \<Rightarrow> bool" where
  "is_suffix_match d suffix =
     (if length d = length suffix then eq_nocase d suffix
      else if length d \<ge> length suffix \<and> length d - length suffix \<ge> 2
      then (let cut = length d - length suffix in d ! (cut - 1) = 46 \<and> eq_nocase (drop cut d) suffix)
      else False)"

definition strip_trailing_dot :: "bytes \<Rightarrow> bytes" where
  "strip_trailing_dot d = (if d \<noteq> [] \<and> last d = 46 then butlast d else d)"

definition match_domain_group :: "bytes \<Rightarrow> label option" where
  "match_domain_group domain =
     (let d = strip_trailing_dot domain in
      if d = [] then None
      else map_option fst (List.find (\<lambda>(_, suffixes). list_ex (is_suffix_match d) suffixes) DOMAIN_GROUPS))"

definition TELEGRAM_CIDRS :: "string list" where
  "TELEGRAM_CIDRS = [''91.105.192.0/23'', ''91.108.4.0/22'', ''91.108.8.0/21'', ''91.108.16.0/21'',
     ''91.108.56.0/22'', ''95.161.64.0/20'', ''149.154.160.0/20'', ''185.76.151.0/24'', ''2001:67c:4e8::/48'',
     ''2001:b28:f23c::/47'', ''2001:b28:f23f::/48'', ''2a0a:f280::/32'']"

definition CLOUDFLARED_EDGE_CIDRS :: "string list" where
  "CLOUDFLARED_EDGE_CIDRS = [''198.41.192.0/24'', ''198.41.200.0/24'', ''2606:4700:a0::/48'', ''2606:4700:a8::/48'']"

definition IP_GROUPS :: "string group list" where
  "IP_GROUPS = [(''telegram'', TELEGRAM_CIDRS), (CF_LABEL, CLOUDFLARED_EDGE_CIDRS)]"

text \<open>Parsing a prefix and testing membership are the \<open>ipnet\<close> crate's; \<open>contains\<close> stands for them.\<close>

definition match_ip_group :: "(string \<Rightarrow> ip_addr \<Rightarrow> bool) \<Rightarrow> ip_addr \<Rightarrow> label option" where
  "match_ip_group contains ip =
     map_option fst (List.find (\<lambda>(_, cidrs). list_ex (\<lambda>c. contains c ip) cidrs) IP_GROUPS)"

section \<open>Address hints\<close>

record hint =
  hint_label :: label
  hint_seq :: u64

record ip_hints =
  ih_map :: "(ip_addr \<times> hint) list"
  ih_seq :: u64
  ih_count :: nat
  ih_cap :: nat

abbreviation (input) HINTS_CAP :: nat where "HINTS_CAP \<equiv> 512"

definition hints_with_cap :: "nat \<Rightarrow> ip_hints" where
  "hints_with_cap cap = \<lparr> ih_map = [], ih_seq = 0, ih_count = 0, ih_cap = max cap 1 \<rparr>"

definition hints_default :: ip_hints where
  "hints_default = hints_with_cap HINTS_CAP"

definition touch_hint :: "ip_addr \<Rightarrow> hint \<Rightarrow> ip_hints \<Rightarrow> ip_hints" where
  "touch_hint ip h s = s\<lparr>ih_map := AList.update ip (h\<lparr>hint_seq := ih_seq s\<rparr>) (ih_map s), ih_seq := ih_seq s + 1\<rparr>"

definition hints_get :: "ip_addr \<Rightarrow> ip_hints \<Rightarrow> label option \<times> ip_hints" where
  "hints_get ip s =
     (if ih_count s = 0 then (None, s)
      else case map_of (ih_map s) ip of
        None \<Rightarrow> (None, s)
      | Some h \<Rightarrow> (Some (hint_label h), touch_hint ip h s))"

definition evict_oldest :: "ip_hints \<Rightarrow> ip_hints" where
  "evict_oldest s =
     (let seqs = map (\<lambda>(_, h). hint_seq h) (ih_map s) in
      if seqs = [] then s
      else let drop_n = max (length seqs div 4) 1;
               threshold = sort seqs ! min drop_n (length seqs - 1);
               kept = filter (\<lambda>(_, h). threshold \<le> hint_seq h) (ih_map s)
           in s\<lparr>ih_map := kept, ih_count := length kept\<rparr>)"

definition evict_when_full :: "ip_hints \<Rightarrow> ip_hints" where
  "evict_when_full s = (if length (ih_map s) \<ge> ih_cap s then evict_oldest s else s)"

definition add_hint :: "ip_addr \<Rightarrow> label \<Rightarrow> u64 \<Rightarrow> ip_hints \<Rightarrow> ip_hints" where
  "add_hint ip label seq s =
     s\<lparr>ih_map := AList.update ip \<lparr> hint_label = label, hint_seq = seq \<rparr> (ih_map s),
       ih_count := (if map_of (ih_map s) ip = None then ih_count s + 1 else ih_count s)\<rparr>"

definition hints_note :: "ip_addr \<Rightarrow> label \<Rightarrow> ip_hints \<Rightarrow> ip_hints" where
  "hints_note ip label s =
     (case map_of (ih_map s) ip of
        Some h \<Rightarrow> touch_hint ip h s
      | None \<Rightarrow> add_hint ip label (ih_seq s) (evict_when_full (s\<lparr>ih_seq := ih_seq s + 1\<rparr>)))"

definition hints_len :: "ip_hints \<Rightarrow> nat" where
  "hints_len s = ih_count s"

definition hints_is_empty :: "ip_hints \<Rightarrow> bool" where
  "hints_is_empty s \<longleftrightarrow> hints_len s = 0"

section \<open>What the groups match\<close>

lemma is_suffix_match_iff:
  assumes "sfx \<noteq> []"
  shows "is_suffix_match d sfx \<longleftrightarrow> eq_nocase d sfx \<or> (\<exists>p t. p \<noteq> [] \<and> d = p @ [46] @ t \<and> eq_nocase t sfx)"
proof
  assume m: "is_suffix_match d sfx"
  show "eq_nocase d sfx \<or> (\<exists>p t. p \<noteq> [] \<and> d = p @ [46] @ t \<and> eq_nocase t sfx)"
  proof (cases "length d = length sfx")
    case True
    then show ?thesis using m by (simp add: is_suffix_match_def)
  next
    case False
    define cut where "cut = length d - length sfx"
    have c: "2 \<le> cut" "d ! (cut - 1) = 46" "eq_nocase (drop cut d) sfx"
      using m False by (auto simp: is_suffix_match_def cut_def Let_def split: if_splits)
    have "cut \<le> length d" by (simp add: cut_def)
    then have "d = take (cut - 1) d @ [d ! (cut - 1)] @ drop cut d"
      using c(1) id_take_nth_drop [of "cut - 1" d] by (simp add: Suc_diff_Suc numeral_2_eq_2)
    moreover have "take (cut - 1) d \<noteq> []" using c(1) \<open>cut \<le> length d\<close> by auto
    ultimately show ?thesis using c(2,3) by metis
  qed
next
  assume "eq_nocase d sfx \<or> (\<exists>p t. p \<noteq> [] \<and> d = p @ [46] @ t \<and> eq_nocase t sfx)"
  then show "is_suffix_match d sfx"
  proof (elim disjE exE conjE)
    assume e: "eq_nocase d sfx"
    then have "length d = length sfx" unfolding eq_nocase_def by (metis length_lowers)
    then show ?thesis using e by (simp add: is_suffix_match_def)
  next
    fix p t assume p: "p \<noteq> []" and d: "d = p @ [46] @ t" and e: "eq_nocase t sfx"
    have l: "length t = length sfx" using e unfolding eq_nocase_def by (metis length_lowers)
    have "length d - length sfx = Suc (length p)" and "length p \<noteq> 0" using d l p by simp_all
    then show ?thesis using d l e p by (simp add: is_suffix_match_def nth_append Let_def Suc_le_eq)
  qed
qed

section \<open>The hints are a recency list\<close>

text \<open>The reference: addresses with their labels, the last used first.\<close>

definition rec_get :: "ip_addr \<Rightarrow> (ip_addr \<times> label) list \<Rightarrow> label option \<times> (ip_addr \<times> label) list" where
  "rec_get ip xs = (case map_of xs ip of
     None \<Rightarrow> (None, xs)
   | Some l \<Rightarrow> (Some l, (ip, l) # filter (\<lambda>e. fst e \<noteq> ip) xs))"

definition rec_room :: "nat \<Rightarrow> (ip_addr \<times> label) list \<Rightarrow> (ip_addr \<times> label) list" where
  "rec_room cap xs = (let n = length xs in
     if n < cap then xs else take (n - min (max (n div 4) 1) (n - 1)) xs)"

definition rec_note :: "nat \<Rightarrow> ip_addr \<Rightarrow> label \<Rightarrow> (ip_addr \<times> label) list \<Rightarrow> (ip_addr \<times> label) list" where
  "rec_note cap ip l xs = (case map_of xs ip of
     Some l' \<Rightarrow> (ip, l') # filter (\<lambda>e. fst e \<noteq> ip) xs
   | None \<Rightarrow> (ip, l) # rec_room cap xs)"

abbreviation newer :: "ip_addr \<times> hint \<Rightarrow> ip_addr \<times> hint \<Rightarrow> bool" where
  "newer a b \<equiv> hint_seq (snd b) < hint_seq (snd a)"

definition labels :: "(ip_addr \<times> hint) list \<Rightarrow> (ip_addr \<times> label) list" where
  "labels = map (\<lambda>(ip, h). (ip, hint_label h))"

text \<open>\<open>ys\<close> lists the hints of the table, newest first.\<close>

definition by_recency :: "ip_hints \<Rightarrow> (ip_addr \<times> hint) list \<Rightarrow> bool" where
  "by_recency s ys \<longleftrightarrow> distinct (map fst (ih_map s)) \<and> set ys = set (ih_map s) \<and> sorted_wrt newer ys \<and>
     (\<forall>e\<in>set ys. hint_seq (snd e) < ih_seq s) \<and> ih_count s = length (ih_map s) \<and> 1 \<le> ih_cap s"

lemma newer_distinct: "sorted_wrt newer ys \<Longrightarrow> distinct ys"
  by (induction ys) auto

lemma distinct_pairs: "distinct (map fst xs) \<Longrightarrow> set ys = set xs \<Longrightarrow> distinct ys \<Longrightarrow> distinct (map fst ys)"
  by (metis card_set distinct_map length_map set_map distinct_card card_distinct)

lemma by_recency_keys:
  assumes "by_recency s ys"
  shows "distinct (map fst ys)" and "length ys = length (ih_map s)" and "map_of ys = map_of (ih_map s)"
proof -
  have d: "distinct ys" using assms newer_distinct by (auto simp: by_recency_def)
  have m: "distinct (map fst (ih_map s))" "set ys = set (ih_map s)" using assms by (simp_all add: by_recency_def)
  show k: "distinct (map fst ys)" by (rule distinct_pairs [OF m d])
  show "length ys = length (ih_map s)" using d m by (metis distinct_card distinct_map)
  show "map_of ys = map_of (ih_map s)" using k m by (simp add: map_of_inject_set)
qed

lemma map_of_labels: "map_of (labels ys) ip = map_option hint_label (map_of ys ip)"
  by (induction ys) (auto simp: labels_def)

lemma labels_simps [simp]:
  "labels [] = []" "labels ((ip, h) # ys) = (ip, hint_label h) # labels ys" "length (labels ys) = length ys"
  "take n (labels ys) = labels (take n ys)" "filter (\<lambda>e. fst e \<noteq> ip) (labels ys) = labels (filter (\<lambda>e. fst e \<noteq> ip) ys)"
  by (auto simp: labels_def take_map filter_map comp_def split_def)

lemma set_update:
  "distinct (map fst xs) \<Longrightarrow> set (AList.update k v xs) = insert (k, v) {e \<in> set xs. fst e \<noteq> k}"
  by (induction xs) (auto simp: image_iff)

text \<open>The counter moves on without wrapping round: a new number is above all those in use.\<close>

lemma next_seq: "unat (x :: u64) < 2 ^ 64 - 1 \<Longrightarrow> x < x + 1"
  by (simp add: word_less_nat_alt unat_word_ariths)

lemma touch_hint_recency:
  assumes "by_recency s ys" and "map_of ys ip = Some h" and "unat (ih_seq s) < 2 ^ 64 - 1"
  shows "by_recency (touch_hint ip h s) ((ip, h\<lparr>hint_seq := ih_seq s\<rparr>) # filter (\<lambda>e. fst e \<noteq> ip) ys)"
proof -
  have m: "distinct (map fst (ih_map s))" "set ys = set (ih_map s)" "sorted_wrt newer ys"
    "\<forall>e\<in>set ys. hint_seq (snd e) < ih_seq s" "ih_count s = length (ih_map s)" "1 \<le> ih_cap s"
    using assms(1) by (simp_all add: by_recency_def)
  have k: "ip \<in> fst ` set (ih_map s)" using assms(2) m(2) by (metis map_of_SomeD image_eqI fst_conv)
  have "\<forall>e\<in>set ys. hint_seq (snd e) < ih_seq s + 1" using m(4) next_seq [OF assms(3)] by (meson order.strict_trans)
  then show ?thesis
    using m k next_seq [OF assms(3)]
    by (auto simp: by_recency_def touch_hint_def set_update update_old_length distinct_update sorted_wrt_filter)
qed

lemma newest_prefix:
  assumes "sorted_wrt newer ys" and "i < length ys"
  shows "{e \<in> set ys. hint_seq (snd (ys ! i)) \<le> hint_seq (snd e)} = set (take (Suc i) ys)" (is "?L = ?R")
proof (intro equalityI subsetI)
  fix e assume e: "e \<in> ?L"
  then obtain j where j: "j < length ys" "e = ys ! j" by (auto simp: in_set_conv_nth)
  have "j \<le> i"
  proof (rule ccontr)
    assume "\<not> j \<le> i"
    then have "newer (ys ! i) (ys ! j)" using sorted_wrt_nth_less [OF assms(1)] j(1) by simp
    then show False using e j(2) by (auto dest: leD)
  qed
  then show "e \<in> ?R" using j by (auto simp: in_set_conv_nth intro!: exI [of _ j])
next
  fix e assume "e \<in> ?R"
  then obtain j where "j < length (take (Suc i) ys)" "e = take (Suc i) ys ! j" by (metis in_set_conv_nth)
  then have j: "j \<le> i" "e = ys ! j" "j < length ys" using assms(2) by simp_all
  then have "j = i \<or> j < i" by auto
  then have "j = i \<or> newer (ys ! j) (ys ! i)" using sorted_wrt_nth_less [OF assms(1), of j i] assms(2) by blast
  then show "e \<in> ?L" using j by auto
qed

lemma sorted_seqs:
  assumes "by_recency s ys"
  shows "sort (map (\<lambda>(_, h). hint_seq h) (ih_map s)) = rev (map (\<lambda>e. hint_seq (snd e)) ys)"
proof (rule properties_for_sort)
  have "mset ys = mset (ih_map s)"
    using assms newer_distinct by (auto simp: by_recency_def distinct_map set_eq_iff_mset_eq_distinct)
  then have "mset (map (\<lambda>e. hint_seq (snd e)) ys) = mset (map (\<lambda>e. hint_seq (snd e)) (ih_map s))"
    by (metis mset_map)
  then show "mset (rev (map (\<lambda>e. hint_seq (snd e)) ys)) = mset (map (\<lambda>(_, h). hint_seq h) (ih_map s))"
    by (simp add: split_def)
  have "sorted_wrt (\<lambda>a b. hint_seq (snd b) \<le> hint_seq (snd a)) ys"
    using assms by (auto simp: by_recency_def intro: sorted_wrt_mono_rel [rotated])
  then show "sorted (rev (map (\<lambda>e. hint_seq (snd e)) ys))"
    by (simp add: sorted_wrt_rev sorted_wrt_map)
qed

lemma evict_recency:
  assumes r: "by_recency s ys"
  shows "by_recency (evict_when_full s) (let n = length ys in
     if n < ih_cap s then ys else take (n - min (max (n div 4) 1) (n - 1)) ys)"
proof (cases "length ys < ih_cap s")
  case True
  then show ?thesis using r by_recency_keys [OF r] by (simp add: evict_when_full_def)
next
  case False
  let ?n = "length ys"
  define k where "k = min (max (?n div 4) 1) (?n - 1)"
  have n: "?n = length (ih_map s)" using by_recency_keys [OF r] by simp
  have pos: "0 < ?n" using False r by (auto simp: by_recency_def)
  then have k: "k < ?n" unfolding k_def by (metis min.cobounded2 diff_less le_less_trans zero_less_one)
  define kept where "kept = filter (\<lambda>(_, h). hint_seq (snd (ys ! (?n - 1 - k))) \<le> hint_seq h) (ih_map s)"
  have thr: "sort (map (\<lambda>(_, h). hint_seq h) (ih_map s)) ! k = hint_seq (snd (ys ! (?n - 1 - k)))"
    using k by (simp add: sorted_seqs [OF r] rev_nth)
  have e: "evict_when_full s = s\<lparr>ih_map := kept, ih_count := length kept\<rparr>"
    using False n pos thr by (simp add: evict_when_full_def evict_oldest_def Let_def kept_def k_def)
  have m: "distinct (map fst (ih_map s))" "set ys = set (ih_map s)" "sorted_wrt newer ys"
    "\<forall>e\<in>set ys. hint_seq (snd e) < ih_seq s" "1 \<le> ih_cap s"
    using r by (simp_all add: by_recency_def)
  have "set kept = {e \<in> set ys. hint_seq (snd (ys ! (?n - 1 - k))) \<le> hint_seq (snd e)}"
    using m(2) by (auto simp: kept_def)
  also have "\<dots> = set (take (?n - k) ys)" using newest_prefix [OF m(3), of "?n - 1 - k"] k by (simp add: Suc_diff_Suc)
  finally have s: "set kept = set (take (?n - k) ys)" .
  have "distinct (map fst kept)" using m(1) by (simp add: kept_def distinct_map_filter)
  moreover have "sorted_wrt newer (take (?n - k) ys)" by (rule sorted_wrt_take [OF m(3)])
  moreover have "\<forall>e\<in>set (take (?n - k) ys). hint_seq (snd e) < ih_seq s" using m(4) by (meson in_set_takeD)
  ultimately have "by_recency (evict_when_full s) (take (?n - k) ys)"
    using m(5) s by (simp add: by_recency_def e)
  then show ?thesis using False by (simp add: k_def Let_def)
qed

lemma add_hint_recency:
  assumes "by_recency s ys" and "map_of ys ip = None" and "\<forall>e\<in>set ys. hint_seq (snd e) < q" and "q < ih_seq s"
  shows "by_recency (add_hint ip label q s) ((ip, \<lparr> hint_label = label, hint_seq = q \<rparr>) # ys)"
proof -
  have new: "ip \<notin> fst ` set (ih_map s)" using assms(1,2) by (auto simp: by_recency_def map_of_eq_None_iff)
  then have "map_of (ih_map s) ip = None" by (simp add: map_of_eq_None_iff)
  moreover have "{e \<in> set (ih_map s). fst e \<noteq> ip} = set (ih_map s)" using new by (auto simp: image_iff)
  ultimately show ?thesis
    using assms new by (auto simp: by_recency_def add_hint_def set_update update_new_length distinct_update)
qed

lemma get_recency:
  assumes r: "by_recency s ys" and u: "unat (ih_seq s) < 2 ^ 64 - 1" and g: "hints_get ip s = (out, s')"
  shows "\<exists>ys'. by_recency s' ys' \<and> rec_get ip (labels ys) = (out, labels ys') \<and>
    unat (ih_seq s') \<le> Suc (unat (ih_seq s)) \<and> ih_cap s' = ih_cap s"
proof (cases "map_of ys ip")
  case None
  then have "hints_get ip s = (None, s)" using by_recency_keys(3) [OF r] by (simp add: hints_get_def)
  then show ?thesis using r g None by (intro exI [of _ ys]) (simp add: rec_get_def map_of_labels)
next
  case (Some h)
  have "ih_map s \<noteq> []" using Some by_recency_keys(3) [OF r] by auto
  then have "ih_count s \<noteq> 0" using r by (simp add: by_recency_def)
  then have "hints_get ip s = (Some (hint_label h), touch_hint ip h s)"
    using Some by_recency_keys(3) [OF r] by (simp add: hints_get_def)
  moreover have "unat (ih_seq s + 1) = Suc (unat (ih_seq s))" using u by (simp add: unat_word_ariths)
  ultimately show ?thesis
    using touch_hint_recency [OF r Some u] g Some
    by (intro exI [of _ "(ip, h\<lparr>hint_seq := ih_seq s\<rparr>) # filter (\<lambda>e. fst e \<noteq> ip) ys"])
      (auto simp: rec_get_def map_of_labels touch_hint_def)
qed

lemma note_recency:
  assumes r: "by_recency s ys" and u: "unat (ih_seq s) < 2 ^ 64 - 1"
  shows "\<exists>ys'. by_recency (hints_note ip l s) ys' \<and> labels ys' = rec_note (ih_cap s) ip l (labels ys) \<and>
    unat (ih_seq (hints_note ip l s)) \<le> Suc (unat (ih_seq s)) \<and> ih_cap (hints_note ip l s) = ih_cap s"
proof (cases "map_of ys ip")
  case (Some h)
  have "unat (ih_seq s + 1) = Suc (unat (ih_seq s))" using u by (simp add: unat_word_ariths)
  moreover have "hints_note ip l s = touch_hint ip h s"
    using Some by_recency_keys(3) [OF r] by (simp add: hints_note_def)
  ultimately show ?thesis
    using touch_hint_recency [OF r Some u] Some
    by (intro exI [of _ "(ip, h\<lparr>hint_seq := ih_seq s\<rparr>) # filter (\<lambda>e. fst e \<noteq> ip) ys"])
      (auto simp: rec_note_def map_of_labels touch_hint_def)
next
  case None
  let ?s1 = "s\<lparr>ih_seq := ih_seq s + 1\<rparr>"
  define kept where "kept = (let n = length ys in
    if n < ih_cap s then ys else take (n - min (max (n div 4) 1) (n - 1)) ys)"
  have sub: "set kept \<subseteq> set ys" by (auto simp: kept_def Let_def dest: in_set_takeD)
  have up: "\<forall>e\<in>set ys. hint_seq (snd e) < ih_seq s" using r by (simp add: by_recency_def)
  have r1: "by_recency ?s1 ys"
    using r next_seq [OF u] by (auto simp: by_recency_def intro: order.strict_trans)
  then have r2: "by_recency (evict_when_full ?s1) kept" using evict_recency [OF r1] by (simp add: kept_def)
  have new: "map_of kept ip = None" using None sub by (auto simp: map_of_eq_None_iff)
  have shape: "ih_seq (evict_when_full ?s1) = ih_seq s + 1" "ih_cap (evict_when_full ?s1) = ih_cap s"
    by (simp_all add: evict_when_full_def evict_oldest_def Let_def)
  have "\<forall>e\<in>set kept. hint_seq (snd e) < ih_seq s" using up sub by auto
  then have "by_recency (add_hint ip l (ih_seq s) (evict_when_full ?s1)) ((ip, \<lparr> hint_label = l, hint_seq = ih_seq s \<rparr>) # kept)"
    using add_hint_recency [OF r2 new] shape next_seq [OF u] by simp
  moreover have "hints_note ip l s = add_hint ip l (ih_seq s) (evict_when_full ?s1)"
    using None by_recency_keys(3) [OF r] by (simp add: hints_note_def)
  moreover have "labels kept = rec_room (ih_cap s) (labels ys)" by (simp add: kept_def rec_room_def Let_def)
  moreover have "unat (ih_seq s + 1) = Suc (unat (ih_seq s))" using u by (simp add: unat_word_ariths)
  ultimately show ?thesis
    using None shape by (intro exI [of _ "(ip, \<lparr> hint_label = l, hint_seq = ih_seq s \<rparr>) # kept"])
      (auto simp: rec_note_def map_of_labels add_hint_def)
qed

datatype hint_op = Get ip_addr | Note ip_addr label

fun run_hints :: "hint_op list \<Rightarrow> ip_hints \<Rightarrow> label option list \<times> ip_hints" where
  "run_hints [] s = ([], s)"
| "run_hints (Get ip # ops) s = (let (r, s1) = hints_get ip s; (rs, s2) = run_hints ops s1 in (r # rs, s2))"
| "run_hints (Note ip l # ops) s = run_hints ops (hints_note ip l s)"

fun run_rec :: "nat \<Rightarrow> hint_op list \<Rightarrow> (ip_addr \<times> label) list \<Rightarrow> label option list \<times> (ip_addr \<times> label) list" where
  "run_rec cap [] xs = ([], xs)"
| "run_rec cap (Get ip # ops) xs = (let (r, xs1) = rec_get ip xs; (rs, xs2) = run_rec cap ops xs1 in (r # rs, xs2))"
| "run_rec cap (Note ip l # ops) xs = run_rec cap ops (rec_note cap ip l xs)"

lemma run_recency:
  assumes "by_recency s ys" and "unat (ih_seq s) + length ops < 2 ^ 64"
  shows "\<exists>ys'. by_recency (snd (run_hints ops s)) ys' \<and>
    run_rec (ih_cap s) ops (labels ys) = (fst (run_hints ops s), labels ys')"
  using assms
proof (induction ops arbitrary: s ys)
  case Nil
  then show ?case by auto
next
  case (Cons op ops)
  have u: "unat (ih_seq s) < 2 ^ 64 - 1" using Cons.prems(2) by simp
  show ?case
  proof (cases op)
    case (Get ip)
    obtain out s1 where g: "hints_get ip s = (out, s1)" by fastforce
    obtain y1 where y: "by_recency s1 y1" "rec_get ip (labels ys) = (out, labels y1)"
      "unat (ih_seq s1) \<le> Suc (unat (ih_seq s))" "ih_cap s1 = ih_cap s"
      using get_recency [OF Cons.prems(1) u g] by blast
    have "unat (ih_seq s1) + length ops < 2 ^ 64" using y(3) Cons.prems(2) by simp
    from Cons.IH [OF y(1) this] show ?thesis using Get g y(2,4) by (auto simp: split_def Let_def)
  next
    case (Note ip l)
    let ?s1 = "hints_note ip l s"
    obtain y1 where y: "by_recency ?s1 y1" "labels y1 = rec_note (ih_cap s) ip l (labels ys)"
      "unat (ih_seq ?s1) \<le> Suc (unat (ih_seq s))" "ih_cap ?s1 = ih_cap s"
      using note_recency [OF Cons.prems(1) u] by blast
    have "unat (ih_seq ?s1) + length ops < 2 ^ 64" using y(3) Cons.prems(2) by simp
    from Cons.IH [OF y(1) this] show ?thesis using Note y(2,4) by simp
  qed
qed

lemma rec_room_bounded:
  assumes "length xs \<le> max cap 2"
  shows "length (rec_room cap xs) < max cap 2"
proof (cases "length xs < cap \<or> length xs < 2")
  case True
  then show ?thesis by (auto simp: rec_room_def Let_def)
next
  case False
  then have "1 \<le> min (max (length xs div 4) 1) (length xs - 1)" by auto
  then have "length xs - min (max (length xs div 4) 1) (length xs - 1) < length xs" using False by linarith
  then show ?thesis using False assms by (simp add: rec_room_def Let_def)
qed

lemma move_to_front_length: "map_of xs ip = Some l \<Longrightarrow> length ((ip, l) # filter (\<lambda>e. fst e \<noteq> ip) xs) \<le> length xs"
  by (simp add: Suc_le_eq) (auto intro: length_filter_less dest: map_of_SomeD)

lemma rec_note_bounded:
  assumes "length xs \<le> max cap 2"
  shows "length (rec_note cap ip l xs) \<le> max cap 2"
proof (cases "map_of xs ip")
  case None
  then show ?thesis using rec_room_bounded [OF assms] by (simp add: rec_note_def Suc_le_eq)
next
  case (Some l')
  then show ?thesis using move_to_front_length [OF Some] assms by (simp add: rec_note_def)
qed

lemma rec_get_length: "length (snd (rec_get ip xs)) \<le> length xs"
  using move_to_front_length [of xs ip] by (simp add: rec_get_def split: option.splits)

lemma run_rec_bounded:
  "length xs \<le> max cap 2 \<Longrightarrow> 1 \<le> cap \<Longrightarrow> length (snd (run_rec cap ops xs)) \<le> max cap 2"
proof (induction ops arbitrary: xs)
  case (Cons op ops)
  show ?case
  proof (cases op)
    case (Get ip)
    have "length (snd (rec_get ip xs)) \<le> max cap 2" using rec_get_length [of ip xs] Cons.prems(1) by simp
    from Cons.IH [OF this Cons.prems(2)] show ?thesis using Get by (simp add: split_def Let_def)
  qed (use Cons rec_note_bounded in simp)
qed simp

text \<open>The counter lets a lookup in an empty table be skipped, as in the negative cache.\<close>

definition hints_ok :: "ip_hints \<Rightarrow> bool" where
  "hints_ok s \<longleftrightarrow> (\<exists>ys. by_recency s ys)"

definition hints_find :: "ip_hints \<Rightarrow> ip_addr \<Rightarrow> hint option" where
  "hints_find s = map_of (ih_map s)"

interpretation hint_map: counted_map hints_ok hints_find ih_count
  by unfold_locales (auto simp: hints_ok_def hints_find_def by_recency_def)

lemma hints_get_find: "hints_ok s \<Longrightarrow> fst (hints_get ip s) = map_option hint_label (hints_find s ip)"
  using hint_map.zero_empty [of s ip] by (auto simp: hints_get_def hints_find_def split: option.splits)

lemma with_cap_recency: "by_recency (hints_with_cap cap) []"
  by (simp add: by_recency_def hints_with_cap_def)

text \<open>
  C24: the table of learnt addresses behaves as a list in order of use: through any sequence of fewer
  than 2^64 lookups and notes it gives the labels the list gives, a full table forgets exactly the
  least recently used quarter, and the counter is the length of the list, which stays in bounds (a
  capacity of one is taken as two).
\<close>

theorem hints_are_a_recency_list:
  assumes "length ops < 2 ^ 64"
  shows "\<exists>xs. run_rec (max cap 1) ops [] = (fst (run_hints ops (hints_with_cap cap)), xs) \<and>
    hints_len (snd (run_hints ops (hints_with_cap cap))) = length xs \<and> length xs \<le> max cap 2"
proof -
  let ?s = "hints_with_cap cap"
  have c: "unat (ih_seq ?s) + length ops < 2 ^ 64" "ih_cap ?s = max cap 1"
    using assms by (simp_all add: hints_with_cap_def)
  obtain ys where y: "by_recency (snd (run_hints ops ?s)) ys"
    "run_rec (max cap 1) ops [] = (fst (run_hints ops ?s), labels ys)"
    using run_recency [OF with_cap_recency c(1)] c(2) by auto
  have "hints_len (snd (run_hints ops ?s)) = length (labels ys)"
    using y(1) by_recency_keys(2) [OF y(1)] by (simp add: hints_len_def by_recency_def)
  moreover have "length (labels ys) \<le> max cap 2" using run_rec_bounded [of "[]" "max cap 1" ops] y(2) by auto
  ultimately show ?thesis using y(2) by blast
qed

theorem hints_are_a_recency_list_witness:
  "\<exists>xs. run_rec (max 2 1) [Note (V4 1) ''a'', Note (V4 2) ''b'', Get (V4 1), Note (V4 3) ''c'', Get (V4 1), Get (V4 2)] [] =
    ([Some ''a'', Some ''a'', None], xs) \<and> length xs = 2"
proof -
  define ops where "ops = [Note (V4 1) ''a'', Note (V4 2) ''b'', Get (V4 1), Note (V4 3) ''c'', Get (V4 1), Get (V4 2)]"
  have "length ops < 2 ^ 64" by (simp add: ops_def)
  from hints_are_a_recency_list [OF this, of 2]
  obtain xs where "run_rec (max 2 1) ops [] = (fst (run_hints ops (hints_with_cap 2)), xs)"
    "hints_len (snd (run_hints ops (hints_with_cap 2))) = length xs"
    by blast
  moreover have "fst (run_hints ops (hints_with_cap 2)) = [Some ''a'', Some ''a'', None]"
    "hints_len (snd (run_hints ops (hints_with_cap 2))) = 2"
    unfolding ops_def by code_simp+
  ultimately show ?thesis unfolding ops_def by metis
qed

end
