(* ===== verification/ConnStats.thy ===== *)
theory ConnStats
  imports Base "HOL-Library.AList" "HOL-Library.Multiset" "HOL-Library.Product_Lexorder"
begin

text \<open>
  Connection records and their table (\<open>sb-stats/src/types.rs\<close>, \<open>sb-stats/src/conn_table.rs\<close>) and the
  monthly clean-up (\<open>sb-stats/src/cleanup.rs\<close>). The table is an association list in an arbitrary order;
  a clock reading in milliseconds is an argument. The counters of a record are 64-bit words that wrap;
  the loop that drains one of them is also modelled step by step, with other threads in between.
\<close>

section \<open>Records\<close>

datatype conn_proto = PTls | PHttp | PBittorrent | PQuic | PIpGroup string | PSkipped | PFakeIp | PRealIp
  | PSocks5 | PHttpProxy | PUnknown

definition proto_str :: "conn_proto \<Rightarrow> string" where
  "proto_str p = (case p of PTls \<Rightarrow> ''tls'' | PHttp \<Rightarrow> ''http'' | PBittorrent \<Rightarrow> ''bt'' | PQuic \<Rightarrow> ''quic''
     | PIpGroup label \<Rightarrow> label | PSkipped \<Rightarrow> ''skip'' | PFakeIp \<Rightarrow> ''FakeIP'' | PRealIp \<Rightarrow> ''RealIP''
     | PSocks5 \<Rightarrow> ''SOCKS5'' | PHttpProxy \<Rightarrow> ''httpProxy'' | PUnknown \<Rightarrow> '''')"

datatype inbound_kind = InTProxy | InSocks5 | InHttp | InHealthCheck | InCloudflared | InClash string

definition inbound_str :: "inbound_kind \<Rightarrow> string" where
  "inbound_str k = (case k of InTProxy \<Rightarrow> ''tproxy'' | InSocks5 \<Rightarrow> ''socks5'' | InHttp \<Rightarrow> ''http''
     | InHealthCheck \<Rightarrow> ''healthcheck'' | InCloudflared \<Rightarrow> ''cloudflared'' | InClash label \<Rightarrow> label)"

datatype transport = Tcp | Udp

definition transport_str :: "transport \<Rightarrow> string" where
  "transport_str t = (case t of Tcp \<Rightarrow> ''tcp'' | Udp \<Rightarrow> ''udp'')"

datatype record_kind = Normal | Internal

definition record_kind_str :: "record_kind \<Rightarrow> string" where
  "record_kind_str k = (case k of Normal \<Rightarrow> ''normal'' | Internal \<Rightarrow> ''internal'')"

type_synonym conn_id = u64

record conn_record =
  cr_id :: conn_id
  cr_src :: "ip_addr \<times> u16"
  cr_dst :: "ip_addr \<times> u16"
  cr_domain :: "bytes option"
  cr_proto :: conn_proto
  cr_upload :: u64
  cr_download :: u64
  cr_drained_up :: u64
  cr_drained_down :: u64
  cr_folded_up :: u64
  cr_folded_down :: u64
  cr_last_seen :: nat
  cr_closed :: nat
  cr_inbound :: inbound_kind
  cr_transport :: transport
  cr_kind :: record_kind
  cr_head :: u64
  cr_head_len :: nat
  cr_agg_counted :: bool
  cr_socks_src_port :: u16

definition conn_record_new :: "conn_id \<Rightarrow> ip_addr \<times> u16 \<Rightarrow> ip_addr \<times> u16 \<Rightarrow> conn_proto \<Rightarrow> bytes option \<Rightarrow> conn_record" where
  "conn_record_new i src dst proto domain =
     \<lparr> cr_id = i, cr_src = src, cr_dst = dst, cr_domain = domain, cr_proto = proto, cr_upload = 0, cr_download = 0,
       cr_drained_up = 0, cr_drained_down = 0, cr_folded_up = 0, cr_folded_down = 0, cr_last_seen = 0, cr_closed = 0,
       cr_inbound = InTProxy, cr_transport = Tcp, cr_kind = Normal, cr_head = 0, cr_head_len = 0,
       cr_agg_counted = False, cr_socks_src_port = 0 \<rparr>"

definition with_inbound :: "inbound_kind \<Rightarrow> transport \<Rightarrow> conn_record \<Rightarrow> conn_record" where
  "with_inbound k t r = r\<lparr>cr_inbound := k, cr_transport := t\<rparr>"

definition conn_record_internal :: "conn_id \<Rightarrow> ip_addr \<times> u16 \<Rightarrow> bytes option \<Rightarrow> conn_record" where
  "conn_record_internal i dst domain = (conn_record_new i (V4 0x7F000001, 0) dst PUnknown domain)\<lparr>cr_kind := Internal\<rparr>"

text \<open>The first bytes of an unrecognised connection, at most eight.\<close>

definition set_head :: "bytes \<Rightarrow> conn_record \<Rightarrow> conn_record" where
  "set_head bs r =
     (let n = min (length bs) 8 in
      if n = 0 then r
      else r\<lparr>cr_head := be_word (take n bs @ replicate (8 - n) 0), cr_head_len := n\<rparr>)"

definition head_bytes :: "conn_record \<Rightarrow> bytes option" where
  "head_bytes r = (if cr_head_len r = 0 then None else Some (take (cr_head_len r) (be_bytes 8 (cr_head r))))"

definition add_up :: "u64 \<Rightarrow> conn_record \<Rightarrow> conn_record" where
  "add_up n r = r\<lparr>cr_upload := cr_upload r + n\<rparr>"

definition add_down :: "u64 \<Rightarrow> conn_record \<Rightarrow> conn_record" where
  "add_down n r = r\<lparr>cr_download := cr_download r + n\<rparr>"

text \<open>Draining a counter when no other thread interferes: what was added since the last time.\<close>

definition drain_one :: "u64 \<Rightarrow> u64 \<Rightarrow> u64 \<times> u64" where
  "drain_one cur prev = (if cur \<le> prev then (0, prev) else (cur - prev, cur))"

definition drain_delta :: "conn_record \<Rightarrow> (u64 \<times> u64) \<times> conn_record" where
  "drain_delta r =
     (let (u, lu) = drain_one (cr_upload r) (cr_drained_up r);
          (d, ld) = drain_one (cr_download r) (cr_drained_down r)
      in ((u, d), r\<lparr>cr_drained_up := lu, cr_drained_down := ld\<rparr>))"

definition fold_delta :: "conn_record \<Rightarrow> (u64 \<times> u64) \<times> conn_record" where
  "fold_delta r =
     (let (u, lu) = drain_one (cr_upload r) (cr_folded_up r);
          (d, ld) = drain_one (cr_download r) (cr_folded_down r)
      in ((u, d), r\<lparr>cr_folded_up := lu, cr_folded_down := ld\<rparr>))"

section \<open>Identifiers\<close>

record id_gen =
  ig_base :: u64
  ig_next :: u64

abbreviation (input) CONN_ID_SEQ_BITS :: nat where "CONN_ID_SEQ_BITS \<equiv> 40"
abbreviation (input) CONN_ID_SEQ_MASK :: u64 where "CONN_ID_SEQ_MASK \<equiv> 0xFFFFFFFFFF"

definition with_seed :: "u32 \<Rightarrow> id_gen" where
  "with_seed seed24 = \<lparr> ig_base = push_bit CONN_ID_SEQ_BITS (ucast (seed24 AND 0x00FFFFFF)), ig_next = 1 \<rparr>"

definition next_id :: "id_gen \<Rightarrow> conn_id \<times> id_gen" where
  "next_id g = (ig_base g OR (ig_next g AND CONN_ID_SEQ_MASK), g\<lparr>ig_next := ig_next g + 1\<rparr>)"

section \<open>The table\<close>

type_synonym conn_table = "(conn_id \<times> conn_record) list"

definition ct_new :: conn_table where "ct_new = []"

definition ct_len :: "conn_table \<Rightarrow> nat" where "ct_len t = length t"

definition ct_is_empty :: "conn_table \<Rightarrow> bool" where "ct_is_empty t \<longleftrightarrow> t = []"

definition ct_clear :: "conn_table \<Rightarrow> conn_table" where "ct_clear t = []"

definition ct_insert :: "nat \<Rightarrow> conn_record \<Rightarrow> conn_table \<Rightarrow> conn_table" where
  "ct_insert now r t = AList.update (cr_id r) (r\<lparr>cr_last_seen := now\<rparr>) t"

definition ct_get :: "conn_id \<Rightarrow> conn_table \<Rightarrow> conn_record option" where
  "ct_get i t = map_of t i"

definition ct_modify :: "conn_id \<Rightarrow> (conn_record \<Rightarrow> conn_record) \<Rightarrow> conn_table \<Rightarrow> conn_table" where
  "ct_modify i f t = (case map_of t i of None \<Rightarrow> t | Some r \<Rightarrow> AList.update i (f r) t)"

definition ct_touch :: "nat \<Rightarrow> conn_id \<Rightarrow> conn_table \<Rightarrow> conn_table" where
  "ct_touch now i = ct_modify i (\<lambda>r. r\<lparr>cr_last_seen := now\<rparr>)"

definition ct_remove :: "conn_id \<Rightarrow> conn_table \<Rightarrow> conn_record option \<times> conn_table" where
  "ct_remove i t = (map_of t i, AList.delete i t)"

definition ct_close :: "nat \<Rightarrow> conn_id \<Rightarrow> conn_table \<Rightarrow> conn_table" where
  "ct_close now i = ct_modify i (\<lambda>r. r\<lparr>cr_closed := max now 1, cr_last_seen := now\<rparr>)"

definition ct_snapshot :: "conn_table \<Rightarrow> conn_record list" where
  "ct_snapshot t = map snd t"

text \<open>Removal of a list of identifiers, one after the other.\<close>

definition remove_ids :: "conn_id list \<Rightarrow> conn_table \<Rightarrow> conn_table" where
  "remove_ids = fold AList.delete"

definition is_closed :: "conn_id \<times> conn_record \<Rightarrow> bool" where
  "is_closed e \<longleftrightarrow> cr_closed (snd e) \<noteq> 0"

definition seen_at :: "conn_id \<times> conn_record \<Rightarrow> nat" where
  "seen_at e = cr_last_seen (snd e)"

definition sweep_recency :: "nat \<Rightarrow> nat \<Rightarrow> nat \<Rightarrow> conn_table \<Rightarrow> nat \<times> conn_table" where
  "sweep_recency now max_closed stale t =
     (let closed = map (\<lambda>e. (fst e, seen_at e)) (filter is_closed t);
          stale_active = map fst (filter (\<lambda>e. \<not> is_closed e \<and> now - seen_at e > stale) t);
          sorted = sort_key (\<lambda>c. - int (snd c)) closed;
          extra = (if length closed > max_closed then map fst (drop max_closed sorted) else [])
      in (length extra + length stale_active, remove_ids stale_active (remove_ids extra t)))"

definition sweep_with_close_grace :: "nat \<Rightarrow> nat \<Rightarrow> nat \<Rightarrow> conn_table \<Rightarrow> nat \<times> conn_table" where
  "sweep_with_close_grace now stale grace t =
     (let dead = map fst (filter (\<lambda>e. if is_closed e then now - cr_closed (snd e) \<ge> grace
                                      else now - seen_at e > stale) t)
      in (length dead, remove_ids dead t))"

definition sweep_stale :: "nat \<Rightarrow> nat \<Rightarrow> conn_table \<Rightarrow> nat \<times> conn_table" where
  "sweep_stale now stale = sweep_with_close_grace now stale 5000"

section \<open>The monthly clean-up\<close>

record date =
  d_year :: int
  d_month :: nat
  d_day :: nat

record clean_state =
  cs_fired :: "(int \<times> nat) option"

definition should_clean :: "date \<Rightarrow> nat \<Rightarrow> clean_state \<Rightarrow> bool" where
  "should_clean now cfg_day state =
     (if cfg_day = 0 \<or> cfg_day > 31 then False
      else if d_day now \<noteq> cfg_day then False
      else \<not> (case cs_fired state of Some (y, m) \<Rightarrow> y = d_year now \<and> m = d_month now | None \<Rightarrow> False))"

definition maybe_clean_at :: "nat \<Rightarrow> date \<Rightarrow> ('s \<Rightarrow> 's) \<Rightarrow> clean_state \<times> 's \<Rightarrow> bool \<times> clean_state \<times> 's" where
  "maybe_clean_at cfg_day now clear = (\<lambda>(state, s).
     if should_clean now cfg_day state then (True, \<lparr> cs_fired = Some (d_year now, d_month now) \<rparr>, clear s)
     else (False, state, s))"

section \<open>Identifiers do not repeat\<close>

fun issue_ids :: "nat \<Rightarrow> id_gen \<Rightarrow> conn_id list" where
  "issue_ids 0 g = []"
| "issue_ids (Suc n) g = (let (i, g') = next_id g in i # issue_ids n g')"

lemma seq_mask: "x AND CONN_ID_SEQ_MASK = take_bit CONN_ID_SEQ_BITS (x :: u64)"
  by (simp add: take_bit_eq_mask mask_eq_exp_minus_1)

lemma issue_ids_nth:
  "k < n \<Longrightarrow> issue_ids n g ! k = ig_base g OR take_bit 40 (ig_next g + of_nat k)"
proof (induction n arbitrary: g k)
  case (Suc n)
  then show ?case
    by (cases k) (auto simp: next_id_def seq_mask Let_def add.assoc)
qed simp

lemma length_issue_ids [simp]: "length (issue_ids n g) = n"
  by (induction n arbitrary: g) (simp_all add: next_id_def Let_def)

lemma id_low: "take_bit 40 (push_bit 40 b OR take_bit 40 (x :: u64)) = take_bit 40 x"
  by (rule bit_eqI) (auto simp: bit_simps)

lemma id_high: "drop_bit 40 (push_bit 40 b OR take_bit 40 (x :: u64)) = take_bit 24 b"
  by (rule bit_eqI) (auto simp: bit_simps)

lemma seed_base: "take_bit 24 (ucast (s AND 0x00FFFFFF) :: u64) = ucast (take_bit 24 (s :: u32))"
  by (rule bit_eqI) (auto simp: bit_simps take_bit_eq_mask mask_eq_exp_minus_1)

lemma seq_number:
  assumes "k < n" and "n < 2 ^ 40"
  shows "take_bit 40 (issue_ids n (with_seed seed) ! k) = of_nat (Suc k)"
proof -
  have "unat (take_bit 40 (of_nat (Suc k) :: u64)) = unat (of_nat (Suc k) :: u64)"
    using assms by (simp add: unsigned_take_bit_eq unat_of_nat take_bit_nat_eq_self del: of_nat_Suc)
  then have t: "take_bit 40 (of_nat (Suc k) :: u64) = of_nat (Suc k)" by (simp only: unat_inj)
  have i: "issue_ids n (with_seed seed) ! k = push_bit 40 (ucast (seed AND 0x00FFFFFF)) OR take_bit 40 (of_nat (Suc k))"
    using assms(1) by (simp add: issue_ids_nth with_seed_def)
  show ?thesis unfolding i id_low by (rule t)
qed

lemma seq_numbers_differ:
  assumes "k < n" and "l < n" and "n < 2 ^ 40" and "(of_nat (Suc k) :: u64) = of_nat (Suc l)"
  shows "k = l"
proof -
  have "unat (of_nat (Suc k) :: u64) = Suc k" "unat (of_nat (Suc l) :: u64) = Suc l"
    using assms(1-3) by (simp_all add: unat_of_nat take_bit_nat_eq_self del: of_nat_Suc)
  then have "Suc k = Suc l" using assms(4) by metis
  then show ?thesis by (rule Suc_inject)
qed

lemma seed_of_id:
  assumes "i \<in> set (issue_ids l (with_seed s))"
  shows "drop_bit 40 i = ucast (take_bit 24 s)"
proof -
  obtain k where "k < l" "i = issue_ids l (with_seed s) ! k" using assms by (auto simp: in_set_conv_nth)
  then have i: "i = push_bit 40 (ucast (s AND 0x00FFFFFF)) OR take_bit 40 (1 + of_nat k)"
    by (simp add: issue_ids_nth with_seed_def)
  show ?thesis unfolding i id_high seed_base ..
qed

lemma unat_widen: "unat (ucast (x :: u32) :: u64) = unat x"
  using unat_u32_less [of x] by (simp add: unsigned_ucast_eq take_bit_nat_eq_self)

lemma seed_from_high:
  assumes "(ucast (take_bit 24 (s :: u32)) :: u64) = ucast (take_bit 24 s')"
  shows "take_bit 24 s = take_bit 24 s'"
proof -
  have "unat (take_bit 24 s) = unat (take_bit 24 s')" using assms unat_widen by metis
  then show ?thesis by (simp only: unat_inj)
qed

text \<open>
  C35: connection identifiers are unique: the first 2^40 issued by a generator are all different, and
  generators with different seeds (their low 24 bits) never issue the same one.
\<close>

theorem conn_ids_unique:
  assumes n: "n < 2 ^ 40" and seeds: "take_bit 24 seed \<noteq> take_bit 24 seed'"
  shows "distinct (issue_ids n (with_seed seed)) \<and>
    set (issue_ids n (with_seed seed)) \<inter> set (issue_ids m (with_seed seed')) = {}"
proof
  show "distinct (issue_ids n (with_seed seed))"
    unfolding distinct_conv_nth length_issue_ids
  proof (intro allI impI notI)
    fix k l assume kl: "k < n" "l < n" "k \<noteq> l"
      and eq: "issue_ids n (with_seed seed) ! k = issue_ids n (with_seed seed) ! l"
    have "(of_nat (Suc k) :: u64) = of_nat (Suc l)"
      using seq_number [OF kl(1) n, of seed] seq_number [OF kl(2) n, of seed] unfolding eq by (rule trans [OF sym])
    then show False using seq_numbers_differ [OF kl(1,2) n] kl(3) by blast
  qed
  show "set (issue_ids n (with_seed seed)) \<inter> set (issue_ids m (with_seed seed')) = {}"
  proof (intro equals0I, elim IntE)
    fix i assume "i \<in> set (issue_ids n (with_seed seed))" "i \<in> set (issue_ids m (with_seed seed'))"
    then show False using seed_of_id seed_from_high seeds by metis
  qed
qed

theorem conn_ids_unique_witness:
  "distinct (issue_ids 3 (with_seed 7)) \<and> set (issue_ids 3 (with_seed 7)) \<inter> set (issue_ids 5 (with_seed 8)) = {}"
proof -
  have "(3 :: nat) < 2 ^ 40" by simp
  moreover have "take_bit 24 (7 :: u32) \<noteq> take_bit 24 8" by code_simp
  ultimately show ?thesis by (rule conn_ids_unique)
qed

section \<open>The sweeps\<close>

lemma remove_ids_filter: "remove_ids is t = filter (\<lambda>e. fst e \<notin> set is) t"
proof (induction "is" arbitrary: t)
  case (Cons i js)
  show ?case unfolding remove_ids_def fold_simps using Cons [of "AList.delete i t"]
    by (simp add: remove_ids_def AList.delete_eq split_def)
      (metis (mono_tags, lifting) filter_cong)
qed (simp add: remove_ids_def)

lemma filter_by_key:
  assumes "distinct (map fst t)"
  shows "filter (\<lambda>e. fst e \<notin> fst ` {e \<in> set t. P e}) t = filter (\<lambda>e. \<not> P e) t"
proof (rule filter_cong [OF refl])
  fix e assume e: "e \<in> set t"
  have inj: "inj_on fst (set t)" using assms by (simp add: distinct_map)
  have "fst e \<in> fst ` {e \<in> set t. P e} \<longleftrightarrow> e \<in> {e \<in> set t. P e}"
    by (rule inj_on_image_mem_iff [OF inj e]) auto
  then show "(fst e \<notin> fst ` {e \<in> set t. P e}) = (\<not> P e)" using e by simp
qed

lemma sweep_grace_exact:
  assumes "distinct (map fst t)"
  shows "snd (sweep_with_close_grace now stale grace t) =
    filter (\<lambda>e. if is_closed e then now - cr_closed (snd e) < grace else now - seen_at e \<le> stale) t"
proof -
  let ?dead = "\<lambda>e. if is_closed e then now - cr_closed (snd e) \<ge> grace else now - seen_at e > stale"
  have "snd (sweep_with_close_grace now stale grace t) = filter (\<lambda>e. fst e \<notin> fst ` {e \<in> set t. ?dead e}) t"
    by (simp add: sweep_with_close_grace_def remove_ids_filter Let_def)
  also have "\<dots> = filter (\<lambda>e. \<not> ?dead e) t" by (rule filter_by_key [OF assms])
  also have "\<dots> = filter (\<lambda>e. if is_closed e then now - cr_closed (snd e) < grace else now - seen_at e \<le> stale) t"
    by (rule filter_cong) auto
  finally show ?thesis .
qed

lemma remove_some_length:
  assumes "distinct is" and "set is \<subseteq> fst ` set t" and "distinct (map fst t)"
  shows "length (filter (\<lambda>e. fst e \<notin> set is) t) + length is = length t"
proof -
  have d: "distinct (map fst (filter (\<lambda>e. fst e \<in> set is) t))" by (rule distinct_map_filter [OF assms(3)])
  have "set (map fst (filter (\<lambda>e. fst e \<in> set is) t)) = set is" using assms(2) by auto
  then have "length (filter (\<lambda>e. fst e \<in> set is) t) = length is"
    using distinct_card [OF d] distinct_card [OF assms(1)] by simp
  then show ?thesis using sum_length_filter_compl [of "\<lambda>e. fst e \<notin> set is" t] by simp
qed

lemma sorted_by_recency: "sorted_wrt (\<lambda>a b. snd b \<le> snd a) (sort_key (\<lambda>c. - int (snd c)) cs)"
proof -
  have "sorted (map (\<lambda>c. - int (snd c)) (sort_key (\<lambda>c. - int (snd c)) cs))" by (rule sorted_sort_key)
  then show ?thesis by (simp add: sorted_wrt_map)
qed

text \<open>The closed connections a sweep removes: all but the first in order of recency.\<close>

definition closed_ids :: "conn_table \<Rightarrow> (conn_id \<times> nat) list" where
  "closed_ids t = sort_key (\<lambda>c. - int (snd c)) (map (\<lambda>e. (fst e, seen_at e)) (filter is_closed t))"

definition extra_ids :: "nat \<Rightarrow> conn_table \<Rightarrow> conn_id list" where
  "extra_ids m t = map fst (drop m (closed_ids t))"

lemma set_closed_ids: "set (closed_ids t) = (\<lambda>e. (fst e, seen_at e)) ` {e \<in> set t. is_closed e}"
  by (auto simp: closed_ids_def)

lemma length_closed_ids: "length (closed_ids t) = length (filter is_closed t)"
  by (simp add: closed_ids_def)

lemma closed_ids_distinct:
  assumes "distinct (map fst t)"
  shows "distinct (map fst (closed_ids t))"
proof -
  have "mset (closed_ids t) = mset (map (\<lambda>e. (fst e, seen_at e)) (filter is_closed t))"
    by (simp add: closed_ids_def)
  then have "mset (map fst (closed_ids t)) = mset (map fst (filter is_closed t))"
    by (metis (no_types, lifting) comp_apply fst_conv map_eq_conv map_map mset_map)
  moreover have "distinct (map fst (filter is_closed t))" by (rule distinct_map_filter [OF assms])
  ultimately show ?thesis by (metis mset_eq_imp_distinct_iff)
qed

lemma sweep_recency_filter:
  "sweep_recency now m stale t =
    (length (extra_ids m t) + length (filter (\<lambda>e. \<not> is_closed e \<and> now - seen_at e > stale) t),
     filter (\<lambda>e. fst e \<notin> set (extra_ids m t) \<and> fst e \<notin> fst ` {e \<in> set t. \<not> is_closed e \<and> now - seen_at e > stale}) t)"
proof -
  have e: "(if length (filter is_closed t) > m then map fst (drop m (closed_ids t)) else []) = extra_ids m t"
    by (simp add: extra_ids_def length_closed_ids)
  show ?thesis
    unfolding sweep_recency_def Let_def closed_ids_def [symmetric] length_map e
    by (simp add: remove_ids_filter conj_commute)
qed

lemma extra_iff:
  assumes "distinct (map fst t)" and "e \<in> set t"
  shows "fst e \<in> set (extra_ids m t) \<longleftrightarrow> is_closed e \<and> (fst e, seen_at e) \<in> set (drop m (closed_ids t))"
proof -
  have inj: "inj_on fst (set t)" using assms(1) by (simp add: distinct_map)
  have "is_closed e \<and> snd c = seen_at e" if "c \<in> set (drop m (closed_ids t))" "fst c = fst e" for c
  proof -
    have "c \<in> set (closed_ids t)" using that(1) by (rule in_set_dropD)
    then obtain e' where "e' \<in> set t" "is_closed e'" "c = (fst e', seen_at e')" by (auto simp: set_closed_ids)
    moreover have "e' = e" using inj calculation that(2) assms(2) by (simp add: inj_on_def)
    ultimately show ?thesis by simp
  qed
  then show ?thesis by (force simp: extra_ids_def)
qed

text \<open>
  C25: a sweep by recency keeps exactly the active connections that were seen recently and the most
  recently seen closed ones, as many as it is told to: no closed connection that goes was seen after
  one that stays. The number it returns is the number removed.
\<close>

theorem sweep_recency_keeps_newest:
  assumes d: "distinct (map fst t)" and s: "sweep_recency now m stale t = (n, t')"
  shows "n + length t' = length t \<and> set t' \<subseteq> set t \<and>
    filter (\<lambda>e. \<not> is_closed e) t' = filter (\<lambda>e. \<not> is_closed e \<and> now - seen_at e \<le> stale) t \<and>
    length (filter is_closed t') = min m (length (filter is_closed t)) \<and>
    (\<forall>k\<in>set (filter is_closed t'). \<forall>r\<in>set (filter is_closed t) - set t'. seen_at r \<le> seen_at k)"
proof -
  let ?stale = "\<lambda>e. \<not> is_closed e \<and> now - seen_at e > stale"
  let ?dead = "\<lambda>e. (is_closed e \<and> (fst e, seen_at e) \<in> set (drop m (closed_ids t))) \<or> ?stale e"
  have inj: "inj_on fst (set t)" using d by (simp add: distinct_map)
  have stale: "fst e \<in> fst ` {e \<in> set t. ?stale e} \<longleftrightarrow> ?stale e" if "e \<in> set t" for e
    using inj_on_image_mem_iff [OF inj that, of "{e \<in> set t. ?stale e}"] that by simp
  have n: "n = length (extra_ids m t) + length (filter ?stale t)" using s by (simp add: sweep_recency_filter)
  have t': "t' = filter (\<lambda>e. \<not> ?dead e) t"
  proof -
    have "t' = filter (\<lambda>e. fst e \<notin> set (extra_ids m t) \<and> fst e \<notin> fst ` {e \<in> set t. ?stale e}) t"
      using s by (simp add: sweep_recency_filter)
    also have "\<dots> = filter (\<lambda>e. \<not> ?dead e) t"
      by (rule filter_cong [OF refl]) (simp only: extra_iff [OF d] stale de_Morgan_disj)
    finally show ?thesis .
  qed
  have k: "distinct (map fst (closed_ids t))" by (rule closed_ids_distinct [OF d])
  then have kd: "distinct (closed_ids t)" by (simp add: distinct_map)
  have closed: "filter is_closed t' = filter (\<lambda>e. fst e \<notin> set (extra_ids m t)) (filter is_closed t)"
    unfolding t' filter_filter by (rule filter_cong [OF refl]) (simp only: extra_iff [OF d], blast)
  have "distinct (extra_ids m t)" using k by (simp add: extra_ids_def drop_map [symmetric])
  moreover have "set (extra_ids m t) \<subseteq> fst ` set (filter is_closed t)"
  proof -
    have "set (extra_ids m t) \<subseteq> fst ` set (closed_ids t)" by (auto simp: extra_ids_def dest: in_set_dropD)
    then show ?thesis by (simp add: set_closed_ids image_image)
  qed
  ultimately have "length (filter is_closed t') + length (extra_ids m t) = length (filter is_closed t)"
    unfolding closed by (rule remove_some_length [OF _ _ distinct_map_filter [OF d]])
  moreover have "length (extra_ids m t) = length (filter is_closed t) - m"
    by (simp add: extra_ids_def length_closed_ids)
  ultimately have len: "length (filter is_closed t') = min m (length (filter is_closed t))"
    "length (filter is_closed t') + length (extra_ids m t) = length (filter is_closed t)"
    by (auto simp: min_def)
  have active: "filter (\<lambda>e. \<not> is_closed e) t' = filter (\<lambda>e. \<not> is_closed e \<and> now - seen_at e \<le> stale) t"
    unfolding t' filter_filter by (rule filter_cong) auto
  have "length (filter (\<lambda>e. \<not> is_closed e) t) = length (filter ?stale t) + length (filter (\<lambda>e. \<not> is_closed e) t')"
    using sum_length_filter_compl [of "\<lambda>e. now - seen_at e > stale" "filter (\<lambda>e. \<not> is_closed e) t"]
    by (simp add: active not_less conj_commute)
  then have total: "n + length t' = length t"
    using n len(2) sum_length_filter_compl [of is_closed t] sum_length_filter_compl [of is_closed t'] by simp
  have newest: "seen_at r \<le> seen_at k" if "k \<in> set (filter is_closed t')" "r \<in> set (filter is_closed t) - set t'" for k r
  proof -
    have "(fst k, seen_at k) \<in> set (closed_ids t)" "(fst k, seen_at k) \<notin> set (drop m (closed_ids t))"
      using that(1) by (auto simp: t' set_closed_ids)
    then have 1: "(fst k, seen_at k) \<in> set (take m (closed_ids t))"
      by (metis Un_iff append_take_drop_id set_append)
    have 2: "(fst r, seen_at r) \<in> set (drop m (closed_ids t))" using that(2) by (auto simp: t')
    have "sorted_wrt (\<lambda>a b. snd b \<le> snd a) (take m (closed_ids t) @ drop m (closed_ids t))"
      unfolding append_take_drop_id unfolding closed_ids_def by (rule sorted_by_recency)
    then show ?thesis using 1 2 unfolding sorted_wrt_append by (metis snd_conv)
  qed
  show ?thesis using total active len(1) newest by (auto simp: t')
qed

theorem sweep_recency_keeps_newest_witness:
  "snd (sweep_recency 100 1 50
     [(1 :: u64, (conn_record_new 1 (V4 1, 1) (V4 2, 2) PTls None)\<lparr>cr_last_seen := 90\<rparr>),
      (2, (conn_record_new 2 (V4 1, 1) (V4 2, 2) PTls None)\<lparr>cr_last_seen := 10\<rparr>)]) \<noteq> []"
proof -
  let ?t = "[(1 :: u64, (conn_record_new 1 (V4 1, 1) (V4 2, 2) PTls None)\<lparr>cr_last_seen := 90\<rparr>),
      (2, (conn_record_new 2 (V4 1, 1) (V4 2, 2) PTls None)\<lparr>cr_last_seen := 10\<rparr>)]"
  have "distinct (map fst ?t)" by simp
  from sweep_recency_keeps_newest [OF this surjective_pairing, of 100 1 50]
  have "filter (\<lambda>e. \<not> is_closed e) (snd (sweep_recency 100 1 50 ?t)) = filter (\<lambda>e. \<not> is_closed e \<and> 100 - seen_at e \<le> 50) ?t"
    by blast
  also have "\<dots> \<noteq> []" by (simp add: is_closed_def seen_at_def conn_record_new_def)
  finally show ?thesis by auto
qed

section \<open>Draining a counter that others use\<close>

text \<open>
  Any number of threads drain the same counter while bytes are added to it. A thread reads the last
  drained value, then the counter, and publishes what it read with a compare-and-swap that may also
  fail for no reason; \<open>returned\<close> is the sum of the results so far and \<open>added\<close> all bytes counted.
\<close>

datatype drain_pc = AtRest | Loaded u64 | Swapping u64 u64

record drain =
  dr_cur :: u64
  dr_last :: u64
  dr_pc :: "nat \<Rightarrow> drain_pc"
  dr_added :: nat
  dr_returned :: nat

definition drain_start :: drain where
  "drain_start = \<lparr> dr_cur = 0, dr_last = 0, dr_pc = (\<lambda>_. AtRest), dr_added = 0, dr_returned = 0 \<rparr>"

inductive drain_step :: "drain \<Rightarrow> drain \<Rightarrow> bool" where
  count: "drain_step s (s\<lparr>dr_cur := dr_cur s + n, dr_added := dr_added s + unat n\<rparr>)"
| load_last: "dr_pc s i = AtRest \<Longrightarrow> drain_step s (s\<lparr>dr_pc := (dr_pc s)(i := Loaded (dr_last s))\<rparr>)"
| nothing_new: "dr_pc s i = Loaded prev \<Longrightarrow> dr_cur s \<le> prev \<Longrightarrow> drain_step s (s\<lparr>dr_pc := (dr_pc s)(i := AtRest)\<rparr>)"
| load_cur: "dr_pc s i = Loaded prev \<Longrightarrow> \<not> dr_cur s \<le> prev \<Longrightarrow>
    drain_step s (s\<lparr>dr_pc := (dr_pc s)(i := Swapping prev (dr_cur s))\<rparr>)"
| swap: "dr_pc s i = Swapping prev now \<Longrightarrow> dr_last s = prev \<Longrightarrow>
    drain_step s (s\<lparr>dr_last := now, dr_pc := (dr_pc s)(i := AtRest), dr_returned := dr_returned s + unat (now - prev)\<rparr>)"
| swap_failed: "dr_pc s i = Swapping prev now \<Longrightarrow>
    drain_step s (s\<lparr>dr_pc := (dr_pc s)(i := Loaded (dr_last s))\<rparr>)"

inductive drain_reachable :: "drain \<Rightarrow> bool" where
  start: "drain_reachable drain_start"
| step: "drain_reachable s \<Longrightarrow> drain_step s t \<Longrightarrow> drain_reachable t"

definition swaps_up :: "drain \<Rightarrow> bool" where
  "swaps_up s \<longleftrightarrow> (\<forall>i prev now. dr_pc s i = Swapping prev now \<longrightarrow> prev < now)"

definition behind :: "drain \<Rightarrow> bool" where
  "behind s \<longleftrightarrow> dr_last s \<le> dr_cur s \<and> (\<forall>i prev now. dr_pc s i = Swapping prev now \<longrightarrow> now \<le> dr_cur s)"

text \<open>What is published never passes the counter, as long as the counter has not wrapped round.\<close>

definition drain_inv :: "drain \<Rightarrow> bool" where
  "drain_inv s \<longleftrightarrow> dr_cur s = of_nat (dr_added s) \<and> dr_returned s = unat (dr_last s) \<and> swaps_up s \<and>
    (dr_added s < 2 ^ 64 \<longrightarrow> behind s)"

lemma drain_count_grows:
  assumes "c = of_nat a" and "a + unat n < 2 ^ 64"
  shows "(c :: u64) \<le> c + n"
  using assms by (simp add: word_le_nat_alt unat_word_ariths unat_of_nat take_bit_nat_eq_self)

lemma drain_step_swaps_up: "drain_step s t \<Longrightarrow> swaps_up s \<Longrightarrow> swaps_up t"
  by (induction rule: drain_step.induct) (auto simp: swaps_up_def not_le)

lemma drain_step_behind:
  "drain_step s t \<Longrightarrow> behind s \<Longrightarrow> dr_cur s \<le> dr_cur t \<Longrightarrow> behind t"
  by (induction rule: drain_step.induct) (auto simp: behind_def intro: order_trans)

lemma drain_step_returned:
  "drain_step s t \<Longrightarrow> swaps_up s \<Longrightarrow> dr_returned s = unat (dr_last s) \<Longrightarrow> dr_returned t = unat (dr_last t)"
proof (induction rule: drain_step.induct)
  case (swap s i prev now)
  then have "prev < now" by (auto simp: swaps_up_def)
  then have "unat prev + unat (now - prev) = unat now"
    by (simp add: unat_sub less_imp_le word_less_nat_alt)
  then show ?case using swap by simp
qed auto

lemma drain_step_cur:
  assumes "drain_step s t" and "dr_cur s = of_nat (dr_added s)"
  shows "dr_cur t = of_nat (dr_added t) \<and> dr_added s \<le> dr_added t \<and>
    (dr_added t < 2 ^ 64 \<longrightarrow> dr_cur s \<le> dr_cur t)"
  using assms by (induction rule: drain_step.induct) (auto simp: drain_count_grows)

lemma drain_step_inv: "drain_step s t \<Longrightarrow> drain_inv s \<Longrightarrow> drain_inv t"
proof -
  assume s: "drain_step s t" and i: "drain_inv s"
  then have "swaps_up t" and "dr_returned t = unat (dr_last t)"
    using drain_step_swaps_up drain_step_returned by (auto simp: drain_inv_def)
  moreover have c: "dr_cur t = of_nat (dr_added t)" "dr_added s \<le> dr_added t" "dr_added t < 2 ^ 64 \<longrightarrow> dr_cur s \<le> dr_cur t"
    using drain_step_cur [OF s] i by (auto simp: drain_inv_def)
  moreover have "behind t" if "dr_added t < 2 ^ 64"
    using drain_step_behind [OF s] i c that by (simp add: drain_inv_def)
  ultimately show "drain_inv t" by (simp add: drain_inv_def)
qed

lemma drain_reachable_inv: "drain_reachable s \<Longrightarrow> drain_inv s"
proof (induction rule: drain_reachable.induct)
  case start
  show ?case by (simp add: drain_inv_def drain_start_def swaps_up_def behind_def)
next
  case (step s t)
  then show ?case by (blast intro: drain_step_inv)
qed

text \<open>
  C23: draining conserves bytes: whatever the interleaving of drains and counts, all drains together
  never return more than was counted, and one more undisturbed drain returns exactly the rest. This
  holds until 2^64 bytes are counted.
\<close>

theorem concurrent_drains_conserve_bytes:
  assumes "drain_reachable s" and "dr_added s < 2 ^ 64"
  shows "dr_returned s \<le> dr_added s \<and>
    dr_returned s + unat (fst (drain_one (dr_cur s) (dr_last s))) = dr_added s"
proof -
  have i: "drain_inv s" by (rule drain_reachable_inv [OF assms(1)])
  then have c: "unat (dr_cur s) = dr_added s" using assms(2)
    by (simp add: drain_inv_def unat_of_nat take_bit_nat_eq_self)
  have l: "dr_last s \<le> dr_cur s" using i assms(2) unfolding drain_inv_def behind_def by blast
  then have "unat (dr_last s) + unat (fst (drain_one (dr_cur s) (dr_last s))) = unat (dr_cur s)"
    by (auto simp: drain_one_def unat_sub word_le_nat_alt)
  then show ?thesis using i c by (simp add: drain_inv_def)
qed

lemma drain_example: "drain_reachable (drain_start\<lparr>dr_cur := 0 + 5, dr_added := 0 + unat (5 :: u64)\<rparr>)"
  using drain_reachable.step [OF drain_reachable.start drain_step.count [of drain_start 5]]
  by (simp add: drain_start_def)

theorem concurrent_drains_conserve_bytes_witness:
  "dr_returned (drain_start\<lparr>dr_cur := 0 + 5, dr_added := 0 + unat (5 :: u64)\<rparr>) \<le> 5"
proof -
  have "dr_added (drain_start\<lparr>dr_cur := 0 + 5, dr_added := 0 + unat (5 :: u64)\<rparr>) < 2 ^ 64" by simp
  from concurrent_drains_conserve_bytes [OF drain_example this] show ?thesis by simp
qed

section \<open>The clean-up fires once a month\<close>

fun run_clean :: "nat \<Rightarrow> ('s \<Rightarrow> 's) \<Rightarrow> date list \<Rightarrow> clean_state \<times> 's \<Rightarrow> bool list \<times> clean_state \<times> 's" where
  "run_clean day clear [] st = ([], st)"
| "run_clean day clear (now # nows) st =
     (let (fired, st1) = maybe_clean_at day now clear st; (rest, st2) = run_clean day clear nows st1
      in (fired # rest, st2))"

definition month_of :: "date \<Rightarrow> int \<times> nat" where
  "month_of d = (d_year d, d_month d)"

text \<open>The dates at which a run fires.\<close>

definition fired_dates :: "nat \<Rightarrow> date list \<Rightarrow> clean_state \<Rightarrow> date list" where
  "fired_dates day nows st = map snd (filter fst (zip (fst (run_clean day id nows (st, ()))) nows))"

lemma fired_dates_Cons:
  "fired_dates day (d # ds) st = (if should_clean d day st
     then d # fired_dates day ds \<lparr> cs_fired = Some (month_of d) \<rparr> else fired_dates day ds st)"
  by (simp add: fired_dates_def maybe_clean_at_def month_of_def split_def Let_def)

lemma should_clean_iff: "should_clean d day st \<longleftrightarrow>
    1 \<le> day \<and> day \<le> 31 \<and> d_day d = day \<and> cs_fired st \<noteq> Some (month_of d)"
  by (auto simp: should_clean_def month_of_def split: option.splits)

lemma fired_in: "d \<in> set (fired_dates day ds st) \<Longrightarrow> d \<in> set ds \<and> d_day d = day \<and> 1 \<le> day \<and> day \<le> 31"
proof (induction ds arbitrary: st)
  case (Cons e ds)
  then show ?case by (fastforce simp: fired_dates_Cons should_clean_iff split: if_splits)
qed (simp add: fired_dates_def)

lemma fired_later:
  assumes "sorted (map month_of ds)" and "cs_fired st = Some m" and "\<forall>d\<in>set ds. m \<le> month_of d"
  shows "m \<notin> month_of ` set (fired_dates day ds st)"
  using assms
proof (induction ds arbitrary: st m)
  case (Cons d ds)
  show ?case
  proof (cases "should_clean d day st")
    case False
    then show ?thesis using Cons.IH [of st m] Cons.prems by (simp add: fired_dates_Cons)
  next
    case True
    let ?st = "\<lparr> cs_fired = Some (month_of d) \<rparr>"
    have d: "m < month_of d" using True Cons.prems(2,3) by (auto simp: should_clean_iff order_less_le)
    have "m < month_of e" if "e \<in> set (fired_dates day ds ?st)" for e
      using fired_in [OF that] Cons.prems(1) d by (auto intro: less_le_trans)
    then show ?thesis using True d by (force simp: fired_dates_Cons)
  qed
qed (simp add: fired_dates_def)

lemma fired_distinct: "sorted (map month_of ds) \<Longrightarrow> distinct (map month_of (fired_dates day ds st))"
proof (induction ds arbitrary: st)
  case (Cons d ds)
  then show ?case
    using fired_later [of ds "\<lparr> cs_fired = Some (month_of d) \<rparr>" "month_of d" day] by (simp add: fired_dates_Cons)
qed (simp add: fired_dates_def)

lemma fired_whenever:
  assumes "d \<in> set ds" and "d_day d = day" and "1 \<le> day" and "day \<le> 31"
  shows "cs_fired st = Some (month_of d) \<or> month_of d \<in> month_of ` set (fired_dates day ds st)"
  using assms(1)
proof (induction ds arbitrary: st)
  case (Cons e ds)
  show ?case
  proof (cases "should_clean e day st")
    case True
    then show ?thesis
      using Cons.IH [of "\<lparr> cs_fired = Some (month_of e) \<rparr>"] Cons.prems by (auto simp: fired_dates_Cons)
  next
    case False
    then show ?thesis using Cons.IH [of st] Cons.prems assms(2-4) by (auto simp: fired_dates_Cons should_clean_iff)
  qed
qed simp

text \<open>
  As the dates of a run go forward, the clean-up fires at most once in a month, only on the
  configured day, and in every month in which it is asked on that day.
\<close>

theorem clean_up_once_a_month:
  assumes "sorted (map month_of ds)"
  shows "distinct (map month_of (fired_dates day ds \<lparr> cs_fired = None \<rparr>)) \<and>
    month_of ` set (fired_dates day ds \<lparr> cs_fired = None \<rparr>) =
      month_of ` {d \<in> set ds. d_day d = day \<and> 1 \<le> day \<and> day \<le> 31}"
proof
  show "distinct (map month_of (fired_dates day ds \<lparr> cs_fired = None \<rparr>))" by (rule fired_distinct [OF assms])
  show "month_of ` set (fired_dates day ds \<lparr> cs_fired = None \<rparr>) =
      month_of ` {d \<in> set ds. d_day d = day \<and> 1 \<le> day \<and> day \<le> 31}"
    using fired_in [of _ day ds] fired_whenever [of _ ds day "\<lparr> cs_fired = None \<rparr>"] by (fastforce simp: image_iff)
qed

theorem clean_up_once_a_month_witness:
  "distinct (map month_of (fired_dates 1 [\<lparr> d_year = 2026, d_month = 1, d_day = 1 \<rparr>, \<lparr> d_year = 2026, d_month = 2, d_day = 1 \<rparr>]
     \<lparr> cs_fired = None \<rparr>))"
proof -
  have "sorted (map month_of [\<lparr> d_year = 2026, d_month = 1, d_day = 1 \<rparr>, \<lparr> d_year = 2026, d_month = 2, d_day = 1 \<rparr>])"
    by (simp add: month_of_def)
  from clean_up_once_a_month [OF this, of 1] show ?thesis by blast
qed

end
