(* ===== verification/Relay.thy ===== *)
theory Relay
  imports Base
begin

text \<open>
  The byte relays (\<open>sb-stats/src/counting_copy.rs\<close>, \<open>sb-stats/src/adaptive_copy.rs\<close>). One direction of a
  connection reads from a source and writes to a sink, and counts what it moved. What the kernel
  answers to each attempt to read or write is a list of events; a relay that has no event left is
  still waiting. The two directions of a connection are two such runs.
\<close>

section \<open>Sources, sinks and attempts\<close>

datatype attempt = Moved nat | WouldBlock | Broken

datatype 'a progress = Ready 'a | Failed | Waiting

abbreviation (input) COPY_BUF_SIZE :: nat where "COPY_BUF_SIZE \<equiv> 32768"
abbreviation (input) POOL_CAP :: nat where "POOL_CAP \<equiv> 64"
abbreviation (input) SPLICE_LEN :: nat where "SPLICE_LEN \<equiv> 1048576"

record wire =
  w_src :: bytes
  w_dst :: bytes
  w_reads :: "attempt list"
  w_writes :: "attempt list"
  w_counter :: u64
  w_shut :: bool

text \<open>
  A successful read returns at least one byte unless the source has ended, and at most the size of the
  buffer.
\<close>

fun read_loop :: "nat \<Rightarrow> attempt list \<Rightarrow> bytes \<Rightarrow> bytes progress \<times> attempt list \<times> bytes" where
  "read_loop cap [] src = (Waiting, [], src)"
| "read_loop cap (WouldBlock # es) src = read_loop cap es src"
| "read_loop cap (Broken # es) src = (Failed, es, src)"
| "read_loop cap (Moved n # es) src = (let k = min (max n 1) cap in (Ready (take k src), es, drop k src))"

definition read_once :: "nat \<Rightarrow> wire \<Rightarrow> bytes progress \<times> wire" where
  "read_once cap w = (let (r, es, src) = read_loop cap (w_reads w) (w_src w)
     in (r, w\<lparr>w_reads := es, w_src := src\<rparr>))"

fun write_loop :: "attempt list \<Rightarrow> bytes \<Rightarrow> bytes \<Rightarrow> unit progress \<times> attempt list \<times> bytes" where
  "write_loop es [] dst = (Ready (), es, dst)"
| "write_loop [] data dst = (Waiting, [], dst)"
| "write_loop (WouldBlock # es) data dst = write_loop es data dst"
| "write_loop (Broken # es) data dst = (Failed, es, dst)"
| "write_loop (Moved n # es) data dst =
     (if n = 0 then (Failed, es, dst) else write_loop es (drop n data) (dst @ take n data))"

definition write_all_once :: "bytes \<Rightarrow> wire \<Rightarrow> unit progress \<times> wire" where
  "write_all_once data w = (let (r, es, dst) = write_loop (w_writes w) data (w_dst w)
     in (r, w\<lparr>w_writes := es, w_dst := dst\<rparr>))"

definition count_bytes :: "nat \<Rightarrow> wire \<Rightarrow> wire" where
  "count_bytes n w = w\<lparr>w_counter := w_counter w + of_nat n\<rparr>"

definition shutdown_write :: "wire \<Rightarrow> wire" where
  "shutdown_write w = w\<lparr>w_shut := True\<rparr>"

section \<open>The pool of buffers\<close>

type_synonym buf_pool = "bytes list"

definition pooled_take :: "buf_pool \<Rightarrow> bytes \<times> buf_pool" where
  "pooled_take pool = (if pool = [] then (replicate COPY_BUF_SIZE 0, []) else (last pool, butlast pool))"

definition pooled_drop :: "bytes \<Rightarrow> buf_pool \<Rightarrow> buf_pool" where
  "pooled_drop buf pool = (if length buf = COPY_BUF_SIZE \<and> length pool < POOL_CAP then pool @ [buf] else pool)"

section \<open>One chunk\<close>

text \<open>A read and, unless the source has ended, the write of what was read; then it is counted.\<close>

definition copy_chunk :: "wire \<Rightarrow> nat progress \<times> wire" where
  "copy_chunk w = (case read_once COPY_BUF_SIZE w of
     (Failed, w1) \<Rightarrow> (Failed, w1)
   | (Waiting, w1) \<Rightarrow> (Waiting, w1)
   | (Ready data, w1) \<Rightarrow>
       if data = [] then (Ready 0, w1)
       else case write_all_once data w1 of
         (Failed, w2) \<Rightarrow> (Failed, w2)
       | (Waiting, w2) \<Rightarrow> (Waiting, w2)
       | (Ready _, w2) \<Rightarrow> (Ready (length data), count_bytes (length data) w2))"

lemma read_loop_events: "read_loop cap es src = (Ready x, es', src') \<Longrightarrow> length es' < length es"
  by (induction cap es src rule: read_loop.induct) (auto simp: Let_def)

lemma copy_chunk_events: "copy_chunk w = (Ready n, w') \<Longrightarrow> length (w_reads w') < length (w_reads w)"
  by (auto simp: copy_chunk_def read_once_def write_all_once_def count_bytes_def
      dest!: read_loop_events split: prod.splits progress.splits if_splits)

text \<open>The counted copy of a replayed connection; it shuts the sink down however it ends.\<close>

function copy_loop :: "nat \<Rightarrow> wire \<Rightarrow> nat progress \<times> wire" where
  "copy_loop tot w = (case copy_chunk w of
     (Failed, w1) \<Rightarrow> (Failed, w1)
   | (Waiting, w1) \<Rightarrow> (Waiting, w1)
   | (Ready n, w1) \<Rightarrow> if n = 0 then (Ready tot, w1) else copy_loop (tot + n) w1)"
  by pat_completeness auto
termination
  by (relation "measure (\<lambda>(_, w). length (w_reads w))") (auto dest: copy_chunk_events [OF sym])

declare copy_loop.simps [simp del]

definition shut_when_over :: "'a progress \<times> wire \<Rightarrow> 'a progress \<times> wire" where
  "shut_when_over r = (case r of (Waiting, w) \<Rightarrow> (Waiting, w) | (p, w) \<Rightarrow> (p, shutdown_write w))"

definition copy_and_count :: "wire \<Rightarrow> nat progress \<times> wire" where
  "copy_and_count w = shut_when_over (copy_loop 0 w)"

section \<open>The adaptive relay\<close>

text \<open>Copying through a buffer up to a threshold: whether the source ended, and the bytes so far.\<close>

function buffered_phase :: "u64 \<Rightarrow> nat \<Rightarrow> wire \<Rightarrow> (bool \<times> nat) progress \<times> wire" where
  "buffered_phase threshold tot w = (case copy_chunk w of
     (Failed, w1) \<Rightarrow> (Failed, w1)
   | (Waiting, w1) \<Rightarrow> (Waiting, w1)
   | (Ready n, w1) \<Rightarrow>
       if n = 0 then (Ready (True, tot), w1)
       else if tot + n \<ge> unat threshold then (Ready (False, tot + n), w1)
       else buffered_phase threshold (tot + n) w1)"
  by pat_completeness auto
termination
  by (relation "measure (\<lambda>(_, _, w). length (w_reads w))") (auto dest: copy_chunk_events [OF sym])

declare buffered_phase.simps [simp del]

text \<open>
  Emptying the pipe into the sink: each piece is counted as it goes out. A zero from the kernel ends
  the relay with success, whatever is left in the pipe.
\<close>

fun drain_pipe :: "attempt list \<Rightarrow> bytes \<Rightarrow> nat \<Rightarrow> wire \<Rightarrow> (bool \<times> nat) progress \<times> wire" where
  "drain_pipe es [] tot w = (Ready (True, tot), w\<lparr>w_writes := es\<rparr>)"
| "drain_pipe [] pipe tot w = (Waiting, w\<lparr>w_writes := []\<rparr>)"
| "drain_pipe (WouldBlock # es) pipe tot w = drain_pipe es pipe tot w"
| "drain_pipe (Broken # es) pipe tot w = (Failed, w\<lparr>w_writes := es\<rparr>)"
| "drain_pipe (Moved n # es) pipe tot w =
     (if n = 0 then (Ready (False, tot), w\<lparr>w_writes := es\<rparr>)
      else let k = min n (length pipe) in
        drain_pipe es (drop k pipe) (tot + k) (count_bytes k (w\<lparr>w_dst := w_dst w @ take k pipe\<rparr>)))"

lemma count_bytes_same [simp]:
  "w_reads (count_bytes k w) = w_reads w" "w_src (count_bytes k w) = w_src w" "w_writes (count_bytes k w) = w_writes w"
  "w_dst (count_bytes k w) = w_dst w" "w_shut (count_bytes k w) = w_shut w"
  "w_counter (count_bytes k w) = w_counter w + of_nat k"
  by (simp_all add: count_bytes_def)

lemma drain_pipe_same [simp]:
  "w_reads (snd (drain_pipe es pipe tot w)) = w_reads w \<and> w_src (snd (drain_pipe es pipe tot w)) = w_src w"
  by (induction es pipe tot w rule: drain_pipe.induct) (simp_all add: Let_def)

lemma read_once_events: "read_once cap w = (Ready data, w1) \<Longrightarrow> length (w_reads w1) < length (w_reads w)"
  by (auto simp: read_once_def dest: read_loop_events split: prod.splits)

lemma splice_events:
  assumes "(Ready pipe, w1) = read_once cap w" and "(r, w2) = drain_pipe (w_writes w1) pipe tot w1"
  shows "length (w_reads w2) < length (w_reads w)"
  using read_once_events [OF assms(1) [symmetric]] drain_pipe_same [of "w_writes w1" pipe tot w1]
  unfolding assms(2) [symmetric] by simp

function splice_to_eof :: "nat \<Rightarrow> wire \<Rightarrow> nat progress \<times> wire" where
  "splice_to_eof tot w = (case read_once SPLICE_LEN w of
     (Failed, w1) \<Rightarrow> (Failed, w1)
   | (Waiting, w1) \<Rightarrow> (Waiting, w1)
   | (Ready pipe, w1) \<Rightarrow>
       if pipe = [] then (Ready tot, w1)
       else case drain_pipe (w_writes w1) pipe tot w1 of
         (Failed, w2) \<Rightarrow> (Failed, w2)
       | (Waiting, w2) \<Rightarrow> (Waiting, w2)
       | (Ready (go_on, tot'), w2) \<Rightarrow> if go_on then splice_to_eof tot' w2 else (Ready tot', w2))"
  by pat_completeness auto
termination
  by (relation "measure (\<lambda>(_, w). length (w_reads w))") (auto dest: splice_events)

declare splice_to_eof.simps [simp del]

definition relay_dir :: "u64 \<Rightarrow> wire \<Rightarrow> nat progress \<times> wire" where
  "relay_dir threshold w = (case buffered_phase threshold 0 w of
     (Failed, w1) \<Rightarrow> (Failed, w1)
   | (Waiting, w1) \<Rightarrow> (Waiting, w1)
   | (Ready (ended, tot), w1) \<Rightarrow> if ended then (Ready tot, w1) else splice_to_eof tot w1)"

definition copy_dir :: "u64 \<Rightarrow> wire \<Rightarrow> nat progress \<times> wire" where
  "copy_dir threshold w = shut_when_over (relay_dir threshold w)"

section \<open>What a run moves\<close>

text \<open>
  From \<open>w\<close> to \<open>w'\<close> the relay has delivered and counted \<open>dne\<close>, delivered \<open>part\<close> without counting
  it, and taken \<open>lost\<close> from the source without delivering it.
\<close>

definition relayed :: "wire \<Rightarrow> wire \<Rightarrow> bytes \<Rightarrow> bytes \<Rightarrow> bytes \<Rightarrow> bool" where
  "relayed w w' dne part lost \<longleftrightarrow> w_src w = dne @ part @ lost @ w_src w' \<and>
     w_dst w' = w_dst w @ dne @ part \<and> w_counter w' = w_counter w + of_nat (length dne)"

lemma relayed_step:
  assumes "relayed w w1 d1 [] []" and "relayed w1 w2 d2 part lost"
  shows "relayed w w2 (d1 @ d2) part lost"
  using assms by (simp add: relayed_def)

lemma read_loop_stream:
  "read_loop cap es src = (r, es', src') \<Longrightarrow> 0 < cap \<Longrightarrow>
    set es' \<subseteq> set es \<and>
    (case r of Ready d \<Rightarrow> src = d @ src' \<and> length d \<le> cap \<and> (d = [] \<longrightarrow> src = []) | _ \<Rightarrow> src' = src)"
  by (induction cap es src rule: read_loop.induct) (auto simp: Let_def split: progress.splits)

lemma write_loop_stream:
  "write_loop es data dst = (r, es', dst') \<Longrightarrow>
    set es' \<subseteq> set es \<and>
    (case r of Ready _ \<Rightarrow> dst' = dst @ data | _ \<Rightarrow> \<exists>k \<le> length data. dst' = dst @ take k data)"
proof (induction es data dst rule: write_loop.induct)
  case (5 n es v va dst)
  show ?case
  proof (cases "n = 0")
    case True
    then show ?thesis using "5.prems" by (auto intro: exI [of _ 0])
  next
    case False
    then have IH: "set es' \<subseteq> set es \<and> (case r of Ready _ \<Rightarrow> dst' = (dst @ take n (v # va)) @ drop n (v # va)
        | _ \<Rightarrow> \<exists>k \<le> length (drop n (v # va)). dst' = (dst @ take n (v # va)) @ take k (drop n (v # va)))"
      using "5.IH" "5.prems" by simp
    have "take n (v # va) @ take k (drop n (v # va)) = take (n + k) (v # va)" for k by (simp add: take_add)
    then show ?thesis
      using IH by (cases r) (auto intro!: exI [of _ "min (n + _) (length (v # va))"] simp: min_def)
  qed
qed (auto intro: exI [of _ 0] split: progress.splits)

lemma read_once_stream:
  assumes "read_once cap w = (r, w1)" and "0 < cap"
  shows "w_dst w1 = w_dst w \<and> w_counter w1 = w_counter w \<and> w_writes w1 = w_writes w \<and>
    (case r of Ready d \<Rightarrow> w_src w = d @ w_src w1 \<and> length d \<le> cap \<and> (d = [] \<longrightarrow> w_src w = []) | _ \<Rightarrow> w_src w1 = w_src w)"
proof -
  obtain es src where l: "read_loop cap (w_reads w) (w_src w) = (r, es, src)" "w1 = w\<lparr>w_reads := es, w_src := src\<rparr>"
    using assms(1) by (auto simp: read_once_def split: prod.splits)
  show ?thesis using read_loop_stream [OF l(1) assms(2)] by (cases r) (auto simp: l(2))
qed

lemma write_all_once_stream:
  assumes "write_all_once data w = (r, w1)"
  shows "w_src w1 = w_src w \<and> w_counter w1 = w_counter w \<and> set (w_writes w1) \<subseteq> set (w_writes w) \<and>
    (case r of Ready _ \<Rightarrow> w_dst w1 = w_dst w @ data | _ \<Rightarrow> \<exists>k \<le> length data. w_dst w1 = w_dst w @ take k data)"
proof -
  obtain es dst where l: "write_loop (w_writes w) data (w_dst w) = (r, es, dst)" "w1 = w\<lparr>w_writes := es, w_dst := dst\<rparr>"
    using assms(1) by (auto simp: write_all_once_def split: prod.splits)
  show ?thesis using write_loop_stream [OF l(1)] by (cases r) (simp_all add: l(2))
qed

definition chunk_outcome :: "wire \<Rightarrow> nat progress \<Rightarrow> wire \<Rightarrow> bool" where
  "chunk_outcome w r w' \<longleftrightarrow> (case r of
     Ready n \<Rightarrow> \<exists>d. relayed w w' d [] [] \<and> length d = n \<and> (n = 0 \<longleftrightarrow> w_src w = []) \<and> set (w_writes w') \<subseteq> set (w_writes w)
   | _ \<Rightarrow> \<exists>part lost. relayed w w' [] part lost \<and> length (part @ lost) \<le> COPY_BUF_SIZE)"

lemma copy_chunk_outcome:
  assumes "copy_chunk w = (r, w')"
  shows "chunk_outcome w r w'"
proof -
  obtain p w1 where rd: "read_once COPY_BUF_SIZE w = (p, w1)" by fastforce
  note s1 = read_once_stream [OF rd]
  show ?thesis
  proof (cases p)
    case (Ready d)
    show ?thesis
    proof (cases "d = []")
      case True
      then show ?thesis using assms rd Ready s1 by (auto simp: copy_chunk_def chunk_outcome_def relayed_def)
    next
      case False
      obtain q w2 where wr: "write_all_once d w1 = (q, w2)" by fastforce
      note s2 = write_all_once_stream [OF wr]
      have r1: "w_src w = d @ w_src w2" "w_counter w2 = w_counter w" "length d \<le> COPY_BUF_SIZE" "w_src w \<noteq> []"
        "w_dst w1 = w_dst w" "w_writes w1 = w_writes w" using s1 s2 Ready False by auto
      show ?thesis
      proof (cases q)
        case q: (Ready u)
        then have "r = Ready (length d)" "w' = count_bytes (length d) w2"
          using assms rd Ready False wr by (simp_all add: copy_chunk_def)
        then show ?thesis using r1 s2 q False by (auto simp: chunk_outcome_def relayed_def)
      next
        case Failed
        then obtain k where "k \<le> length d" "w_dst w2 = w_dst w @ take k d" using s2 r1(5) by auto
        moreover have "r = Failed" "w' = w2" using assms rd Ready False wr Failed by (simp_all add: copy_chunk_def)
        ultimately show ?thesis using r1
          by (auto simp: chunk_outcome_def relayed_def intro!: exI [of _ "take k d"] exI [of _ "drop k d"])
      next
        case Waiting
        then obtain k where "k \<le> length d" "w_dst w2 = w_dst w @ take k d" using s2 r1(5) by auto
        moreover have "r = Waiting" "w' = w2" using assms rd Ready False wr Waiting by (simp_all add: copy_chunk_def)
        ultimately show ?thesis using r1
          by (auto simp: chunk_outcome_def relayed_def intro!: exI [of _ "take k d"] exI [of _ "drop k d"])
      qed
    qed
  qed (use assms rd s1 in \<open>auto simp: copy_chunk_def chunk_outcome_def relayed_def\<close>)
qed

text \<open>
  The outcome of a whole direction, of which \<open>tot\<close> bytes were moved before: when it ends well, all that
  is not lost has been delivered and counted; when it does not, at most one buffer is in flight.
\<close>

definition run_outcome :: "nat \<Rightarrow> wire \<Rightarrow> nat progress \<Rightarrow> wire \<Rightarrow> bool" where
  "run_outcome tot w r w' \<longleftrightarrow> (\<exists>dne part lost. relayed w w' dne part lost \<and> length (part @ lost) \<le> SPLICE_LEN \<and>
     (case r of
        Ready n \<Rightarrow> n = tot + length dne \<and> part = [] \<and> (Moved 0 \<notin> set (w_writes w) \<longrightarrow> lost = [] \<and> w_src w' = [])
      | _ \<Rightarrow> True))"

lemma run_outcome_step:
  assumes "relayed w w1 d [] []" and "set (w_writes w1) \<subseteq> set (w_writes w)" and "run_outcome (tot + length d) w1 r w'"
  shows "run_outcome tot w r w'"
proof -
  obtain dne part lost where h: "relayed w1 w' dne part lost" "length (part @ lost) \<le> SPLICE_LEN"
    "case r of Ready n \<Rightarrow> n = tot + length d + length dne \<and> part = [] \<and>
       (Moved 0 \<notin> set (w_writes w1) \<longrightarrow> lost = [] \<and> w_src w' = []) | _ \<Rightarrow> True"
    using assms(3) unfolding run_outcome_def by blast
  have "relayed w w' (d @ dne) part lost" by (rule relayed_step [OF assms(1) h(1)])
  then show ?thesis
    unfolding run_outcome_def using h(2,3) assms(2)
    by (intro exI [of _ "d @ dne"] exI [of _ part] exI [of _ lost]) (auto split: progress.splits)
qed

lemma run_outcome_stuck:
  assumes "chunk_outcome w r w'" and "\<forall>n. r \<noteq> Ready n"
  shows "run_outcome tot w Failed w'" and "run_outcome tot w Waiting w'"
  using assms by (auto simp: chunk_outcome_def run_outcome_def split: progress.splits; fastforce)+

lemma run_outcome_end:
  assumes "chunk_outcome w (Ready 0) w'"
  shows "run_outcome tot w (Ready tot) w'"
  using assms by (auto simp: chunk_outcome_def run_outcome_def relayed_def intro!: exI [of _ "[]"])

lemma copy_loop_outcome: "copy_loop tot w = (r, w') \<Longrightarrow> run_outcome tot w r w'"
proof (induction tot w rule: copy_loop.induct)
  case (1 tot w)
  obtain p w1 where c: "copy_chunk w = (p, w1)" by fastforce
  note o = copy_chunk_outcome [OF c]
  show ?case
  proof (cases p)
    case (Ready n)
    show ?thesis
    proof (cases "n = 0")
      case True
      then show ?thesis using "1.prems" c Ready o run_outcome_end [of w w1 tot] by (simp add: copy_loop.simps [of tot w])
    next
      case False
      obtain d where d: "relayed w w1 d [] []" "length d = n" "set (w_writes w1) \<subseteq> set (w_writes w)"
        using o Ready by (auto simp: chunk_outcome_def)
      have "copy_loop (tot + n) w1 = (r, w')" using "1.prems" c Ready False by (simp add: copy_loop.simps [of tot w])
      then have "run_outcome (tot + length d) w1 r w'" using "1.IH" [OF c [symmetric] Ready False] d(2) by simp
      then show ?thesis by (rule run_outcome_step [OF d(1,3)])
    qed
  qed (use "1.prems" c run_outcome_stuck [OF o] in \<open>auto simp: copy_loop.simps [of tot w]\<close>)
qed

lemma buffered_phase_outcome:
  "buffered_phase th tot w = (r, w') \<Longrightarrow> (case r of
     Ready (ended, n) \<Rightarrow> \<exists>d. relayed w w' d [] [] \<and> n = tot + length d \<and> (ended \<longrightarrow> w_src w' = []) \<and>
       set (w_writes w') \<subseteq> set (w_writes w)
   | Failed \<Rightarrow> run_outcome tot w Failed w'
   | Waiting \<Rightarrow> run_outcome tot w Waiting w')"
proof (induction th tot w rule: buffered_phase.induct)
  case (1 th tot w)
  obtain p w1 where c: "copy_chunk w = (p, w1)" by fastforce
  note o = copy_chunk_outcome [OF c]
  show ?case
  proof (cases p)
    case (Ready n)
    obtain d where d: "relayed w w1 d [] []" "length d = n" "n = 0 \<longleftrightarrow> w_src w = []" "set (w_writes w1) \<subseteq> set (w_writes w)"
      using o Ready by (auto simp: chunk_outcome_def)
    show ?thesis
    proof (cases "n = 0 \<or> tot + n \<ge> unat th")
      case True
      then show ?thesis using "1.prems" c Ready d by (auto simp: buffered_phase.simps [of th tot w] relayed_def)
    next
      case False
      then have b: "buffered_phase th (tot + n) w1 = (r, w')"
        using "1.prems" c Ready by (simp add: buffered_phase.simps [of th tot w])
      have nz: "n \<noteq> 0" "\<not> unat th \<le> tot + n" using False by simp_all
      have IH: "case r of
         Ready (ended, k) \<Rightarrow> \<exists>e. relayed w1 w' e [] [] \<and> k = tot + n + length e \<and> (ended \<longrightarrow> w_src w' = []) \<and>
           set (w_writes w') \<subseteq> set (w_writes w1)
       | Failed \<Rightarrow> run_outcome (tot + length d) w1 Failed w'
       | Waiting \<Rightarrow> run_outcome (tot + length d) w1 Waiting w'"
        unfolding d(2) by (rule "1.IH" [OF c [symmetric] Ready nz b])
      show ?thesis
      proof (cases r)
        case r: (Ready en)
        obtain ended k where en: "en = (ended, k)" by fastforce
        obtain e where "relayed w1 w' e [] []" "k = tot + n + length e" "ended \<longrightarrow> w_src w' = []"
          "set (w_writes w') \<subseteq> set (w_writes w1)" using IH r en by auto
        then show ?thesis using r en d relayed_step [OF d(1), of w' e "[]" "[]"]
          by (auto intro!: exI [of _ "d @ e"])
      qed (use IH run_outcome_step [OF d(1,4)] in auto)
    qed
  qed (use "1.prems" c run_outcome_stuck [OF o] in \<open>auto simp: buffered_phase.simps [of th tot w]\<close>)
qed

definition drained :: "attempt list \<Rightarrow> bytes \<Rightarrow> nat \<Rightarrow> wire \<Rightarrow> (bool \<times> nat) progress \<Rightarrow> wire \<Rightarrow> bytes \<Rightarrow> bytes \<Rightarrow> bool" where
  "drained es pipe tot w r w' d lost \<longleftrightarrow> pipe = d @ lost \<and> w_dst w' = w_dst w @ d \<and>
     w_counter w' = w_counter w + of_nat (length d) \<and> w_src w' = w_src w \<and> set (w_writes w') \<subseteq> set es \<and>
     (\<forall>go_on n. r = Ready (go_on, n) \<longrightarrow> n = tot + length d \<and> (if go_on then lost = [] else Moved 0 \<in> set es))"

lemma drain_pipe_outcome: "drain_pipe es pipe tot w = (r, w') \<Longrightarrow> \<exists>d lost. drained es pipe tot w r w' d lost"
proof (induction es pipe tot w rule: drain_pipe.induct)
  case (1 es tot w)
  then have "drained es [] tot w r w' [] []" by (auto simp: drained_def)
  then show ?case by blast
next
  case (2 v va tot w)
  then have "drained [] (v # va) tot w r w' [] (v # va)" by (auto simp: drained_def)
  then show ?case by blast
next
  case (3 es v va tot w)
  then obtain d lost where "drained es (v # va) tot w r w' d lost" by auto
  then have "drained (WouldBlock # es) (v # va) tot w r w' d lost" by (auto simp: drained_def)
  then show ?case by blast
next
  case (4 es v va tot w)
  then have "drained (Broken # es) (v # va) tot w r w' [] (v # va)" by (auto simp: drained_def)
  then show ?case by blast
next
  case (5 n es v va tot w)
  show ?case
  proof (cases "n = 0")
    case True
    then have "drained (Moved n # es) (v # va) tot w r w' [] (v # va)" using "5.prems" by (auto simp: drained_def)
    then show ?thesis by blast
  next
    case False
    define k where "k = min n (length (v # va))"
    define w1 where "w1 = count_bytes k (w\<lparr>w_dst := w_dst w @ take k (v # va)\<rparr>)"
    have "drain_pipe es (drop k (v # va)) (tot + k) w1 = (r, w')"
      using "5.prems" False by (simp add: k_def w1_def Let_def)
    then obtain d lost where h: "drained es (drop k (v # va)) (tot + k) w1 r w' d lost"
      using "5.IH" [OF False k_def] unfolding w1_def by blast
    have l: "length (take k (v # va)) = k" unfolding k_def by simp
    have "v # va = (take k (v # va) @ d) @ lost" using h by (metis append.assoc append_take_drop_id drained_def)
    then have "drained (Moved n # es) (v # va) tot w r w' (take k (v # va) @ d) lost"
      using h l by (auto simp: drained_def w1_def)
    then show ?thesis by blast
  qed
qed

lemma splice_to_eof_outcome: "splice_to_eof tot w = (r, w') \<Longrightarrow> run_outcome tot w r w'"
proof (induction tot w rule: splice_to_eof.induct)
  case (1 tot w)
  obtain p w1 where rd: "read_once SPLICE_LEN w = (p, w1)" by fastforce
  have cap: "0 < SPLICE_LEN" by simp
  note s1 = read_once_stream [OF rd cap]
  show ?case
  proof (cases p)
    case (Ready d)
    show ?thesis
    proof (cases "d = []")
      case True
      then have "r = Ready tot" "w' = w1" using "1.prems" rd Ready by (simp_all add: splice_to_eof.simps [of tot w])
      then show ?thesis using s1 Ready True by (auto simp: run_outcome_def relayed_def intro!: exI [of _ "[]"])
    next
      case False
      obtain q w2 where dr: "drain_pipe (w_writes w1) d tot w1 = (q, w2)" by fastforce
      then obtain x lost where x: "drained (w_writes w1) d tot w1 q w2 x lost" using drain_pipe_outcome by blast
      have r: "relayed w w2 x [] lost" "length lost \<le> SPLICE_LEN" "set (w_writes w2) \<subseteq> set (w_writes w)"
        using s1 Ready x by (auto simp: relayed_def drained_def)
      show ?thesis
      proof (cases "\<exists>n. q = Ready (True, n)")
        case True
        then obtain n where q: "q = Ready (True, n)" by blast
        then have n: "n = tot + length x" "relayed w w2 x [] []" using x r(1) by (auto simp: drained_def)
        have "splice_to_eof n w2 = (r, w')" using "1.prems" rd Ready False dr q by (simp add: splice_to_eof.simps [of tot w])
        then have "run_outcome (tot + length x) w2 r w'"
          using "1.IH" [OF rd [symmetric] Ready False dr [symmetric] q] n(1) by simp
        then show ?thesis by (rule run_outcome_step [OF n(2) r(3)])
      next
        case no: False
        then have o: "w' = w2" "\<forall>n. r = Ready n \<longrightarrow> n = tot + length x \<and> Moved 0 \<in> set (w_writes w)"
          using "1.prems" rd Ready False dr x s1
          by (auto simp: splice_to_eof.simps [of tot w] drained_def split: progress.splits prod.splits if_splits)
        show ?thesis unfolding run_outcome_def
          using r o by (intro exI [of _ x] exI [of _ "[]"] exI [of _ lost]) (auto split: progress.splits)
      qed
    qed
  qed (use "1.prems" rd s1 in \<open>auto simp: splice_to_eof.simps [of tot w] run_outcome_def relayed_def intro!: exI [of _ "[]"]\<close>)
qed

lemma relay_dir_outcome:
  assumes "relay_dir th w = (r, w')"
  shows "run_outcome 0 w r w'"
proof -
  obtain p w1 where b: "buffered_phase th 0 w = (p, w1)" by fastforce
  note o = buffered_phase_outcome [OF b]
  show ?thesis
  proof (cases p)
    case (Ready en)
    obtain ended n where en: "en = (ended, n)" by fastforce
    obtain d where d: "relayed w w1 d [] []" "n = 0 + length d" "ended \<longrightarrow> w_src w1 = []" "set (w_writes w1) \<subseteq> set (w_writes w)"
      using o Ready en by auto
    show ?thesis
    proof (cases ended)
      case True
      then have "r = Ready n" "w' = w1" using assms b Ready en by (simp_all add: relay_dir_def)
      then show ?thesis unfolding run_outcome_def using d True
        by - (rule exI [of _ d], rule exI [of _ "[]"], rule exI [of _ "[]"], auto)
    next
      case False
      then have "splice_to_eof n w1 = (r, w')" using assms b Ready en by (simp add: relay_dir_def)
      then have "run_outcome (0 + length d) w1 r w'" using splice_to_eof_outcome d(2) by simp
      then show ?thesis by (rule run_outcome_step [OF d(1,4)])
    qed
  qed (use assms b o in \<open>auto simp: relay_dir_def\<close>)
qed

lemma run_outcome_shut: "run_outcome tot w r (shutdown_write w1) = run_outcome tot w r w1"
  by (cases r) (simp_all add: run_outcome_def relayed_def shutdown_write_def)

lemma shut_when_over_outcome:
  assumes "run_outcome 0 w r w1" and "shut_when_over (r, w1) = (r', w')"
  shows "run_outcome 0 w r' w' \<and> r' = r \<and> (r = Waiting \<or> w_shut w')"
  using assms by (cases r) (auto simp: shut_when_over_def run_outcome_shut, simp_all add: shutdown_write_def)

lemma copy_dir_outcome: "copy_dir th w = (r, w') \<Longrightarrow> run_outcome 0 w r w' \<and> (r = Waiting \<or> w_shut w')"
  using relay_dir_outcome [of th w] shut_when_over_outcome
  by (metis copy_dir_def surj_pair)

lemma copy_and_count_outcome: "copy_and_count w = (r, w') \<Longrightarrow> run_outcome 0 w r w' \<and> (r = Waiting \<or> w_shut w')"
  using copy_loop_outcome [of 0 w] shut_when_over_outcome
  by (metis copy_and_count_def surj_pair)

text \<open>
  C21: a relay that ends well has delivered the whole source, in order, followed by nothing else,
  counted exactly its bytes, and closed the sink: the adaptive relay with its switch from buffers to
  the kernel pipe, at any threshold, exactly as the plain counted copy. (The kernel answers zero to a
  write only when there is nothing to move.)
\<close>

theorem relay_delivers_everything:
  assumes "copy_dir th w = (Ready n, w') \<or> copy_and_count w = (Ready n, w')" and "Moved 0 \<notin> set (w_writes w)"
  shows "w_dst w' = w_dst w @ w_src w \<and> w_src w' = [] \<and> n = length (w_src w) \<and>
    w_counter w' = w_counter w + of_nat (length (w_src w)) \<and> w_shut w'"
proof -
  have "run_outcome 0 w (Ready n) w' \<and> w_shut w'" using assms(1) copy_dir_outcome copy_and_count_outcome by blast
  then show ?thesis using assms(2) by (auto simp: run_outcome_def relayed_def)
qed

definition example_wire :: wire where
  "example_wire = \<lparr> w_src = [1, 2, 3, 4, 5], w_dst = [], w_reads = [Moved 2, WouldBlock, Moved 9, Moved 1],
     w_writes = [Moved 1, WouldBlock, Moved 1, Moved 2, Moved 5], w_counter = 10, w_shut = False \<rparr>"

lemmas relay_steps = copy_dir_def copy_and_count_def relay_dir_def shut_when_over_def buffered_phase.simps splice_to_eof.simps
  copy_loop.simps copy_chunk_def read_once_def write_all_once_def count_bytes_def

theorem relay_delivers_everything_witness:
  "\<exists>w'. copy_dir 1 example_wire = (Ready 5, w') \<and> w_dst w' = [1, 2, 3, 4, 5] \<and> w_counter w' = 15"
proof -
  have e: "fst (copy_dir 1 example_wire) = Ready 5" by (simp add: example_wire_def relay_steps Let_def)
  define w' where "w' = snd (copy_dir 1 example_wire)"
  have c: "copy_dir 1 example_wire = (Ready 5, w')" using e by (simp add: w'_def prod_eq_iff)
  have "Moved 0 \<notin> set (w_writes example_wire)" by (simp add: example_wire_def)
  from relay_delivers_everything [OF disjI1, OF c this]
  show ?thesis using c by (simp add: example_wire_def)
qed

text \<open>
  C22: however a relay ends or wherever it stands, what the sink has is what the source gave, in order,
  with no byte added, dropped in between or repeated; at most one buffer is taken and not delivered,
  and what is counted has been delivered.
\<close>

theorem relay_never_garbles:
  assumes "copy_dir th w = (r, w') \<or> copy_and_count w = (r, w')"
  shows "\<exists>dne part lost. w_src w = dne @ part @ lost @ w_src w' \<and> w_dst w' = w_dst w @ dne @ part \<and>
    w_counter w' = w_counter w + of_nat (length dne) \<and> length (part @ lost) \<le> SPLICE_LEN"
proof -
  have "run_outcome 0 w r w'" using assms copy_dir_outcome copy_and_count_outcome by blast
  then show ?thesis unfolding run_outcome_def relayed_def by blast
qed

theorem relay_never_garbles_witness:
  "\<exists>dne part lost w'. copy_and_count (example_wire\<lparr>w_writes := [Moved 1, Broken]\<rparr>) = (Failed, w') \<and>
    [1, 2, 3, 4, 5] = dne @ part @ lost @ w_src w' \<and> w_dst w' = dne @ part"
proof -
  let ?w = "example_wire\<lparr>w_writes := [Moved 1, Broken]\<rparr>"
  have e: "fst (copy_and_count ?w) = Failed" by (simp add: example_wire_def relay_steps Let_def)
  define w' where "w' = snd (copy_and_count ?w)"
  have c: "copy_and_count ?w = (Failed, w')" using e by (simp add: w'_def prod_eq_iff)
  from relay_never_garbles [OF disjI2, OF c] show ?thesis using c by (auto simp: example_wire_def)
qed

end
