(* ===== verification/Engine.thy ===== *)
theory Engine
  imports DnsServer SniffAll PeekBuf NegCache DomainRules ConnStats Relay Socks
begin

text \<open>
  A connection from end to end (\<open>sniffbox/src/engine.rs\<close>), with the parts of the shared state it uses
  (\<open>sniffbox/src/runtime.rs\<close>, \<open>sb-stats/src/traffic.rs\<close>, \<open>sb-web/src/acl.rs\<close>): is the client allowed,
  what does it speak, which name is it routed by, is it blocked, and what is relayed and accounted. One
  connection runs at a time; logging is left out. The HTTP relay of a forwarded request is an argument,
  as are the answers of the network.
\<close>

section \<open>Access lists\<close>

definition ip_is_loopback :: "ip_addr \<Rightarrow> bool" where
  "ip_is_loopback ip = (case ip of V4 a \<Rightarrow> drop_bit 24 a = 127 | V6 a \<Rightarrow> a = 1)"

definition v4_mapped :: "u128 \<Rightarrow> u32 option" where
  "v4_mapped a = (if drop_bit 32 a = 0xFFFF then Some (ucast a) else None)"

definition acl_allows :: "'n ipv4net \<Rightarrow> 'n list \<Rightarrow> ip_addr \<Rightarrow> bool" where
  "acl_allows N nets ip =
     (if nets = [] then True
      else case (case ip of V4 a \<Rightarrow> Some a | V6 a \<Rightarrow> v4_mapped a) of
        None \<Rightarrow> ip_is_loopback ip
      | Some v4 \<Rightarrow> ip_is_loopback (V4 v4) \<or> list_ex (\<lambda>n. net_contains N n v4) nets)"

section \<open>Route flags\<close>

record route_cfg =
  rc_block_bittorrent :: bool
  rc_block_quic :: bool
  rc_block_unknown :: bool
  rc_log_sniffed :: bool

abbreviation (input) ROUTE_BT :: u8 where "ROUTE_BT \<equiv> 1"
abbreviation (input) ROUTE_QUIC :: u8 where "ROUTE_QUIC \<equiv> 2"
abbreviation (input) ROUTE_UNKNOWN :: u8 where "ROUTE_UNKNOWN \<equiv> 4"
abbreviation (input) ROUTE_LOG :: u8 where "ROUTE_LOG \<equiv> 8"

definition route_pack :: "route_cfg \<Rightarrow> u8" where
  "route_pack c = (if rc_block_bittorrent c then ROUTE_BT else 0) OR (if rc_block_quic c then ROUTE_QUIC else 0) OR
     (if rc_block_unknown c then ROUTE_UNKNOWN else 0) OR (if rc_log_sniffed c then ROUTE_LOG else 0)"

definition route_load :: "u8 \<Rightarrow> route_cfg" where
  "route_load b = \<lparr> rc_block_bittorrent = (b AND ROUTE_BT \<noteq> 0), rc_block_quic = (b AND ROUTE_QUIC \<noteq> 0),
     rc_block_unknown = (b AND ROUTE_UNKNOWN \<noteq> 0), rc_log_sniffed = (b AND ROUTE_LOG \<noteq> 0) \<rparr>"

text \<open>The four flags of a configuration survive the byte they are published in.\<close>

lemma route_flags_roundtrip: "route_load (route_pack c) = c"
  by (cases c) (auto simp: route_load_def route_pack_def)

section \<open>The shared state\<close>

record traffic =
  tr_down :: u64
  tr_up :: u64

definition add_totals :: "u64 \<Rightarrow> u64 \<Rightarrow> traffic \<Rightarrow> traffic" where
  "add_totals down up t = \<lparr> tr_down = tr_down t + down, tr_up = tr_up t + up \<rparr>"

record socks_src =
  ss_ip :: ip_addr
  ss_port :: u16
  ss_inbound :: inbound_kind

record 'n shared =
  sh_acl :: "'n list"
  sh_fakeip :: "'n pool option"
  sh_domain_ips :: ip_hints
  sh_sniff_neg :: "(ip_addr \<times> u16) neg_cache"
  sh_peek_pool :: peek_pool
  sh_route :: u8
  sh_ids :: id_gen
  sh_table :: conn_table
  sh_close :: "conn_id list"
  sh_socks_src :: "(u16 \<times> socks_src) list"
  sh_traffic :: traffic
  sh_cf_traffic :: traffic
  sh_splice :: bool
  sh_splice_threshold :: u64

definition proxy_allowed :: "'n ipv4net \<Rightarrow> ip_addr \<Rightarrow> 'n shared \<Rightarrow> bool" where
  "proxy_allowed N ip sh \<longleftrightarrow> ip_is_loopback ip \<or> acl_allows N (sh_acl sh) ip"

definition account_delta :: "inbound_kind \<Rightarrow> u64 \<Rightarrow> u64 \<Rightarrow> 'n shared \<Rightarrow> 'n shared" where
  "account_delta inb down up sh = sh\<lparr>sh_traffic := add_totals down up (sh_traffic sh),
     sh_cf_traffic := (if inb = InCloudflared then add_totals down up (sh_cf_traffic sh) else sh_cf_traffic sh)\<rparr>"

section \<open>Peeking\<close>

definition is_server_first_port :: "u16 \<Rightarrow> bool" where
  "is_server_first_port p \<longleftrightarrow> p \<in> {21, 22, 23, 25, 110, 143, 587}"

definition could_start_known_proto :: "u8 \<Rightarrow> bool" where
  "could_start_known_proto b \<longleftrightarrow> b \<in> set ([0x16, 0x13] @ bytes_of ''GPHDO'')"

datatype peek_wait = Arrived ready | Elapsed

record peek_outcome =
  po_sniffed :: sniffed
  po_buf :: peek_buf
  po_eof_without_data :: bool

text \<open>
  One turn of the loop: the bytes so far are sniffed, and unless they settle it or the buffer is full
  the next event is awaited. \<open>Inr None\<close> is a loop still waiting; the bytes left in the stream are
  returned beside the outcome.
\<close>

definition settled :: "sniffed \<Rightarrow> peek_buf \<Rightarrow> bool" where
  "settled sn p \<longleftrightarrow> (sn_proto sn \<noteq> ProtoUnknown \<and> \<not> sn_need_more sn) \<or>
     (\<not> peek_is_empty p \<and> \<not> could_start_known_proto (hd (peek_bytes p)))"

definition resniff :: "http_parser \<Rightarrow> bool \<Rightarrow> sniffed \<Rightarrow> peek_buf \<Rightarrow> sniffed" where
  "resniff H fresh sn p = (if fresh then sniff_all H (peek_bytes p) else sn)"

definition peek_done :: "sniffed \<Rightarrow> bool \<Rightarrow> peek_buf \<Rightarrow> bytes \<Rightarrow> (unit + peek_outcome option) \<times> peek_buf \<times> bytes" where
  "peek_done sn eof p s = (Inr (Some \<lparr> po_sniffed = sn, po_buf = p, po_eof_without_data = eof \<rparr>), p, s)"

fun peek_loop :: "http_parser \<Rightarrow> growth \<Rightarrow> peek_wait list \<Rightarrow> bool \<Rightarrow> sniffed \<Rightarrow> peek_buf \<Rightarrow> bytes \<Rightarrow>
    (unit + peek_outcome option) \<times> peek_buf \<times> bytes" where
  "peek_loop H grow evs fresh sn p s =
     (if (fresh \<and> settled (resniff H fresh sn p) p) \<or> peek_is_full p then peek_done (resniff H fresh sn p) False p s
      else case evs of
        [] \<Rightarrow> (Inr None, p, s)
      | Elapsed # _ \<Rightarrow> peek_done (resniff H fresh sn p) False p s
      | Arrived ev # evs' \<Rightarrow>
          (case read_some grow ev p s of
             (Inl _, p', s') \<Rightarrow> (Inl (), p', s')
           | (Inr n, p', s') \<Rightarrow>
               if n = 0 then peek_done (resniff H fresh sn p) (peek_is_empty p') p' s'
               else peek_loop H grow evs' True (resniff H fresh sn p) p' s'))"

declare peek_loop.simps [simp del]

definition peek_and_sniff :: "http_parser \<Rightarrow> growth \<Rightarrow> peek_wait list \<Rightarrow> bytes \<Rightarrow> bytes \<Rightarrow> peek_pool \<Rightarrow>
    ((unit + peek_outcome option) \<times> peek_buf \<times> bytes) \<times> peek_pool" where
  "peek_and_sniff H grow evs prefix s pool =
     (let (p, pool') = peek_take pool; p = peek_seed grow prefix p in
      (peek_loop H grow evs (\<not> peek_is_empty p) sniffed_unknown p s, pool'))"

section \<open>Which name, which grp\<close>

record resolved_domains =
  rd_routing :: "bytes option"
  rd_stats :: "bytes option"
  rd_fakeip_unresolved :: bool
  rd_in_fakeip :: bool

text \<open>
  The name to route by. For a FakeIP address without a sniffed name the pool is asked, which touches
  it; \<open>None\<close> is a panic of the pool.
\<close>

definition lookback_name :: "ip_addr \<Rightarrow> 'n pool \<Rightarrow> (bytes option \<times> bool \<times> 'n pool) option" where
  "lookback_name ip fk = (case ip of
     V4 v4 \<Rightarrow> map_option (\<lambda>(d, fk'). (d, d = None, fk')) (pool_lookback v4 fk)
   | V6 _ \<Rightarrow> Some (None, False, fk))"

definition resolve_domains :: "'n ipv4net \<Rightarrow> bytes option \<Rightarrow> sniffed \<Rightarrow> 'n pool option \<Rightarrow> socket_addr \<Rightarrow>
    (resolved_domains \<times> 'n pool option) option" where
  "resolve_domains N known sn fakeip dest =
     (let in_fakeip = (case fakeip of None \<Rightarrow> False | Some fk \<Rightarrow> pool_contains N fk (sa_ip dest)) in
      map_option (\<lambda>(routing, unresolved, fakeip').
          (\<lparr> rd_routing = routing, rd_stats = (if routing \<noteq> None then routing else sn_domain sn),
             rd_fakeip_unresolved = unresolved, rd_in_fakeip = in_fakeip \<rparr>, fakeip'))
        (if known \<noteq> None then Some (known, False, fakeip)
         else if in_fakeip then
           (case fakeip of
              Some fk \<Rightarrow> if sn_domain sn = None
                then map_option (\<lambda>(d, un, fk'). (d, un, Some fk')) (lookback_name (sa_ip dest) fk)
                else Some (sn_domain sn, False, fakeip)
            | None \<Rightarrow> Some (sn_domain sn, False, fakeip))
         else if \<not> sn_ech_outer sn then Some (sn_domain sn, False, fakeip)
         else Some (None, False, fakeip)))"

definition apply_domain_group :: "socket_addr \<Rightarrow> bool \<Rightarrow> bytes option \<Rightarrow> bytes option \<Rightarrow> ip_hints \<Rightarrow>
    label option \<times> bytes option \<times> ip_hints" where
  "apply_domain_group dest in_fakeip stats routing hints =
     (case Option.bind stats match_domain_group of
        None \<Rightarrow> (None, routing, hints)
      | Some label \<Rightarrow>
          if \<not> in_fakeip then (Some label, None, hints_note (sa_ip dest) label hints)
          else (Some label, routing, hints))"

definition unknown_label :: "inbound_kind \<Rightarrow> bool \<Rightarrow> u16 \<Rightarrow> conn_proto" where
  "unknown_label inb has_domain port = (case inb of
     InHealthCheck \<Rightarrow> if port = 80 \<or> port = 8080 then PHttp else PTls
   | InSocks5 \<Rightarrow> PSocks5
   | InHttp \<Rightarrow> PHttpProxy
   | InTProxy \<Rightarrow> if has_domain then PFakeIp else PRealIp
   | InCloudflared \<Rightarrow> if has_domain then PFakeIp else PRealIp
   | InClash _ \<Rightarrow> PUnknown)"

section \<open>One connection\<close>

record 'h established =
  es_dest :: socket_addr
  es_inbound :: inbound_kind
  es_domain :: "bytes option"
  es_prelude :: bytes
  es_peeked :: bytes
  es_http_forward :: "'h option"
  es_sniff :: bool
  es_group :: "label option"

text \<open>
  What the world does during a connection: clock readings, the events of the peek, the answer of the
  outbound (its local port, 0 when unknown), and the two directions: the client's bytes towards the
  upstream, the upstream's towards the client. A direction whose events run out was cut short, by the
  other one's end or by the close registry.
\<close>

record world =
  wd_now :: nat
  wd_opened :: nat
  wd_closed :: nat
  wd_waits :: "peek_wait list"
  wd_connect :: "u16 option"
  wd_up :: wire
  wd_down :: wire

type_synonym 'h http_relay = "'h \<Rightarrow> bytes \<Rightarrow> wire \<times> wire \<Rightarrow> wire \<times> wire"

record ends =
  en_rec :: conn_record
  en_up :: wire
  en_down :: wire

definition shut_both :: "ends \<Rightarrow> ends" where
  "shut_both e = e\<lparr>en_up := shutdown_write (en_up e), en_down := shutdown_write (en_down e)\<rparr>"

text \<open>The record's byte counters are the counters of the two directions.\<close>

definition sync_counters :: "ends \<Rightarrow> ends" where
  "sync_counters e = e\<lparr>en_rec := (en_rec e)\<lparr>cr_upload := w_counter (en_up e), cr_download := w_counter (en_down e)\<rparr>\<rparr>"

definition count_up :: "nat \<Rightarrow> ends \<Rightarrow> ends" where
  "count_up n e = e\<lparr>en_up := count_bytes n (en_up e)\<rparr>"

text \<open>Both directions at once.\<close>

definition relay_both :: "(wire \<Rightarrow> nat progress \<times> wire) \<Rightarrow> ends \<Rightarrow> ends" where
  "relay_both dir e = e\<lparr>en_up := snd (dir (en_up e)), en_down := snd (dir (en_down e))\<rparr>"

definition relay_phase :: "'h http_relay \<Rightarrow> bool \<Rightarrow> u64 \<Rightarrow> peek_buf \<Rightarrow> 'h option \<Rightarrow> ends \<Rightarrow> ends" where
  "relay_phase http use_splice threshold peek fwd e =
     (case fwd of
        Some req \<Rightarrow> (let (up, down) = http req (peek_bytes peek) (en_up e, en_down e) in e\<lparr>en_up := up, en_down := down\<rparr>)
      | None \<Rightarrow>
          if use_splice then
            (if peek_bytes peek = [] then relay_both (copy_dir threshold) e
             else case write_all_once (peek_bytes peek) (en_up e) of
               (progress.Failed, up) \<Rightarrow> shut_both (e\<lparr>en_up := up\<rparr>)
             | (Waiting, up) \<Rightarrow> e\<lparr>en_up := up\<rparr>
             | (progress.Ready _, up) \<Rightarrow>
                 relay_both (copy_dir threshold) (count_up (length (peek_bytes peek)) (e\<lparr>en_up := up\<rparr>)))
          else relay_both copy_and_count (e\<lparr>en_up := (en_up e)\<lparr>w_src := peek_bytes peek @ w_src (en_up e)\<rparr>\<rparr>))"

definition prelude_phase :: "bytes \<Rightarrow> (ends \<Rightarrow> ends) \<Rightarrow> ends \<Rightarrow> ends" where
  "prelude_phase prelude rest e =
     (if prelude = [] then rest e
      else case write_all_once prelude (en_up e) of
        (progress.Failed, up) \<Rightarrow> shut_both (e\<lparr>en_up := up\<rparr>)
      | (Waiting, up) \<Rightarrow> e\<lparr>en_up := up\<rparr>
      | (progress.Ready _, up) \<Rightarrow> rest (count_up (length prelude) (e\<lparr>en_up := up\<rparr>)))"

definition register_port :: "u16 \<Rightarrow> conn_record \<Rightarrow> 'n shared \<Rightarrow> 'n shared" where
  "register_port port r sh =
     (if port = 0 then sh
      else sh\<lparr>sh_socks_src := AList.update port
        \<lparr> ss_ip = fst (cr_src r), ss_port = snd (cr_src r), ss_inbound = cr_inbound r \<rparr> (sh_socks_src sh)\<rparr>)"

definition set_src_port :: "u16 \<Rightarrow> conn_record \<Rightarrow> conn_record" where
  "set_src_port port r = (if port = 0 then r else r\<lparr>cr_socks_src_port := port\<rparr>)"

definition run_proxy :: "'h http_relay \<Rightarrow> u16 option \<Rightarrow> peek_buf \<Rightarrow> bytes \<Rightarrow> 'h option \<Rightarrow> ends \<Rightarrow> 'n shared \<Rightarrow> ends \<times> 'n shared" where
  "run_proxy http connect peek prelude fwd e sh =
     (let sh' = sh\<lparr>sh_peek_pool := drop_peek_buf peek (sh_peek_pool sh)\<rparr> in
      case connect of
        None \<Rightarrow> (e\<lparr>en_down := shutdown_write (en_down e)\<rparr>, sh')
      | Some port \<Rightarrow>
          (let r = set_src_port port (en_rec e);
               e' = prelude_phase prelude (relay_phase http (sh_splice sh) (sh_splice_threshold sh) peek fwd) (e\<lparr>en_rec := r\<rparr>)
           in (sync_counters e', register_port port r sh')))"

text \<open>What the outbound is asked for: the destination, the name, and whether the address itself is usable.\<close>

record target =
  tg_dest :: socket_addr
  tg_domain :: "bytes option"
  tg_routable :: bool

datatype served = Refused | NoOriginalDst | PeekFailed | StillPeeking | ClientGone | Blocked string | Proxied target

section \<open>From sniffing to the relay\<close>

definition ip_group :: "(string \<Rightarrow> ip_addr \<Rightarrow> bool) \<Rightarrow> 'h established \<Rightarrow> ip_hints \<Rightarrow> label option \<times> ip_hints" where
  "ip_group contains est hints =
     (case es_group est of
        Some g \<Rightarrow> (Some g, hints)
      | None \<Rightarrow> case match_ip_group contains (sa_ip (es_dest est)) of
          Some g \<Rightarrow> (Some g, hints)
        | None \<Rightarrow> hints_get (sa_ip (es_dest est)) hints)"

definition dest_key :: "socket_addr \<Rightarrow> ip_addr \<times> u16" where
  "dest_key d = (sa_ip d, sa_port d)"

definition skips_sniffing :: "nat \<Rightarrow> 'h established \<Rightarrow> label option \<Rightarrow> (ip_addr \<times> u16) neg_cache \<Rightarrow> bool" where
  "skips_sniffing now est grp neg \<longleftrightarrow> \<not> es_sniff est \<or> is_server_first_port (sa_port (es_dest est)) \<or>
     grp \<noteq> None \<or> is_hit now (dest_key (es_dest est)) neg"

definition note_sniffed :: "nat \<Rightarrow> socket_addr \<Rightarrow> sniffed \<Rightarrow> (ip_addr \<times> u16) neg_cache \<Rightarrow> (ip_addr \<times> u16) neg_cache" where
  "note_sniffed now dest sn neg =
     (if sn_proto sn = ProtoUnknown then note_failure now (dest_key dest) neg else note_success (dest_key dest) neg)"

text \<open>The protocol of a connection, its buffer and the rest of its stream; or an early end.\<close>

definition sniff_stage :: "http_parser \<Rightarrow> growth \<Rightarrow> world \<Rightarrow> 'h established \<Rightarrow> label option \<Rightarrow> 'n shared \<Rightarrow>
    (served + sniffed \<times> peek_buf \<times> bytes) \<times> 'n shared" where
  "sniff_stage H grow w est grp sh =
     (if skips_sniffing (wd_now w) est grp (sh_sniff_neg sh)
      then (Inr (sniffed_unknown, peek_from_prefix (es_peeked est), w_src (wd_up w)), sh)
      else let ((r, p, rest), pool) = peek_and_sniff H grow (wd_waits w) (es_peeked est) (w_src (wd_up w)) (sh_peek_pool sh);
               kept = sh\<lparr>sh_peek_pool := pool\<rparr>;
               dropped = sh\<lparr>sh_peek_pool := drop_peek_buf p pool\<rparr>
        in case r of
          Inl _ \<Rightarrow> (Inl PeekFailed, dropped)
        | Inr None \<Rightarrow> (Inl StillPeeking, kept)
        | Inr (Some out) \<Rightarrow>
            if po_eof_without_data out then (Inl ClientGone, dropped)
            else (Inr (po_sniffed out, p, rest),
              kept\<lparr>sh_sniff_neg := note_sniffed (wd_now w) (es_dest est) (po_sniffed out) (sh_sniff_neg sh)\<rparr>))"

definition should_block :: "label option \<Rightarrow> bool \<Rightarrow> sniffed \<Rightarrow> bool \<Rightarrow> route_cfg \<Rightarrow> bool" where
  "should_block grp unresolved sn known_domain route \<longleftrightarrow> grp = None \<and>
     (unresolved \<or> (case sn_proto sn of
        ProtoBittorrent \<Rightarrow> rc_block_bittorrent route
      | ProtoUnknown \<Rightarrow> rc_block_unknown route \<and> \<not> known_domain
      | _ \<Rightarrow> False))"

definition block_reason :: "bool \<Rightarrow> sniffed \<Rightarrow> string" where
  "block_reason unresolved sn = (if unresolved then ''fakeip-unresolved''
     else if sn_proto sn = ProtoBittorrent then ''bittorrent'' else ''unknown'')"

definition record_proto :: "label option \<Rightarrow> 'h established \<Rightarrow> sniffed \<Rightarrow> bytes option \<Rightarrow> conn_proto" where
  "record_proto grp est sn stats =
     (case grp of
        Some label \<Rightarrow> PIpGroup label
      | None \<Rightarrow>
          if is_server_first_port (sa_port (es_dest est)) then PSkipped
          else case sn_proto sn of
            ProtoTls \<Rightarrow> PTls
          | ProtoHttp \<Rightarrow> PHttp
          | ProtoBittorrent \<Rightarrow> PBittorrent
          | ProtoUnknown \<Rightarrow> unknown_label (es_inbound est) (stats \<noteq> None) (sa_port (es_dest est)))"

definition open_record :: "conn_id \<Rightarrow> socket_addr \<Rightarrow> label option \<Rightarrow> 'h established \<Rightarrow> sniffed \<Rightarrow> peek_buf \<Rightarrow> bytes option \<Rightarrow> conn_record" where
  "open_record i peer grp est sn peek stats =
     (let r = with_inbound (es_inbound est) Tcp
          (conn_record_new i (sa_ip peer, sa_port peer) (dest_key (es_dest est)) (record_proto grp est sn stats) stats)
      in if sn_proto sn = ProtoUnknown \<and> peek_bytes peek \<noteq> [] then set_head (peek_bytes peek) r else r)"

definition close_insert :: "conn_id \<Rightarrow> 'n shared \<Rightarrow> 'n shared" where
  "close_insert i sh = sh\<lparr>sh_close := List.insert i (sh_close sh)\<rparr>"

definition close_remove :: "conn_id \<Rightarrow> 'n shared \<Rightarrow> 'n shared" where
  "close_remove i sh = sh\<lparr>sh_close := removeAll i (sh_close sh)\<rparr>"

definition forget_port :: "conn_record \<Rightarrow> 'n shared \<Rightarrow> 'n shared" where
  "forget_port r sh = (if cr_socks_src_port r = 0 then sh
     else sh\<lparr>sh_socks_src := AList.delete (cr_socks_src_port r) (sh_socks_src sh)\<rparr>)"

text \<open>The end of a connection: its entries go, its last bytes are accounted, its record is closed.\<close>

definition finish_conn :: "nat \<Rightarrow> conn_record \<Rightarrow> 'n shared \<Rightarrow> 'n shared" where
  "finish_conn now r sh =
     (let sh1 = forget_port r (close_remove (cr_id r) sh);
          ((du, dd), r') = drain_delta r;
          sh2 = (if du \<noteq> 0 \<or> dd \<noteq> 0 then account_delta (cr_inbound r) dd du sh1 else sh1)
      in sh2\<lparr>sh_table := ct_close now (cr_id r) (ct_modify (cr_id r) (\<lambda>_. r') (sh_table sh2))\<rparr>)"

text \<open>The group, the name and the hints of a connection once its names are resolved.\<close>

definition grouped :: "label option \<Rightarrow> socket_addr \<Rightarrow> resolved_domains \<Rightarrow> ip_hints \<Rightarrow> label option \<times> bytes option \<times> ip_hints" where
  "grouped grp dest rd hints = (case grp of
     Some g \<Rightarrow> (Some g, rd_routing rd, hints)
   | None \<Rightarrow> apply_domain_group dest (rd_in_fakeip rd) (rd_stats rd) (rd_routing rd) hints)"

definition opened :: "world \<Rightarrow> conn_record \<Rightarrow> 'n pool option \<Rightarrow> ip_hints \<Rightarrow> 'n shared \<Rightarrow> 'n shared" where
  "opened w r fakeip hints sh = close_insert (cr_id r) (sh\<lparr>sh_fakeip := fakeip, sh_domain_ips := hints,
     sh_ids := snd (next_id (sh_ids sh)), sh_table := ct_insert (wd_opened w) r (sh_table sh)\<rparr>)"

definition serve_sniffed :: "'h http_relay \<Rightarrow> 'n ipv4net \<Rightarrow> world \<Rightarrow> socket_addr \<Rightarrow> 'h established \<Rightarrow> label option \<Rightarrow>
    sniffed \<Rightarrow> peek_buf \<Rightarrow> bytes \<Rightarrow> 'n shared \<Rightarrow> (served \<times> wire \<times> wire \<times> 'n shared) option" where
  "serve_sniffed http N w peer est grp sn peek rest sh = do {
     let dest = es_dest est;
     (rd, fakeip) \<leftarrow> resolve_domains N (es_domain est) sn (sh_fakeip sh) dest;
     let (grp', domain, hints) = grouped grp dest rd (sh_domain_ips sh);
     let up = (wd_up w)\<lparr>w_src := rest\<rparr>;
     Some (if should_block grp' (rd_fakeip_unresolved rd) sn (es_domain est \<noteq> None) (route_load (sh_route sh))
       then (Blocked (block_reason (rd_fakeip_unresolved rd) sn), up, wd_down w,
             sh\<lparr>sh_fakeip := fakeip, sh_domain_ips := hints, sh_peek_pool := drop_peek_buf peek (sh_peek_pool sh)\<rparr>)
       else
         let r = open_record (fst (next_id (sh_ids sh))) peer grp' est sn peek (rd_stats rd);
             tg = \<lparr> tg_dest = dest, tg_domain = domain,
                    tg_routable = (\<not> rd_in_fakeip rd \<and> \<not> (sa_ip dest = V4 0 \<or> sa_ip dest = V6 0)) \<rparr>;
             start = \<lparr> en_rec = r\<lparr>cr_last_seen := wd_opened w\<rparr>, en_up = up\<lparr>w_counter := 0\<rparr>, en_down = (wd_down w)\<lparr>w_counter := 0\<rparr> \<rparr>;
             (e, sh3) = run_proxy http (wd_connect w) peek (es_prelude est) (es_http_forward est) start (opened w r fakeip hints sh)
         in (Proxied tg, en_up e, en_down e, finish_conn (wd_closed w) (en_rec e) sh3)) }"

definition serve_established :: "http_parser \<Rightarrow> growth \<Rightarrow> 'h http_relay \<Rightarrow> (string \<Rightarrow> ip_addr \<Rightarrow> bool) \<Rightarrow> 'n ipv4net \<Rightarrow>
    world \<Rightarrow> socket_addr \<Rightarrow> 'h established \<Rightarrow> 'n shared \<Rightarrow> (served \<times> wire \<times> wire \<times> 'n shared) option" where
  "serve_established H grow http contains N w peer est sh =
     (let (grp, hints) = ip_group contains est (sh_domain_ips sh);
          (r, sh1) = sniff_stage H grow w est grp (sh\<lparr>sh_domain_ips := hints\<rparr>)
      in case r of
        Inl early \<Rightarrow> Some (early, wd_up w, wd_down w, sh1)
      | Inr (sn, peek, rest) \<Rightarrow> serve_sniffed http N w peer est grp sn peek rest sh1)"

definition tproxy_conn :: "socket_addr \<Rightarrow> 'h established" where
  "tproxy_conn orig = \<lparr> es_dest = orig, es_inbound = InTProxy, es_domain = None, es_prelude = [], es_peeked = [],
     es_http_forward = None, es_sniff = True, es_group = None \<rparr>"

definition handle_conn :: "http_parser \<Rightarrow> growth \<Rightarrow> 'h http_relay \<Rightarrow> (string \<Rightarrow> ip_addr \<Rightarrow> bool) \<Rightarrow> 'n ipv4net \<Rightarrow>
    world \<Rightarrow> socket_addr \<Rightarrow> socket_addr option \<Rightarrow> 'n shared \<Rightarrow> (served \<times> wire \<times> wire \<times> 'n shared) option" where
  "handle_conn H grow http contains N w peer orig sh =
     (if \<not> proxy_allowed N (sa_ip peer) sh then Some (Refused, wd_up w, wd_down w, sh)
      else case orig of
        None \<Rightarrow> Some (NoOriginalDst, wd_up w, wd_down w, sh)
      | Some orig \<Rightarrow> serve_established H grow http contains N w peer (tproxy_conn orig) sh)"

definition handle_cf_conn :: "http_parser \<Rightarrow> growth \<Rightarrow> 'h http_relay \<Rightarrow> (string \<Rightarrow> ip_addr \<Rightarrow> bool) \<Rightarrow> 'n ipv4net \<Rightarrow>
    world \<Rightarrow> socket_addr \<Rightarrow> socket_addr option \<Rightarrow> 'n shared \<Rightarrow> (served \<times> wire \<times> wire \<times> 'n shared) option" where
  "handle_cf_conn H grow http contains N w peer orig sh =
     (case orig of
        None \<Rightarrow> Some (NoOriginalDst, wd_up w, wd_down w, sh)
      | Some orig \<Rightarrow> serve_established H grow http contains N w peer
          ((tproxy_conn orig)\<lparr>es_inbound := InCloudflared, es_sniff := False, es_group := Some CF_LABEL\<rparr>) sh)"

section \<open>The bytes of a connection\<close>

lemma peek_loop_stream:
  "peek_loop H grow evs fresh sn p s = (r, p', s') \<Longrightarrow> peek_bytes p' @ s' = peek_bytes p @ s \<and>
    (\<forall>out. r = Inr (Some out) \<longrightarrow> po_buf out = p')"
proof (induction H grow evs fresh sn p s rule: peek_loop.induct)
  case (1 H grow evs fresh sn p s)
  note prem = "1.prems" [unfolded peek_loop.simps [of H grow evs fresh sn p s]]
  show ?case
  proof (cases "(fresh \<and> settled (resniff H fresh sn p) p) \<or> peek_is_full p")
    case True
    then show ?thesis using prem by (auto simp: peek_done_def)
  next
    case False
    show ?thesis
    proof (cases evs)
      case Nil
      then show ?thesis using prem False by auto
    next
      case (Cons wt evs')
      show ?thesis
      proof (cases wt)
        case Elapsed
        then show ?thesis using prem False Cons by (auto simp: peek_done_def)
      next
        case (Arrived ev)
        obtain res q t where q: "read_some grow ev p s = (res, q, t)" using prod_cases3 by blast
        note st = read_some_stream [OF q]
        show ?thesis
        proof (cases "\<exists>n. res = Inr n \<and> n \<noteq> 0")
          case True
          then obtain n where n: "res = Inr n" "n \<noteq> 0" by blast
          have l: "peek_loop H grow evs' True (resniff H fresh sn p) q t = (r, p', s')"
            using prem False Cons Arrived q n by simp
          show ?thesis using "1.IH" [OF False Cons Arrived q [symmetric] n(1) refl n(2) l] st by simp
        next
          case no: False
          then show ?thesis using prem False Cons Arrived q st
            by (auto simp: peek_done_def split: sum.splits)
        qed
      qed
    qed
  qed
qed

lemma peek_seed_bytes: "peek_bytes (peek_seed grow data p) = peek_bytes p @ data"
  by (simp add: peek_seed_def peek_bytes_def extend_from_slice_def Let_def)

lemma peek_from_prefix_bytes: "peek_bytes (peek_from_prefix data) = data"
  by (simp add: peek_from_prefix_def peek_bytes_def peek_empty_def with_capacity_def)

lemma peek_and_sniff_stream:
  assumes "peek_pool_ok pool" and "peek_and_sniff H grow evs prefix s pool = ((r, p, s'), pool')"
  shows "peek_bytes p @ s' = prefix @ s \<and> (\<forall>out. r = Inr (Some out) \<longrightarrow> po_buf out = p) \<and> peek_pool_ok pool'"
proof -
  obtain b pool1 where t: "peek_take pool = (b, pool1)" by fastforce
  have "peek_bytes b = []" "peek_pool_ok pool1" using peek_take_ok [OF assms(1)] t by simp_all
  moreover have "peek_loop H grow evs (\<not> peek_is_empty (peek_seed grow prefix b)) sniffed_unknown (peek_seed grow prefix b) s = (r, p, s')"
    "pool' = pool1" using assms(2) t by (auto simp: peek_and_sniff_def Let_def)
  ultimately show ?thesis using peek_loop_stream by (fastforce simp: peek_seed_bytes)
qed

text \<open>The buffer and the rest of the stream are what the client sent, whether or not it was sniffed.\<close>

lemma sniff_stage_stream:
  assumes "peek_pool_ok (sh_peek_pool sh)" and "sniff_stage H grow w est grp sh = (Inr (sn, p, rest), sh')"
  shows "peek_bytes p @ rest = es_peeked est @ w_src (wd_up w)"
proof (cases "skips_sniffing (wd_now w) est grp (sh_sniff_neg sh)")
  case True
  then show ?thesis using assms(2) by (auto simp: sniff_stage_def peek_from_prefix_bytes)
next
  case False
  obtain r q s' pool' where a: "peek_and_sniff H grow (wd_waits w) (es_peeked est) (w_src (wd_up w)) (sh_peek_pool sh) = ((r, q, s'), pool')"
    by (metis prod_cases3 prod.collapse)
  show ?thesis
    using peek_and_sniff_stream [OF assms(1) a] assms(2) False a
    by (auto simp: sniff_stage_def Let_def split: sum.splits option.splits if_splits)
qed

text \<open>\<open>w'\<close> has received from \<open>w\<close> an initial part of \<open>bs\<close>.\<close>

definition received :: "wire \<Rightarrow> wire \<Rightarrow> bytes \<Rightarrow> bool" where
  "received w w' bs \<longleftrightarrow> (\<exists>sent rest. bs = sent @ rest \<and> w_dst w' = w_dst w @ sent)"

lemma received_none: "w_dst w' = w_dst w \<Longrightarrow> received w w' bs"
  by (auto simp: received_def)

lemma received_after: "w_dst w1 = w_dst w @ xs \<Longrightarrow> received w1 w' bs \<Longrightarrow> received w w' (xs @ bs)"
  by (force simp: received_def)

lemma received_part: "w_dst w' = w_dst w @ take k xs \<Longrightarrow> received w w' (xs @ bs)"
  unfolding received_def by (metis append.assoc append_take_drop_id)

lemma received_run: "run_outcome tot w r w' \<Longrightarrow> received w w' (w_src w)"
  unfolding run_outcome_def relayed_def received_def by fastforce

lemma received_copy: "received w (snd (copy_dir th w)) (w_src w)" "received w (snd (copy_and_count w)) (w_src w)"
  using copy_dir_outcome [of th w] copy_and_count_outcome [of w] received_run surj_pair by (metis snd_conv)+

lemma shutdown_same [simp]: "w_dst (shutdown_write w) = w_dst w" "w_src (shutdown_write w) = w_src w"
  "w_counter (shutdown_write w) = w_counter w"
  by (simp_all add: shutdown_write_def)

text \<open>Writing a block before the rest: all of it, or a part of it and then nothing.\<close>

lemma write_block:
  assumes "write_all_once data w = (r, w1)"
  shows "w_src w1 = w_src w" and "w_counter w1 = w_counter w"
    and "r = progress.Ready () \<Longrightarrow> w_dst w1 = w_dst w @ data"
    and "r \<noteq> progress.Ready () \<Longrightarrow> \<exists>k. w_dst w1 = w_dst w @ take k data"
  using write_all_once_stream [OF assms] by (auto split: progress.splits)

lemma relay_phase_received:
  "received (en_up e) (en_up (relay_phase http use_splice th peek None e)) (peek_bytes peek @ w_src (en_up e)) \<and>
   received (en_down e) (en_down (relay_phase http use_splice th peek None e)) (w_src (en_down e))"
proof (cases "use_splice \<and> peek_bytes peek \<noteq> []")
  case False
  have "received (en_up e) (snd (copy_and_count ((en_up e)\<lparr>w_src := xs @ w_src (en_up e)\<rparr>))) (xs @ w_src (en_up e))" for xs
    using received_copy(2) [of "(en_up e)\<lparr>w_src := xs @ w_src (en_up e)\<rparr>"] by (simp add: received_def)
  then show ?thesis using False by (auto simp: relay_phase_def relay_both_def received_copy)
next
  case True
  obtain r up where wr: "write_all_once (peek_bytes peek) (en_up e) = (r, up)" by fastforce
  note b = write_block [OF wr]
  show ?thesis
  proof (cases r)
    case (Ready u)
    let ?up = "count_bytes (length (peek_bytes peek)) up"
    have "relay_phase http use_splice th peek None e =
        e\<lparr>en_up := snd (copy_dir th ?up), en_down := snd (copy_dir th (en_down e))\<rparr>"
      using True wr Ready by (simp add: relay_phase_def relay_both_def count_up_def)
    moreover have "received (en_up e) (snd (copy_dir th ?up)) (peek_bytes peek @ w_src (en_up e))"
      using received_after [of ?up "en_up e" "peek_bytes peek" "snd (copy_dir th ?up)" "w_src ?up"] received_copy(1) [of ?up th] b Ready
      by simp
    ultimately show ?thesis by (simp add: received_copy)
  next
    case Failed
    then obtain k where "w_dst up = w_dst (en_up e) @ take k (peek_bytes peek)" using b(4) by auto
    then show ?thesis using True wr Failed received_part [of up "en_up e" k "peek_bytes peek" "w_src (en_up e)"]
      by (simp add: relay_phase_def shut_both_def received_none) (simp add: received_def)
  next
    case Waiting
    then obtain k where "w_dst up = w_dst (en_up e) @ take k (peek_bytes peek)" using b(4) by auto
    then show ?thesis using True wr Waiting received_part [of up "en_up e" k "peek_bytes peek" "w_src (en_up e)"]
      by (simp add: relay_phase_def received_none)
  qed
qed

lemma prelude_phase_received:
  assumes "\<And>e. received (en_up e) (en_up (rest e)) (bs @ w_src (en_up e)) \<and>
    received (en_down e) (en_down (rest e)) (w_src (en_down e))"
  shows "received (en_up e) (en_up (prelude_phase prelude rest e)) (prelude @ bs @ w_src (en_up e)) \<and>
    received (en_down e) (en_down (prelude_phase prelude rest e)) (w_src (en_down e))"
proof (cases "prelude = []")
  case True
  then show ?thesis using assms [of e] by (simp add: prelude_phase_def)
next
  case False
  obtain r up where wr: "write_all_once prelude (en_up e) = (r, up)" by fastforce
  note b = write_block [OF wr]
  show ?thesis
  proof (cases r)
    case (Ready u)
    let ?e = "count_up (length prelude) (e\<lparr>en_up := up\<rparr>)"
    have up: "w_dst (en_up ?e) = w_dst (en_up e) @ prelude" "w_src (en_up ?e) = w_src (en_up e)" "en_down ?e = en_down e"
      using b Ready by (simp_all add: count_up_def)
    have "prelude_phase prelude rest e = rest ?e" using False wr Ready by (simp add: prelude_phase_def)
    then show ?thesis using received_after [OF up(1), of "en_up (rest ?e)" "bs @ w_src (en_up e)"] assms [of ?e] up(2,3) by simp
  next
    case Failed
    then obtain k where "w_dst up = w_dst (en_up e) @ take k prelude" using b(4) by auto
    then show ?thesis using False wr Failed received_part [of up "en_up e" k prelude "bs @ w_src (en_up e)"]
      by (simp add: prelude_phase_def shut_both_def received_none) (simp add: received_def)
  next
    case Waiting
    then obtain k where "w_dst up = w_dst (en_up e) @ take k prelude" using b(4) by auto
    then show ?thesis using False wr Waiting received_part [of up "en_up e" k prelude "bs @ w_src (en_up e)"]
      by (simp add: prelude_phase_def received_none)
  qed
qed

lemma run_proxy_received:
  assumes "run_proxy http connect peek prelude None e sh = (e', sh')"
  shows "received (en_up e) (en_up e') (prelude @ peek_bytes peek @ w_src (en_up e)) \<and>
    received (en_down e) (en_down e') (w_src (en_down e))"
proof (cases connect)
  case None
  then have "e' = e\<lparr>en_down := shutdown_write (en_down e)\<rparr>" using assms by (simp add: run_proxy_def)
  then show ?thesis by (simp add: received_none)
next
  case (Some port)
  let ?e = "e\<lparr>en_rec := set_src_port port (en_rec e)\<rparr>"
  let ?rest = "relay_phase http (sh_splice sh) (sh_splice_threshold sh) peek None"
  have "e' = sync_counters (prelude_phase prelude ?rest ?e)" using assms Some by (simp add: run_proxy_def Let_def)
  then have "en_up e' = en_up (prelude_phase prelude ?rest ?e)" "en_down e' = en_down (prelude_phase prelude ?rest ?e)"
    by (simp_all add: sync_counters_def)
  moreover have "received (en_up ?e) (en_up (prelude_phase prelude ?rest ?e)) (prelude @ peek_bytes peek @ w_src (en_up ?e)) \<and>
      received (en_down ?e) (en_down (prelude_phase prelude ?rest ?e)) (w_src (en_down ?e))"
    by (rule prelude_phase_received [OF relay_phase_received])
  ultimately show ?thesis by simp
qed

text \<open>A forwarded request: a part of what precedes it, or all of it and then the relay of the request.\<close>

lemma run_proxy_forwarded:
  assumes "run_proxy http connect peek prelude (Some req) e sh = (e', sh')"
  shows "(\<exists>k. w_dst (en_up e') = w_dst (en_up e) @ take k prelude \<and> w_dst (en_down e') = w_dst (en_down e)) \<or>
    (\<exists>u. w_dst u = w_dst (en_up e) @ prelude \<and> w_src u = w_src (en_up e) \<and> http req (peek_bytes peek) (u, en_down e) = (en_up e', en_down e'))"
proof (cases connect)
  case None
  then have "e' = e\<lparr>en_down := shutdown_write (en_down e)\<rparr>" using assms by (simp add: run_proxy_def)
  then show ?thesis by (intro disjI1 exI [of _ 0]) simp
next
  case (Some port)
  let ?e = "e\<lparr>en_rec := set_src_port port (en_rec e)\<rparr>"
  let ?rest = "relay_phase http (sh_splice sh) (sh_splice_threshold sh) peek (Some req)"
  have "e' = sync_counters (prelude_phase prelude ?rest ?e)" using assms Some by (simp add: run_proxy_def Let_def)
  then have e': "en_up e' = en_up (prelude_phase prelude ?rest ?e)" "en_down e' = en_down (prelude_phase prelude ?rest ?e)"
    by (simp_all add: sync_counters_def)
  have rest: "http req (peek_bytes peek) (en_up x, en_down x) = (en_up (?rest x), en_down (?rest x))" for x
    by (simp add: relay_phase_def split_def Let_def)
  show ?thesis
  proof (cases "prelude = []")
    case True
    then show ?thesis using e' rest [of ?e] by (intro disjI2 exI [of _ "en_up e"]) (simp add: prelude_phase_def)
  next
    case False
    obtain r up where wr: "write_all_once prelude (en_up e) = (r, up)" by fastforce
    note b = write_block [OF wr]
    show ?thesis
    proof (cases r)
      case (Ready u)
      let ?x = "count_up (length prelude) (?e\<lparr>en_up := up\<rparr>)"
      have "http req (peek_bytes peek) (en_up ?x, en_down ?x) = (en_up e', en_down e')"
        using False wr Ready e' rest [of ?x] by (simp add: prelude_phase_def)
      then show ?thesis using b Ready by (intro disjI2 exI [of _ "en_up ?x"]) (simp add: count_up_def)
    next
      case Failed
      then obtain k where "w_dst up = w_dst (en_up e) @ take k prelude" using b(4) by auto
      then show ?thesis using False wr Failed e' by (intro disjI1 exI [of _ k]) (simp add: prelude_phase_def shut_both_def)
    next
      case Waiting
      then obtain k where "w_dst up = w_dst (en_up e) @ take k prelude" using b(4) by auto
      then show ?thesis using False wr Waiting e' by (intro disjI1 exI [of _ k]) (simp add: prelude_phase_def)
    qed
  qed
qed

text \<open>The cases of a connection that reaches the outbound.\<close>

lemma serve_proxied:
  assumes "serve_established H grow http contains N w peer est sh = Some (Proxied tg, up, down, sh')"
  shows "\<exists>grp sn p rest sh1. sniff_stage H grow w est grp (sh\<lparr>sh_domain_ips := snd (ip_group contains est (sh_domain_ips sh))\<rparr>) =
      (Inr (sn, p, rest), sh1) \<and> grp = fst (ip_group contains est (sh_domain_ips sh)) \<and>
    serve_sniffed http N w peer est grp sn p rest sh1 = Some (Proxied tg, up, down, sh')"
proof -
  obtain grp hints where g: "ip_group contains est (sh_domain_ips sh) = (grp, hints)" by fastforce
  obtain r sh1 where r: "sniff_stage H grow w est grp (sh\<lparr>sh_domain_ips := hints\<rparr>) = (r, sh1)" by fastforce
  show ?thesis
  proof (cases r)
    case (Inl early)
    then have "early = Proxied tg" using assms g r by (simp add: serve_established_def)
    then have False using r Inl by (auto simp: sniff_stage_def Let_def split: prod.splits sum.splits option.splits if_splits)
    then show ?thesis ..
  next
    case (Inr x)
    obtain sn p rest where x: "x = (sn, p, rest)" using prod_cases3 by blast
    then have "serve_sniffed http N w peer est grp sn p rest sh1 = Some (Proxied tg, up, down, sh')"
      using assms g r Inr by (simp add: serve_established_def)
    then show ?thesis using g r Inr x by auto
  qed
qed

lemma open_record_id [simp]: "cr_id (open_record i peer grp est sn peek stats) = i"
  by (simp add: open_record_def with_inbound_def conn_record_new_def set_head_def Let_def)

lemma serve_sniffed_proxied:
  assumes "serve_sniffed http N w peer est grp sn p rest sh = Some (Proxied tg, up, down, sh')"
  obtains rd fakeip grp' domain hints r e sh3 where
    "resolve_domains N (es_domain est) sn (sh_fakeip sh) (es_dest est) = Some (rd, fakeip)"
    and "grouped grp (es_dest est) rd (sh_domain_ips sh) = (grp', domain, hints)"
    and "\<not> should_block grp' (rd_fakeip_unresolved rd) sn (es_domain est \<noteq> None) (route_load (sh_route sh))"
    and "r = open_record (fst (next_id (sh_ids sh))) peer grp' est sn p (rd_stats rd)"
    and "run_proxy http (wd_connect w) p (es_prelude est) (es_http_forward est)
      \<lparr> en_rec = r\<lparr>cr_last_seen := wd_opened w\<rparr>, en_up = (wd_up w)\<lparr>w_src := rest, w_counter := 0\<rparr>,
        en_down = (wd_down w)\<lparr>w_counter := 0\<rparr> \<rparr> (opened w r fakeip hints sh) = (e, sh3)"
    and "up = en_up e" and "down = en_down e" and "sh' = finish_conn (wd_closed w) (en_rec e) sh3"
    and "tg = \<lparr> tg_dest = es_dest est, tg_domain = domain,
      tg_routable = (\<not> rd_in_fakeip rd \<and> \<not> (sa_ip (es_dest est) = V4 0 \<or> sa_ip (es_dest est) = V6 0)) \<rparr>"
proof -
  obtain rd fakeip where rd: "resolve_domains N (es_domain est) sn (sh_fakeip sh) (es_dest est) = Some (rd, fakeip)"
    using assms by (auto simp: serve_sniffed_def Let_def split: Option.bind_splits)
  obtain grp' domain hints where g: "grouped grp (es_dest est) rd (sh_domain_ips sh) = (grp', domain, hints)"
    using prod_cases3 by blast
  define r where "r = open_record (fst (next_id (sh_ids sh))) peer grp' est sn p (rd_stats rd)"
  obtain e sh3 where run: "run_proxy http (wd_connect w) p (es_prelude est) (es_http_forward est)
      \<lparr> en_rec = r\<lparr>cr_last_seen := wd_opened w\<rparr>, en_up = (wd_up w)\<lparr>w_src := rest, w_counter := 0\<rparr>,
        en_down = (wd_down w)\<lparr>w_counter := 0\<rparr> \<rparr> (opened w r fakeip hints sh) = (e, sh3)" by fastforce
  have nb: "\<not> should_block grp' (rd_fakeip_unresolved rd) sn (es_domain est \<noteq> None) (route_load (sh_route sh))"
    using assms rd g by (auto simp: serve_sniffed_def Let_def split: if_splits)
  have "serve_sniffed http N w peer est grp sn p rest sh = Some (Proxied \<lparr> tg_dest = es_dest est, tg_domain = domain,
      tg_routable = (\<not> rd_in_fakeip rd \<and> \<not> (sa_ip (es_dest est) = V4 0 \<or> sa_ip (es_dest est) = V6 0)) \<rparr>,
      en_up e, en_down e, finish_conn (wd_closed w) (en_rec e) sh3)"
    using rd g nb run by (simp add: serve_sniffed_def Let_def r_def)
  then show ?thesis using that [OF rd g nb r_def run] assms by simp
qed

lemma serve_unsniffed:
  assumes "ip_group contains est (sh_domain_ips sh) = (grp, hints)"
    and "skips_sniffing (wd_now w) est grp (sh_sniff_neg sh)"
    and "resolve_domains N (es_domain est) sniffed_unknown (sh_fakeip sh) (es_dest est) = Some (rd, fk)"
    and "grouped grp (es_dest est) rd hints = (grp', domain, hints')"
    and "\<not> should_block grp' (rd_fakeip_unresolved rd) sniffed_unknown (es_domain est \<noteq> None) (route_load (sh_route sh))"
  shows "\<exists>up down sh'. serve_established H grow http contains N w peer est sh =
    Some (Proxied \<lparr> tg_dest = es_dest est, tg_domain = domain,
      tg_routable = (\<not> rd_in_fakeip rd \<and> \<not> (sa_ip (es_dest est) = V4 0 \<or> sa_ip (es_dest est) = V6 0)) \<rparr>, up, down, sh')"
proof -
  let ?sh = "sh\<lparr>sh_domain_ips := hints\<rparr>"
  have st: "sniff_stage H grow w est grp ?sh = (Inr (sniffed_unknown, peek_from_prefix (es_peeked est), w_src (wd_up w)), ?sh)"
    using assms(2) by (simp add: sniff_stage_def)
  show ?thesis
    using assms(1,3,4,5) st by (simp add: serve_established_def serve_sniffed_def Let_def split_def)
qed

text \<open>A connection that reaches the outbound is the relay of the bytes peeked and the rest of the stream.\<close>

lemma serve_established_run:
  fixes sh :: "'n shared"
  assumes "serve_established H grow http contains N w peer est sh = Some (Proxied tg, up, down, sh')" and "peek_pool_ok (sh_peek_pool sh)"
  obtains p rest r and sh1 :: "'n shared" and e sh3 where "peek_bytes p @ rest = es_peeked est @ w_src (wd_up w)"
    and "run_proxy http (wd_connect w) p (es_prelude est) (es_http_forward est)
      \<lparr> en_rec = r, en_up = (wd_up w)\<lparr>w_src := rest, w_counter := 0\<rparr>, en_down = (wd_down w)\<lparr>w_counter := 0\<rparr> \<rparr> sh1 = (e, sh3)"
    and "up = en_up e" and "down = en_down e"
proof -
  obtain grp sn p rest sh1 where
    st: "sniff_stage H grow w est grp (sh\<lparr>sh_domain_ips := snd (ip_group contains est (sh_domain_ips sh))\<rparr>) = (Inr (sn, p, rest), sh1)" and
    s: "serve_sniffed http N w peer est grp sn p rest sh1 = Some (Proxied tg, up, down, sh')"
    using serve_proxied [OF assms(1)] by blast
  have "peek_pool_ok (sh_peek_pool (sh\<lparr>sh_domain_ips := snd (ip_group contains est (sh_domain_ips sh))\<rparr>))"
    using assms(2) by simp
  note b = sniff_stage_stream [OF this st]
  obtain r fakeip hints e sh3 where "run_proxy http (wd_connect w) p (es_prelude est) (es_http_forward est)
      \<lparr> en_rec = r\<lparr>cr_last_seen := wd_opened w\<rparr>, en_up = (wd_up w)\<lparr>w_src := rest, w_counter := 0\<rparr>,
        en_down = (wd_down w)\<lparr>w_counter := 0\<rparr> \<rparr> (opened w r fakeip hints sh1) = (e, sh3)"
    and "up = en_up e" "down = en_down e"
    using s by (rule serve_sniffed_proxied)
  then show ?thesis by (rule that [OF b])
qed

lemma served_stream:
  fixes sh :: "'n shared"
  assumes "serve_established H grow http contains N w peer est sh = Some (Proxied tg, up, down, sh')"
    and "es_http_forward est = None" and "peek_pool_ok (sh_peek_pool sh)"
  shows "(\<exists>sent rest. es_prelude est @ es_peeked est @ w_src (wd_up w) = sent @ rest \<and> w_dst up = w_dst (wd_up w) @ sent) \<and>
    (\<exists>got rest. w_src (wd_down w) = got @ rest \<and> w_dst down = w_dst (wd_down w) @ got)"
proof -
  obtain p rest r and sh1 :: "'n shared" and e sh3 where b: "peek_bytes p @ rest = es_peeked est @ w_src (wd_up w)"
    and run: "run_proxy http (wd_connect w) p (es_prelude est) (es_http_forward est)
      \<lparr> en_rec = r, en_up = (wd_up w)\<lparr>w_src := rest, w_counter := 0\<rparr>, en_down = (wd_down w)\<lparr>w_counter := 0\<rparr> \<rparr> sh1 = (e, sh3)"
    and e: "up = en_up e" "down = en_down e"
    using assms(1,3) by (rule serve_established_run)
  show ?thesis using run_proxy_received [OF run [unfolded assms(2)]] b e by (simp add: received_def)
qed

section \<open>A connection is transparent\<close>

text \<open>
  C2: whatever a connection is sniffed for, however its prelude, its peeked bytes and its stream are
  relayed, and wherever it is cut short, the upstream receives the prelude, the bytes already read and
  the client's stream, in this order, from the first byte and without a gap; and the client receives
  the upstream's stream.
\<close>

theorem proxied_stream_is_the_clients:
  assumes "serve_established H grow http contains N w peer est sh = Some (Proxied tg, up, down, sh')"
    and "es_http_forward est = None" and "peek_pool_ok (sh_peek_pool sh)"
  shows "(\<exists>sent rest. es_prelude est @ es_peeked est @ w_src (wd_up w) = sent @ rest \<and> w_dst up = w_dst (wd_up w) @ sent) \<and>
    (\<exists>got rest. w_src (wd_down w) = got @ rest \<and> w_dst down = w_dst (wd_down w) @ got)"
  by (rule served_stream [OF assms])

definition example_shared :: "'n pool option \<Rightarrow> 'n shared" where
  "example_shared fk = \<lparr> sh_acl = [], sh_fakeip = fk, sh_domain_ips = hints_default, sh_sniff_neg = neg_cache_new 30000,
     sh_peek_pool = peek_pool_with_defaults, sh_route = 0, sh_ids = with_seed 7, sh_table = ct_new, sh_close = [],
     sh_socks_src = [], sh_traffic = \<lparr> tr_down = 0, tr_up = 0 \<rparr>, sh_cf_traffic = \<lparr> tr_down = 0, tr_up = 0 \<rparr>,
     sh_splice = False, sh_splice_threshold = 0 \<rparr>"

definition example_world :: world where
  "example_world = \<lparr> wd_now = 0, wd_opened = 1, wd_closed = 2, wd_waits = [], wd_connect = Some 40000,
     wd_up = \<lparr> w_src = [1, 2, 3], w_dst = [], w_reads = [Moved 9, Moved 9], w_writes = [Moved 2, Moved 9], w_counter = 0, w_shut = False \<rparr>,
     wd_down = \<lparr> w_src = [9], w_dst = [], w_reads = [Moved 9, Moved 9], w_writes = [Moved 2], w_counter = 0, w_shut = False \<rparr> \<rparr>"

lemma example_peek_pool: "peek_pool_ok (sh_peek_pool (example_shared fk))"
  by (simp add: example_shared_def peek_pool_with_defaults_def peek_pool_new_def peek_pool_ok_def)

text \<open>A client of the SOCKS port: its target is known, so it is not sniffed.\<close>

definition example_est :: "unit established" where
  "example_est = (tproxy_conn \<lparr> sa_ip = V4 0x01020304, sa_port = 443 \<rparr>)\<lparr>es_domain := Some (bytes_of ''a.io''), es_sniff := False,
     es_inbound := InSocks5\<rparr>"

text \<open>A connection whose name is known and that is not sniffed reaches the outbound.\<close>

lemma named_is_served:
  fixes N :: "'n ipv4net"
  assumes est: "es_group est = None" "es_domain est = Some (bytes_of ''a.io'')" "\<not> es_sniff est"
  shows "\<exists>tg up down sh'. serve_established H grow http (\<lambda>_ _. False) N w peer est (example_shared None) = Some (Proxied tg, up, down, sh')"
proof -
  let ?sh = "example_shared None :: 'n shared"
  have g: "ip_group (\<lambda>_ _. False) est (sh_domain_ips ?sh) = (None, sh_domain_ips ?sh)"
    by (simp add: ip_group_def est match_ip_group_def example_shared_def hints_get_def
        hints_default_def hints_with_cap_def IP_GROUPS_def list_ex_iff)
  have s: "skips_sniffing (wd_now w) est None (sh_sniff_neg ?sh)"
    by (simp add: skips_sniffing_def est)
  let ?rd = "\<lparr> rd_routing = Some (bytes_of ''a.io''), rd_stats = Some (bytes_of ''a.io''), rd_fakeip_unresolved = False, rd_in_fakeip = False \<rparr>"
  have rd: "resolve_domains N (es_domain est) sniffed_unknown (sh_fakeip ?sh) (es_dest est) = Some (?rd, None)"
    by (simp add: resolve_domains_def est example_shared_def)
  have "match_domain_group (bytes_of ''a.io'') = None" by code_simp
  then have gr: "grouped None (es_dest est) ?rd (sh_domain_ips ?sh) = (None, Some (bytes_of ''a.io''), sh_domain_ips ?sh)"
    by (simp add: grouped_def apply_domain_group_def)
  have nb: "\<not> should_block None False sniffed_unknown (es_domain est \<noteq> None) (route_load (sh_route ?sh))"
    by (simp add: should_block_def sniffed_unknown_def est)
  show ?thesis using serve_unsniffed [OF g s rd gr] nb by fastforce
qed

lemma example_served:
  fixes N :: "'n ipv4net"
  shows "\<exists>tg up down sh'. serve_established (\<lambda>_. None) (\<lambda>c n. n) (\<lambda>_ _ ws. ws) (\<lambda>_ _. False) N example_world
     \<lparr> sa_ip = V4 0x0A000002, sa_port = 5555 \<rparr> example_est (example_shared None) = Some (Proxied tg, up, down, sh')"
  by (rule named_is_served) (simp_all add: example_est_def tproxy_conn_def)

theorem proxied_stream_is_the_clients_witness:
  "\<exists>tg up down sh'. serve_established (\<lambda>_. None) (\<lambda>c n. n) (\<lambda>_ _ ws. ws) (\<lambda>_ _. False) cidr4 example_world
     \<lparr> sa_ip = V4 0x0A000002, sa_port = 5555 \<rparr> example_est (example_shared None) = Some (Proxied tg, up, down, sh') \<and>
     (\<exists>sent rest. [1, 2, 3] = sent @ rest \<and> w_dst up = sent)"
proof -
  obtain tg up down sh' where s: "serve_established (\<lambda>_. None) (\<lambda>c n. n) (\<lambda>_ _ ws. ws) (\<lambda>_ _. False) cidr4 example_world
     \<lparr> sa_ip = V4 0x0A000002, sa_port = 5555 \<rparr> example_est (example_shared None) = Some (Proxied tg, up, down, sh')"
    using example_served by blast
  have "es_http_forward example_est = None" by (simp add: example_est_def tproxy_conn_def)
  from proxied_stream_is_the_clients [OF s this example_peek_pool] s show ?thesis
    by (auto simp: example_world_def example_est_def tproxy_conn_def)
qed

text \<open>A connection to an address of the pool on a port where the server speaks first.\<close>

lemma fakeip_port_served:
  assumes est: "est = tproxy_conn \<lparr> sa_ip = V4 ip, sa_port = port \<rparr>"
    and "sh_fakeip sh = Some fk" and "pool_lookback ip fk = Some (Some name, fk')" and "pool_contains N fk (V4 ip)"
    and "is_server_first_port port" and "fst (ip_group contains est (sh_domain_ips sh)) = None"
    and "\<not> rc_block_unknown (route_load (sh_route sh))"
  shows "\<exists>up down sh'. serve_established H grow http contains N w peer est sh =
    Some (Proxied \<lparr> tg_dest = \<lparr> sa_ip = V4 ip, sa_port = port \<rparr>, tg_domain = Some name, tg_routable = False \<rparr>, up, down, sh')"
proof -
  obtain hints where g: "ip_group contains est (sh_domain_ips sh) = (None, hints)"
    using assms(6) by (metis prod.collapse)
  have d: "es_dest est = \<lparr> sa_ip = V4 ip, sa_port = port \<rparr>" "es_domain est = None" by (simp_all add: est tproxy_conn_def)
  have s: "skips_sniffing (wd_now w) est None (sh_sniff_neg sh)" using assms(5) by (simp add: skips_sniffing_def d)
  let ?rd = "\<lparr> rd_routing = Some name, rd_stats = Some name, rd_fakeip_unresolved = False, rd_in_fakeip = True \<rparr>"
  have rd: "resolve_domains N (es_domain est) sniffed_unknown (sh_fakeip sh) (es_dest est) = Some (?rd, Some fk')"
    using assms(2-4) by (simp add: resolve_domains_def d lookback_name_def sniffed_unknown_def)
  obtain grp' where gr: "grouped None (es_dest est) ?rd hints = (grp', Some name, hints)"
    by (cases "match_domain_group name") (simp_all add: grouped_def apply_domain_group_def)
  have "\<not> should_block grp' (rd_fakeip_unresolved ?rd) sniffed_unknown (es_domain est \<noteq> None) (route_load (sh_route sh))"
    using assms(7) by (simp add: should_block_def sniffed_unknown_def)
  from serve_unsniffed [OF g s rd gr this] show ?thesis by (simp add: d)
qed

section \<open>No address of the pool leaves the gateway\<close>

lemma resolve_fakeip:
  assumes "resolve_domains N known sn fakeip dest = Some (rd, fakeip')" and "rd_in_fakeip rd"
    and "\<not> rd_fakeip_unresolved rd"
  shows "rd_routing rd \<noteq> None"
  using assms
  by (auto simp: resolve_domains_def lookback_name_def pool_contains_def Let_def
      split: option.splits ip_addr.splits if_splits)

lemma in_fakeip_iff:
  assumes "resolve_domains N known sn (Some fk) dest = Some (rd, fakeip')"
  shows "rd_in_fakeip rd = pool_contains N fk (sa_ip dest)"
  using assms by (auto simp: resolve_domains_def Let_def split: if_splits)


lemma example_no_group:
  "fst (ip_group (\<lambda>_ _. False) (tproxy_conn d) (sh_domain_ips (example_shared fk))) = None"
  by (simp add: ip_group_def tproxy_conn_def match_ip_group_def example_shared_def hints_get_def
      hints_default_def hints_with_cap_def IP_GROUPS_def list_ex_iff)

lemma example_route: "\<not> rc_block_unknown (route_load (sh_route (example_shared fk)))"
  by (simp add: example_shared_def route_load_def)


section \<open>The end of a connection\<close>

lemma run_proxy_record:
  assumes "run_proxy http connect peek prelude fwd e sh = (e', sh')"
    and "cr_upload (en_rec e) = w_counter (en_up e)" and "cr_download (en_rec e) = w_counter (en_down e)"
  shows "cr_upload (en_rec e') = w_counter (en_up e')" and "cr_download (en_rec e') = w_counter (en_down e')"
proof -
  show "cr_upload (en_rec e') = w_counter (en_up e')"
    using assms by (cases connect) (auto simp: run_proxy_def Let_def sync_counters_def)
  show "cr_download (en_rec e') = w_counter (en_down e')"
    using assms by (cases connect) (auto simp: run_proxy_def Let_def sync_counters_def)
qed

text \<open>What a run leaves alone in the record of its connection.\<close>

definition same_identity :: "conn_record \<Rightarrow> conn_record \<Rightarrow> bool" where
  "same_identity r r' \<longleftrightarrow> cr_id r' = cr_id r \<and> cr_inbound r' = cr_inbound r \<and> cr_drained_up r' = cr_drained_up r \<and>
     cr_drained_down r' = cr_drained_down r"

lemma relay_phase_rec [simp]: "en_rec (relay_phase http use_splice th peek fwd e) = en_rec e"
  by (simp add: relay_phase_def relay_both_def shut_both_def count_up_def Let_def split_def split: option.splits progress.splits)

lemma prelude_phase_rec: "(\<And>e. en_rec (rest e) = en_rec e) \<Longrightarrow> en_rec (prelude_phase prelude rest e) = en_rec e"
  by (simp add: prelude_phase_def shut_both_def count_up_def split: progress.splits prod.splits)

lemma run_proxy_same:
  assumes "run_proxy http connect peek prelude fwd e sh = (e', sh')"
  shows "same_identity (en_rec e) (en_rec e')" and "sh_traffic sh' = sh_traffic sh" and "sh_cf_traffic sh' = sh_cf_traffic sh"
    and "sh_table sh' = sh_table sh" and "sh_close sh' = sh_close sh"
  using assms by (cases connect; auto simp: run_proxy_def Let_def same_identity_def sync_counters_def set_src_port_def
      register_port_def prelude_phase_rec)+

lemma map_of_modify: "map_of (ct_modify i f t) = (map_of t)(i := map_option f (map_of t i))"
  by (auto simp: ct_modify_def update_conv' split: option.splits)

lemma drain_from_zero: "drain_one c 0 = (c, c)"
  by (auto simp: drain_one_def)

lemma drain_fresh:
  assumes "cr_drained_up r = 0" and "cr_drained_down r = 0"
  shows "drain_delta r = ((cr_upload r, cr_download r), r\<lparr>cr_drained_up := cr_upload r, cr_drained_down := cr_download r\<rparr>)"
  using assms by (simp add: drain_delta_def drain_from_zero)

text \<open>The state after a connection, for a record none of whose bytes were drained before.\<close>

lemma finish_conn_fresh:
  assumes "cr_drained_up r = 0" and "cr_drained_down r = 0"
  shows "sh_table (finish_conn now r sh) = ct_close now (cr_id r) (ct_modify (cr_id r)
      (\<lambda>_. r\<lparr>cr_drained_up := cr_upload r, cr_drained_down := cr_download r\<rparr>) (sh_table sh))"
    and "sh_close (finish_conn now r sh) = removeAll (cr_id r) (sh_close sh)"
    and "sh_socks_src (finish_conn now r sh) =
      (if cr_socks_src_port r = 0 then sh_socks_src sh else AList.delete (cr_socks_src_port r) (sh_socks_src sh))"
    and "sh_traffic (finish_conn now r sh) = add_totals (cr_download r) (cr_upload r) (sh_traffic sh)"
    and "sh_cf_traffic (finish_conn now r sh) = (if cr_inbound r = InCloudflared
        then add_totals (cr_download r) (cr_upload r) (sh_cf_traffic sh) else sh_cf_traffic sh)"
  by (auto simp: finish_conn_def Let_def drain_fresh [OF assms] forget_port_def close_remove_def account_delta_def add_totals_def)

text \<open>
  C4: a connection leaves nothing behind but its record: when it is over, its identifier is out of the
  close registry and its local port out of the index of sources; its record is closed and holds
  exactly the bytes that were counted in each direction; and the totals have grown by exactly these,
  the tunnel's own totals only for a connection of the tunnel.
\<close>

theorem proxied_connection_is_accounted:
  assumes "serve_established H grow http contains N w peer est sh = Some (Proxied tg, up, down, sh')"
  shows "\<exists>i r. i = fst (next_id (sh_ids sh)) \<and> map_of (sh_table sh') i = Some r \<and> cr_closed r \<noteq> 0 \<and>
    cr_upload r = w_counter up \<and> cr_download r = w_counter down \<and> i \<notin> set (sh_close sh') \<and>
    (cr_socks_src_port r = 0 \<or> map_of (sh_socks_src sh') (cr_socks_src_port r) = None) \<and>
    sh_traffic sh' = add_totals (w_counter down) (w_counter up) (sh_traffic sh) \<and>
    sh_cf_traffic sh' = (if es_inbound est = InCloudflared
      then add_totals (w_counter down) (w_counter up) (sh_cf_traffic sh) else sh_cf_traffic sh)"
proof -
  obtain grp sn p rest sh1 where
    st: "sniff_stage H grow w est grp (sh\<lparr>sh_domain_ips := snd (ip_group contains est (sh_domain_ips sh))\<rparr>) = (Inr (sn, p, rest), sh1)" and
    s: "serve_sniffed http N w peer est grp sn p rest sh1 = Some (Proxied tg, up, down, sh')"
    using serve_proxied [OF assms(1)] by blast
  have same: "sh_ids sh1 = sh_ids sh" "sh_traffic sh1 = sh_traffic sh" "sh_cf_traffic sh1 = sh_cf_traffic sh"
    using st by (auto simp: sniff_stage_def Let_def split: prod.splits sum.splits option.splits if_splits)
  from s obtain rd fakeip grp' hints r e sh3 where
    "resolve_domains N (es_domain est) sn (sh_fakeip sh1) (es_dest est) = Some (rd, fakeip)" and
    r: "r = open_record (fst (next_id (sh_ids sh1))) peer grp' est sn p (rd_stats rd)" and
    run: "run_proxy http (wd_connect w) p (es_prelude est) (es_http_forward est)
      \<lparr> en_rec = r\<lparr>cr_last_seen := wd_opened w\<rparr>, en_up = (wd_up w)\<lparr>w_src := rest, w_counter := 0\<rparr>,
        en_down = (wd_down w)\<lparr>w_counter := 0\<rparr> \<rparr> (opened w r fakeip hints sh1) = (e, sh3)" and
    e: "up = en_up e" "down = en_down e" "sh' = finish_conn (wd_closed w) (en_rec e) sh3"
    by (rule serve_sniffed_proxied)
  have fresh: "cr_drained_up r = 0" "cr_drained_down r = 0" "cr_upload r = 0" "cr_download r = 0" "cr_inbound r = es_inbound est"
    "cr_id r = fst (next_id (sh_ids sh))"
    using r same(1) by (simp_all add: open_record_def with_inbound_def conn_record_new_def set_head_def Let_def)
  note run_same = run_proxy_same [OF run]
  have c: "cr_upload (en_rec e) = w_counter up" "cr_download (en_rec e) = w_counter down"
    using run_proxy_record [OF run] fresh e by simp_all
  have ident: "cr_drained_up (en_rec e) = 0" "cr_drained_down (en_rec e) = 0" "cr_id (en_rec e) = cr_id r"
    "cr_inbound (en_rec e) = es_inbound est" using run_same(1) fresh by (simp_all add: same_identity_def)
  note fin = finish_conn_fresh [OF ident(1,2), of "wd_closed w" sh3]
  have "map_of (sh_table sh3) (cr_id r) \<noteq> None"
    unfolding run_same(4) by (simp add: opened_def close_insert_def ct_insert_def update_conv')
  then obtain r' where "map_of (sh_table sh') (cr_id r) = Some r'" "cr_closed r' \<noteq> 0" "cr_upload r' = w_counter up"
      "cr_download r' = w_counter down" "cr_socks_src_port r' = cr_socks_src_port (en_rec e)"
    unfolding e(3) fin(1) ct_close_def map_of_modify ident(3) using c by (auto simp: less_max_iff_disj)
  moreover have "sh_traffic sh3 = sh_traffic sh" "sh_cf_traffic sh3 = sh_cf_traffic sh"
    using run_same(2,3) same(2,3) by (simp_all add: opened_def close_insert_def)
  ultimately show ?thesis
    using fin(2-5) e(3) ident(3,4) c fresh(6) by (intro exI [of _ "cr_id r"] exI [of _ r']) (auto simp: delete_conv')
qed

theorem proxied_connection_is_accounted_witness:
  "\<exists>tg up down sh' r. serve_established (\<lambda>_. None) (\<lambda>c n. n) (\<lambda>_ _ ws. ws) (\<lambda>_ _. False) cidr4 example_world
     \<lparr> sa_ip = V4 0x0A000002, sa_port = 5555 \<rparr> example_est (example_shared None) = Some (Proxied tg, up, down, sh') \<and>
     map_of (sh_table sh') (fst (next_id (with_seed 7))) = Some r \<and> cr_closed r \<noteq> 0 \<and> cr_upload r = w_counter up"
proof -
  obtain tg up down sh' where s: "serve_established (\<lambda>_. None) (\<lambda>c n. n) (\<lambda>_ _ ws. ws) (\<lambda>_ _. False) cidr4 example_world
     \<lparr> sa_ip = V4 0x0A000002, sa_port = 5555 \<rparr> example_est (example_shared None) = Some (Proxied tg, up, down, sh')"
    using example_served by blast
  have "sh_ids (example_shared None :: (u32 \<times> u8) shared) = with_seed 7" by (simp add: example_shared_def)
  with proxied_connection_is_accounted [OF s] s show ?thesis by auto
qed

end
