(* ===== verification/UdpBudget.thy ===== *)
theory UdpBudget
  imports Base "HOL-Library.Multiset" "HOL-Library.AList"
begin

text \<open>
  The limits on UDP work: the process-wide budgets with a reserved class for internal traffic
  (\<open>sniffbox/src/udp_budget.rs\<close>), the per-client counters of one engine
  (\<open>ClientBudget\<close> in \<open>sniffbox/src/udp_engine.rs\<close>), and the cache of sockets bound to foreign source
  addresses (\<open>sb-tproxy/src/spoof_cache.rs\<close>). A Rust value that gives something back when it is dropped
  (\<open>Permit\<close>, \<open>BudgetToken\<close>) is here a value and the operation its \<open>drop\<close> performs.
\<close>

section \<open>What every budget promises\<close>

text \<open>A run of acquisitions and of drops of values that are held.\<close>

datatype ('r, 'p) permit_op = Acquire 'r | Drop 'p

fun run_permits :: "('r \<Rightarrow> 's \<Rightarrow> ('p \<times> 's) option) \<Rightarrow> ('p \<Rightarrow> 's \<Rightarrow> 's option) \<Rightarrow> ('r, 'p) permit_op list \<Rightarrow>
    's \<Rightarrow> 'p multiset \<Rightarrow> ('s \<times> 'p multiset) option" where
  "run_permits acquire release [] s held = Some (s, held)"
| "run_permits acquire release (Acquire r # ops) s held = (case acquire r s of
     None \<Rightarrow> run_permits acquire release ops s held
   | Some (p, s') \<Rightarrow> run_permits acquire release ops s' (add_mset p held))"
| "run_permits acquire release (Drop p # ops) s held =
     (if p \<in># held then do { s' \<leftarrow> release p s; run_permits acquire release ops s' (held - {#p#}) }
      else run_permits acquire release ops s held)"

locale permit_pool =
  fixes holds :: "'s \<Rightarrow> 'p multiset \<Rightarrow> bool"
    and acquire :: "'r \<Rightarrow> 's \<Rightarrow> ('p \<times> 's) option"
    and release :: "'p \<Rightarrow> 's \<Rightarrow> 's option"
  assumes acquired: "\<lbrakk>holds s ps; acquire r s = Some (p, s')\<rbrakk> \<Longrightarrow> holds s' (add_mset p ps)"
    and released: "\<lbrakk>holds s ps; p \<in># ps\<rbrakk> \<Longrightarrow> \<exists>s'. release p s = Some s' \<and> holds s' (ps - {#p#})"
begin

lemma never_stuck: "holds s ps \<Longrightarrow> \<exists>s' ps'. run_permits acquire release ops s ps = Some (s', ps') \<and> holds s' ps'"
proof (induction ops arbitrary: s ps)
  case (Cons op ops)
  show ?case
  proof (cases op)
    case (Acquire r)
    then show ?thesis using Cons acquired by (auto split: option.splits)
  next
    case (Drop p)
    then show ?thesis using Cons released [OF Cons.prems, of p] by auto
  qed
qed simp

end

section \<open>The process-wide budget\<close>

type_synonym permit = "ip_addr \<times> bool"

record budget =
  bg_limits :: "bool \<Rightarrow> nat"
  bg_per_client :: nat
  bg_used :: "bool \<Rightarrow> nat"
  bg_clients :: "permit \<rightharpoonup> nat"

record udp_budget =
  ub_sessions :: budget
  ub_flows :: budget

definition sessions_for_memory :: "nat \<Rightarrow> nat" where
  "sessions_for_memory bytes = (if bytes = 0 then 256 else max 64 (min 1024 (bytes div (2 * 1024 * 1024))))"

definition budget_new :: "nat \<Rightarrow> nat \<Rightarrow> nat \<Rightarrow> budget" where
  "budget_new users internal per_client = \<lparr> bg_limits = (\<lambda>c. if c then internal else users), bg_per_client = per_client,
     bg_used = (\<lambda>_. 0), bg_clients = Map.empty \<rparr>"

definition udp_budget_new :: "nat \<Rightarrow> nat \<Rightarrow> udp_budget" where
  "udp_budget_new sessions reserved = \<lparr> ub_sessions = budget_new sessions reserved 1024,
     ub_flows = budget_new (sessions * 16) (reserved * 16) 16384 \<rparr>"

definition acquire_with_headroom :: "ip_addr \<Rightarrow> bool \<Rightarrow> nat \<Rightarrow> nat \<Rightarrow> budget \<Rightarrow> (permit \<times> budget) option" where
  "acquire_with_headroom ip internal headroom client_headroom b =
     (let mine = (case bg_clients b (ip, internal) of None \<Rightarrow> 0 | Some n \<Rightarrow> n) in
      if bg_used b internal \<ge> bg_limits b internal - headroom \<or> mine \<ge> bg_per_client b - client_headroom then None
      else Some ((ip, internal), b\<lparr>bg_used := (bg_used b)(internal := bg_used b internal + 1),
                                   bg_clients := (bg_clients b)((ip, internal) \<mapsto> mine + 1)\<rparr>))"

definition acquire :: "ip_addr \<Rightarrow> bool \<Rightarrow> budget \<Rightarrow> (permit \<times> budget) option" where
  "acquire ip internal b = acquire_with_headroom ip internal 0 0 b"

text \<open>\<open>None\<close> where the subtraction underflows or the client is missing.\<close>

definition permit_drop :: "permit \<Rightarrow> budget \<Rightarrow> budget option" where
  "permit_drop p b =
     (if bg_used b (snd p) = 0 then None
      else case bg_clients b p of
        None \<Rightarrow> None
      | Some 0 \<Rightarrow> None
      | Some (Suc n) \<Rightarrow> Some (b\<lparr>bg_used := (bg_used b)(snd p := bg_used b (snd p) - 1),
          bg_clients := (if n = 0 then (bg_clients b)(p := None) else (bg_clients b)(p \<mapsto> n))\<rparr>))"

section \<open>The counters of one engine\<close>

type_synonym client_budget = "ip_addr \<rightharpoonup> nat"

definition client_budget_new :: client_budget where
  "client_budget_new = Map.empty"

definition try_acquire :: "ip_addr \<Rightarrow> nat \<Rightarrow> client_budget \<Rightarrow> (ip_addr \<times> client_budget) option" where
  "try_acquire ip limit cb =
     (if limit = 0 then None
      else let n = (case cb ip of None \<Rightarrow> 0 | Some n \<Rightarrow> n) in
        if n \<ge> limit then None else Some (ip, cb(ip \<mapsto> n + 1)))"

definition token_drop :: "ip_addr \<Rightarrow> client_budget \<Rightarrow> client_budget" where
  "token_drop ip cb = (case cb ip of None \<Rightarrow> cb | Some n \<Rightarrow> if n \<le> 1 then cb(ip := None) else cb(ip \<mapsto> n - 1))"

section \<open>The counts are those of what is held\<close>

definition counts :: "'a multiset \<Rightarrow> 'a \<rightharpoonup> nat" where
  "counts ps k = (if k \<in># ps then Some (count ps k) else None)"

lemma counts_empty [simp]: "counts {#} = Map.empty"
  by (rule ext) (simp add: counts_def)

lemma counts_the [simp]: "(case counts ps k of None \<Rightarrow> 0 | Some n \<Rightarrow> n) = count ps k"
  by (simp add: counts_def count_eq_zero_iff)

lemma counts_add: "counts (add_mset k ps) = (counts ps)(k \<mapsto> count ps k + 1)"
  by (rule ext) (simp add: counts_def)

lemma counts_remove_one:
  "(if n = 0 then (counts (add_mset k ps))(k := None) else (counts (add_mset k ps))(k \<mapsto> n)) = counts ps"
  if n: "n = count ps k"
proof (cases "k \<in># ps")
  case True
  then have "n \<noteq> 0" using n by simp
  then show ?thesis using n True by (simp add: counts_def fun_eq_iff)
next
  case False
  then have "n = 0" using n by (simp add: not_in_iff)
  then show ?thesis using False by (simp add: counts_def fun_eq_iff)
qed

abbreviation class_count :: "permit multiset \<Rightarrow> bool \<Rightarrow> nat" where
  "class_count ps c \<equiv> size (filter_mset (\<lambda>p. snd p = c) ps)"

definition budget_holds :: "budget \<Rightarrow> permit multiset \<Rightarrow> bool" where
  "budget_holds b ps \<longleftrightarrow> bg_used b = class_count ps \<and> bg_clients b = counts ps \<and>
     (\<forall>c. class_count ps c \<le> bg_limits b c) \<and> (\<forall>p. count ps p \<le> bg_per_client b)"

definition client_holds :: "nat \<Rightarrow> client_budget \<Rightarrow> ip_addr multiset \<Rightarrow> bool" where
  "client_holds limit cb ps \<longleftrightarrow> cb = counts ps \<and> (\<forall>ip. count ps ip \<le> limit)"

lemma budget_acquired:
  assumes "budget_holds b ps" and "acquire_with_headroom ip i h ch b = Some (p, b')"
  shows "budget_holds b' (add_mset p ps)" and "p = (ip, i)" and "bg_limits b' = bg_limits b"
    and "bg_per_client b' = bg_per_client b"
proof -
  have a: "bg_used b = class_count ps" "bg_clients b = counts ps" "\<And>c. class_count ps c \<le> bg_limits b c"
    "\<And>p. count ps p \<le> bg_per_client b" using assms(1) unfolding budget_holds_def by blast+
  have r: "class_count ps i < bg_limits b i - h" "count ps (ip, i) < bg_per_client b - ch" "p = (ip, i)"
    "b' = b\<lparr>bg_used := (class_count ps)(i := class_count ps i + 1), bg_clients := (counts ps)((ip, i) \<mapsto> count ps (ip, i) + 1)\<rparr>"
    using assms(2) a(1,2) by (auto simp: acquire_with_headroom_def Let_def not_le split: if_splits)
  have "class_count (add_mset p ps) c \<le> bg_limits b c" for c
    using r(1,3) a(3) [of c] by (cases "c = i") auto
  moreover have "count (add_mset p ps) x \<le> bg_per_client b" for x
    using r(2,3) a(4) [of x] by (cases "x = p") auto
  moreover have "(class_count ps)(i := class_count ps i + 1) = class_count (add_mset p ps)" using r(3) by auto
  ultimately show "budget_holds b' (add_mset p ps)"
    using r(3,4) counts_add [of p ps] by (simp add: budget_holds_def)
  show "p = (ip, i)" "bg_limits b' = bg_limits b" "bg_per_client b' = bg_per_client b" using r(3,4) by simp_all
qed

lemma fewer_counts: "class_count (ps - {#p#}) c \<le> class_count ps c"
  by (simp add: size_mset_mono multiset_filter_mono)

lemma fewer_count: "count (ps - {#p#}) x \<le> count ps x"
  by simp

lemma budget_released:
  assumes "budget_holds b ps" and "p \<in># ps"
  shows "\<exists>b'. permit_drop p b = Some b' \<and> budget_holds b' (ps - {#p#}) \<and> bg_limits b' = bg_limits b \<and>
    bg_per_client b' = bg_per_client b"
proof -
  obtain qs where ps: "ps = add_mset p qs" using assms(2) by (metis mset_add)
  have u: "bg_used b (snd p) = Suc (class_count qs (snd p))" using assms(1) ps by (simp add: budget_holds_def)
  have c: "bg_clients b p = Some (Suc (count qs p))" using assms(1) ps by (simp add: budget_holds_def counts_def)
  have "bg_clients b = counts (add_mset p qs)" using assms(1) ps by (simp add: budget_holds_def)
  then have m: "(if count qs p = 0 then (bg_clients b)(p := None) else (bg_clients b)(p \<mapsto> count qs p)) = counts qs"
    by (simp only: counts_remove_one)
  have "(bg_used b)(snd p := class_count qs (snd p)) = class_count qs"
    using assms(1) ps by (auto simp: budget_holds_def fun_eq_iff)
  moreover have "class_count qs x \<le> bg_limits b x" "count qs r \<le> bg_per_client b" for x r
    using assms(1) ps fewer_counts [where ps = ps and p = p and c = x] fewer_count [of ps p r]
    unfolding budget_holds_def by (metis add_mset_remove_trivial order_trans)+
  ultimately show ?thesis unfolding permit_drop_def c u using m ps by (simp add: budget_holds_def)
qed

lemma client_acquired:
  assumes "client_holds limit cb ps" and "try_acquire ip n cb = Some (p, cb')" and "n \<le> limit"
  shows "client_holds limit cb' (add_mset p ps)" and "p = ip"
  using assms by (auto simp: client_holds_def try_acquire_def Let_def counts_add split: if_splits)

lemma client_released:
  assumes "client_holds limit cb ps" and "p \<in># ps"
  shows "client_holds limit (token_drop p cb) (ps - {#p#})"
proof -
  obtain qs where ps: "ps = add_mset p qs" using assms(2) by (metis mset_add)
  have c: "cb p = Some (Suc (count qs p))" using assms(1) ps by (simp add: client_holds_def counts_def)
  then have "token_drop p cb = (if count qs p = 0 then cb(p := None) else cb(p \<mapsto> count qs p))"
    by (cases "count qs p") (simp_all add: token_drop_def)
  also have "\<dots> = counts qs" using assms(1) ps by (simp only: client_holds_def counts_remove_one)
  finally have "token_drop p cb = counts qs" .
  moreover have "count qs ip \<le> limit" for ip
    using assms(1) ps fewer_count [of ps p ip] unfolding client_holds_def by (metis add_mset_remove_trivial order_trans)
  ultimately show ?thesis using ps by (simp add: client_holds_def)
qed

interpretation session_pool: permit_pool budget_holds "\<lambda>(ip, i, h, ch). acquire_with_headroom ip i h ch" permit_drop
  using budget_acquired(1) budget_released by unfold_locales (auto split: prod.splits, fastforce)

interpretation client_pool: permit_pool "client_holds limit" "\<lambda>(ip, headroom). try_acquire ip (limit - headroom)"
    "\<lambda>p cb. Some (token_drop p cb)" for limit
  by unfold_locales (auto simp: client_acquired(1) client_released split: prod.splits)

lemma empty_holds [simp]: "budget_holds (budget_new u i pc) {#}" "client_holds limit client_budget_new {#}"
  by (auto simp: budget_holds_def budget_new_def client_holds_def client_budget_new_def)
end
