(* ===== verification/Tables.thy ===== *)
theory Tables
  imports Base "HOL-Library.AList" "HOL-Library.Multiset"
begin

text \<open>
  Association lists as the tables of the program (maps whose entries are listed, counted or swept): what
  an insertion, a removal and an update in place do to the keys, to the set and to the bag of the entries.
\<close>

lemma update_new: "map_of al k = None \<Longrightarrow> AList.update k v al = al @ [(k, v)]"
  by (induction al) (auto split: if_splits)

lemma delete_is_filter: "AList.delete k al = filter (\<lambda>e. fst e \<noteq> k) al"
  by (induction al) auto

lemma distinct_keys_filter: "distinct (map fst al) \<Longrightarrow> distinct (map fst (filter P al))"
  by (induction al) (auto simp: rev_image_eqI)

lemma delete_bag:
  "distinct (map fst al) \<Longrightarrow> map_of al k = Some v \<Longrightarrow> mset al = add_mset (k, v) (mset (AList.delete k al))"
proof (induction al)
  case (Cons e al)
  obtain k' v' where e: "e = (k', v')" by fastforce
  show ?case
  proof (cases "k = k'")
    case True
    then have "AList.delete k al = al" using Cons.prems(1) e by (auto intro: AList.delete_idem)
    then show ?thesis using Cons.prems e True by simp
  qed (use Cons e in auto)
qed simp

lemma delete_image_bag:
  "distinct (map fst al) \<Longrightarrow> map_of al k = Some v \<Longrightarrow>
    mset (map f al) = add_mset (f (k, v)) (mset (map f (AList.delete k al)))"
  using delete_bag [of al k v] by (metis image_mset_add_mset mset_map)

lemma map_entry_keys [simp]: "map fst (AList.map_entry k g al) = map fst al"
  by (induction al) auto

lemma map_entry_image: "(\<And>v. f (k, g v) = f (k, v)) \<Longrightarrow> map f (AList.map_entry k g al) = map f al"
  by (induction al) auto

lemma update_image:
  "map_of al k = Some v \<Longrightarrow> f (k, v') = f (k, v) \<Longrightarrow> map f (AList.update k v' al) = map f al"
  by (induction al) (auto split: if_splits)

lemma map_entry_image_at:
  "map_of al k = Some v \<Longrightarrow> f (k, g v) = f (k, v) \<Longrightarrow> map f (AList.map_entry k g al) = map f al"
  by (induction al) (auto split: if_splits)

lemma map_entry_ball:
  "map_of al k = Some v \<Longrightarrow> P (k, g v) = P (k, v) \<Longrightarrow> (\<forall>e \<in> set (AList.map_entry k g al). P e) = (\<forall>e \<in> set al. P e)"
  by (induction al) (auto split: if_splits)

lemma set_update_subset: "set (AList.update k v al) \<subseteq> insert (k, v) (set al)"
  by (induction al) auto

lemma partition_bag: "mset (map f xs) = mset (map f (filter (\<lambda>x. \<not> P x) xs)) + mset (map f (filter P xs))"
  by (induction xs) auto

lemma set_delete: "set (AList.delete k al) = {e \<in> set al. fst e \<noteq> k}"
  by (auto simp: delete_is_filter)

lemma set_map_entry: "distinct (map fst al) \<Longrightarrow> set (AList.map_entry k g al) = (\<lambda>(k', v). (k', if k' = k then g v else v)) ` set al"
  by (induction al) force+

lemma map_of_map_entry: "map_of (AList.map_entry k f al) k = map_option f (map_of al k)"
  by (induction al) auto

lemma map_of_filter:
  "distinct (map fst c) \<Longrightarrow> map_of (filter P c) k = (case map_of c k of Some e \<Rightarrow> if P (k, e) then Some e else None | None \<Rightarrow> None)"
proof (induction c)
  case (Cons x c)
  then have "map_of (filter P c) (fst x) = None" by (force simp: map_of_eq_None_iff)
  with Cons show ?case by (cases x) auto
qed simp

end
