(* ===== verification/SpoofCache.thy ===== *)
theory SpoofCache
  imports Tables
begin

text \<open>
  The cache of UDP sockets bound to foreign source addresses (\<open>sb-tproxy/src/spoof_cache.rs\<close>): replies
  to a client must come from the address it sent to, so a socket is bound per such address, at most
  \<open>cap\<close> are kept, and an address that could not be bound is not tried again for two seconds. The
  outcome of a bind is given to the operation; time is in milliseconds.
\<close>

section \<open>The cache\<close>

abbreviation (input) NX_TTL :: nat where "NX_TTL \<equiv> 2000"
abbreviation (input) NX_CAP :: nat where "NX_CAP \<equiv> 1024"

record 'k spoof_cache =
  sc_map :: "(socket_addr \<times> 'k) list"
  sc_order :: "socket_addr list"
  sc_nx :: "(socket_addr \<times> nat) list"
  sc_cap :: nat

definition spoof_new :: "nat \<Rightarrow> 'k spoof_cache" where
  "spoof_new cap = \<lparr> sc_map = [], sc_order = [], sc_nx = [], sc_cap = cap \<rparr>"

definition spoof_len :: "'k spoof_cache \<Rightarrow> nat" where
  "spoof_len c = length (sc_map c)"

definition spoof_is_empty :: "'k spoof_cache \<Rightarrow> bool" where
  "spoof_is_empty c \<longleftrightarrow> spoof_len c = 0"

definition nx_len :: "nat \<Rightarrow> 'k spoof_cache \<Rightarrow> nat" where
  "nx_len now c = length (filter (\<lambda>e. now - snd e < NX_TTL) (sc_nx c))"

definition keep_socket :: "socket_addr \<Rightarrow> 'k \<Rightarrow> 'k spoof_cache \<Rightarrow> 'k spoof_cache" where
  "keep_socket src sock c =
     (let c1 = (if length (sc_map c) \<ge> sc_cap c \<and> sc_order c \<noteq> []
                then c\<lparr>sc_order := tl (sc_order c), sc_map := AList.delete (hd (sc_order c)) (sc_map c)\<rparr> else c)
      in c1\<lparr>sc_order := sc_order c1 @ [src], sc_map := AList.update src sock (sc_map c1),
            sc_nx := AList.delete src (sc_nx c1)\<rparr>)"

definition note_failed_bind :: "nat \<Rightarrow> socket_addr \<Rightarrow> 'k spoof_cache \<Rightarrow> 'k spoof_cache" where
  "note_failed_bind now src c =
     (let nx = (if length (sc_nx c) \<ge> NX_CAP then filter (\<lambda>e. now - snd e < NX_TTL) (sc_nx c) else sc_nx c)
      in c\<lparr>sc_nx := AList.update src now nx\<rparr>)"

text \<open>\<open>outcome\<close> is the socket that binding the address gives, if it succeeds.\<close>

definition get_or_bind :: "nat \<Rightarrow> 'k option \<Rightarrow> socket_addr \<Rightarrow> 'k spoof_cache \<Rightarrow> 'k option \<times> 'k spoof_cache" where
  "get_or_bind now outcome src c =
     (case map_of (sc_map c) src of
        Some s \<Rightarrow> (Some s, c)
      | None \<Rightarrow>
          if case map_of (sc_nx c) src of Some t \<Rightarrow> now - t < NX_TTL | None \<Rightarrow> False then (None, c)
          else let c1 = c\<lparr>sc_nx := AList.delete src (sc_nx c)\<rparr> in
            (case outcome of
               Some sock \<Rightarrow> (Some sock, keep_socket src sock c1)
             | None \<Rightarrow> (None, note_failed_bind now src c1)))"

section \<open>What is kept\<close>

text \<open>
  The addresses of the map are those of the queue, once each, in the order they were bound, and no more
  than the capacity (a capacity of zero keeps one socket).
\<close>

definition spoof_ok :: "'k spoof_cache \<Rightarrow> bool" where
  "spoof_ok c \<longleftrightarrow> distinct (sc_order c) \<and> distinct (map fst (sc_map c)) \<and> set (sc_order c) = fst ` set (sc_map c) \<and>
     length (sc_map c) \<le> max (sc_cap c) 1"

lemma spoof_new_ok: "spoof_ok (spoof_new cap)"
  by (simp add: spoof_ok_def spoof_new_def)

lemma same_length:
  assumes "distinct xs" and "distinct ys" and "set xs = set ys"
  shows "length xs = length ys"
  using assms by (metis distinct_card)

lemma spoof_ok_order: "spoof_ok c \<Longrightarrow> length (sc_order c) = length (sc_map c)"
  using same_length [of "sc_order c" "map fst (sc_map c)"] by (simp add: spoof_ok_def)

lemma keep_socket_ok:
  assumes c: "spoof_ok c" and new: "map_of (sc_map c) src = None"
  shows "spoof_ok (keep_socket src sock c)"
    and "map_of (sc_map (keep_socket src sock c)) src = Some sock"
    and "set (sc_map (keep_socket src sock c)) \<subseteq> insert (src, sock) (set (sc_map c))"
    and "sc_cap (keep_socket src sock c) = sc_cap c"
proof -
  have fresh: "src \<notin> set (sc_order c)" using c new by (auto simp: spoof_ok_def map_of_eq_None_iff)
  define full where "full \<longleftrightarrow> length (sc_map c) \<ge> sc_cap c \<and> sc_order c \<noteq> []"
  define kept where "kept = (if full then filter (\<lambda>e. fst e \<noteq> hd (sc_order c)) (sc_map c) else sc_map c)"
  define ord where "ord = (if full then tl (sc_order c) else sc_order c)"
  have k: "set kept \<subseteq> set (sc_map c)" by (auto simp: kept_def)
  then have n: "map_of kept src = None" using new unfolding map_of_eq_None_iff by blast
  have r: "keep_socket src sock c = c\<lparr>sc_order := ord @ [src], sc_map := kept @ [(src, sock)],
      sc_nx := filter (\<lambda>e. fst e \<noteq> src) (sc_nx c)\<rparr>"
    using n by (auto simp: keep_socket_def kept_def ord_def full_def delete_is_filter update_new Let_def)
  have d: "distinct ord" "distinct (map fst kept)" "set ord \<subseteq> set (sc_order c)"
    using c by (auto simp: spoof_ok_def ord_def kept_def distinct_tl distinct_keys_filter full_def dest: list.set_sel(2))
  have s: "set ord = fst ` set kept"
  proof (cases full)
    case True
    then obtain x xs where "sc_order c = x # xs" by (auto simp: full_def neq_Nil_conv)
    then have x: "sc_order c = x # xs" .
    then have "set xs = set (sc_order c) - {x}" using c by (auto simp: spoof_ok_def)
    also have "\<dots> = fst ` set (sc_map c) - {x}" using c by (simp add: spoof_ok_def)
    also have "\<dots> = fst ` set kept" using True x by (auto simp: kept_def)
    finally show ?thesis using True x by (simp add: ord_def)
  qed (use c in \<open>simp add: spoof_ok_def ord_def kept_def\<close>)
  have "length kept = length ord" using same_length [of ord "map fst kept"] d s by simp
  moreover have "length ord < max (sc_cap c) 1"
    using c spoof_ok_order [OF c] by (auto simp: ord_def full_def spoof_ok_def not_le)
  ultimately have "length kept < max (sc_cap c) 1" by simp
  moreover have "src \<notin> fst ` set kept" using n by (simp add: map_of_eq_None_iff)
  ultimately show "spoof_ok (keep_socket src sock c)" using d s fresh unfolding r by (auto simp: spoof_ok_def)
  show "map_of (sc_map (keep_socket src sock c)) src = Some sock" using n unfolding r by (simp add: map_add_def)
  show "set (sc_map (keep_socket src sock c)) \<subseteq> insert (src, sock) (set (sc_map c))" using k unfolding r by auto
  show "sc_cap (keep_socket src sock c) = sc_cap c" by (simp add: r)
qed

section \<open>Sequences of requests\<close>

record 'k spoof_req =
  sr_now :: nat
  sr_src :: socket_addr
  sr_bind :: "'k option"

fun run_spoof :: "'k spoof_req list \<Rightarrow> 'k spoof_cache \<Rightarrow> 'k option list \<times> 'k spoof_cache" where
  "run_spoof [] c = ([], c)"
| "run_spoof (r # rs) c = (let (s, c1) = get_or_bind (sr_now r) (sr_bind r) (sr_src r) c; (ss, c2) = run_spoof rs c1 in (s # ss, c2))"

text \<open>Every socket of the map came from a bind of its address.\<close>

definition bound_for :: "(socket_addr \<times> 'k) set \<Rightarrow> 'k spoof_cache \<Rightarrow> bool" where
  "bound_for B c \<longleftrightarrow> set (sc_map c) \<subseteq> B"

lemma get_or_bind_step:
  assumes "spoof_ok c" and "bound_for B c" and "get_or_bind now outcome src c = (s, c')"
  shows "spoof_ok c' \<and> sc_cap c' = sc_cap c \<and> bound_for (case outcome of None \<Rightarrow> B | Some k \<Rightarrow> insert (src, k) B) c' \<and>
    (\<forall>k. s = Some k \<longrightarrow> (src, k) \<in> B \<or> outcome = Some k)"
proof (cases "map_of (sc_map c) src")
  case None
  let ?c1 = "c\<lparr>sc_nx := AList.delete src (sc_nx c)\<rparr>"
  have c1: "spoof_ok ?c1" using assms(1) by (simp add: spoof_ok_def)
  have failed: "spoof_ok (note_failed_bind now src ?c1)" "bound_for B (note_failed_bind now src ?c1)"
    "sc_cap (note_failed_bind now src ?c1) = sc_cap c"
    using c1 assms(2) by (simp_all add: note_failed_bind_def spoof_ok_def bound_for_def Let_def)
  have kept: "spoof_ok (keep_socket src k ?c1)" "set (sc_map (keep_socket src k ?c1)) \<subseteq> insert (src, k) (set (sc_map c))"
      "sc_cap (keep_socket src k ?c1) = sc_cap c" for k
    using keep_socket_ok(1,3,4) [OF c1, of src k] None by simp_all
  show ?thesis using assms failed kept None
    by (auto simp: get_or_bind_def bound_for_def Let_def split: if_splits option.splits dest!: subsetD [OF kept(2)])
next
  case (Some k)
  then have "(src, k) \<in> set (sc_map c)" by (rule map_of_SomeD)
  then show ?thesis using assms Some by (auto simp: get_or_bind_def bound_for_def split: option.splits)
qed

definition binds :: "'k spoof_req list \<Rightarrow> (socket_addr \<times> 'k) set" where
  "binds rs = {(sr_src r, k) |r k. r \<in> set rs \<and> sr_bind r = Some k}"

lemma binds_Cons: "binds (r # rs) = (case sr_bind r of None \<Rightarrow> binds rs | Some k \<Rightarrow> insert (sr_src r, k) (binds rs))"
  by (auto simp: binds_def split: option.splits)

lemma run_spoof_ok:
  "spoof_ok c \<Longrightarrow> bound_for B c \<Longrightarrow> run_spoof rs c = (ss, c') \<Longrightarrow>
    spoof_ok c' \<and> sc_cap c' = sc_cap c \<and> length ss = length rs \<and>
    (\<forall>i < length rs. \<forall>k. ss ! i = Some k \<longrightarrow> (sr_src (rs ! i), k) \<in> B \<union> binds rs)"
proof (induction rs arbitrary: c B ss c')
  case (Cons r rs)
  obtain s c1 where s: "get_or_bind (sr_now r) (sr_bind r) (sr_src r) c = (s, c1)" by fastforce
  obtain ss' c2 where ss: "run_spoof rs c1 = (ss', c2)" by fastforce
  let ?B = "case sr_bind r of None \<Rightarrow> B | Some k \<Rightarrow> insert (sr_src r, k) B"
  note one = get_or_bind_step [OF Cons.prems(1,2) s]
  have b: "?B \<union> binds rs = B \<union> binds (r # rs)" by (auto simp: binds_Cons split: option.splits)
  have rest: "spoof_ok c2 \<and> sc_cap c2 = sc_cap c1 \<and> length ss' = length rs \<and>
      (\<forall>i < length rs. \<forall>k. ss' ! i = Some k \<longrightarrow> (sr_src (rs ! i), k) \<in> B \<union> binds (r # rs))"
    using Cons.IH [of c1 ?B ss' c2] one ss b by simp
  have first: "(sr_src r, k) \<in> B \<union> binds (r # rs)" if "s = Some k" for k
    using one that by (auto simp: binds_Cons)
  have "ss = s # ss'" "c' = c2" using Cons.prems(3) s ss by simp_all
  then show ?case using one rest first by (auto simp: nth_Cons split: nat.splits)
qed simp

text \<open>
  C36: whatever is asked of the cache, whether the binds succeed or not, it never holds more than
  \<open>cap\<close> sockets (one, if \<open>cap\<close> is zero), its queue lists exactly the addresses of the sockets it
  holds, and every socket it answers with was bound to the address asked for.
\<close>

theorem spoof_cache_bounded:
  assumes "run_spoof rs (spoof_new cap) = (ss, c)"
  shows "spoof_len c \<le> max cap 1 \<and> set (sc_order c) = fst ` set (sc_map c) \<and> distinct (sc_order c) \<and>
    (\<forall>i < length rs. \<forall>k. ss ! i = Some k \<longrightarrow> (\<exists>r \<in> set rs. sr_src r = sr_src (rs ! i) \<and> sr_bind r = Some k))"
proof -
  have "bound_for {} (spoof_new cap :: 'a spoof_cache)" by (simp add: bound_for_def spoof_new_def)
  note r = run_spoof_ok [OF spoof_new_ok this assms]
  then have "spoof_ok c" "sc_cap c = cap" by (simp_all add: spoof_new_def)
  then have "spoof_len c \<le> max cap 1 \<and> set (sc_order c) = fst ` set (sc_map c) \<and> distinct (sc_order c)"
    by (simp add: spoof_ok_def spoof_len_def)
  moreover have "\<exists>r \<in> set rs. sr_src r = sr_src (rs ! i) \<and> sr_bind r = Some k" if "i < length rs" "ss ! i = Some k" for i k
  proof -
    have "(sr_src (rs ! i), k) \<in> binds rs" using r that by auto
    then show ?thesis by (auto simp: binds_def)
  qed
  ultimately show ?thesis by blast
qed

definition example_req :: "nat \<Rightarrow> u16 \<Rightarrow> nat option \<Rightarrow> nat spoof_req" where
  "example_req now port sock = \<lparr> sr_now = now, sr_src = \<lparr> sa_ip = V4 1, sa_port = port \<rparr>, sr_bind = sock \<rparr>"

definition example_reqs :: "nat spoof_req list" where
  "example_reqs = [example_req 0 1 (Some 10), example_req 0 2 None, example_req 5 2 (Some 20), example_req 6 3 (Some 30),
     example_req 7 1 (Some 11)]"

lemma run_spoof_step: "get_or_bind (sr_now r) (sr_bind r) (sr_src r) c = (s, c1) \<Longrightarrow>
    run_spoof (r # rs) c = (s # fst (run_spoof rs c1), snd (run_spoof rs c1))"
  by (simp add: case_prod_unfold Let_def)

theorem spoof_cache_bounded_witness:
  "\<exists>c. run_spoof example_reqs (spoof_new 1) = ([Some 10, None, None, Some 30, Some 11], c) \<and> spoof_len c \<le> 1"
proof -
  define c where "c = snd (run_spoof example_reqs (spoof_new 1))"
  have f: "fst (run_spoof example_reqs (spoof_new 1)) = [Some 10, None, None, Some 30, Some 11]"
    by (simp add: example_reqs_def example_req_def spoof_new_def run_spoof_step get_or_bind_def keep_socket_def
        note_failed_bind_def del: run_spoof.simps(2))
  then have r: "run_spoof example_reqs (spoof_new 1) = ([Some 10, None, None, Some 30, Some 11], c)"
    by (simp add: c_def prod_eq_iff)
  from spoof_cache_bounded [OF this] show ?thesis using r by auto
qed

end
