(* ===== verification/UdpEngine.thy ===== *)
theory UdpEngine
  imports Engine QuicSniff UdpBudget SpoofCache
begin

text \<open>
  The UDP side of the gateway (\<open>sniffbox/src/udp_engine.rs\<close>): which kind of flow a datagram belongs to,
  the two tables of sessions, the tasks that open sessions while datagrams wait in bounded queues, the
  readers that carry replies back from spoofed addresses, the idle sweep, and the budgets that all of
  them hold. The engine is a state on which events act one at a time: a datagram, a step of an opening
  task, a reply, the end of a reader, a sweep. An \<open>Arc\<close> is an identity: a session, its queue, its opening
  task, its reader and its permit carry the number of the opening, and what an \<open>Arc\<close>'s last drop does
  happens when nothing carries the number any more.
\<close>

section \<open>Queues of waiting datagrams\<close>

abbreviation (input) PENDING_QUEUE_CAP :: nat where "PENDING_QUEUE_CAP \<equiv> 8"
abbreviation (input) PENDING_BYTES_CAP :: nat where "PENDING_BYTES_CAP \<equiv> 65536"
abbreviation (input) MAX_SESSIONS_PER_CLIENT :: nat where "MAX_SESSIONS_PER_CLIENT \<equiv> 1024"
abbreviation (input) MAX_FLOWS_PER_CLIENT :: nat where "MAX_FLOWS_PER_CLIENT \<equiv> 16384"
abbreviation (input) QUERY_PROTO_IDLE :: nat where "QUERY_PROTO_IDLE \<equiv> 10000"

definition idle_for_dst :: "u16 \<Rightarrow> nat \<Rightarrow> nat" where
  "idle_for_dst port default_idle = (if port \<in> {53, 123, 3478, 3479} then min QUERY_PROTO_IDLE default_idle else default_idle)"

text \<open>A queue of a symmetric session holds payloads only; here they keep the destination they share.\<close>

record pending =
  pd_queue :: "(socket_addr \<times> bytes) list option"
  pd_created :: nat

abbreviation payload_len :: "socket_addr \<times> bytes \<Rightarrow> nat" where
  "payload_len p \<equiv> length (snd p)"

definition pending_new :: "socket_addr \<times> bytes \<Rightarrow> nat \<Rightarrow> pending" where
  "pending_new first now = \<lparr> pd_queue = Some (if payload_len first \<le> PENDING_BYTES_CAP then [first] else []), pd_created = now \<rparr>"

definition pending_push :: "socket_addr \<times> bytes \<Rightarrow> pending \<Rightarrow> pending" where
  "pending_push item p = (case pd_queue p of
     None \<Rightarrow> p
   | Some q \<Rightarrow> if length q < PENDING_QUEUE_CAP \<and> payload_len item \<le> PENDING_BYTES_CAP - sum_list (map payload_len q)
       then p\<lparr>pd_queue := Some (q @ [item])\<rparr> else p)"

definition pending_take :: "pending \<Rightarrow> (socket_addr \<times> bytes) list \<times> pending" where
  "pending_take p = (case pd_queue p of None \<Rightarrow> [] | Some q \<Rightarrow> q, p\<lparr>pd_queue := None\<rparr>)"

definition pending_close :: "pending \<Rightarrow> pending" where
  "pending_close p = p\<lparr>pd_queue := None\<rparr>"

section \<open>The state\<close>

datatype flow_kind = Symmetric | Fullcone

type_synonym flow_key = "socket_addr \<times> socket_addr"

datatype slot = SlotPending nat | SlotReady nat

primrec slot_id :: "slot \<Rightarrow> nat" where
  "slot_id (SlotPending i) = i"
| "slot_id (SlotReady i) = i"

record budgeted =
  bd_slot :: slot
  bd_ip :: ip_addr

record flow_entry =
  fe_kind :: flow_kind
  fe_last_seen :: nat
  fe_ip :: ip_addr
  fe_permit :: permit

record symmetric_session =
  sy_relay :: socket_addr
  sy_last_seen :: nat
  sy_routing_host :: "bytes option"
  sy_sniff_done :: bool
  sy_sniffer :: "quic_sniffer option"
  sy_fakeip_host :: "bytes option"
  sy_is_fakeip :: bool
  sy_direct :: bool
  sy_rec :: conn_id
  sy_proto :: conn_proto

record fullcone_session =
  fc_relay :: socket_addr
  fc_last_seen :: nat
  fc_idle :: nat
  fc_direct :: bool
  fc_rec :: conn_id
  fc_proto :: conn_proto

datatype open_stage = Opening | Opened | Installed

record open_task =
  tk_kind :: flow_kind
  tk_peer :: socket_addr
  tk_dst :: socket_addr
  tk_is_fakeip :: bool
  tk_fakeip_host :: "bytes option"
  tk_proto :: conn_proto
  tk_stage :: open_stage

record reader_task =
  rt_kind :: flow_kind
  rt_peer :: socket_addr
  rt_dst :: socket_addr
  rt_direct :: bool
  rt_rec :: conn_id
  rt_canonical :: "ip_addr option"

record 'n udp_engine =
  ue_symmetric :: "(flow_key \<times> budgeted) list"
  ue_fullcone :: "(socket_addr \<times> budgeted) list"
  ue_flow_path :: "(flow_key \<times> flow_entry) list"
  ue_spoof_cache :: "socket_addr spoof_cache"
  ue_idle_timeout :: nat
  ue_fwd_sym :: u64
  ue_fwd_fc :: u64
  ue_reply_sym :: u64
  ue_reply_fc :: u64
  ue_cloudflared :: bool
  ue_session_budget :: client_budget
  ue_flow_budget :: client_budget
  ue_max_sessions :: nat
  ue_max_flows :: nat
  ue_drops_flow :: u64
  ue_drops_session :: u64
  ue_last_drop :: "ip_addr option"
  ue_pendings :: "nat \<rightharpoonup> pending"
  ue_sym_sessions :: "nat \<rightharpoonup> symmetric_session"
  ue_fc_sessions :: "nat \<rightharpoonup> fullcone_session"
  ue_tasks :: "(nat \<times> open_task) list"
  ue_readers :: "(nat \<times> reader_task) list"
  ue_permits :: "(nat \<times> permit) list"
  ue_next :: nat
  ue_budget :: udp_budget
  ue_shared :: "'n shared"

definition udp_engine_new :: "nat \<Rightarrow> nat \<Rightarrow> bool \<Rightarrow> nat \<Rightarrow> nat \<Rightarrow> udp_budget \<Rightarrow> 'n shared \<Rightarrow> 'n udp_engine" where
  "udp_engine_new idle_timeout spoof_cap cloudflared max_flows max_sessions b sh =
     \<lparr> ue_symmetric = [], ue_fullcone = [], ue_flow_path = [], ue_spoof_cache = spoof_new spoof_cap, ue_idle_timeout = idle_timeout,
       ue_fwd_sym = 0, ue_fwd_fc = 0, ue_reply_sym = 0, ue_reply_fc = 0, ue_cloudflared = cloudflared,
       ue_session_budget = client_budget_new, ue_flow_budget = client_budget_new, ue_max_sessions = max_sessions,
       ue_max_flows = max_flows, ue_drops_flow = 0, ue_drops_session = 0, ue_last_drop = None, ue_pendings = Map.empty,
       ue_sym_sessions = Map.empty, ue_fc_sessions = Map.empty, ue_tasks = [], ue_readers = [], ue_permits = [], ue_next = 0,
       ue_budget = b, ue_shared = sh \<rparr>"

definition engine_len :: "'n udp_engine \<Rightarrow> nat" where
  "engine_len w = length (ue_symmetric w) + length (ue_fullcone w)"

definition engine_is_empty :: "'n udp_engine \<Rightarrow> bool" where
  "engine_is_empty w \<longleftrightarrow> ue_symmetric w = [] \<and> ue_fullcone w = []"

definition engine_inbound_kind :: "'n udp_engine \<Rightarrow> inbound_kind" where
  "engine_inbound_kind w = (if ue_cloudflared w then InCloudflared else InTProxy)"

definition note_flow_drop :: "ip_addr \<Rightarrow> 'n udp_engine \<Rightarrow> 'n udp_engine" where
  "note_flow_drop ip w = w\<lparr>ue_drops_flow := ue_drops_flow w + 1, ue_last_drop := Some ip\<rparr>"

definition note_session_drop :: "ip_addr \<Rightarrow> 'n udp_engine \<Rightarrow> 'n udp_engine" where
  "note_session_drop ip w = w\<lparr>ue_drops_session := ue_drops_session w + 1, ue_last_drop := Some ip\<rparr>"

text \<open>What leaves the machine. A relay socket is connected: to the relay of the SOCKS5 upstream, or to the destination.\<close>

datatype udp_out =
    ToRelay socket_addr bytes
  | ToDirect socket_addr bytes
  | SentTo socket_addr bytes
  | Spoofed socket_addr socket_addr bytes

section \<open>Tables and what their entries give back\<close>

definition add_up_to :: "conn_id \<Rightarrow> nat \<Rightarrow> 'n shared \<Rightarrow> 'n shared" where
  "add_up_to i n sh = sh\<lparr>sh_table := ct_modify i (add_up (of_nat n)) (sh_table sh)\<rparr>"

definition add_down_to :: "conn_id \<Rightarrow> nat \<Rightarrow> 'n shared \<Rightarrow> 'n shared" where
  "add_down_to i n sh = sh\<lparr>sh_table := ct_modify i (add_down (of_nat n)) (sh_table sh)\<rparr>"

definition set_head_of :: "conn_id \<Rightarrow> bytes \<Rightarrow> 'n shared \<Rightarrow> 'n shared" where
  "set_head_of i bs sh = sh\<lparr>sh_table := ct_modify i (set_head bs) (sh_table sh)\<rparr>"

definition close_record :: "nat \<Rightarrow> conn_id \<Rightarrow> 'n udp_engine \<Rightarrow> 'n udp_engine" where
  "close_record wall i w = w\<lparr>ue_shared := (ue_shared w)\<lparr>sh_table := ct_close wall i (sh_table (ue_shared w))\<rparr>\<rparr>"

text \<open>Removing an entry drops its token; the permit of a flow goes with it, that of a session when nothing else has it.\<close>

definition remove_symmetric :: "flow_key \<Rightarrow> 'n udp_engine \<Rightarrow> slot option \<times> 'n udp_engine" where
  "remove_symmetric k w = (case map_of (ue_symmetric w) k of
     None \<Rightarrow> (None, w)
   | Some b \<Rightarrow> (Some (bd_slot b), w\<lparr>ue_symmetric := AList.delete k (ue_symmetric w),
       ue_session_budget := token_drop (bd_ip b) (ue_session_budget w)\<rparr>))"

definition remove_fullcone :: "socket_addr \<Rightarrow> 'n udp_engine \<Rightarrow> slot option \<times> 'n udp_engine" where
  "remove_fullcone k w = (case map_of (ue_fullcone w) k of
     None \<Rightarrow> (None, w)
   | Some b \<Rightarrow> (Some (bd_slot b), w\<lparr>ue_fullcone := AList.delete k (ue_fullcone w),
       ue_session_budget := token_drop (bd_ip b) (ue_session_budget w)\<rparr>))"

definition remove_flow :: "flow_key \<Rightarrow> 'n udp_engine \<Rightarrow> 'n udp_engine option" where
  "remove_flow k w = (case map_of (ue_flow_path w) k of
     None \<Rightarrow> Some w
   | Some e \<Rightarrow> do {
       b \<leftarrow> permit_drop (fe_permit e) (ub_flows (ue_budget w));
       Some (w\<lparr>ue_flow_path := AList.delete k (ue_flow_path w), ue_flow_budget := token_drop (fe_ip e) (ue_flow_budget w),
         ue_budget := (ue_budget w)\<lparr>ub_flows := b\<rparr>\<rparr>) })"

fun remove_flows :: "flow_key list \<Rightarrow> 'n udp_engine \<Rightarrow> 'n udp_engine option" where
  "remove_flows [] w = Some w"
| "remove_flows (k # ks) w = do { w \<leftarrow> remove_flow k w; remove_flows ks w }"

section \<open>Classification\<close>

definition is_udp_skip_port :: "u16 \<Rightarrow> bool" where
  "is_udp_skip_port p \<longleftrightarrow> p \<in> {53, 67, 68, 123, 161, 162, 514, 1812, 1813}"

definition group_hint :: "socket_addr \<Rightarrow> 'n udp_engine \<Rightarrow> label option \<times> 'n udp_engine" where
  "group_hint dst w =
     (if ue_cloudflared w then (Some CF_LABEL, w)
      else let (l, hints) = hints_get (sa_ip dst) (sh_domain_ips (ue_shared w))
        in (l, w\<lparr>ue_shared := (ue_shared w)\<lparr>sh_domain_ips := hints\<rparr>\<rparr>))"

definition classify_udp_proto :: "(string \<Rightarrow> ip_addr \<Rightarrow> bool) \<Rightarrow> socket_addr \<Rightarrow> bytes \<Rightarrow> conn_proto \<Rightarrow> label option \<Rightarrow> conn_proto" where
  "classify_udp_proto contains dst first_payload fallback hint =
     (case (case match_ip_group contains (sa_ip dst) of Some l \<Rightarrow> Some l | None \<Rightarrow> hint) of
        Some label \<Rightarrow> PIpGroup label
      | None \<Rightarrow> if is_udp_skip_port (sa_port dst) then PSkipped
          else if is_quic_initial first_payload then PQuic else fallback)"

definition resolve_fakeip :: "'n ipv4net \<Rightarrow> socket_addr \<Rightarrow> 'n shared \<Rightarrow> ((bool \<times> bytes option) \<times> 'n shared) option" where
  "resolve_fakeip N dst sh =
     (case sh_fakeip sh of
        None \<Rightarrow> Some ((False, None), sh)
      | Some f \<Rightarrow>
          if pool_contains N f (sa_ip dst) then
            (case sa_ip dst of
               V4 v4 \<Rightarrow> map_option (\<lambda>(host, f'). ((True, host), sh\<lparr>sh_fakeip := Some f'\<rparr>)) (pool_lookback v4 f)
             | V6 _ \<Rightarrow> Some ((True, None), sh))
          else Some ((False, None), sh))"

definition in_fakeip :: "'n ipv4net \<Rightarrow> 'n shared \<Rightarrow> ip_addr \<Rightarrow> bool" where
  "in_fakeip N sh ip = (case sh_fakeip sh of None \<Rightarrow> False | Some f \<Rightarrow> pool_contains N f ip)"

text \<open>The kind of a flow, remembered per client and destination; no room for a new symmetric flow drops the datagram.\<close>

definition new_flow_kind :: "'n ipv4net \<Rightarrow> socket_addr \<Rightarrow> bytes \<Rightarrow> 'n udp_engine \<Rightarrow> flow_kind" where
  "new_flow_kind N dst dgram w =
     (if in_fakeip N (ue_shared w) (sa_ip dst) \<or> is_quic_initial dgram then Symmetric else Fullcone)"

definition flow_permits :: "flow_kind \<Rightarrow> ip_addr \<Rightarrow> 'n udp_engine \<Rightarrow> (ip_addr \<times> permit) option \<times> 'n udp_engine" where
  "flow_permits kind ip w =
     (let limit = (case kind of Symmetric \<Rightarrow> ue_max_flows w | Fullcone \<Rightarrow> ue_max_flows w - ue_max_sessions w);
          headroom = (case kind of Symmetric \<Rightarrow> 0 | Fullcone \<Rightarrow> bg_limits (ub_sessions (ue_budget w)) (ue_cloudflared w));
          client_headroom = (case kind of Symmetric \<Rightarrow> 0 | Fullcone \<Rightarrow> ue_max_sessions w)
      in case try_acquire ip limit (ue_flow_budget w) of
           None \<Rightarrow> (None, w)
         | Some (token, cb) \<Rightarrow>
             (case acquire_with_headroom ip (ue_cloudflared w) headroom client_headroom (ub_flows (ue_budget w)) of
                None \<Rightarrow> (None, w\<lparr>ue_flow_budget := token_drop token cb\<rparr>)
              | Some (p, b) \<Rightarrow> (Some (token, p), w\<lparr>ue_flow_budget := cb, ue_budget := (ue_budget w)\<lparr>ub_flows := b\<rparr>\<rparr>)))"

definition decide_flow_kind :: "'n ipv4net \<Rightarrow> nat \<Rightarrow> socket_addr \<Rightarrow> socket_addr \<Rightarrow> bytes \<Rightarrow> 'n udp_engine \<Rightarrow>
    flow_kind option \<times> 'n udp_engine" where
  "decide_flow_kind N now peer dst dgram w =
     (case map_of (ue_flow_path w) (peer, dst) of
        Some e \<Rightarrow> (Some (fe_kind e), w\<lparr>ue_flow_path := AList.update (peer, dst) (e\<lparr>fe_last_seen := now\<rparr>) (ue_flow_path w)\<rparr>)
      | None \<Rightarrow>
          let kind = new_flow_kind N dst dgram w in
          (case flow_permits kind (sa_ip peer) w of
             (Some (token, p), w') \<Rightarrow> (Some kind, w'\<lparr>ue_flow_path := AList.update (peer, dst)
               \<lparr> fe_kind = kind, fe_last_seen = now, fe_ip = token, fe_permit = p \<rparr> (ue_flow_path w')\<rparr>)
           | (None, w') \<Rightarrow> if kind = Fullcone then (Some kind, w') else (None, note_flow_drop (sa_ip peer) w')))"

section \<open>Forwarding\<close>

text \<open>
  What sniffing a datagram of a QUIC flow teaches: a name to route by, or a group of names whose
  addresses are remembered and whose datagrams keep their address. \<open>None\<close> is a panic of the sniffer.
\<close>

definition learn_sni :: "bytes \<Rightarrow> bool \<Rightarrow> socket_addr \<Rightarrow> symmetric_session \<Rightarrow> ip_hints \<Rightarrow> symmetric_session \<times> ip_hints" where
  "learn_sni h ech dst s hints =
     (let grp = (if sy_is_fakeip s then None else match_domain_group h);
          hints' = (case grp of None \<Rightarrow> hints | Some label \<Rightarrow> hints_note (sa_ip dst) label hints);
          s' = (if grp = None \<and> (sy_is_fakeip s \<or> \<not> ech) then s\<lparr>sy_routing_host := Some h\<rparr> else s)
      in (s'\<lparr>sy_sniffer := None, sy_sniff_done := True\<rparr>, hints'))"

definition sniff_datagram :: "quic_crypto \<Rightarrow> socket_addr \<Rightarrow> bytes \<Rightarrow> symmetric_session \<Rightarrow> ip_hints \<Rightarrow>
    (symmetric_session \<times> ip_hints) option" where
  "sniff_datagram C dst dgram s hints =
     (if sy_sniff_done s then Some (s, hints)
      else case sy_sniffer s of
        None \<Rightarrow> Some (s\<lparr>sy_sniff_done := True\<rparr>, hints)
      | Some sn \<Rightarrow> do {
          (_, sn) \<leftarrow> quic_feed C dgram sn;
          let (sni, sn) = try_take_sni sn;
          Some (case sni of
            Some h \<Rightarrow> learn_sni h (qs_ech_outer sn) dst s hints
          | None \<Rightarrow> if qs_done sn then (s\<lparr>sy_sniffer := None, sy_sniff_done := True\<rparr>, hints)
              else (s\<lparr>sy_sniffer := Some sn\<rparr>, hints)) })"

definition relay_frame :: "symmetric_session \<Rightarrow> socket_addr \<Rightarrow> bytes \<Rightarrow> unit + bytes option" where
  "relay_frame s dst dgram =
     (case sy_routing_host s of
        Some host \<Rightarrow> (case encode_udp_request_domain host (sa_port dst) dgram of Inl _ \<Rightarrow> Inl () | Inr f \<Rightarrow> Inr (Some f))
      | None \<Rightarrow> if sy_is_fakeip s then Inr None else Inr (Some (encode_udp_request dst dgram)))"

definition count_forwarded_sym :: "conn_id \<Rightarrow> bytes \<Rightarrow> 'n udp_engine \<Rightarrow> 'n udp_engine" where
  "count_forwarded_sym i dgram w = w\<lparr>ue_shared := add_up_to i (length dgram) (ue_shared w), ue_fwd_sym := ue_fwd_sym w + 1\<rparr>"

text \<open>Whether it went well, what was sent, and the state. \<open>sent\<close> is what the socket answers.\<close>

definition forward_symmetric :: "quic_crypto \<Rightarrow> bool \<Rightarrow> nat \<Rightarrow> socket_addr \<Rightarrow> bytes \<Rightarrow> 'n udp_engine \<Rightarrow>
    (bool \<times> udp_out list \<times> 'n udp_engine) option" where
  "forward_symmetric C sent i dst dgram w = do {
     s \<leftarrow> ue_sym_sessions w i;
     if sy_direct s then
       Some (if sent then (True, [ToDirect (sy_relay s) dgram], count_forwarded_sym (sy_rec s) dgram w) else (False, [], w))
     else do {
       (s, hints) \<leftarrow> sniff_datagram C dst dgram s (sh_domain_ips (ue_shared w));
       let w = w\<lparr>ue_sym_sessions := (ue_sym_sessions w)(i \<mapsto> s), ue_shared := (ue_shared w)\<lparr>sh_domain_ips := hints\<rparr>\<rparr>;
       Some (case relay_frame s dst dgram of
         Inl _ \<Rightarrow> (False, [], w)
       | Inr None \<Rightarrow> (True, [], w)
       | Inr (Some f) \<Rightarrow> if sent then (True, [ToRelay (sy_relay s) f], count_forwarded_sym (sy_rec s) dgram w)
           else (False, [], w)) } }"

definition forward_fullcone :: "bool \<Rightarrow> nat \<Rightarrow> socket_addr \<Rightarrow> bytes \<Rightarrow> 'n udp_engine \<Rightarrow> (bool \<times> udp_out list \<times> 'n udp_engine) option" where
  "forward_fullcone sent i dst dgram w = do {
     s \<leftarrow> ue_fc_sessions w i;
     Some (if sent then (True, [if fc_direct s then SentTo dst dgram else ToRelay (fc_relay s) (encode_udp_request dst dgram)],
         w\<lparr>ue_shared := add_up_to (fc_rec s) (length dgram) (ue_shared w), ue_fwd_fc := ue_fwd_fc w + 1\<rparr>)
       else (False, [], w)) }"

section \<open>Datagrams\<close>

definition touch_symmetric :: "nat \<Rightarrow> nat \<Rightarrow> 'n udp_engine \<Rightarrow> 'n udp_engine" where
  "touch_symmetric now i w = w\<lparr>ue_sym_sessions := (ue_sym_sessions w)(i := map_option (sy_last_seen_update (\<lambda>_. now)) (ue_sym_sessions w i))\<rparr>"

definition touch_fullcone :: "nat \<Rightarrow> nat \<Rightarrow> 'n udp_engine \<Rightarrow> 'n udp_engine" where
  "touch_fullcone now i w = w\<lparr>ue_fc_sessions := (ue_fc_sessions w)(i := map_option (fc_last_seen_update (\<lambda>_. now)) (ue_fc_sessions w i))\<rparr>"

definition push_pending :: "nat \<Rightarrow> socket_addr \<times> bytes \<Rightarrow> 'n udp_engine \<Rightarrow> 'n udp_engine" where
  "push_pending i item w = w\<lparr>ue_pendings := (ue_pendings w)(i := map_option (pending_push item) (ue_pendings w i))\<rparr>"

definition close_pending :: "nat \<Rightarrow> 'n udp_engine \<Rightarrow> 'n udp_engine" where
  "close_pending i w = w\<lparr>ue_pendings := (ue_pendings w)(i := map_option pending_close (ue_pendings w i))\<rparr>"

text \<open>Room for a new session: a token of the client, a permit of the process, and a queue with the first datagram.\<close>

definition admit_session :: "nat \<Rightarrow> ip_addr \<Rightarrow> socket_addr \<times> bytes \<Rightarrow> 'n udp_engine \<Rightarrow> 'n udp_engine + nat \<times> budgeted \<times> 'n udp_engine" where
  "admit_session now ip item w =
     (case try_acquire ip (ue_max_sessions w) (ue_session_budget w) of
        None \<Rightarrow> Inl (note_session_drop ip w)
      | Some (token, cb) \<Rightarrow>
          (case acquire ip (ue_cloudflared w) (ub_sessions (ue_budget w)) of
             None \<Rightarrow> Inl (note_session_drop ip (w\<lparr>ue_session_budget := token_drop token cb\<rparr>))
           | Some (p, b) \<Rightarrow>
               let i = ue_next w in
               Inr (i, \<lparr> bd_slot = SlotPending i, bd_ip = token \<rparr>,
                 w\<lparr>ue_session_budget := cb, ue_budget := (ue_budget w)\<lparr>ub_sessions := b\<rparr>, ue_permits := (i, p) # ue_permits w,
                   ue_pendings := (ue_pendings w)(i \<mapsto> pending_new item now), ue_next := i + 1\<rparr>)))"

definition spawn_open_symmetric :: "'n ipv4net \<Rightarrow> (string \<Rightarrow> ip_addr \<Rightarrow> bool) \<Rightarrow> socket_addr \<Rightarrow> socket_addr \<Rightarrow> bytes \<Rightarrow> nat \<Rightarrow>
    'n udp_engine \<Rightarrow> 'n udp_engine option" where
  "spawn_open_symmetric N contains peer dst first_payload i w = do {
     ((is_fakeip, host), sh) \<leftarrow> resolve_fakeip N dst (ue_shared w);
     let fallback = (if host \<noteq> None then PFakeIp else PRealIp);
     let (hint, w) = group_hint dst (w\<lparr>ue_shared := sh\<rparr>);
     let proto = classify_udp_proto contains dst first_payload fallback hint;
     Some (w\<lparr>ue_tasks := (i, \<lparr> tk_kind = Symmetric, tk_peer = peer, tk_dst = dst, tk_is_fakeip = is_fakeip, tk_fakeip_host = host,
       tk_proto = proto, tk_stage = Opening \<rparr>) # ue_tasks w\<rparr>) }"

definition spawn_open_fullcone :: "(string \<Rightarrow> ip_addr \<Rightarrow> bool) \<Rightarrow> socket_addr \<Rightarrow> socket_addr \<Rightarrow> bytes \<Rightarrow> nat \<Rightarrow> 'n udp_engine \<Rightarrow> 'n udp_engine" where
  "spawn_open_fullcone contains peer dst first_payload i w =
     (let (hint, w) = group_hint dst w;
          proto = classify_udp_proto contains dst first_payload PRealIp hint
      in w\<lparr>ue_tasks := (i, \<lparr> tk_kind = Fullcone, tk_peer = peer, tk_dst = dst, tk_is_fakeip = False, tk_fakeip_host = None,
           tk_proto = proto, tk_stage = Opening \<rparr>) # ue_tasks w\<rparr>)"

definition handle_symmetric :: "quic_crypto \<Rightarrow> 'n ipv4net \<Rightarrow> (string \<Rightarrow> ip_addr \<Rightarrow> bool) \<Rightarrow> nat \<Rightarrow> bool \<Rightarrow> socket_addr \<Rightarrow> socket_addr \<Rightarrow>
    bytes \<Rightarrow> 'n udp_engine \<Rightarrow> (udp_out list \<times> 'n udp_engine) option" where
  "handle_symmetric C N contains now sent peer dst dgram w =
     (case map_of (ue_symmetric w) (peer, dst) of
        Some b \<Rightarrow>
          (case bd_slot b of
             SlotReady i \<Rightarrow> map_option snd (forward_symmetric C sent i dst dgram (touch_symmetric now i w))
           | SlotPending i \<Rightarrow> Some ([], push_pending i (dst, dgram) w))
      | None \<Rightarrow>
          (case admit_session now (sa_ip peer) (dst, dgram) w of
             Inl w' \<Rightarrow> Some ([], w')
           | Inr (i, b, w') \<Rightarrow> map_option (Pair [])
               (spawn_open_symmetric N contains peer dst dgram i (w'\<lparr>ue_symmetric := AList.update (peer, dst) b (ue_symmetric w')\<rparr>))))"

definition handle_fullcone :: "(string \<Rightarrow> ip_addr \<Rightarrow> bool) \<Rightarrow> nat \<Rightarrow> bool \<Rightarrow> socket_addr \<Rightarrow> socket_addr \<Rightarrow>
    bytes \<Rightarrow> 'n udp_engine \<Rightarrow> (udp_out list \<times> 'n udp_engine) option" where
  "handle_fullcone contains now sent peer dst dgram w =
     (case map_of (ue_fullcone w) peer of
        Some b \<Rightarrow>
          (case bd_slot b of
             SlotReady i \<Rightarrow> map_option snd (forward_fullcone sent i dst dgram (touch_fullcone now i w))
           | SlotPending i \<Rightarrow> Some ([], push_pending i (dst, dgram) w))
      | None \<Rightarrow>
          (case admit_session now (sa_ip peer) (dst, dgram) w of
             Inl w' \<Rightarrow> Some ([], w')
           | Inr (i, b, w') \<Rightarrow>
               Some ([], spawn_open_fullcone contains peer dst dgram i (w'\<lparr>ue_fullcone := AList.update peer b (ue_fullcone w')\<rparr>))))"

definition dispatch_packet :: "quic_crypto \<Rightarrow> 'n ipv4net \<Rightarrow> (string \<Rightarrow> ip_addr \<Rightarrow> bool) \<Rightarrow> nat \<Rightarrow> bool \<Rightarrow> bool \<Rightarrow> socket_addr \<Rightarrow>
    socket_addr \<Rightarrow> bytes \<Rightarrow> 'n udp_engine \<Rightarrow> (udp_out list \<times> 'n udp_engine) option" where
  "dispatch_packet C N contains now tun_ready sent peer dst dgram w =
     (if \<not> ue_cloudflared w \<and> \<not> proxy_allowed N (sa_ip peer) (ue_shared w) then Some ([], w)
      else if \<not> ue_cloudflared w \<and> rc_block_quic (route_load (sh_route (ue_shared w))) \<and> is_quic_initial dgram then Some ([], w)
      else if \<not> tun_ready then Some ([], w)
      else case decide_flow_kind N now peer dst dgram w of
        (None, w') \<Rightarrow> Some ([], w')
      | (Some Symmetric, w') \<Rightarrow> handle_symmetric C N contains now sent peer dst dgram w'
      | (Some Fullcone, w') \<Rightarrow> handle_fullcone contains now sent peer dst dgram w')"

section \<open>Opening a session\<close>

text \<open>
  How the upstream answers: the SOCKS5 relay's address if the association succeeds, or, going out
  directly, the resolver's answer for the name and whether the socket could be made.
\<close>

datatype upstream = UpSocks5 "socket_addr option" | UpDirect "u32 option" bool

definition register_udp_record :: "nat \<Rightarrow> socket_addr \<Rightarrow> socket_addr \<Rightarrow> conn_proto \<Rightarrow> bytes option \<Rightarrow> 'n udp_engine \<Rightarrow>
    conn_id \<times> 'n udp_engine" where
  "register_udp_record wall peer dst proto domain w =
     (let sh = ue_shared w;
          (i, ids) = next_id (sh_ids sh);
          r = with_inbound (engine_inbound_kind w) Udp
            (conn_record_new i (sa_ip peer, sa_port peer) (sa_ip dst, sa_port dst) proto domain)
      in (i, w\<lparr>ue_shared := sh\<lparr>sh_ids := ids, sh_table := ct_insert wall r (sh_table sh)\<rparr>\<rparr>))"

definition is_group :: "conn_proto \<Rightarrow> bool" where
  "is_group p = (case p of PIpGroup _ \<Rightarrow> True | _ \<Rightarrow> False)"

definition start_symmetric :: "nat \<Rightarrow> nat \<Rightarrow> nat \<Rightarrow> open_task \<Rightarrow> bool \<Rightarrow> socket_addr \<Rightarrow> 'n udp_engine \<Rightarrow> 'n udp_engine" where
  "start_symmetric now wall i t direct relay w =
     (let (r, w) = register_udp_record wall (tk_peer t) (tk_dst t) (tk_proto t) (tk_fakeip_host t) w;
          sniff = (\<not> direct \<and> \<not> is_group (tk_proto t))
      in w\<lparr>ue_readers := (i, \<lparr> rt_kind = Symmetric, rt_peer = tk_peer t, rt_dst = tk_dst t, rt_direct = direct, rt_rec = r,
             rt_canonical = None \<rparr>) # ue_readers w,
           ue_sym_sessions := (ue_sym_sessions w)(i \<mapsto>
             \<lparr> sy_relay = relay, sy_last_seen = now, sy_routing_host = tk_fakeip_host t, sy_sniff_done = (\<not> sniff),
               sy_sniffer = (if sniff then Some quic_sniffer_new else None), sy_fakeip_host = tk_fakeip_host t,
               sy_is_fakeip = tk_is_fakeip t, sy_direct = direct, sy_rec = r, sy_proto = tk_proto t \<rparr>)\<rparr>)"

definition start_fullcone :: "nat \<Rightarrow> nat \<Rightarrow> nat \<Rightarrow> open_task \<Rightarrow> bool \<Rightarrow> socket_addr \<Rightarrow> 'n udp_engine \<Rightarrow> 'n udp_engine" where
  "start_fullcone now wall i t direct relay w =
     (let (r, w) = register_udp_record wall (tk_peer t) (tk_dst t) (tk_proto t) None w
      in w\<lparr>ue_readers := (i, \<lparr> rt_kind = Fullcone, rt_peer = tk_peer t, rt_dst = tk_dst t, rt_direct = direct, rt_rec = r,
             rt_canonical = None \<rparr>) # ue_readers w,
           ue_fc_sessions := (ue_fc_sessions w)(i \<mapsto>
             \<lparr> fc_relay = relay, fc_last_seen = now, fc_idle = idle_for_dst (sa_port (tk_dst t)) (ue_idle_timeout w),
               fc_direct = direct, fc_rec = r, fc_proto = tk_proto t \<rparr>)\<rparr>)"

text \<open>A symmetric session has its reply socket bound before it starts.\<close>

definition bound_then :: "nat \<Rightarrow> bool \<Rightarrow> socket_addr \<Rightarrow> ('n udp_engine \<Rightarrow> 'n udp_engine) \<Rightarrow> 'n udp_engine \<Rightarrow> bool \<times> 'n udp_engine" where
  "bound_then now bind_ok dst start w =
     (case get_or_bind now (if bind_ok then Some dst else None) dst (ue_spoof_cache w) of
        (None, c) \<Rightarrow> (False, w\<lparr>ue_spoof_cache := c\<rparr>)
      | (Some _, c) \<Rightarrow> (True, start (w\<lparr>ue_spoof_cache := c\<rparr>)))"

definition direct_dst :: "open_task \<Rightarrow> u32 option \<Rightarrow> socket_addr option" where
  "direct_dst t resolved = (case tk_fakeip_host t of
     Some _ \<Rightarrow> map_option (\<lambda>ip. \<lparr> sa_ip = V4 ip, sa_port = sa_port (tk_dst t) \<rparr>) resolved
   | None \<Rightarrow> if \<not> tk_is_fakeip t then Some (tk_dst t) else None)"

definition open_symmetric_session :: "nat \<Rightarrow> nat \<Rightarrow> nat \<Rightarrow> open_task \<Rightarrow> socket_addr option \<Rightarrow> bool \<Rightarrow> 'n udp_engine \<Rightarrow> bool \<times> 'n udp_engine" where
  "open_symmetric_session now wall i t relay bind_ok w = (case relay of
     None \<Rightarrow> (False, w)
   | Some r \<Rightarrow> bound_then now bind_ok (tk_dst t) (start_symmetric now wall i t False r) w)"

definition open_direct_symmetric_session :: "nat \<Rightarrow> nat \<Rightarrow> nat \<Rightarrow> open_task \<Rightarrow> u32 option \<Rightarrow> bool \<Rightarrow> bool \<Rightarrow> 'n udp_engine \<Rightarrow> bool \<times> 'n udp_engine" where
  "open_direct_symmetric_session now wall i t resolved socket_ok bind_ok w = (case direct_dst t resolved of
     None \<Rightarrow> (False, w)
   | Some real \<Rightarrow> if \<not> socket_ok then (False, w)
       else bound_then now bind_ok (tk_dst t) (start_symmetric now wall i t True real) w)"

definition open_fullcone_session :: "nat \<Rightarrow> nat \<Rightarrow> nat \<Rightarrow> open_task \<Rightarrow> socket_addr option \<Rightarrow> 'n udp_engine \<Rightarrow> bool \<times> 'n udp_engine" where
  "open_fullcone_session now wall i t relay w = (case relay of
     None \<Rightarrow> (False, w)
   | Some r \<Rightarrow> (True, start_fullcone now wall i t False r w))"

definition open_direct_fullcone_session :: "nat \<Rightarrow> nat \<Rightarrow> nat \<Rightarrow> open_task \<Rightarrow> bool \<Rightarrow> 'n udp_engine \<Rightarrow> bool \<times> 'n udp_engine" where
  "open_direct_fullcone_session now wall i t socket_ok w =
     (if \<not> socket_ok then (False, w) else (True, start_fullcone now wall i t True (tk_dst t) w))"

definition open_session :: "nat \<Rightarrow> nat \<Rightarrow> nat \<Rightarrow> open_task \<Rightarrow> upstream \<Rightarrow> bool \<Rightarrow> 'n udp_engine \<Rightarrow> bool \<times> 'n udp_engine" where
  "open_session now wall i t up bind_ok w = (case (tk_kind t, up) of
     (Symmetric, UpSocks5 relay) \<Rightarrow> open_symmetric_session now wall i t relay bind_ok w
   | (Symmetric, UpDirect resolved socket_ok) \<Rightarrow> open_direct_symmetric_session now wall i t resolved socket_ok bind_ok w
   | (Fullcone, UpSocks5 relay) \<Rightarrow> open_fullcone_session now wall i t relay w
   | (Fullcone, UpDirect _ socket_ok) \<Rightarrow> open_direct_fullcone_session now wall i t socket_ok w)"

text \<open>The slot of a task, if it still is the task's own.\<close>

definition slot_of :: "open_task \<Rightarrow> 'n udp_engine \<Rightarrow> slot option" where
  "slot_of t w = map_option bd_slot (case tk_kind t of
     Symmetric \<Rightarrow> map_of (ue_symmetric w) (tk_peer t, tk_dst t)
   | Fullcone \<Rightarrow> map_of (ue_fullcone w) (tk_peer t))"

definition remove_slot :: "open_task \<Rightarrow> 'n udp_engine \<Rightarrow> 'n udp_engine" where
  "remove_slot t w = (case tk_kind t of
     Symmetric \<Rightarrow> snd (remove_symmetric (tk_peer t, tk_dst t) w)
   | Fullcone \<Rightarrow> snd (remove_fullcone (tk_peer t) w))"

definition set_ready :: "nat \<Rightarrow> open_task \<Rightarrow> 'n udp_engine \<Rightarrow> 'n udp_engine" where
  "set_ready i t w = (case tk_kind t of
     Symmetric \<Rightarrow> w\<lparr>ue_symmetric := AList.map_entry (tk_peer t, tk_dst t) (bd_slot_update (\<lambda>_. SlotReady i)) (ue_symmetric w)\<rparr>
   | Fullcone \<Rightarrow> w\<lparr>ue_fullcone := AList.map_entry (tk_peer t) (bd_slot_update (\<lambda>_. SlotReady i)) (ue_fullcone w)\<rparr>)"

definition set_stage :: "nat \<Rightarrow> open_stage \<Rightarrow> 'n udp_engine \<Rightarrow> 'n udp_engine" where
  "set_stage i st w = w\<lparr>ue_tasks := AList.map_entry i (tk_stage_update (\<lambda>_. st)) (ue_tasks w)\<rparr>"

definition end_task :: "nat \<Rightarrow> 'n udp_engine \<Rightarrow> 'n udp_engine" where
  "end_task i w = w\<lparr>ue_tasks := AList.delete i (ue_tasks w)\<rparr>"

text \<open>The three steps of a task: the upstream answers, the session takes its slot, the queue is flushed.\<close>

definition task_rec :: "nat \<Rightarrow> open_task \<Rightarrow> 'n udp_engine \<Rightarrow> conn_id option" where
  "task_rec i t w = (case tk_kind t of
     Symmetric \<Rightarrow> map_option sy_rec (ue_sym_sessions w i)
   | Fullcone \<Rightarrow> map_option fc_rec (ue_fc_sessions w i))"

definition task_open :: "nat \<Rightarrow> nat \<Rightarrow> nat \<Rightarrow> open_task \<Rightarrow> upstream \<Rightarrow> bool \<Rightarrow> 'n udp_engine \<Rightarrow> 'n udp_engine" where
  "task_open now wall i t up bind_ok w =
     (case open_session now wall i t up bind_ok w of
        (True, w') \<Rightarrow> set_stage i Opened w'
      | (False, w') \<Rightarrow>
          let w'' = close_pending i w' in
          end_task i (if slot_of t w'' = Some (SlotPending i) then remove_slot t w'' else w''))"

definition task_install :: "nat \<Rightarrow> nat \<Rightarrow> open_task \<Rightarrow> 'n udp_engine \<Rightarrow> 'n udp_engine option" where
  "task_install wall i t w =
     (if slot_of t w = Some (SlotPending i) then Some (set_stage i Installed (set_ready i t w))
      else do { r \<leftarrow> task_rec i t w; Some (end_task i (close_record wall r w)) })"

fun flush_symmetric :: "quic_crypto \<Rightarrow> nat \<Rightarrow> socket_addr \<Rightarrow> (bytes \<times> bool) list \<Rightarrow> 'n udp_engine \<Rightarrow>
    (udp_out list \<times> 'n udp_engine) option" where
  "flush_symmetric C i dst [] w = Some ([], w)"
| "flush_symmetric C i dst ((p, sent) # ps) w = do {
     (fine, out, w) \<leftarrow> forward_symmetric C sent i dst p w;
     if fine then do { (outs, w) \<leftarrow> flush_symmetric C i dst ps w; Some (out @ outs, w) } else Some (out, w) }"

fun flush_fullcone :: "nat \<Rightarrow> ((socket_addr \<times> bytes) \<times> bool) list \<Rightarrow> 'n udp_engine \<Rightarrow> (udp_out list \<times> 'n udp_engine) option" where
  "flush_fullcone i [] w = Some ([], w)"
| "flush_fullcone i (((dst, p), sent) # ps) w = do {
     (fine, out, w) \<leftarrow> forward_fullcone sent i dst p w;
     if fine then do { (outs, w) \<leftarrow> flush_fullcone i ps w; Some (out @ outs, w) } else Some (out, w) }"

definition take_pending :: "nat \<Rightarrow> 'n udp_engine \<Rightarrow> (socket_addr \<times> bytes) list \<times> 'n udp_engine" where
  "take_pending i w = (case ue_pendings w i of
     None \<Rightarrow> ([], w)
   | Some p \<Rightarrow> let (pkts, p') = pending_take p in (pkts, w\<lparr>ue_pendings := (ue_pendings w)(i \<mapsto> p')\<rparr>))"

definition wants_head :: "flow_kind \<Rightarrow> conn_proto \<Rightarrow> bool" where
  "wants_head kind proto \<longleftrightarrow> (case kind of Symmetric \<Rightarrow> proto = PFakeIp \<or> proto = PRealIp | Fullcone \<Rightarrow> proto = PRealIp)"

text \<open>\<open>sent k\<close> is what the socket answers to the \<open>k\<close>-th datagram of the queue.\<close>

definition task_flush :: "quic_crypto \<Rightarrow> (nat \<Rightarrow> bool) \<Rightarrow> nat \<Rightarrow> open_task \<Rightarrow> 'n udp_engine \<Rightarrow> (udp_out list \<times> 'n udp_engine) option" where
  "task_flush C sent i t w = do {
     r \<leftarrow> task_rec i t w;
     let (pkts, w) = take_pending i w;
     let w = (if wants_head (tk_kind t) (tk_proto t) \<and> pkts \<noteq> []
              then w\<lparr>ue_shared := set_head_of r (snd (hd pkts)) (ue_shared w)\<rparr> else w);
     let answers = map sent [0..<length pkts];
     (outs, w) \<leftarrow> (case tk_kind t of
        Symmetric \<Rightarrow> flush_symmetric C i (tk_dst t) (zip (map snd pkts) answers) w
      | Fullcone \<Rightarrow> flush_fullcone i (zip pkts answers) w);
     Some (outs, end_task i w) }"

section \<open>Replies\<close>

definition symmetric_spoof_src :: "ip_addr option \<Rightarrow> socket_addr \<Rightarrow> socket_addr \<Rightarrow> socket_addr option \<times> ip_addr option" where
  "symmetric_spoof_src canonical src dst =
     (if sa_ip src = V4 0 \<or> sa_ip src = V6 0 then (None, canonical)
      else let canon = (case canonical of None \<Rightarrow> sa_ip src | Some c \<Rightarrow> c) in
        (if sa_ip src = canon then
           (if sa_port src = sa_port dst then None else Some \<lparr> sa_ip = sa_ip dst, sa_port = sa_port src \<rparr>)
         else Some src,
         Some canon))"

definition count_reply :: "flow_kind \<Rightarrow> 'n udp_engine \<Rightarrow> 'n udp_engine" where
  "count_reply kind w = (case kind of
     Symmetric \<Rightarrow> w\<lparr>ue_reply_sym := ue_reply_sym w + 1\<rparr>
   | Fullcone \<Rightarrow> w\<lparr>ue_reply_fc := ue_reply_fc w + 1\<rparr>)"

text \<open>A reply sent through the cache, from a source that may have to be bound first.\<close>

definition send_spoofed :: "nat \<Rightarrow> bool \<Rightarrow> bool \<Rightarrow> socket_addr \<Rightarrow> ('n udp_engine \<Rightarrow> 'n udp_engine) \<Rightarrow> socket_addr \<Rightarrow> bytes \<Rightarrow>
    'n udp_engine \<Rightarrow> udp_out list \<times> 'n udp_engine" where
  "send_spoofed now bind_ok sent src counted peer dgram w =
     (case get_or_bind now (if bind_ok then Some src else None) src (ue_spoof_cache w) of
        (None, c) \<Rightarrow> ([], w\<lparr>ue_spoof_cache := c\<rparr>)
      | (Some sock, c) \<Rightarrow> if sent then ([Spoofed sock peer dgram], counted (w\<lparr>ue_spoof_cache := c\<rparr>))
          else ([], w\<lparr>ue_spoof_cache := c\<rparr>))"

definition set_canonical :: "nat \<Rightarrow> ip_addr option \<Rightarrow> 'n udp_engine \<Rightarrow> 'n udp_engine" where
  "set_canonical i c w = w\<lparr>ue_readers := AList.map_entry i (rt_canonical_update (\<lambda>_. c)) (ue_readers w)\<rparr>"

definition downloaded :: "conn_id \<Rightarrow> bytes \<Rightarrow> 'n udp_engine \<Rightarrow> 'n udp_engine" where
  "downloaded r dgram w = w\<lparr>ue_shared := add_down_to r (length dgram) (ue_shared w)\<rparr>"

text \<open>A frame from the SOCKS5 relay.\<close>

definition relay_reply :: "nat \<Rightarrow> bool \<Rightarrow> bool \<Rightarrow> nat \<Rightarrow> reader_task \<Rightarrow> bytes \<Rightarrow> 'n udp_engine \<Rightarrow> (udp_out list \<times> 'n udp_engine) option" where
  "relay_reply now bind_ok sent i t frame w = do {
     decoded \<leftarrow> decode_udp_reply frame;
     Some (case decoded of
       Inl _ \<Rightarrow> ([], w)
     | Inr (src, off) \<Rightarrow>
         let dgram = drop off frame; w = downloaded (rt_rec t) dgram w in
         (case rt_kind t of
            Symmetric \<Rightarrow>
              let (alt, canon) = symmetric_spoof_src (rt_canonical t) src (rt_dst t); w = set_canonical i canon w in
              (case alt of
                 None \<Rightarrow> if sent then ([Spoofed (rt_dst t) (rt_peer t) dgram], count_reply Symmetric w) else ([], w)
               | Some s \<Rightarrow> send_spoofed now bind_ok sent s (count_reply Symmetric) (rt_peer t) dgram w)
          | Fullcone \<Rightarrow>
              let s = (if sa_ip src = V4 0 \<or> sa_ip src = V6 0 then rt_dst t else src) in
              send_spoofed now bind_ok sent s (count_reply Fullcone) (rt_peer t) dgram w)) }"

text \<open>A datagram on a direct socket, from \<open>src\<close>.\<close>

definition direct_reply :: "nat \<Rightarrow> bool \<Rightarrow> bool \<Rightarrow> reader_task \<Rightarrow> socket_addr \<Rightarrow> bytes \<Rightarrow> 'n udp_engine \<Rightarrow> udp_out list \<times> 'n udp_engine" where
  "direct_reply now bind_ok sent t src dgram w =
     (let counted = (\<lambda>w. count_reply (rt_kind t) (downloaded (rt_rec t) dgram w)) in
      case rt_kind t of
        Symmetric \<Rightarrow> if sent then ([Spoofed (rt_dst t) (rt_peer t) dgram], counted w) else ([], w)
      | Fullcone \<Rightarrow> send_spoofed now bind_ok sent src counted (rt_peer t) dgram w)"

definition full_cone_flows :: "socket_addr \<Rightarrow> 'n udp_engine \<Rightarrow> flow_key list" where
  "full_cone_flows peer w = map fst (filter (\<lambda>(k, e). fst k = peer \<and> fe_kind e = Fullcone) (ue_flow_path w))"

text \<open>The reader ends by itself: its entries go, whatever now stands there.\<close>

definition reader_exit :: "nat \<Rightarrow> nat \<Rightarrow> reader_task \<Rightarrow> 'n udp_engine \<Rightarrow> 'n udp_engine option" where
  "reader_exit wall i t w = do {
     w \<leftarrow> (case rt_kind t of
       Symmetric \<Rightarrow> remove_flow (rt_peer t, rt_dst t) (snd (remove_symmetric (rt_peer t, rt_dst t) w))
     | Fullcone \<Rightarrow> let w' = snd (remove_fullcone (rt_peer t) w) in remove_flows (full_cone_flows (rt_peer t) w') w');
     Some ((close_record wall (rt_rec t) w)\<lparr>ue_readers := AList.delete i (ue_readers w)\<rparr>) }"

section \<open>The idle sweep\<close>

definition expired :: "nat \<Rightarrow> nat \<Rightarrow> nat \<Rightarrow> bool" where
  "expired now last_seen limit \<longleftrightarrow> now - last_seen > limit"

definition symmetric_dead :: "nat \<Rightarrow> 'n udp_engine \<Rightarrow> flow_key \<Rightarrow> slot \<Rightarrow> bool" where
  "symmetric_dead now w k s = (case s of
     SlotReady i \<Rightarrow> (case ue_sym_sessions w i of
       Some t \<Rightarrow> expired now (sy_last_seen t) (idle_for_dst (sa_port (snd k)) (ue_idle_timeout w)) | None \<Rightarrow> False)
   | SlotPending i \<Rightarrow> (case ue_pendings w i of Some p \<Rightarrow> expired now (pd_created p) (ue_idle_timeout w) | None \<Rightarrow> False))"

definition fullcone_dead :: "nat \<Rightarrow> 'n udp_engine \<Rightarrow> slot \<Rightarrow> bool" where
  "fullcone_dead now w s = (case s of
     SlotReady i \<Rightarrow> (case ue_fc_sessions w i of Some t \<Rightarrow> expired now (fc_last_seen t) (fc_idle t) | None \<Rightarrow> False)
   | SlotPending i \<Rightarrow> (case ue_pendings w i of Some p \<Rightarrow> expired now (pd_created p) (ue_idle_timeout w) | None \<Rightarrow> False))"

definition flow_dead :: "nat \<Rightarrow> 'n udp_engine \<Rightarrow> flow_key \<Rightarrow> flow_entry \<Rightarrow> bool" where
  "flow_dead now w k e = expired now (fe_last_seen e) (idle_for_dst (sa_port (snd k)) (ue_idle_timeout w))"

definition close_session_record :: "nat \<Rightarrow> conn_id option \<Rightarrow> 'n udp_engine \<Rightarrow> 'n udp_engine" where
  "close_session_record wall r w = (case r of None \<Rightarrow> w | Some i \<Rightarrow> close_record wall i w)"

fun sweep_symmetric :: "nat \<Rightarrow> flow_key list \<Rightarrow> 'n udp_engine \<Rightarrow> 'n udp_engine option" where
  "sweep_symmetric wall [] w = Some w"
| "sweep_symmetric wall (k # ks) w = do {
     let (s, w) = remove_symmetric k w;
     let w = (case s of Some (SlotReady i) \<Rightarrow> close_session_record wall (map_option sy_rec (ue_sym_sessions w i)) w | _ \<Rightarrow> w);
     w \<leftarrow> remove_flow k w;
     sweep_symmetric wall ks w }"

fun sweep_fullcone :: "nat \<Rightarrow> socket_addr list \<Rightarrow> 'n udp_engine \<Rightarrow> 'n udp_engine" where
  "sweep_fullcone wall [] w = w"
| "sweep_fullcone wall (k # ks) w =
     (let (s, w) = remove_fullcone k w;
          w = (case s of Some (SlotReady i) \<Rightarrow> close_session_record wall (map_option fc_rec (ue_fc_sessions w i)) w | _ \<Rightarrow> w)
      in sweep_fullcone wall ks w)"

definition sweep_idle :: "nat \<Rightarrow> nat \<Rightarrow> 'n udp_engine \<Rightarrow> ((nat \<times> nat \<times> nat) \<times> 'n udp_engine) option" where
  "sweep_idle now wall w = do {
     let dead_sym = map fst (filter (\<lambda>(k, b). symmetric_dead now w k (bd_slot b)) (ue_symmetric w));
     w \<leftarrow> sweep_symmetric wall dead_sym w;
     let dead_fc = map fst (filter (\<lambda>(k, b). fullcone_dead now w (bd_slot b)) (ue_fullcone w));
     let w = sweep_fullcone wall dead_fc w;
     let dead_fp = map fst (filter (\<lambda>(k, e). flow_dead now w k e) (ue_flow_path w));
     w \<leftarrow> remove_flows dead_fp w;
     Some ((length dead_sym, length dead_fc, length dead_fp), w) }"

section \<open>Events\<close>

text \<open>What still has the permit of opening \<open>i\<close>: a slot's token, the opening task, the reader.\<close>

definition permit_owners :: "'n udp_engine \<Rightarrow> nat list" where
  "permit_owners w = map (\<lambda>e. slot_id (bd_slot (snd e))) (ue_symmetric w) @ map (\<lambda>e. slot_id (bd_slot (snd e))) (ue_fullcone w) @
     map fst (ue_tasks w) @ map fst (ue_readers w)"

fun drop_permits :: "permit list \<Rightarrow> budget \<Rightarrow> budget option" where
  "drop_permits [] b = Some b"
| "drop_permits (p # ps) b = do { b \<leftarrow> permit_drop p b; drop_permits ps b }"

definition drop_unowned :: "'n udp_engine \<Rightarrow> 'n udp_engine option" where
  "drop_unowned w = do {
     b \<leftarrow> drop_permits (map snd (filter (\<lambda>e. fst e \<notin> set (permit_owners w)) (ue_permits w))) (ub_sessions (ue_budget w));
     Some (w\<lparr>ue_permits := filter (\<lambda>e. fst e \<in> set (permit_owners w)) (ue_permits w),
             ue_budget := (ue_budget w)\<lparr>ub_sessions := b\<rparr>\<rparr>) }"

text \<open>A session lives in its slot, and in its task once that has opened it; dropping it aborts its reader.\<close>

definition session_live :: "nat \<Rightarrow> 'n udp_engine \<Rightarrow> bool" where
  "session_live i w \<longleftrightarrow> (\<exists>b \<in> snd ` set (ue_symmetric w) \<union> snd ` set (ue_fullcone w). bd_slot b = SlotReady i) \<or>
     (case map_of (ue_tasks w) i of None \<Rightarrow> False | Some t \<Rightarrow> tk_stage t \<noteq> Opening)"

datatype udp_event =
    Packet socket_addr socket_addr bytes bool bool
  | TaskOpen nat upstream bool
  | TaskInstall nat
  | TaskFlush nat "nat \<Rightarrow> bool"
  | Reply nat socket_addr bytes bool bool
  | ReaderExit nat
  | ReaderAborted nat
  | Sweep

definition act :: "quic_crypto \<Rightarrow> 'n ipv4net \<Rightarrow> (string \<Rightarrow> ip_addr \<Rightarrow> bool) \<Rightarrow> nat \<Rightarrow> nat \<Rightarrow> udp_event \<Rightarrow> 'n udp_engine \<Rightarrow>
    (udp_out list \<times> 'n udp_engine) option" where
  "act C N contains now wall ev w = (case ev of
     Packet peer dst dgram tun_ready sent \<Rightarrow> dispatch_packet C N contains now tun_ready sent peer dst dgram w
   | TaskOpen i up bind_ok \<Rightarrow> (case map_of (ue_tasks w) i of
       Some t \<Rightarrow> Some ([], if tk_stage t = Opening then task_open now wall i t up bind_ok w else w) | None \<Rightarrow> Some ([], w))
   | TaskInstall i \<Rightarrow> (case map_of (ue_tasks w) i of
       Some t \<Rightarrow> if tk_stage t = Opened then map_option (Pair []) (task_install wall i t w) else Some ([], w) | None \<Rightarrow> Some ([], w))
   | TaskFlush i sent \<Rightarrow> (case map_of (ue_tasks w) i of
       Some t \<Rightarrow> if tk_stage t = Installed then task_flush C sent i t w else Some ([], w) | None \<Rightarrow> Some ([], w))
   | Reply i src data bind_ok sent \<Rightarrow> (case map_of (ue_readers w) i of
       Some t \<Rightarrow> if rt_direct t then Some (direct_reply now bind_ok sent t src data w) else relay_reply now bind_ok sent i t data w
     | None \<Rightarrow> Some ([], w))
   | ReaderExit i \<Rightarrow> (case map_of (ue_readers w) i of
       Some t \<Rightarrow> map_option (Pair []) (reader_exit wall i t w) | None \<Rightarrow> Some ([], w))
   | ReaderAborted i \<Rightarrow> Some ([], if session_live i w then w else w\<lparr>ue_readers := AList.delete i (ue_readers w)\<rparr>)
   | Sweep \<Rightarrow> map_option (\<lambda>(_, w). ([], w)) (sweep_idle now wall w))"

definition udp_step :: "quic_crypto \<Rightarrow> 'n ipv4net \<Rightarrow> (string \<Rightarrow> ip_addr \<Rightarrow> bool) \<Rightarrow> nat \<Rightarrow> nat \<Rightarrow> udp_event \<Rightarrow> 'n udp_engine \<Rightarrow>
    (udp_out list \<times> 'n udp_engine) option" where
  "udp_step C N contains now wall ev w = do {
     (outs, w) \<leftarrow> act C N contains now wall ev w;
     w \<leftarrow> drop_unowned w;
     Some (outs, w) }"

end
