(* ===== verification/UdpSafety.thy ===== *)
theory UdpSafety
  imports UdpEngine
begin

text \<open>
  What the UDP engine keeps in every reachable state: its books (tokens, permits and budgets agree with the
  tables, and stay within their limits), its facts (sessions, tasks and queues belong to the flows they
  say, and no datagram for a FakeIP address waits where addresses are forwarded), and that no event
  panics; then that an idle engine empties itself, and what a datagram looks like to the upstream.
\<close>

section \<open>The books\<close>

definition session_tokens :: "'n udp_engine \<Rightarrow> ip_addr multiset" where
  "session_tokens w = mset (map (\<lambda>e. bd_ip (snd e)) (ue_symmetric w)) + mset (map (\<lambda>e. bd_ip (snd e)) (ue_fullcone w))"

definition flow_tokens :: "'n udp_engine \<Rightarrow> ip_addr multiset" where
  "flow_tokens w = mset (map (\<lambda>e. fe_ip (snd e)) (ue_flow_path w))"

definition flow_permit_bag :: "'n udp_engine \<Rightarrow> permit multiset" where
  "flow_permit_bag w = mset (map (\<lambda>e. fe_permit (snd e)) (ue_flow_path w))"

definition session_permit_bag :: "'n udp_engine \<Rightarrow> permit multiset" where
  "session_permit_bag w = mset (map snd (ue_permits w))"

definition keys_distinct :: "'n udp_engine \<Rightarrow> bool" where
  "keys_distinct w \<longleftrightarrow> distinct (map fst (ue_symmetric w)) \<and> distinct (map fst (ue_fullcone w)) \<and>
     distinct (map fst (ue_flow_path w)) \<and> distinct (map fst (ue_tasks w)) \<and> distinct (map fst (ue_readers w)) \<and>
     distinct (map fst (ue_permits w))"

definition tokens_named :: "'n udp_engine \<Rightarrow> bool" where
  "tokens_named w \<longleftrightarrow> (\<forall>e \<in> set (ue_symmetric w). bd_ip (snd e) = sa_ip (fst (fst e))) \<and>
     (\<forall>e \<in> set (ue_fullcone w). bd_ip (snd e) = sa_ip (fst e)) \<and>
     (\<forall>e \<in> set (ue_flow_path w). fe_ip (snd e) = sa_ip (fst (fst e)))"

text \<open>\<open>S\<close> and \<open>F\<close> are the permits that other parts of the program hold of the two process-wide budgets.\<close>

definition books :: "permit multiset \<Rightarrow> permit multiset \<Rightarrow> 'n udp_engine \<Rightarrow> bool" where
  "books S F w \<longleftrightarrow> keys_distinct w \<and> tokens_named w \<and>
     client_holds (ue_max_sessions w) (ue_session_budget w) (session_tokens w) \<and>
     client_holds (ue_max_flows w) (ue_flow_budget w) (flow_tokens w) \<and>
     budget_holds (ub_sessions (ue_budget w)) (session_permit_bag w + S) \<and>
     budget_holds (ub_flows (ue_budget w)) (flow_permit_bag w + F) \<and>
     set (permit_owners w) \<subseteq> fst ` set (ue_permits w) \<and> (\<forall>i \<in> fst ` set (ue_permits w). i < ue_next w)"

lemmas books_defs = books_def keys_distinct_def tokens_named_def session_tokens_def flow_tokens_def flow_permit_bag_def
  session_permit_bag_def permit_owners_def

text \<open>What never changes: the settings of the engine and of the budgets.\<close>

definition config_of :: "'n udp_engine \<Rightarrow> bool \<times> nat \<times> nat \<times> nat \<times> (bool \<Rightarrow> nat) \<times> nat \<times> (bool \<Rightarrow> nat) \<times> nat" where
  "config_of w = (ue_cloudflared w, ue_idle_timeout w, ue_max_flows w, ue_max_sessions w, bg_limits (ub_sessions (ue_budget w)),
     bg_per_client (ub_sessions (ue_budget w)), bg_limits (ub_flows (ue_budget w)), bg_per_client (ub_flows (ue_budget w)))"

lemma books_plain [simp]:
  "books S F (w\<lparr>ue_shared := x1\<rparr>) = books S F w" "books S F (w\<lparr>ue_spoof_cache := x2\<rparr>) = books S F w"
  "books S F (w\<lparr>ue_fwd_sym := x3\<rparr>) = books S F w" "books S F (w\<lparr>ue_fwd_fc := x3\<rparr>) = books S F w"
  "books S F (w\<lparr>ue_reply_sym := x3\<rparr>) = books S F w" "books S F (w\<lparr>ue_reply_fc := x3\<rparr>) = books S F w"
  "books S F (w\<lparr>ue_drops_flow := x3\<rparr>) = books S F w" "books S F (w\<lparr>ue_drops_session := x3\<rparr>) = books S F w"
  "books S F (w\<lparr>ue_last_drop := x4\<rparr>) = books S F w" "books S F (w\<lparr>ue_pendings := x5\<rparr>) = books S F w"
  "books S F (w\<lparr>ue_sym_sessions := x6\<rparr>) = books S F w" "books S F (w\<lparr>ue_fc_sessions := x7\<rparr>) = books S F w"
  by (simp_all add: books_defs)

lemma config_plain [simp]:
  "config_of (w\<lparr>ue_shared := x1\<rparr>) = config_of w" "config_of (w\<lparr>ue_spoof_cache := x2\<rparr>) = config_of w"
  "config_of (w\<lparr>ue_fwd_sym := x3\<rparr>) = config_of w" "config_of (w\<lparr>ue_fwd_fc := x3\<rparr>) = config_of w"
  "config_of (w\<lparr>ue_reply_sym := x3\<rparr>) = config_of w" "config_of (w\<lparr>ue_reply_fc := x3\<rparr>) = config_of w"
  "config_of (w\<lparr>ue_drops_flow := x3\<rparr>) = config_of w" "config_of (w\<lparr>ue_drops_session := x3\<rparr>) = config_of w"
  "config_of (w\<lparr>ue_last_drop := x4\<rparr>) = config_of w" "config_of (w\<lparr>ue_pendings := x5\<rparr>) = config_of w"
  "config_of (w\<lparr>ue_sym_sessions := x6\<rparr>) = config_of w" "config_of (w\<lparr>ue_fc_sessions := x7\<rparr>) = config_of w"
  "config_of (w\<lparr>ue_symmetric := x8\<rparr>) = config_of w" "config_of (w\<lparr>ue_fullcone := x9\<rparr>) = config_of w"
  "config_of (w\<lparr>ue_flow_path := x10\<rparr>) = config_of w" "config_of (w\<lparr>ue_tasks := x11\<rparr>) = config_of w"
  "config_of (w\<lparr>ue_readers := x12\<rparr>) = config_of w" "config_of (w\<lparr>ue_permits := x13\<rparr>) = config_of w"
  "config_of (w\<lparr>ue_next := x14\<rparr>) = config_of w" "config_of (w\<lparr>ue_session_budget := x15\<rparr>) = config_of w"
  "config_of (w\<lparr>ue_flow_budget := x15\<rparr>) = config_of w"
  by (simp_all add: config_of_def)

lemma remove_symmetric_books:
  assumes "books S F w" and "remove_symmetric k w = (s, w')"
  shows "books S F w'" and "config_of w' = config_of w"
proof -
  have "books S F w' \<and> config_of w' = config_of w"
  proof (cases "map_of (ue_symmetric w) k")
    case (Some b)
    have d: "distinct (map fst (ue_symmetric w))" using assms(1) by (simp add: books_defs)
    have w': "w' = w\<lparr>ue_symmetric := AList.delete k (ue_symmetric w), ue_session_budget := token_drop (bd_ip b) (ue_session_budget w)\<rparr>"
      using assms(2) Some by (simp add: remove_symmetric_def)
    have t: "session_tokens w = add_mset (bd_ip b) (session_tokens w')"
      using delete_image_bag [OF d Some, of "\<lambda>e. bd_ip (snd e)"] by (simp add: session_tokens_def w')
    then have "client_holds (ue_max_sessions w) (token_drop (bd_ip b) (ue_session_budget w)) (session_tokens w')"
      using client_released [of "ue_max_sessions w" "ue_session_budget w" "session_tokens w" "bd_ip b"] assms(1)
      by (simp add: books_def)
    then show ?thesis using assms(1) unfolding w'
      by (auto simp: books_defs set_delete distinct_delete config_of_def)
  qed (use assms in \<open>simp add: remove_symmetric_def\<close>)
  then show "books S F w'" "config_of w' = config_of w" by simp_all
qed

lemma remove_fullcone_books:
  assumes "books S F w" and "remove_fullcone k w = (s, w')"
  shows "books S F w'" and "config_of w' = config_of w"
proof -
  have "books S F w' \<and> config_of w' = config_of w"
  proof (cases "map_of (ue_fullcone w) k")
    case (Some b)
    have d: "distinct (map fst (ue_fullcone w))" using assms(1) by (simp add: books_defs)
    have w': "w' = w\<lparr>ue_fullcone := AList.delete k (ue_fullcone w), ue_session_budget := token_drop (bd_ip b) (ue_session_budget w)\<rparr>"
      using assms(2) Some by (simp add: remove_fullcone_def)
    have t: "session_tokens w = add_mset (bd_ip b) (session_tokens w')"
      using delete_image_bag [OF d Some, of "\<lambda>e. bd_ip (snd e)"] by (simp add: session_tokens_def w')
    then have "client_holds (ue_max_sessions w) (token_drop (bd_ip b) (ue_session_budget w)) (session_tokens w')"
      using client_released [of "ue_max_sessions w" "ue_session_budget w" "session_tokens w" "bd_ip b"] assms(1)
      by (simp add: books_def)
    then show ?thesis using assms(1) unfolding w'
      by (auto simp: books_defs set_delete distinct_delete config_of_def)
  qed (use assms in \<open>simp add: remove_fullcone_def\<close>)
  then show "books S F w'" "config_of w' = config_of w" by simp_all
qed

lemma remove_flow_books:
  assumes "books S F w"
  shows "\<exists>w'. remove_flow k w = Some w' \<and> books S F w' \<and> config_of w' = config_of w"
proof (cases "map_of (ue_flow_path w) k")
  case (Some e)
  have d: "distinct (map fst (ue_flow_path w))" using assms by (simp add: books_defs)
  let ?rest = "AList.delete k (ue_flow_path w)"
  have p: "flow_permit_bag w = add_mset (fe_permit e) (mset (map (\<lambda>e. fe_permit (snd e)) ?rest))"
    and t: "flow_tokens w = add_mset (fe_ip e) (mset (map (\<lambda>e. fe_ip (snd e)) ?rest))"
    using delete_image_bag [OF d Some, of "\<lambda>e. fe_permit (snd e)"] delete_image_bag [OF d Some, of "\<lambda>e. fe_ip (snd e)"]
    by (simp_all add: flow_permit_bag_def flow_tokens_def)
  obtain b where b: "permit_drop (fe_permit e) (ub_flows (ue_budget w)) = Some b"
      "budget_holds b (mset (map (\<lambda>e. fe_permit (snd e)) ?rest) + F)"
      "bg_limits b = bg_limits (ub_flows (ue_budget w))" "bg_per_client b = bg_per_client (ub_flows (ue_budget w))"
    using budget_released [of "ub_flows (ue_budget w)" "flow_permit_bag w + F" "fe_permit e"] assms p by (auto simp: books_def)
  have c: "client_holds (ue_max_flows w) (token_drop (fe_ip e) (ue_flow_budget w)) (mset (map (\<lambda>e. fe_ip (snd e)) ?rest))"
    using client_released [of "ue_max_flows w" "ue_flow_budget w" "flow_tokens w" "fe_ip e"] assms t by (simp add: books_def)
  define w' where "w' = w\<lparr>ue_flow_path := ?rest, ue_flow_budget := token_drop (fe_ip e) (ue_flow_budget w),
      ue_budget := (ue_budget w)\<lparr>ub_flows := b\<rparr>\<rparr>"
  have "books S F w'" using assms b(2) c unfolding w'_def by (auto simp: books_defs set_delete distinct_delete)
  then show ?thesis using Some b unfolding remove_flow_def w'_def by (simp add: config_of_def)
qed (use assms in \<open>simp add: remove_flow_def\<close>)

lemma remove_flows_books:
  "books S F w \<Longrightarrow> \<exists>w'. remove_flows ks w = Some w' \<and> books S F w' \<and> config_of w' = config_of w"
proof (induction ks arbitrary: w)
  case (Cons k ks)
  then obtain w1 where w1: "remove_flow k w = Some w1" "books S F w1" "config_of w1 = config_of w" using remove_flow_books by blast
  then show ?case using Cons.IH [OF w1(2)] by simp
qed simp

lemma flow_permits_books:
  assumes b: "books S F w" and f: "flow_permits kind ip w = (r, w')" and new: "map_of (ue_flow_path w) k = None" and ip: "ip = sa_ip (fst k)"
  shows "case r of None \<Rightarrow> books S F w' \<and> config_of w' = config_of w
    | Some (token, p) \<Rightarrow> config_of w' = config_of w \<and>
        books S F (w'\<lparr>ue_flow_path := AList.update k \<lparr> fe_kind = kd, fe_last_seen = now, fe_ip = token, fe_permit = p \<rparr> (ue_flow_path w')\<rparr>)"
proof -
  let ?limit = "case kind of Symmetric \<Rightarrow> ue_max_flows w | Fullcone \<Rightarrow> ue_max_flows w - ue_max_sessions w"
  let ?h = "case kind of Symmetric \<Rightarrow> 0 | Fullcone \<Rightarrow> bg_limits (ub_sessions (ue_budget w)) (ue_cloudflared w)"
  let ?ch = "case kind of Symmetric \<Rightarrow> 0 | Fullcone \<Rightarrow> ue_max_sessions w"
  have l: "?limit \<le> ue_max_flows w" by (cases kind) auto
  have c: "client_holds (ue_max_flows w) (ue_flow_budget w) (flow_tokens w)" using b by (simp add: books_def)
  show ?thesis
  proof (cases "try_acquire ip ?limit (ue_flow_budget w)")
    case None
    then have "r = None" "w' = w" using f by (auto simp: flow_permits_def)
    then show ?thesis using b by simp
  next
    case (Some tc)
    then obtain token cb where t: "try_acquire ip ?limit (ue_flow_budget w) = Some (token, cb)" by (cases tc) auto
    note got = client_acquired [OF c t l]
    show ?thesis
    proof (cases "acquire_with_headroom ip (ue_cloudflared w) ?h ?ch (ub_flows (ue_budget w))")
      case None
      then have r: "r = None" "w' = w\<lparr>ue_flow_budget := token_drop token cb\<rparr>" using f t by (auto simp: flow_permits_def)
      have "client_holds (ue_max_flows w) (token_drop token cb) (flow_tokens w)" using client_released [OF got(1), of token] got(2) by simp
      then show ?thesis using b r by (simp add: books_defs)
    next
      case (Some pb)
      then obtain p bu where p: "acquire_with_headroom ip (ue_cloudflared w) ?h ?ch (ub_flows (ue_budget w)) = Some (p, bu)" by (cases pb) auto
      then have r: "r = Some (token, p)" "w' = w\<lparr>ue_flow_budget := cb, ue_budget := (ue_budget w)\<lparr>ub_flows := bu\<rparr>\<rparr>"
        using f t by (auto simp: flow_permits_def)
      have "budget_holds (ub_flows (ue_budget w)) (flow_permit_bag w + F)" using b by (simp add: books_def)
      note acquired = budget_acquired [OF this p]
      have n: "k \<notin> fst ` set (ue_flow_path w)" using new by (simp add: map_of_eq_None_iff)
      then show ?thesis using b r got acquired ip unfolding books_defs
        by (auto simp: update_new [OF new] config_of_def)
    qed
  qed
qed

lemma decide_flow_kind_books:
  assumes "books S F w" and "decide_flow_kind N now peer dst dgram w = (r, w')"
  shows "books S F w'" and "config_of w' = config_of w"
proof -
  have "books S F w' \<and> config_of w' = config_of w"
  proof (cases "map_of (ue_flow_path w) (peer, dst)")
    case (Some e)
    have w': "w' = w\<lparr>ue_flow_path := AList.update (peer, dst) (e\<lparr>fe_last_seen := now\<rparr>) (ue_flow_path w)\<rparr>"
      using assms(2) Some by (simp add: decide_flow_kind_def)
    have im: "map f (AList.update (peer, dst) (e\<lparr>fe_last_seen := now\<rparr>) (ue_flow_path w)) = map f (ue_flow_path w)"
      if "f ((peer, dst), e\<lparr>fe_last_seen := now\<rparr>) = f ((peer, dst), e)" for f :: "_ \<Rightarrow> 'b"
      using Some that by (rule update_image)
    have "fe_ip e = sa_ip peer" using assms(1) Some by (auto simp: books_def tokens_named_def dest!: map_of_SomeD)
    then have "\<forall>x \<in> set (AList.update (peer, dst) (e\<lparr>fe_last_seen := now\<rparr>) (ue_flow_path w)). fe_ip (snd x) = sa_ip (fst (fst x))"
      using assms(1) set_update_subset [of "(peer, dst)" "e\<lparr>fe_last_seen := now\<rparr>" "ue_flow_path w"]
      by (auto simp: books_def tokens_named_def)
    then show ?thesis using assms(1) im [of fst] im [of "\<lambda>e. fe_ip (snd e)"] im [of "\<lambda>e. fe_permit (snd e)"]
      unfolding w' by (simp add: books_defs)
  next
    case None
    obtain o' w1 where p: "flow_permits (new_flow_kind N dst dgram w) (sa_ip peer) w = (o', w1)" by fastforce
    from flow_permits_books [OF assms(1) p None] have
      "case o' of None \<Rightarrow> books S F w1 \<and> config_of w1 = config_of w
       | Some (token, p) \<Rightarrow> config_of w1 = config_of w \<and>
        books S F (w1\<lparr>ue_flow_path := AList.update (peer, dst) \<lparr> fe_kind = new_flow_kind N dst dgram w, fe_last_seen = now,
          fe_ip = token, fe_permit = p \<rparr> (ue_flow_path w1)\<rparr>)" by simp
    then show ?thesis using assms(2) None p
      by (auto simp: decide_flow_kind_def note_flow_drop_def Let_def split: option.splits prod.splits if_splits)
  qed
  then show "books S F w'" "config_of w' = config_of w" by simp_all
qed

lemma admit_refused:
  assumes "books S F w" and "admit_session now ip item w = Inl w'"
  shows "books S F w'" and "config_of w' = config_of w"
proof -
  have c: "client_holds (ue_max_sessions w) (ue_session_budget w) (session_tokens w)" using assms(1) by (simp add: books_def)
  have "books S F w' \<and> config_of w' = config_of w"
  proof (cases "try_acquire ip (ue_max_sessions w) (ue_session_budget w)")
    case None
    then show ?thesis using assms by (auto simp: admit_session_def note_session_drop_def)
  next
    case (Some tc)
    then obtain token cb where t: "try_acquire ip (ue_max_sessions w) (ue_session_budget w) = Some (token, cb)" by (cases tc) auto
    have "client_holds (ue_max_sessions w) (token_drop token cb) (session_tokens w)"
      using client_released [OF client_acquired(1) [OF c t order_refl], of token] client_acquired(2) [OF c t order_refl] by simp
    moreover have "w' = note_session_drop ip (w\<lparr>ue_session_budget := token_drop token cb\<rparr>)"
      using assms(2) t by (auto simp: admit_session_def Let_def split: option.splits)
    ultimately show ?thesis using assms(1) by (auto simp: note_session_drop_def) (simp add: books_defs)
  qed
  then show "books S F w'" "config_of w' = config_of w" by simp_all
qed

lemma admit_accepted:
  assumes b: "books S F w" and a: "admit_session now ip item w = Inr (i, bd, w')"
  obtains cb p bu where "w' = w\<lparr>ue_session_budget := cb, ue_budget := (ue_budget w)\<lparr>ub_sessions := bu\<rparr>, ue_permits := (i, p) # ue_permits w,
      ue_pendings := (ue_pendings w)(i \<mapsto> pending_new item now), ue_next := i + 1\<rparr>"
    and "i = ue_next w" and "bd = \<lparr> bd_slot = SlotPending i, bd_ip = ip \<rparr>"
    and "client_holds (ue_max_sessions w) cb (add_mset ip (session_tokens w))"
    and "budget_holds bu (add_mset p (session_permit_bag w + S))" and "config_of w' = config_of w"
proof -
  have c: "client_holds (ue_max_sessions w) (ue_session_budget w) (session_tokens w)"
    "budget_holds (ub_sessions (ue_budget w)) (session_permit_bag w + S)" using b by (simp_all add: books_def)
  obtain token cb where t: "try_acquire ip (ue_max_sessions w) (ue_session_budget w) = Some (token, cb)"
    using a by (auto simp: admit_session_def split: option.splits)
  obtain p bu where p: "acquire_with_headroom ip (ue_cloudflared w) 0 0 (ub_sessions (ue_budget w)) = Some (p, bu)"
    using a t by (auto simp: admit_session_def acquire_def split: option.splits)
  note got = client_acquired [OF c(1) t order_refl] budget_acquired [OF c(2) p]
  show ?thesis
    by (rule that [where cb = cb and p = p and bu = bu]) (use a t p got in \<open>auto simp: admit_session_def acquire_def Let_def config_of_def\<close>)
qed

lemma admit_symmetric_books:
  assumes b: "books S F w" and a: "admit_session now (sa_ip (fst k)) item w = Inr (i, bd, w')" and new: "map_of (ue_symmetric w) k = None"
  shows "books S F (w'\<lparr>ue_symmetric := AList.update k bd (ue_symmetric w')\<rparr>)"
proof -
  obtain cb p bu where w': "w' = w\<lparr>ue_session_budget := cb, ue_budget := (ue_budget w)\<lparr>ub_sessions := bu\<rparr>, ue_permits := (i, p) # ue_permits w,
      ue_pendings := (ue_pendings w)(i \<mapsto> pending_new item now), ue_next := i + 1\<rparr>" "i = ue_next w"
      "bd = \<lparr> bd_slot = SlotPending i, bd_ip = sa_ip (fst k) \<rparr>"
      "client_holds (ue_max_sessions w) cb (add_mset (sa_ip (fst k)) (session_tokens w))"
      "budget_holds bu (add_mset p (session_permit_bag w + S))"
    using admit_accepted [OF b a] by metis
  have "k \<notin> fst ` set (ue_symmetric w)" using new by (simp add: map_of_eq_None_iff)
  then show ?thesis using b w'(4,5) unfolding w'(1-3) books_defs by (auto simp: update_new [OF new])
qed

lemma admit_fullcone_books:
  assumes b: "books S F w" and a: "admit_session now (sa_ip k) item w = Inr (i, bd, w')" and new: "map_of (ue_fullcone w) k = None"
  shows "books S F (w'\<lparr>ue_fullcone := AList.update k bd (ue_fullcone w')\<rparr>)"
proof -
  obtain cb p bu where w': "w' = w\<lparr>ue_session_budget := cb, ue_budget := (ue_budget w)\<lparr>ub_sessions := bu\<rparr>, ue_permits := (i, p) # ue_permits w,
      ue_pendings := (ue_pendings w)(i \<mapsto> pending_new item now), ue_next := i + 1\<rparr>" "i = ue_next w"
      "bd = \<lparr> bd_slot = SlotPending i, bd_ip = sa_ip k \<rparr>"
      "client_holds (ue_max_sessions w) cb (add_mset (sa_ip k) (session_tokens w))"
      "budget_holds bu (add_mset p (session_permit_bag w + S))"
    using admit_accepted [OF b a] by metis
  have "k \<notin> fst ` set (ue_fullcone w)" using new by (simp add: map_of_eq_None_iff)
  then show ?thesis using b w'(4,5) unfolding w'(1-3) books_defs by (auto simp: update_new [OF new])
qed

lemma new_task_books:
  assumes "books S F w" and "i \<in> fst ` set (ue_permits w)" and "i \<notin> fst ` set (ue_tasks w)"
  shows "books S F (w\<lparr>ue_tasks := (i, t) # ue_tasks w\<rparr>)"
  using assms by (auto simp: books_defs)

lemma new_reader_books:
  assumes "books S F w" and "i \<in> fst ` set (ue_tasks w)" and "i \<notin> fst ` set (ue_readers w)"
  shows "books S F (w\<lparr>ue_readers := (i, t) # ue_readers w\<rparr>)"
  using assms by (auto simp: books_defs)

lemma task_changes_books [simp]:
  "books S F w \<Longrightarrow> books S F (set_stage i st w)" "books S F w \<Longrightarrow> books S F (end_task i w)"
  "books S F w \<Longrightarrow> books S F (set_canonical i c w)"
  "books S F w \<Longrightarrow> books S F (w\<lparr>ue_readers := AList.delete i (ue_readers w)\<rparr>)"
proof -
  have k: "fst ` set (AList.map_entry i g al) = fst ` set al" for g and al :: "('a \<times> 'b) list" and i
    using map_entry_keys [of i g al] by (metis set_map)
  show "books S F w \<Longrightarrow> books S F (set_stage i st w)" "books S F w \<Longrightarrow> books S F (set_canonical i c w)"
    by (simp_all add: books_defs set_stage_def set_canonical_def k)
  show "books S F w \<Longrightarrow> books S F (end_task i w)" "books S F w \<Longrightarrow> books S F (w\<lparr>ue_readers := AList.delete i (ue_readers w)\<rparr>)"
    by (auto simp: books_defs end_task_def set_delete distinct_delete)
qed

lemma task_changes_config [simp]:
  "config_of (set_stage i st w) = config_of w" "config_of (end_task i w) = config_of w" "config_of (set_canonical i c w) = config_of w"
  "config_of (close_record wall r w) = config_of w" "config_of (close_pending i w) = config_of w" "config_of (push_pending i x w) = config_of w"
  "config_of (set_ready i t w) = config_of w"
  by (simp_all add: set_stage_def end_task_def set_canonical_def close_record_def close_pending_def push_pending_def set_ready_def
      split: flow_kind.splits)

lemma plain_changes_books [simp]:
  "books S F (close_record wall r w) = books S F w" "books S F (close_pending i w) = books S F w" "books S F (push_pending i x w) = books S F w"
  "books S F (touch_symmetric now i w) = books S F w" "books S F (touch_fullcone now i w) = books S F w"
  by (simp_all add: close_record_def close_pending_def push_pending_def touch_symmetric_def touch_fullcone_def)

lemma set_ready_books:
  assumes "books S F w" and "slot_of t w = Some (SlotPending i)"
  shows "books S F (set_ready i t w)"
proof (cases "tk_kind t")
  case Symmetric
  let ?k = "(tk_peer t, tk_dst t)"
  obtain b where b: "map_of (ue_symmetric w) ?k = Some b" "bd_slot b = SlotPending i"
    using assms(2) Symmetric by (auto simp: slot_of_def)
  let ?g = "bd_slot_update (\<lambda>_. SlotReady i)"
  have im: "map f (AList.map_entry ?k ?g (ue_symmetric w)) = map f (ue_symmetric w)"
    if "f (?k, ?g b) = f (?k, b)" for f :: "_ \<Rightarrow> 'x" using b(1) that by (rule map_entry_image_at)
  have "tokens_named (set_ready i t w)"
    using assms(1) map_entry_ball [OF b(1), of "\<lambda>e. bd_ip (snd e) = sa_ip (fst (fst e))" ?g] Symmetric
    by (simp add: set_ready_def books_def tokens_named_def)
  moreover have "permit_owners (set_ready i t w) = permit_owners w" "session_tokens (set_ready i t w) = session_tokens w"
    using im [of "\<lambda>e. slot_id (bd_slot (snd e))"] im [of "\<lambda>e. bd_ip (snd e)"] Symmetric b(2)
    by (simp_all add: set_ready_def permit_owners_def session_tokens_def)
  ultimately show ?thesis using assms(1) Symmetric
    by (simp add: books_def keys_distinct_def set_ready_def flow_tokens_def flow_permit_bag_def session_permit_bag_def)
next
  case Fullcone
  obtain b where b: "map_of (ue_fullcone w) (tk_peer t) = Some b" "bd_slot b = SlotPending i"
    using assms(2) Fullcone by (auto simp: slot_of_def)
  let ?g = "bd_slot_update (\<lambda>_. SlotReady i)"
  have im: "map f (AList.map_entry (tk_peer t) ?g (ue_fullcone w)) = map f (ue_fullcone w)"
    if "f (tk_peer t, ?g b) = f (tk_peer t, b)" for f :: "_ \<Rightarrow> 'x" using b(1) that by (rule map_entry_image_at)
  have "tokens_named (set_ready i t w)"
    using assms(1) map_entry_ball [OF b(1), of "\<lambda>e. bd_ip (snd e) = sa_ip (fst e)" ?g] Fullcone
    by (simp add: set_ready_def books_def tokens_named_def)
  moreover have "permit_owners (set_ready i t w) = permit_owners w" "session_tokens (set_ready i t w) = session_tokens w"
    using im [of "\<lambda>e. slot_id (bd_slot (snd e))"] im [of "\<lambda>e. bd_ip (snd e)"] Fullcone b(2)
    by (simp_all add: set_ready_def permit_owners_def session_tokens_def)
  ultimately show ?thesis using assms(1) Fullcone
    by (simp add: books_def keys_distinct_def set_ready_def flow_tokens_def flow_permit_bag_def session_permit_bag_def)
qed

lemma drop_permits_holds:
  "budget_holds b (mset ps + qs) \<Longrightarrow> \<exists>b'. drop_permits ps b = Some b' \<and> budget_holds b' qs \<and> bg_limits b' = bg_limits b \<and>
    bg_per_client b' = bg_per_client b"
proof (induction ps arbitrary: b)
  case (Cons p ps)
  then obtain b1 where b1: "permit_drop p b = Some b1" "budget_holds b1 (mset ps + qs)" "bg_limits b1 = bg_limits b"
      "bg_per_client b1 = bg_per_client b"
    using budget_released [of b "mset (p # ps) + qs" p] by auto
  then show ?case using Cons.IH [OF b1(2)] by auto
qed simp

lemma drop_unowned_books:
  assumes "books S F w"
  shows "\<exists>w'. drop_unowned w = Some w' \<and> books S F w' \<and> config_of w' = config_of w \<and> fst ` set (ue_permits w') = set (permit_owners w')"
proof -
  let ?own = "\<lambda>e. fst e \<in> set (permit_owners w)"
  note split = partition_bag [of snd "ue_permits w" ?own]
  have "budget_holds (ub_sessions (ue_budget w)) (mset (map snd (filter (\<lambda>e. \<not> ?own e) (ue_permits w))) + (mset (map snd (filter ?own (ue_permits w))) + S))"
    using assms split by (simp add: books_def session_permit_bag_def add.assoc)
  from drop_permits_holds [OF this] obtain b where b:
    "drop_permits (map snd (filter (\<lambda>e. \<not> ?own e) (ue_permits w))) (ub_sessions (ue_budget w)) = Some b"
    "budget_holds b (mset (map snd (filter ?own (ue_permits w))) + S)"
    "bg_limits b = bg_limits (ub_sessions (ue_budget w))" "bg_per_client b = bg_per_client (ub_sessions (ue_budget w))" by blast
  define w' where "w' = w\<lparr>ue_permits := filter ?own (ue_permits w), ue_budget := (ue_budget w)\<lparr>ub_sessions := b\<rparr>\<rparr>"
  have o': "permit_owners w' = permit_owners w" by (simp add: w'_def permit_owners_def)
  have "drop_unowned w = Some w'" using b(1) by (simp add: drop_unowned_def w'_def)
  moreover have own: "fst ` set (ue_permits w') = set (permit_owners w')"
    using assms unfolding o' by (auto simp: w'_def books_def)
  moreover have "books S F w'"
  proof -
    have "keys_distinct w'" "tokens_named w'" "session_tokens w' = session_tokens w" "flow_tokens w' = flow_tokens w"
      "flow_permit_bag w' = flow_permit_bag w" "session_permit_bag w' = mset (map snd (filter ?own (ue_permits w)))"
      using assms by (simp_all add: w'_def books_defs distinct_keys_filter)
    moreover have "\<forall>i \<in> fst ` set (ue_permits w'). i < ue_next w'" using assms by (auto simp: w'_def books_def)
    moreover have "ue_max_sessions w' = ue_max_sessions w" "ue_session_budget w' = ue_session_budget w" "ue_max_flows w' = ue_max_flows w"
      "ue_flow_budget w' = ue_flow_budget w" "ub_sessions (ue_budget w') = b" "ub_flows (ue_budget w') = ub_flows (ue_budget w)"
      by (simp_all add: w'_def)
    ultimately show ?thesis using assms b(2) own unfolding books_def by simp
  qed
  moreover have "config_of w' = config_of w" using b(3,4) by (simp add: w'_def config_of_def)
  ultimately show ?thesis by blast
qed

section \<open>The facts\<close>

definition shared_ok :: "'n ipv4net \<Rightarrow> (ip_addr \<Rightarrow> bool) \<Rightarrow> 'n shared \<Rightarrow> bool" where
  "shared_ok N fake sh \<longleftrightarrow> in_fakeip N sh = fake \<and> pred_option pool_inv (sh_fakeip sh)"

definition sessions_ok :: "(ip_addr \<Rightarrow> bool) \<Rightarrow> 'n udp_engine \<Rightarrow> bool" where
  "sessions_ok fake w \<longleftrightarrow>
     (\<forall>k b i. (k, b) \<in> set (ue_symmetric w) \<longrightarrow> bd_slot b = SlotReady i \<longrightarrow>
        (\<exists>s. ue_sym_sessions w i = Some s \<and> sy_is_fakeip s = fake (sa_ip (snd k)))) \<and>
     (\<forall>k b i. (k, b) \<in> set (ue_fullcone w) \<longrightarrow> bd_slot b = SlotReady i \<longrightarrow> ue_fc_sessions w i \<noteq> None)"

definition task_ok :: "(ip_addr \<Rightarrow> bool) \<Rightarrow> 'n udp_engine \<Rightarrow> nat \<Rightarrow> open_task \<Rightarrow> bool" where
  "task_ok fake w i t \<longleftrightarrow>
     (tk_kind t = Symmetric \<longrightarrow> tk_is_fakeip t = fake (sa_ip (tk_dst t)) \<and>
        (tk_stage t \<noteq> Opening \<longrightarrow> (\<exists>s. ue_sym_sessions w i = Some s \<and> sy_is_fakeip s = fake (sa_ip (tk_dst t))))) \<and>
     (tk_kind t = Fullcone \<longrightarrow> \<not> fake (sa_ip (tk_dst t)) \<and> (tk_stage t \<noteq> Opening \<longrightarrow> ue_fc_sessions w i \<noteq> None) \<and>
        (\<forall>p q x. ue_pendings w i = Some p \<longrightarrow> pd_queue p = Some q \<longrightarrow> x \<in> set q \<longrightarrow> \<not> fake (sa_ip (fst x))))"

definition tasks_ok :: "(ip_addr \<Rightarrow> bool) \<Rightarrow> 'n udp_engine \<Rightarrow> bool" where
  "tasks_ok fake w \<longleftrightarrow> (\<forall>i t. (i, t) \<in> set (ue_tasks w) \<longrightarrow> task_ok fake w i t)"

text \<open>The slot with a task's number is the task's, and takes its session, like its reader, only from the task.\<close>

definition task_numbers :: "'n udp_engine \<Rightarrow> nat \<Rightarrow> open_task \<Rightarrow> bool" where
  "task_numbers w i t \<longleftrightarrow>
     (\<forall>k b. (k, b) \<in> set (ue_symmetric w) \<longrightarrow> slot_id (bd_slot b) = i \<longrightarrow>
        tk_kind t = Symmetric \<and> k = (tk_peer t, tk_dst t) \<and> (tk_stage t = Opening \<longrightarrow> bd_slot b = SlotPending i)) \<and>
     (\<forall>k b. (k, b) \<in> set (ue_fullcone w) \<longrightarrow> slot_id (bd_slot b) = i \<longrightarrow>
        tk_kind t = Fullcone \<and> k = tk_peer t \<and> (tk_stage t = Opening \<longrightarrow> bd_slot b = SlotPending i)) \<and>
     (tk_stage t = Opening \<longrightarrow> i \<notin> fst ` set (ue_readers w))"

definition numbers_ok :: "'n udp_engine \<Rightarrow> bool" where
  "numbers_ok w \<longleftrightarrow> (\<forall>(i, t) \<in> set (ue_tasks w). task_numbers w i t)"

definition flows_ok :: "(ip_addr \<Rightarrow> bool) \<Rightarrow> 'n udp_engine \<Rightarrow> bool" where
  "flows_ok fake w \<longleftrightarrow> (\<forall>k e. (k, e) \<in> set (ue_flow_path w) \<longrightarrow> fe_kind e = Fullcone \<longrightarrow> \<not> fake (sa_ip (snd k)))"

definition queue_ok :: "pending \<Rightarrow> bool" where
  "queue_ok p \<longleftrightarrow> (\<forall>q. pd_queue p = Some q \<longrightarrow> length q \<le> PENDING_QUEUE_CAP \<and> sum_list (map payload_len q) \<le> PENDING_BYTES_CAP)"

definition queues_ok :: "'n udp_engine \<Rightarrow> bool" where
  "queues_ok w \<longleftrightarrow> (\<forall>i < ue_next w. \<exists>p. ue_pendings w i = Some p) \<and> (\<forall>i p. ue_pendings w i = Some p \<longrightarrow> queue_ok p)"

definition sniffers_ok :: "'n udp_engine \<Rightarrow> bool" where
  "sniffers_ok w \<longleftrightarrow> (\<forall>i s. ue_sym_sessions w i = Some s \<longrightarrow> pred_option quic_inv (sy_sniffer s))"

definition facts :: "'n ipv4net \<Rightarrow> (ip_addr \<Rightarrow> bool) \<Rightarrow> 'n udp_engine \<Rightarrow> bool" where
  "facts N fake w \<longleftrightarrow> shared_ok N fake (ue_shared w) \<and> sessions_ok fake w \<and> tasks_ok fake w \<and> numbers_ok w \<and> flows_ok fake w \<and>
     queues_ok w \<and> sniffers_ok w"

lemmas facts_defs = facts_def sessions_ok_def tasks_ok_def task_ok_def numbers_ok_def task_numbers_def flows_ok_def queues_ok_def sniffers_ok_def

lemma facts_plain [simp]:
  "facts N fake (w\<lparr>ue_spoof_cache := x2\<rparr>) = facts N fake w"
  "facts N fake (w\<lparr>ue_fwd_sym := x3\<rparr>) = facts N fake w" "facts N fake (w\<lparr>ue_fwd_fc := x3\<rparr>) = facts N fake w"
  "facts N fake (w\<lparr>ue_reply_sym := x3\<rparr>) = facts N fake w" "facts N fake (w\<lparr>ue_reply_fc := x3\<rparr>) = facts N fake w"
  "facts N fake (w\<lparr>ue_drops_flow := x3\<rparr>) = facts N fake w" "facts N fake (w\<lparr>ue_drops_session := x3\<rparr>) = facts N fake w"
  "facts N fake (w\<lparr>ue_last_drop := x4\<rparr>) = facts N fake w" "facts N fake (w\<lparr>ue_permits := x5\<rparr>) = facts N fake w"
  "facts N fake (w\<lparr>ue_budget := x6\<rparr>) = facts N fake w" "facts N fake (w\<lparr>ue_session_budget := x7\<rparr>) = facts N fake w"
  "facts N fake (w\<lparr>ue_flow_budget := x7\<rparr>) = facts N fake w"
  by (simp_all add: facts_defs)

lemma facts_shared: "facts N fake w \<Longrightarrow> shared_ok N fake sh \<Longrightarrow> facts N fake (w\<lparr>ue_shared := sh\<rparr>)"
  by (simp add: facts_defs)

lemma shared_ok_cong:
  "shared_ok N fake sh \<Longrightarrow> sh_fakeip sh' = sh_fakeip sh \<Longrightarrow> shared_ok N fake sh'"
  by (simp add: shared_ok_def in_fakeip_def fun_eq_iff)

lemma facts_same_pool:
  assumes "facts N fake w" and "sh_fakeip sh = sh_fakeip (ue_shared w)"
  shows "facts N fake (w\<lparr>ue_shared := sh\<rparr>)"
  using assms facts_shared [OF assms(1)] shared_ok_cong [of N fake "ue_shared w" sh] by (simp add: facts_def)

lemma facts_remove_symmetric: "facts N fake w \<Longrightarrow> facts N fake (snd (remove_symmetric k w))"
  by (auto simp: remove_symmetric_def facts_defs set_delete split: option.splits)

lemma facts_remove_fullcone: "facts N fake w \<Longrightarrow> facts N fake (snd (remove_fullcone k w))"
  by (auto simp: remove_fullcone_def facts_defs set_delete split: option.splits)

lemma remove_flow_changes:
  assumes "remove_flow k w = Some w'"
  obtains fp cb b where "w' = w\<lparr>ue_flow_path := fp, ue_flow_budget := cb, ue_budget := b\<rparr>" and "set fp \<subseteq> set (ue_flow_path w)"
proof (cases "map_of (ue_flow_path w) k")
  case None
  then have "w' = w" using assms by (simp add: remove_flow_def)
  then show ?thesis using that [of "ue_budget w" "ue_flow_budget w" "ue_flow_path w"] by simp
next
  case (Some e)
  then show ?thesis using assms by (auto simp: remove_flow_def set_delete split: Option.bind_splits intro: that)
qed

lemma facts_fewer_flows: "facts N fake w \<Longrightarrow> set fp \<subseteq> set (ue_flow_path w) \<Longrightarrow> facts N fake (w\<lparr>ue_flow_path := fp\<rparr>)"
  by (auto simp: facts_defs)

lemma facts_remove_flow:
  assumes "facts N fake w" and "remove_flow k w = Some w'"
  shows "facts N fake w'"
  using assms(2)
proof (rule remove_flow_changes)
  fix fp cb b
  assume w': "w' = w\<lparr>ue_flow_path := fp, ue_flow_budget := cb, ue_budget := b\<rparr>" "set fp \<subseteq> set (ue_flow_path w)"
  show ?thesis using facts_fewer_flows [OF assms(1) w'(2)] unfolding w'(1) by simp
qed

lemma facts_remove_flows: "facts N fake w \<Longrightarrow> remove_flows ks w = Some w' \<Longrightarrow> facts N fake w'"
proof (induction ks arbitrary: w)
  case (Cons k ks)
  then obtain w1 where "remove_flow k w = Some w1" "remove_flows ks w1 = Some w'" by (auto split: Option.bind_splits)
  then show ?case using Cons facts_remove_flow by blast
qed simp

lemma facts_decide:
  assumes f: "facts N fake w" and "decide_flow_kind N now peer dst dgram w = (r, w')"
  shows "facts N fake w'" and "r = Some Fullcone \<Longrightarrow> \<not> fake (sa_ip dst)"
    and "ue_symmetric w' = ue_symmetric w" and "ue_fullcone w' = ue_fullcone w" and "ue_shared w' = ue_shared w"
proof -
  have fl: "flows_ok fake w" and sh: "in_fakeip N (ue_shared w) = fake" using f by (simp_all add: facts_def shared_ok_def)
  have e: "\<not> fake (sa_ip dst)" if "map_of (ue_flow_path w) (peer, dst) = Some e" "fe_kind e = Fullcone" for e
    using fl that by (auto simp: flows_ok_def dest: map_of_SomeD)
  have n: "\<not> fake (sa_ip dst)" if "new_flow_kind N dst dgram w = Fullcone"
    using that sh by (auto simp: new_flow_kind_def split: if_splits)
  have add: "flows_ok fake (v\<lparr>ue_flow_path := AList.update (peer, dst) x (ue_flow_path w)\<rparr>)"
    if "fe_kind x = Fullcone \<longrightarrow> \<not> fake (sa_ip dst)" for x and v :: "'a udp_engine"
    using fl that set_update_subset [of "(peer, dst)" x "ue_flow_path w"] by (fastforce simp: flows_ok_def)
  have p: "ue_flow_path w1 = ue_flow_path w \<and> ue_symmetric w1 = ue_symmetric w \<and> ue_fullcone w1 = ue_fullcone w \<and>
      ue_shared w1 = ue_shared w \<and> facts N fake w1" if "flow_permits kind ip w = (o', w1)" for kind ip o' w1
    using that f by (auto simp: flow_permits_def Let_def split: option.splits prod.splits)
  have swap: "facts N fake (v\<lparr>ue_flow_path := fp\<rparr>)" if "facts N fake v" "flows_ok fake (v\<lparr>ue_flow_path := fp\<rparr>)" for v :: "'a udp_engine" and fp
    using that by (simp add: facts_defs)
  have all: "facts N fake w' \<and> (r = Some Fullcone \<longrightarrow> \<not> fake (sa_ip dst)) \<and> ue_symmetric w' = ue_symmetric w \<and>
      ue_fullcone w' = ue_fullcone w \<and> ue_shared w' = ue_shared w"
  proof (cases "map_of (ue_flow_path w) (peer, dst)")
    case (Some x)
    then have r: "r = Some (fe_kind x)" "w' = w\<lparr>ue_flow_path := AList.update (peer, dst) (x\<lparr>fe_last_seen := now\<rparr>) (ue_flow_path w)\<rparr>"
      using assms(2) by (simp_all add: decide_flow_kind_def)
    show ?thesis using e [OF Some] swap [OF f add] unfolding r by simp
  next
    case None
    obtain o' w1 where o': "flow_permits (new_flow_kind N dst dgram w) (sa_ip peer) w = (o', w1)" by fastforce
    note p1 = p [OF o']
    show ?thesis
    proof (cases o')
      case None': None
      then show ?thesis using assms(2) None o' p1 n by (auto simp: decide_flow_kind_def note_flow_drop_def Let_def split: if_splits)
    next
      case (Some tp)
      obtain token q where "tp = (token, q)" by (cases tp) auto
      then have r: "r = Some (new_flow_kind N dst dgram w)" "w' = w1\<lparr>ue_flow_path := AList.update (peer, dst)
          \<lparr> fe_kind = new_flow_kind N dst dgram w, fe_last_seen = now, fe_ip = token, fe_permit = q \<rparr> (ue_flow_path w1)\<rparr>"
        using assms(2) None o' Some by (simp_all add: decide_flow_kind_def Let_def)
      have "facts N fake w'" unfolding r by (rule swap) (use p1 add n in auto)
      then show ?thesis using p1 n r by simp
    qed
  qed
  then show "facts N fake w'" "r = Some Fullcone \<Longrightarrow> \<not> fake (sa_ip dst)" "ue_symmetric w' = ue_symmetric w"
    "ue_fullcone w' = ue_fullcone w" "ue_shared w' = ue_shared w" by blast+
qed

section \<open>Forwarding\<close>

definition frame_of :: "'n udp_engine \<Rightarrow> _" where
  "frame_of w = ((ue_symmetric w, ue_fullcone w, ue_flow_path w, ue_tasks w, map fst (ue_readers w), ue_permits w, ue_next w),
     ue_session_budget w, ue_flow_budget w, ue_budget w, ue_max_sessions w, ue_max_flows w, ue_cloudflared w, ue_idle_timeout w)"

lemma frame_plain [simp]:
  "frame_of (w\<lparr>ue_shared := x1\<rparr>) = frame_of w" "frame_of (w\<lparr>ue_spoof_cache := x2\<rparr>) = frame_of w"
  "frame_of (w\<lparr>ue_fwd_sym := x3\<rparr>) = frame_of w" "frame_of (w\<lparr>ue_fwd_fc := x3\<rparr>) = frame_of w"
  "frame_of (w\<lparr>ue_reply_sym := x3\<rparr>) = frame_of w" "frame_of (w\<lparr>ue_reply_fc := x3\<rparr>) = frame_of w"
  "frame_of (w\<lparr>ue_pendings := x5\<rparr>) = frame_of w"
  "frame_of (w\<lparr>ue_sym_sessions := x6\<rparr>) = frame_of w" "frame_of (w\<lparr>ue_fc_sessions := x7\<rparr>) = frame_of w"
  "frame_of (set_canonical i c w) = frame_of w"
  by (simp_all add: frame_of_def set_canonical_def)

lemma frame_books: "frame_of w' = frame_of w \<Longrightarrow> books S F w' = books S F w"
proof -
  assume f: "frame_of w' = frame_of w"
  then have "distinct (map fst (ue_readers w')) = distinct (map fst (ue_readers w))" "fst ` set (ue_readers w') = fst ` set (ue_readers w)"
    by (simp_all add: frame_of_def flip: set_map)
  with f show ?thesis by (simp add: books_defs frame_of_def)
qed

lemma frame_config: "frame_of w' = frame_of w \<Longrightarrow> config_of w' = config_of w"
  by (simp add: config_of_def frame_of_def)

text \<open>What may leave: to a SOCKS5 relay no frame that names an address of the pool, and nothing sent to such an address.\<close>

definition by_name :: "(ip_addr \<Rightarrow> bool) \<Rightarrow> udp_out \<Rightarrow> bool" where
  "by_name fake out = (case out of
     ToRelay _ f \<Rightarrow> \<forall>d p. f = encode_udp_request d p \<longrightarrow> \<not> fake (sa_ip d)
   | SentTo d _ \<Rightarrow> \<not> fake (sa_ip d)
   | _ \<Rightarrow> True)"

lemma to_be32_inj: "to_be32 x = to_be32 y \<Longrightarrow> x = y"
  by (metis to_be32_nth)

lemma to_be128_inj: "to_be128 x = to_be128 y \<Longrightarrow> x = y"
  by (metis be128_roundtrip)

lemma same_frame_same_ip:
  assumes "encode_udp_request d p = encode_udp_request d' p'"
  shows "sa_ip d = sa_ip d'"
proof (cases "sa_ip d"; cases "sa_ip d'")
  fix a b assume *: "sa_ip d = V4 a" "sa_ip d' = V4 b"
  have "take 4 (to_be32 a @ x) = to_be32 a" for a :: u32 and x by (simp add: to_be32_def)
  then have "to_be32 a = to_be32 b" using assms * by (simp add: encode_udp_request_def encode_ip_def to_be32_def)
  then show ?thesis using * to_be32_inj by simp
next
  fix a b assume *: "sa_ip d = V6 a" "sa_ip d' = V6 b"
  then have "to_be128 a = to_be128 b" using assms by (auto simp: encode_udp_request_def encode_ip_def append_eq_append_conv)
  then show ?thesis using * to_be128_inj by simp
qed (use assms in \<open>auto simp: encode_udp_request_def encode_ip_def\<close>)

lemma name_frame_has_no_ip: "encode_udp_request_domain h port p = Inr f \<Longrightarrow> f \<noteq> encode_udp_request d p'"
  by (cases "sa_ip d") (auto simp: encode_udp_request_domain_def encode_udp_request_def encode_ip_def split: if_splits)

lemma address_frame_by_name: "\<not> fake (sa_ip dst) \<Longrightarrow> by_name fake (ToRelay r (encode_udp_request dst p))"
  unfolding by_name_def by simp (metis same_frame_same_ip)

lemma relay_frame_by_name:
  assumes k: "sy_is_fakeip s = fake (sa_ip dst)" and f: "relay_frame s dst p = Inr (Some f)"
  shows "by_name fake (ToRelay r f)"
proof (cases "sy_routing_host s")
  case None
  then have "\<not> fake (sa_ip dst)" "f = encode_udp_request dst p" using k f by (auto simp: relay_frame_def split: if_splits)
  then show ?thesis by (simp add: address_frame_by_name)
next
  case (Some host)
  then have "encode_udp_request_domain host (sa_port dst) p = Inr f" using f by (simp add: relay_frame_def split: sum.splits)
  then have "f \<noteq> encode_udp_request d p'" for d p' by (rule name_frame_has_no_ip)
  then show ?thesis by (simp add: by_name_def)
qed

lemma take_sni_inv: "quic_inv s \<Longrightarrow> quic_inv (snd (try_take_sni s))"
  by (auto simp: try_take_sni_def Let_def quic_inv_def drop_pieces_def total_length_def split: option.splits sum.splits)

lemma sniff_datagram_ok:
  assumes "crypto_laws C" and "pred_option quic_inv (sy_sniffer s)"
  shows "\<exists>s' hints'. sniff_datagram C dst p s hints = Some (s', hints') \<and> sy_is_fakeip s' = sy_is_fakeip s \<and>
    pred_option quic_inv (sy_sniffer s') \<and> sy_relay s' = sy_relay s \<and> sy_rec s' = sy_rec s \<and>
    (sy_routing_host s' = sy_routing_host s \<or> sy_routing_host s' \<noteq> None)"
proof (cases "sy_sniff_done s")
  case False
  show ?thesis
  proof (cases "sy_sniffer s")
    case (Some sn)
    then obtain r t where t: "quic_feed C p sn = Some (r, t)" "quic_inv t" using feed_returns [OF assms(1)] assms(2) by fastforce
    obtain sni t' where t': "try_take_sni t = (sni, t')" by fastforce
    have "quic_inv t'" using take_sni_inv [OF t(2)] t' by simp
    then show ?thesis using False Some t t'
      by (cases sni) (auto simp: sniff_datagram_def learn_sni_def Let_def)
  qed (use False in \<open>simp add: sniff_datagram_def\<close>)
qed (use assms in \<open>simp add: sniff_datagram_def\<close>)

lemma facts_sessions:
  assumes f: "facts N fake w"
    and keep: "\<And>j s. ue_sym_sessions w j = Some s \<Longrightarrow> \<exists>s'. ss j = Some s' \<and> sy_is_fakeip s' = sy_is_fakeip s"
    and inv: "\<And>j s. ss j = Some s \<Longrightarrow> pred_option quic_inv (sy_sniffer s)"
  shows "facts N fake (w\<lparr>ue_sym_sessions := ss\<rparr>)"
proof -
  have "sessions_ok fake w" "tasks_ok fake w" using f by (simp_all add: facts_def)
  then have "sessions_ok fake (w\<lparr>ue_sym_sessions := ss\<rparr>)" "tasks_ok fake (w\<lparr>ue_sym_sessions := ss\<rparr>)"
    unfolding sessions_ok_def tasks_ok_def task_ok_def by simp_all (metis keep)+
  moreover have "sniffers_ok (w\<lparr>ue_sym_sessions := ss\<rparr>)" using inv by (simp add: sniffers_ok_def)
  ultimately show ?thesis using f by (simp add: facts_def numbers_ok_def task_numbers_def flows_ok_def queues_ok_def)
qed

lemma facts_sym_session:
  assumes "facts N fake w" and "ue_sym_sessions w i = Some s" and "sy_is_fakeip s' = sy_is_fakeip s"
    and "pred_option quic_inv (sy_sniffer s')"
  shows "facts N fake (w\<lparr>ue_sym_sessions := (ue_sym_sessions w)(i \<mapsto> s')\<rparr>)"
proof (rule facts_sessions [OF assms(1)])
  fix j t
  have "sniffers_ok w" using assms(1) by (simp add: facts_def)
  then show "((ue_sym_sessions w)(i \<mapsto> s')) j = Some t \<Longrightarrow> pred_option quic_inv (sy_sniffer t)"
    using assms(4) by (auto simp: sniffers_ok_def split: if_splits)
qed (use assms(2,3) in auto)

lemma forward_symmetric_ok:
  assumes C: "crypto_laws C" and f: "facts N fake w" and s: "ue_sym_sessions w i = Some s" and k: "sy_is_fakeip s = fake (sa_ip dst)"
  shows "\<exists>fine outs w' s'. forward_symmetric C sent i dst p w = Some (fine, outs, w') \<and> facts N fake w' \<and> frame_of w' = frame_of w \<and>
    (\<forall>out \<in> set outs. by_name fake out) \<and> ue_sym_sessions w' i = Some s' \<and> sy_is_fakeip s' = fake (sa_ip dst)"
proof -
  have inv: "pred_option quic_inv (sy_sniffer s)" using f s by (auto simp: facts_def sniffers_ok_def)
  show ?thesis
  proof (cases "sy_direct s")
    case True
    have "facts N fake (count_forwarded_sym (sy_rec s) p w)"
      using f by (simp add: count_forwarded_sym_def add_up_to_def facts_same_pool)
    then show ?thesis using True s f k by (auto simp: forward_symmetric_def by_name_def count_forwarded_sym_def)
  next
    case False
    obtain s' hints where s': "sniff_datagram C dst p s (sh_domain_ips (ue_shared w)) = Some (s', hints)" "sy_is_fakeip s' = sy_is_fakeip s"
        "pred_option quic_inv (sy_sniffer s')" using sniff_datagram_ok [OF C inv] by metis
    define v where "v = w\<lparr>ue_sym_sessions := (ue_sym_sessions w)(i \<mapsto> s'), ue_shared := (ue_shared w)\<lparr>sh_domain_ips := hints\<rparr>\<rparr>"
    have v: "facts N fake v" unfolding v_def by (rule facts_same_pool [OF facts_sym_session [OF f s s'(2,3)]]) simp
    then have c: "facts N fake (count_forwarded_sym (sy_rec s') p v)"
      by (simp add: count_forwarded_sym_def add_up_to_def facts_same_pool)
    have "forward_symmetric C sent i dst p w = Some (case relay_frame s' dst p of
         Inl _ \<Rightarrow> (False, [], v) | Inr None \<Rightarrow> (True, [], v)
       | Inr (Some f) \<Rightarrow> if sent then (True, [ToRelay (sy_relay s') f], count_forwarded_sym (sy_rec s') p v) else (False, [], v))"
      using False s s'(1) by (cases "relay_frame s' dst p") (auto simp: forward_symmetric_def v_def Let_def split: option.splits)
    moreover have "by_name fake (ToRelay (sy_relay s') f)" if "relay_frame s' dst p = Inr (Some f)" for f
      using relay_frame_by_name [of s' fake dst p f] that s'(2) k by simp
    moreover have "frame_of (count_forwarded_sym (sy_rec s') p v) = frame_of w" "frame_of v = frame_of w"
      "ue_sym_sessions v i = Some s'" "ue_sym_sessions (count_forwarded_sym (sy_rec s') p v) i = Some s'"
      by (simp_all add: v_def count_forwarded_sym_def)
    ultimately show ?thesis using v c s'(2) k by (auto split: sum.splits option.splits)
  qed
qed

lemma forward_fullcone_ok:
  assumes f: "facts N fake w" and s: "ue_fc_sessions w i = Some s" and k: "\<not> fake (sa_ip dst)"
  shows "\<exists>fine outs w'. forward_fullcone sent i dst p w = Some (fine, outs, w') \<and> facts N fake w' \<and> frame_of w' = frame_of w \<and>
    (\<forall>out \<in> set outs. by_name fake out) \<and> ue_fc_sessions w' = ue_fc_sessions w"
proof -
  have "facts N fake (w\<lparr>ue_shared := add_up_to (fc_rec s) (length p) (ue_shared w), ue_fwd_fc := ue_fwd_fc w + 1\<rparr>)"
    using f by (simp add: add_up_to_def facts_same_pool)
  moreover have "by_name fake (SentTo dst p)" using k by (simp add: by_name_def)
  moreover have "by_name fake (ToRelay (fc_relay s) (encode_udp_request dst p))" using k by (rule address_frame_by_name)
  ultimately show ?thesis using f s by (auto simp: forward_fullcone_def)
qed

section \<open>Admitting a session\<close>

lemma resolve_fakeip_ok:
  assumes "shared_ok N fake sh"
  shows "\<exists>host sh'. resolve_fakeip N dst sh = Some ((fake (sa_ip dst), host), sh') \<and> shared_ok N fake sh' \<and>
    sh_domain_ips sh' = sh_domain_ips sh"
proof (cases "sh_fakeip sh")
  case None
  then have "fake = (\<lambda>_. False)" using assms by (auto simp: shared_ok_def in_fakeip_def)
  then show ?thesis using None assms by (simp add: resolve_fakeip_def)
next
  case (Some f)
  have f: "pool_contains N f = fake" "pool_inv f" using assms Some by (auto simp: shared_ok_def in_fakeip_def)
  show ?thesis
  proof (cases "sa_ip dst")
    case (V4 v4)
    obtain d f' where l: "pool_lookback v4 f = Some (d, f')" using pool_lookback_iff [OF f(2)] by blast
    have "pool_inv f'" "p_net f' = p_net f" using lookback_next [OF f(2) l] by (simp_all add: same_geometry_def)
    then have "shared_ok N fake (sh\<lparr>sh_fakeip := Some f'\<rparr>)"
      using f(1) by (auto simp: shared_ok_def in_fakeip_def pool_contains_def fun_eq_iff split: ip_addr.splits)
    then show ?thesis using Some V4 l f(1) assms by (auto simp: resolve_fakeip_def)
  qed (use Some f assms in \<open>auto simp: resolve_fakeip_def\<close>)
qed

lemma group_hint_changes: "group_hint dst w = (l, w') \<Longrightarrow> \<exists>hints. w' = w\<lparr>ue_shared := (ue_shared w)\<lparr>sh_domain_ips := hints\<rparr>\<rparr>"
  by (auto simp: group_hint_def split: if_splits prod.splits intro: exI [of _ "sh_domain_ips (ue_shared w)"])

text \<open>Every number in use is below the next one.\<close>

lemma numbers_below:
  assumes "books S F w"
  shows "(i, t) \<in> set (ue_tasks w) \<Longrightarrow> i < ue_next w" "(i, r) \<in> set (ue_readers w) \<Longrightarrow> i < ue_next w"
    "(k, b) \<in> set (ue_symmetric w) \<Longrightarrow> slot_id (bd_slot b) < ue_next w"
    "(k', b) \<in> set (ue_fullcone w) \<Longrightarrow> slot_id (bd_slot b) < ue_next w"
proof -
  have o: "i \<in> set (permit_owners w) \<Longrightarrow> i < ue_next w" for i using assms by (auto simp: books_def)
  show "(i, t) \<in> set (ue_tasks w) \<Longrightarrow> i < ue_next w" "(i, r) \<in> set (ue_readers w) \<Longrightarrow> i < ue_next w"
    "(k, b) \<in> set (ue_symmetric w) \<Longrightarrow> slot_id (bd_slot b) < ue_next w"
    "(k', b) \<in> set (ue_fullcone w) \<Longrightarrow> slot_id (bd_slot b) < ue_next w"
    by (rule o, force simp: permit_owners_def)+
qed

lemma number_fresh:
  assumes "books S F w"
  shows "\<forall>e \<in> set (ue_symmetric w). slot_id (bd_slot (snd e)) \<noteq> ue_next w"
    "\<forall>e \<in> set (ue_fullcone w). slot_id (bd_slot (snd e)) \<noteq> ue_next w" "\<forall>e \<in> set (ue_readers w). fst e \<noteq> ue_next w"
  using numbers_below [OF assms] by fastforce+

lemma queue_new_ok: "queue_ok (pending_new x now)"
  by (simp add: queue_ok_def pending_new_def)

lemma queue_push_ok: "queue_ok p \<Longrightarrow> queue_ok (pending_push x p)"
  by (auto simp: queue_ok_def pending_push_def split: option.splits)

lemma slot_ne_ready [simp]: "slot_id s < n \<Longrightarrow> s \<noteq> SlotPending n" "slot_id s < n \<Longrightarrow> s \<noteq> SlotReady n"
  by auto

lemma new_pending_facts:
  assumes b: "books S F w" and f: "facts N fake w"
  shows "facts N fake (w\<lparr>ue_pendings := (ue_pendings w)(ue_next w \<mapsto> pending_new x now), ue_next := ue_next w + 1\<rparr>)" (is "facts N fake ?w")
proof -
  have "task_ok fake ?w i t" if "(i, t) \<in> set (ue_tasks w)" for i t
    using f that numbers_below(1) [OF b that] by (auto simp: facts_def tasks_ok_def task_ok_def)
  then have "tasks_ok fake ?w" by (simp add: tasks_ok_def)
  moreover have "queues_ok ?w" using f queue_new_ok by (auto simp: facts_def queues_ok_def less_Suc_eq)
  ultimately show ?thesis using f by (simp add: facts_def sessions_ok_def numbers_ok_def task_numbers_def flows_ok_def sniffers_ok_def)
qed

lemma new_symmetric_facts:
  assumes b: "books S F w" and f: "facts N fake w" and new: "map_of (ue_symmetric w) k = None"
    and bd: "bd_slot bd = SlotPending (ue_next w)"
    and t: "tk_kind t = Symmetric" "tk_peer t = fst k" "tk_dst t = snd k" "tk_is_fakeip t = fake (sa_ip (snd k))" "tk_stage t = Opening"
  shows "facts N fake (w\<lparr>ue_pendings := (ue_pendings w)(ue_next w \<mapsto> pending_new x now), ue_next := ue_next w + 1,
      ue_symmetric := AList.update k bd (ue_symmetric w), ue_tasks := (ue_next w, t) # ue_tasks w\<rparr>)" (is "facts N fake ?w")
proof -
  note below = numbers_below [OF b]
  have g: "facts N fake (w\<lparr>ue_pendings := (ue_pendings w)(ue_next w \<mapsto> pending_new x now), ue_next := ue_next w + 1\<rparr>)"
    by (rule new_pending_facts [OF b f])
  have "tasks_ok fake ?w" using g t by (simp add: facts_def tasks_ok_def task_ok_def)
  moreover have "sessions_ok fake ?w" using f bd by (auto simp: facts_def sessions_ok_def update_new [OF new])
  moreover have "task_numbers ?w i u" if "(i, u) \<in> set (ue_tasks w)" for i u
    using f below(1) [OF that] that bd by (auto simp: facts_def numbers_ok_def task_numbers_def update_new [OF new])
  moreover have "task_numbers ?w (ue_next w) t"
    using number_fresh [OF b] bd t unfolding task_numbers_def by (auto simp: update_new [OF new])
  ultimately have "tasks_ok fake ?w" "sessions_ok fake ?w" "numbers_ok ?w" by (auto simp: numbers_ok_def)
  then show ?thesis using g by (simp add: facts_def flows_ok_def queues_ok_def sniffers_ok_def)
qed

lemma new_fullcone_facts:
  assumes b: "books S F w" and f: "facts N fake w" and new: "map_of (ue_fullcone w) k = None"
    and bd: "bd_slot bd = SlotPending (ue_next w)" and x: "\<not> fake (sa_ip (fst x))"
    and t: "tk_kind t = Fullcone" "tk_peer t = k" "\<not> fake (sa_ip (tk_dst t))" "tk_stage t = Opening"
  shows "facts N fake (w\<lparr>ue_pendings := (ue_pendings w)(ue_next w \<mapsto> pending_new x now), ue_next := ue_next w + 1,
      ue_fullcone := AList.update k bd (ue_fullcone w), ue_tasks := (ue_next w, t) # ue_tasks w\<rparr>)" (is "facts N fake ?w")
proof -
  note below = numbers_below [OF b]
  have g: "facts N fake (w\<lparr>ue_pendings := (ue_pendings w)(ue_next w \<mapsto> pending_new x now), ue_next := ue_next w + 1\<rparr>)"
    by (rule new_pending_facts [OF b f])
  have q: "y = x" if "pd_queue (pending_new x now) = Some q" "y \<in> set q" for q y
    using that unfolding pending_new_def by (cases "payload_len x \<le> PENDING_BYTES_CAP") (simp_all, metis list.set_cases list.distinct(1) set_ConsD)
  have "task_ok fake ?w (ue_next w) t" unfolding task_ok_def
  proof (intro conjI impI allI)
    fix p q y
    assume "ue_pendings ?w (ue_next w) = Some p" "pd_queue p = Some q" "y \<in> set q"
    then have "y = x" using q by simp
    then show "\<not> fake (sa_ip (fst y))" using x by simp
  qed (use t in simp_all)
  moreover have "task_ok fake ?w i u" if "(i, u) \<in> set (ue_tasks w)" for i u
    using g that by (simp add: facts_def tasks_ok_def task_ok_def)
  ultimately have "tasks_ok fake ?w" by (auto simp: tasks_ok_def)
  moreover have "sessions_ok fake ?w" using f bd by (auto simp: facts_def sessions_ok_def update_new [OF new])
  moreover have "task_numbers ?w i u" if "(i, u) \<in> set (ue_tasks w)" for i u
    using f below(1) [OF that] that bd by (auto simp: facts_def numbers_ok_def task_numbers_def update_new [OF new])
  moreover have "task_numbers ?w (ue_next w) t"
    using number_fresh [OF b] bd t unfolding task_numbers_def by (auto simp: update_new [OF new])
  ultimately have "tasks_ok fake ?w" "sessions_ok fake ?w" "numbers_ok ?w" by (auto simp: numbers_ok_def)
  then show ?thesis using g by (simp add: facts_def flows_ok_def queues_ok_def sniffers_ok_def)
qed

lemma facts_same:
  assumes "facts N fake w" and "shared_ok N fake (ue_shared w')"
    and "ue_symmetric w' = ue_symmetric w" "ue_fullcone w' = ue_fullcone w" "ue_flow_path w' = ue_flow_path w"
      "ue_tasks w' = ue_tasks w" "ue_readers w' = ue_readers w" "ue_pendings w' = ue_pendings w"
      "ue_sym_sessions w' = ue_sym_sessions w" "ue_fc_sessions w' = ue_fc_sessions w" "ue_next w' = ue_next w"
  shows "facts N fake w'"
  using assms by (simp add: facts_defs)

lemma ready_session:
  assumes "facts N fake w" and "((peer, dst), bd) \<in> set (ue_symmetric w)" and "bd_slot bd = SlotReady i"
  obtains s where "ue_sym_sessions w i = Some s" and "sy_is_fakeip s = fake (sa_ip dst)"
  using assms by (auto simp: facts_def sessions_ok_def) (metis snd_conv)

lemma ready_fullcone:
  assumes "facts N fake w" and "(peer, bd) \<in> set (ue_fullcone w)" and "bd_slot bd = SlotReady i"
  obtains s where "ue_fc_sessions w i = Some s"
proof -
  have "ue_fc_sessions w i \<noteq> None" using assms unfolding facts_def sessions_ok_def by blast
  then show ?thesis using that by auto
qed

lemma task_facts:
  assumes "facts N fake w" and "(i, t) \<in> set (ue_tasks w)"
  shows "task_ok fake w i t" and "task_numbers w i t"
  using assms by (auto simp: facts_def tasks_ok_def numbers_ok_def)

lemma queued_dst:
  assumes "facts N fake w" and "(i, t) \<in> set (ue_tasks w)" and "tk_kind t = Fullcone"
    and "ue_pendings w i = Some p" and "pd_queue p = Some q" and "x \<in> set q"
  shows "\<not> fake (sa_ip (fst x))"
  using task_facts(1) [OF assms(1,2)] assms(3-6) unfolding task_ok_def by blast

text \<open>A step that returns, keeps the books and the facts, and sends nothing by a pool address.\<close>

definition fine_step :: "permit multiset \<Rightarrow> permit multiset \<Rightarrow> 'n ipv4net \<Rightarrow> (ip_addr \<Rightarrow> bool) \<Rightarrow> 'n udp_engine \<Rightarrow>
    (udp_out list \<times> 'n udp_engine) option \<Rightarrow> bool" where
  "fine_step S F N fake w r \<longleftrightarrow> (\<exists>outs w'. r = Some (outs, w') \<and> books S F w' \<and> facts N fake w' \<and> config_of w' = config_of w \<and>
     (\<forall>out \<in> set outs. by_name fake out))"

lemma fine_quiet: "books S F w' \<Longrightarrow> facts N fake w' \<Longrightarrow> config_of w' = config_of w \<Longrightarrow> fine_step S F N fake w (Some ([], w'))"
  by (simp add: fine_step_def)

lemma touch_frame [simp]: "frame_of (touch_symmetric now i w) = frame_of w" "frame_of (touch_fullcone now i w) = frame_of w"
  by (simp_all add: touch_symmetric_def touch_fullcone_def)

lemma touch_facts:
  assumes "facts N fake w"
  shows "facts N fake (touch_symmetric now i w)" "facts N fake (touch_fullcone now i w)"
proof -
  have s: "sniffers_ok w" using assms by (simp add: facts_def)
  show "facts N fake (touch_symmetric now i w)" unfolding touch_symmetric_def
  proof (rule facts_sessions [OF assms])
    fix j t
    show "((ue_sym_sessions w)(i := map_option (sy_last_seen_update (\<lambda>_. now)) (ue_sym_sessions w i))) j = Some t \<Longrightarrow>
        pred_option quic_inv (sy_sniffer t)"
      using s by (auto simp: sniffers_ok_def split: if_splits)
  qed auto
  have "sessions_ok fake (touch_fullcone now i w)" "tasks_ok fake (touch_fullcone now i w)"
    using assms by (auto simp: facts_def sessions_ok_def tasks_ok_def task_ok_def touch_fullcone_def)
  then show "facts N fake (touch_fullcone now i w)"
    using assms by (simp add: facts_def touch_fullcone_def numbers_ok_def task_numbers_def flows_ok_def queues_ok_def sniffers_ok_def)
qed

lemma push_facts:
  assumes f: "facts N fake w" and x: "\<And>t. (i, t) \<in> set (ue_tasks w) \<Longrightarrow> tk_kind t = Fullcone \<Longrightarrow> \<not> fake (sa_ip (fst x))"
  shows "facts N fake (push_pending i x w)"
proof -
  have q: "set (the (pd_queue (pending_push x p))) \<subseteq> insert x (set (the (pd_queue p)))"
    "pd_queue (pending_push x p) = None \<longleftrightarrow> pd_queue p = None" for p
    by (auto simp: pending_push_def split: option.splits)
  have "task_ok fake (push_pending i x w) j t" if t: "(j, t) \<in> set (ue_tasks w)" for j t
    unfolding task_ok_def
  proof (intro conjI impI allI)
    fix p qu y
    assume k: "tk_kind t = Fullcone" and p: "ue_pendings (push_pending i x w) j = Some p" "pd_queue p = Some qu" "y \<in> set qu"
    have old: "\<not> fake (sa_ip (fst y))" if "ue_pendings w j = Some p'" "pd_queue p' = Some qu'" "y \<in> set qu'" for p' qu'
      by (rule queued_dst [OF f t k that])
    show "\<not> fake (sa_ip (fst y))"
    proof (cases "j = i")
      case True
      then obtain p' where p': "ue_pendings w i = Some p'" "p = pending_push x p'" using p(1) by (auto simp: push_pending_def)
      then obtain qu' where qu': "pd_queue p' = Some qu'" using q(2) [of p'] p(2) by auto
      then have "y = x \<or> y \<in> set qu'" using q(1) [of p'] p p' by auto
      then show ?thesis using x [of t] t k True old p'(1) qu' by auto
    qed (use old p in \<open>simp add: push_pending_def\<close>)
  qed (use f t in \<open>simp_all add: facts_def tasks_ok_def task_ok_def push_pending_def\<close>)
  then have "tasks_ok fake (push_pending i x w)" by (simp add: tasks_ok_def push_pending_def)
  moreover have "queues_ok (push_pending i x w)"
    using f by (auto simp: facts_def queues_ok_def push_pending_def intro: queue_push_ok)
  ultimately show ?thesis
    using f by (simp add: facts_def push_pending_def sessions_ok_def numbers_ok_def task_numbers_def flows_ok_def sniffers_ok_def)
qed

lemma handle_symmetric_fine:
  assumes C: "crypto_laws C" and b: "books S F w" and f: "facts N fake w"
  shows "fine_step S F N fake w (handle_symmetric C N contains now sent peer dst p w)"
proof (cases "map_of (ue_symmetric w) (peer, dst)")
  case (Some bd)
  then have k: "((peer, dst), bd) \<in> set (ue_symmetric w)" by (rule map_of_SomeD)
  show ?thesis
  proof (cases "bd_slot bd")
    case (SlotReady i)
    obtain s where s: "ue_sym_sessions w i = Some s" "sy_is_fakeip s = fake (sa_ip dst)"
      using ready_session [OF f k SlotReady] by blast
    let ?w = "touch_symmetric now i w"
    have s': "ue_sym_sessions ?w i = Some (s\<lparr>sy_last_seen := now\<rparr>)" using s(1) by (simp add: touch_symmetric_def)
    have k': "sy_is_fakeip (s\<lparr>sy_last_seen := now\<rparr>) = fake (sa_ip dst)" using s(2) by simp
    obtain fine outs w' where "forward_symmetric C sent i dst p ?w = Some (fine, outs, w')" "facts N fake w'"
        "frame_of w' = frame_of ?w" "\<forall>out \<in> set outs. by_name fake out"
      using forward_symmetric_ok [OF C touch_facts(1) [OF f] s' k', where sent = sent and p = p] by blast
    then show ?thesis using Some SlotReady frame_books [of w' w] frame_config [of w' w] b
      by (auto simp: handle_symmetric_def fine_step_def)
  next
    case (SlotPending i)
    have "facts N fake (push_pending i (dst, p) w)"
    proof (rule push_facts [OF f])
      fix t assume "(i, t) \<in> set (ue_tasks w)" "tk_kind t = Fullcone"
      then show "\<not> fake (sa_ip (fst (dst, p)))" using f k SlotPending by (fastforce simp: facts_def numbers_ok_def task_numbers_def)
    qed
    then show ?thesis using Some SlotPending b by (auto simp: handle_symmetric_def intro!: fine_quiet)
  qed
next
  case None
  show ?thesis
  proof (cases "admit_session now (sa_ip peer) (dst, p) w")
    case (Inl w')
    have "facts N fake w'" using f Inl
      by (auto simp: admit_session_def note_session_drop_def Let_def split: option.splits)
    then show ?thesis using None Inl admit_refused [OF b Inl] by (auto simp: handle_symmetric_def intro!: fine_quiet)
  next
    case (Inr x)
    obtain i bd w1 where x: "x = (i, bd, w1)" using prod_cases3 by blast
    have a: "admit_session now (sa_ip peer) (dst, p) w = Inr (i, bd, w1)" using Inr x by simp
    then have a': "admit_session now (sa_ip (fst (peer, dst))) (dst, p) w = Inr (i, bd, w1)" by simp
    obtain cb pm bu where w1: "w1 = w\<lparr>ue_session_budget := cb, ue_budget := (ue_budget w)\<lparr>ub_sessions := bu\<rparr>, ue_permits := (i, pm) # ue_permits w,
      ue_pendings := (ue_pendings w)(i \<mapsto> pending_new (dst, p) now), ue_next := i + 1\<rparr>"
      "i = ue_next w" "bd = \<lparr> bd_slot = SlotPending i, bd_ip = sa_ip peer \<rparr>" "config_of w1 = config_of w"
      using admit_accepted [OF b a] by metis
    define w2 where "w2 = w1\<lparr>ue_symmetric := AList.update (peer, dst) bd (ue_symmetric w1)\<rparr>"
    have b2: "books S F w2" unfolding w2_def by (rule admit_symmetric_books [OF b a' None])
    have sh: "shared_ok N fake (ue_shared w2)" using f by (simp add: w2_def w1(1) facts_def)
    obtain host sh' where r: "resolve_fakeip N dst (ue_shared w2) = Some ((fake (sa_ip dst), host), sh')" "shared_ok N fake sh'"
      using resolve_fakeip_ok [OF sh] by blast
    obtain l w3 where g: "group_hint dst (w2\<lparr>ue_shared := sh'\<rparr>) = (l, w3)" by fastforce
    then obtain hints where w3: "w3 = w2\<lparr>ue_shared := sh'\<lparr>sh_domain_ips := hints\<rparr>\<rparr>" using group_hint_changes [OF g] by auto
    let ?proto = "classify_udp_proto contains dst p (if host \<noteq> None then PFakeIp else PRealIp) l"
    let ?t = "\<lparr> tk_kind = Symmetric, tk_peer = peer, tk_dst = dst, tk_is_fakeip = fake (sa_ip dst), tk_fakeip_host = host,
       tk_proto = ?proto, tk_stage = Opening \<rparr>"
    let ?w4 = "w3\<lparr>ue_tasks := (i, ?t) # ue_tasks w3\<rparr>"
    have "handle_symmetric C N contains now sent peer dst p w = Some ([], ?w4)"
    proof -
      have "spawn_open_symmetric N contains peer dst p i w2 = Some ?w4" using r(1) g by (simp add: spawn_open_symmetric_def Let_def)
      then show ?thesis using None Inr x by (simp add: handle_symmetric_def w2_def)
    qed
    moreover have "books S F ?w4"
    proof (rule new_task_books)
      show "books S F w3" using b2 by (simp add: w3)
      show "i \<in> fst ` set (ue_permits w3)" by (simp add: w3 w2_def w1(1))
      show "i \<notin> fst ` set (ue_tasks w3)" using numbers_below(1) [OF b] by (fastforce simp: w3 w2_def w1(1,2))
    qed
    moreover have "facts N fake ?w4"
    proof (rule facts_same)
      show "facts N fake (w\<lparr>ue_pendings := (ue_pendings w)(ue_next w \<mapsto> pending_new (dst, p) now), ue_next := ue_next w + 1,
          ue_symmetric := AList.update (peer, dst) bd (ue_symmetric w), ue_tasks := (ue_next w, ?t) # ue_tasks w\<rparr>)"
        by (rule new_symmetric_facts [OF b f None]) (simp_all add: w1(3) flip: w1(2))
      show "shared_ok N fake (ue_shared ?w4)" using shared_ok_cong [OF r(2), of "sh'\<lparr>sh_domain_ips := hints\<rparr>"] by (simp add: w3)
    qed (simp_all add: w3 w2_def w1(1) flip: w1(2))
    moreover have "config_of ?w4 = config_of w" using w1(4) by (simp add: w3 w2_def)
    ultimately show ?thesis by (simp add: fine_quiet)
  qed
qed

lemma handle_fullcone_fine:
  assumes b: "books S F w" and f: "facts N fake w" and d: "\<not> fake (sa_ip dst)"
  shows "fine_step S F N fake w (handle_fullcone contains now sent peer dst p w)"
proof (cases "map_of (ue_fullcone w) peer")
  case (Some bd)
  then have k: "(peer, bd) \<in> set (ue_fullcone w)" by (rule map_of_SomeD)
  show ?thesis
  proof (cases "bd_slot bd")
    case (SlotReady i)
    obtain s where s: "ue_fc_sessions w i = Some s" using ready_fullcone [OF f k SlotReady] by blast
    let ?w = "touch_fullcone now i w"
    have s': "ue_fc_sessions ?w i = Some (s\<lparr>fc_last_seen := now\<rparr>)" using s by (simp add: touch_fullcone_def)
    obtain fine outs w' where "forward_fullcone sent i dst p ?w = Some (fine, outs, w')" "facts N fake w'"
        "frame_of w' = frame_of ?w" "\<forall>out \<in> set outs. by_name fake out"
      using forward_fullcone_ok [OF touch_facts(2) [OF f] s' d, where sent = sent and p = p] by blast
    then show ?thesis using Some SlotReady frame_books [of w' w] frame_config [of w' w] b
      by (auto simp: handle_fullcone_def fine_step_def)
  next
    case (SlotPending i)
    have "facts N fake (push_pending i (dst, p) w)" by (rule push_facts [OF f]) (simp add: d)
    then show ?thesis using Some SlotPending b by (auto simp: handle_fullcone_def intro!: fine_quiet)
  qed
next
  case None
  show ?thesis
  proof (cases "admit_session now (sa_ip peer) (dst, p) w")
    case (Inl w')
    have "facts N fake w'" using f Inl
      by (auto simp: admit_session_def note_session_drop_def Let_def split: option.splits)
    then show ?thesis using None Inl admit_refused [OF b Inl] by (auto simp: handle_fullcone_def intro!: fine_quiet)
  next
    case (Inr x)
    obtain i bd w1 where x: "x = (i, bd, w1)" using prod_cases3 by blast
    have a: "admit_session now (sa_ip peer) (dst, p) w = Inr (i, bd, w1)" using Inr x by simp
    obtain cb pm bu where w1: "w1 = w\<lparr>ue_session_budget := cb, ue_budget := (ue_budget w)\<lparr>ub_sessions := bu\<rparr>, ue_permits := (i, pm) # ue_permits w,
      ue_pendings := (ue_pendings w)(i \<mapsto> pending_new (dst, p) now), ue_next := i + 1\<rparr>"
      "i = ue_next w" "bd = \<lparr> bd_slot = SlotPending i, bd_ip = sa_ip peer \<rparr>" "config_of w1 = config_of w"
      using admit_accepted [OF b a] by metis
    define w2 where "w2 = w1\<lparr>ue_fullcone := AList.update peer bd (ue_fullcone w1)\<rparr>"
    have b2: "books S F w2" unfolding w2_def by (rule admit_fullcone_books [OF b a None])
    have sh: "shared_ok N fake (ue_shared w2)" using f by (simp add: w2_def w1(1) facts_def)
    obtain l w3 where g: "group_hint dst w2 = (l, w3)" by fastforce
    then obtain hints where w3: "w3 = w2\<lparr>ue_shared := (ue_shared w2)\<lparr>sh_domain_ips := hints\<rparr>\<rparr>" using group_hint_changes [OF g] by auto
    let ?t = "\<lparr> tk_kind = Fullcone, tk_peer = peer, tk_dst = dst, tk_is_fakeip = False, tk_fakeip_host = None,
       tk_proto = classify_udp_proto contains dst p PRealIp l, tk_stage = Opening \<rparr>"
    let ?w4 = "w3\<lparr>ue_tasks := (i, ?t) # ue_tasks w3\<rparr>"
    have "handle_fullcone contains now sent peer dst p w = Some ([], ?w4)"
    proof -
      have "spawn_open_fullcone contains peer dst p i w2 = ?w4" using g by (simp add: spawn_open_fullcone_def Let_def)
      then show ?thesis using None Inr x by (simp add: handle_fullcone_def w2_def)
    qed
    moreover have "books S F ?w4"
    proof (rule new_task_books)
      show "books S F w3" using b2 by (simp add: w3)
      show "i \<in> fst ` set (ue_permits w3)" by (simp add: w3 w2_def w1(1))
      show "i \<notin> fst ` set (ue_tasks w3)" using numbers_below(1) [OF b] by (fastforce simp: w3 w2_def w1(1,2))
    qed
    moreover have "facts N fake ?w4"
    proof (rule facts_same)
      show "facts N fake (w\<lparr>ue_pendings := (ue_pendings w)(ue_next w \<mapsto> pending_new (dst, p) now), ue_next := ue_next w + 1,
          ue_fullcone := AList.update peer bd (ue_fullcone w), ue_tasks := (ue_next w, ?t) # ue_tasks w\<rparr>)"
        by (rule new_fullcone_facts [OF b f None]) (simp_all add: w1(3) d flip: w1(2))
      show "shared_ok N fake (ue_shared ?w4)"
        using shared_ok_cong [OF sh, of "(ue_shared w2)\<lparr>sh_domain_ips := hints\<rparr>"] by (simp add: w3)
    qed (simp_all add: w3 w2_def w1(1) flip: w1(2))
    moreover have "config_of ?w4 = config_of w" using w1(4) by (simp add: w3 w2_def)
    ultimately show ?thesis by (simp add: fine_quiet)
  qed
qed

lemma fine_step_config: "config_of v = config_of w \<Longrightarrow> fine_step S F N fake v r = fine_step S F N fake w r"
  by (simp add: fine_step_def)

lemma dispatch_fine:
  assumes C: "crypto_laws C" and b: "books S F w" and f: "facts N fake w"
  shows "fine_step S F N fake w (dispatch_packet C N contains now tun_ready sent peer dst p w)"
proof -
  obtain r v where d: "decide_flow_kind N now peer dst p w = (r, v)" by fastforce
  note v = decide_flow_kind_books [OF b d] facts_decide [OF f d]
  have s: "fine_step S F N fake w (case (r, v) of (None, w') \<Rightarrow> Some ([], w')
      | (Some Symmetric, w') \<Rightarrow> handle_symmetric C N contains now sent peer dst p w'
      | (Some Fullcone, w') \<Rightarrow> handle_fullcone contains now sent peer dst p w')"
  proof (cases r)
    case None
    then show ?thesis using fine_quiet [OF v(1,3,2)] by simp
  next
    case (Some kind)
    then show ?thesis
      using handle_symmetric_fine [OF C v(1,3)] handle_fullcone_fine [OF v(1,3) v(4)] fine_step_config [OF v(2)]
      by (cases kind) simp_all
  qed
  have "fine_step S F N fake w (Some ([], w))" by (rule fine_quiet) (use b f in simp_all)
  then show ?thesis using s unfolding dispatch_packet_def d by simp
qed

section \<open>Opening tasks\<close>

lemma close_pending_facts: "facts N fake w \<Longrightarrow> facts N fake (close_pending i w)"
proof -
  assume f: "facts N fake w"
  have "task_ok fake (close_pending i w) j t" if "(j, t) \<in> set (ue_tasks w)" for j t
    using task_facts(1) [OF f that] by (auto simp: task_ok_def close_pending_def pending_close_def)
  then have "tasks_ok fake (close_pending i w)" by (simp add: tasks_ok_def close_pending_def)
  moreover have "queues_ok (close_pending i w)"
    using f by (auto simp: facts_def queues_ok_def close_pending_def pending_close_def queue_ok_def)
  ultimately show ?thesis
    using f by (simp add: facts_def close_pending_def sessions_ok_def numbers_ok_def task_numbers_def flows_ok_def sniffers_ok_def)
qed

lemma end_task_facts: "facts N fake w \<Longrightarrow> facts N fake (end_task i w)"
proof -
  assume f: "facts N fake w"
  have "task_ok fake (end_task i w) j t = task_ok fake w j t" "task_numbers (end_task i w) j t = task_numbers w j t" for j t
    by (simp_all add: task_ok_def task_numbers_def end_task_def)
  moreover have "set (ue_tasks (end_task i w)) \<subseteq> set (ue_tasks w)" by (auto simp: end_task_def set_delete)
  ultimately have "tasks_ok fake (end_task i w)" "numbers_ok (end_task i w)"
    using f by (auto simp: facts_def tasks_ok_def numbers_ok_def)
  then show ?thesis using f by (simp add: facts_def end_task_def sessions_ok_def flows_ok_def queues_ok_def sniffers_ok_def)
qed

lemma close_record_facts: "facts N fake w \<Longrightarrow> facts N fake (close_record wall r w)"
  by (simp add: close_record_def facts_same_pool)

lemma remove_slot_good:
  assumes "books S F w" and "facts N fake w"
  shows "books S F (remove_slot t w)" and "facts N fake (remove_slot t w)" and "config_of (remove_slot t w) = config_of w"
  using assms remove_symmetric_books [OF assms(1) surjective_pairing] remove_fullcone_books [OF assms(1) surjective_pairing]
    facts_remove_symmetric [OF assms(2)] facts_remove_fullcone [OF assms(2)]
  by (auto simp: remove_slot_def split: flow_kind.splits)

lemma register_changes:
  assumes "register_udp_record wall peer dst proto domain w = (r, w')"
  obtains ids tbl where "w' = w\<lparr>ue_shared := (ue_shared w)\<lparr>sh_ids := ids, sh_table := tbl\<rparr>\<rparr>"
  using assms that by (auto simp: register_udp_record_def Let_def split: prod.splits)

lemma distinct_task:
  assumes "books S F w" and "(i, t) \<in> set (ue_tasks w)" and "(i, u) \<in> set (ue_tasks w)"
  shows "u = t"
  using assms eq_key_imp_eq_value [of "ue_tasks w" i t u] by (simp add: books_def keys_distinct_def)

lemma set_stage_tasks:
  assumes b: "books S F w" and t: "(i, t) \<in> set (ue_tasks w)"
  shows "set (ue_tasks (set_stage i st w)) = insert (i, t\<lparr>tk_stage := st\<rparr>) {e \<in> set (ue_tasks w). fst e \<noteq> i}"
proof -
  have d: "distinct (map fst (ue_tasks w))" using b by (simp add: books_def keys_distinct_def)
  let ?rest = "{e \<in> set (ue_tasks w). fst e \<noteq> i}" and ?f = "\<lambda>(k, v). (k, if k = i then v\<lparr>tk_stage := st\<rparr> else v)"
  have all: "set (ue_tasks w) = insert (i, t) ?rest"
  proof
    show "set (ue_tasks w) \<subseteq> insert (i, t) ?rest" using distinct_task [OF b t] by auto
  qed (use t in auto)
  have "?f ` ?rest = (\<lambda>x. x) ` ?rest" by (rule image_cong) (auto split: prod.splits)
  then have "?f ` insert (i, t) ?rest = insert (i, t\<lparr>tk_stage := st\<rparr>) ?rest" by (simp only: image_insert image_ident) simp
  then have "?f ` set (ue_tasks w) = insert (i, t\<lparr>tk_stage := st\<rparr>) ?rest" by (simp only: all [symmetric])
  then show ?thesis unfolding set_stage_def by (simp add: set_map_entry [OF d])
qed

lemma open_sym_facts:
  assumes b: "books S F w" and f: "facts N fake w" and t: "(i, t) \<in> set (ue_tasks w)" "tk_stage t = Opening" "tk_kind t = Symmetric"
    and s: "sy_is_fakeip s = tk_is_fakeip t" "pred_option quic_inv (sy_sniffer s)" and sh: "sh_fakeip sh = sh_fakeip (ue_shared w)"
  shows "facts N fake (set_stage i Opened (w\<lparr>ue_shared := sh, ue_readers := (i, r) # ue_readers w,
      ue_sym_sessions := (ue_sym_sessions w)(i \<mapsto> s)\<rparr>))" (is "facts N fake (set_stage i Opened ?w)")
proof -
  define v where "v = set_stage i Opened ?w"
  have numbers: "task_numbers w i t" and ok: "task_ok fake w i t" by (rule task_facts [OF f t(1)])+
  have fk: "sy_is_fakeip s = fake (sa_ip (tk_dst t))" using ok t s by (simp add: task_ok_def)
  have tasks: "set (ue_tasks v) = insert (i, t\<lparr>tk_stage := Opened\<rparr>) {e \<in> set (ue_tasks w). fst e \<noteq> i}"
    using set_stage_tasks [OF b t(1), of Opened] by (simp add: set_stage_def v_def)
  have not_ready: "bd_slot bd \<noteq> SlotReady i" if "(k, bd) \<in> set (ue_symmetric w)" for k bd
    using numbers that t(2) unfolding task_numbers_def by fastforce
  have same [simp]: "ue_symmetric v = ue_symmetric w" "ue_fullcone v = ue_fullcone w" "ue_flow_path v = ue_flow_path w"
    "ue_pendings v = ue_pendings w" "ue_fc_sessions v = ue_fc_sessions w" "ue_next v = ue_next w" "ue_shared v = sh"
    "ue_sym_sessions v = (ue_sym_sessions w)(i \<mapsto> s)" "ue_readers v = (i, r) # ue_readers w"
    by (simp_all add: set_stage_def v_def)
  have "sessions_ok fake v" using f not_ready by (auto simp: facts_def sessions_ok_def)
  moreover have "task_ok fake v i (t\<lparr>tk_stage := Opened\<rparr>)" using ok t fk by (simp add: task_ok_def)
  moreover have "task_ok fake v j u" if "(j, u) \<in> set (ue_tasks w)" "j \<noteq> i" for j u
    using task_facts(1) [OF f that(1)] that(2) by (simp add: task_ok_def)
  moreover have "task_numbers v i (t\<lparr>tk_stage := Opened\<rparr>)" using numbers by (simp add: task_numbers_def)
  moreover have "task_numbers v j u" if "(j, u) \<in> set (ue_tasks w)" "j \<noteq> i" for j u
    using task_facts(2) [OF f that(1)] that(2) by (simp add: task_numbers_def)
  ultimately have "sessions_ok fake v" "tasks_ok fake v" "numbers_ok v"
    unfolding tasks_ok_def numbers_ok_def tasks by auto
  moreover have "sniffers_ok v" using f s(2) by (auto simp: facts_def sniffers_ok_def)
  moreover have "shared_ok N fake sh" using f sh shared_ok_cong by (auto simp: facts_def)
  ultimately show ?thesis using f unfolding v_def [symmetric] by (simp add: facts_def flows_ok_def queues_ok_def)
qed

lemma open_fc_facts:
  assumes b: "books S F w" and f: "facts N fake w" and t: "(i, t) \<in> set (ue_tasks w)" "tk_stage t = Opening" "tk_kind t = Fullcone"
    and sh: "sh_fakeip sh = sh_fakeip (ue_shared w)"
  shows "facts N fake (set_stage i Opened (w\<lparr>ue_shared := sh, ue_readers := (i, r) # ue_readers w,
      ue_fc_sessions := (ue_fc_sessions w)(i \<mapsto> s)\<rparr>))" (is "facts N fake (set_stage i Opened ?w)")
proof -
  define v where "v = set_stage i Opened ?w"
  have numbers: "task_numbers w i t" and ok: "task_ok fake w i t" by (rule task_facts [OF f t(1)])+
  have tasks: "set (ue_tasks v) = insert (i, t\<lparr>tk_stage := Opened\<rparr>) {e \<in> set (ue_tasks w). fst e \<noteq> i}"
    using set_stage_tasks [OF b t(1), of Opened] by (simp add: set_stage_def v_def)
  have same [simp]: "ue_symmetric v = ue_symmetric w" "ue_fullcone v = ue_fullcone w" "ue_flow_path v = ue_flow_path w"
    "ue_pendings v = ue_pendings w" "ue_sym_sessions v = ue_sym_sessions w" "ue_next v = ue_next w" "ue_shared v = sh"
    "ue_fc_sessions v = (ue_fc_sessions w)(i \<mapsto> s)" "ue_readers v = (i, r) # ue_readers w"
    by (simp_all add: set_stage_def v_def)
  have "sessions_ok fake v" using f by (simp add: facts_def sessions_ok_def)
  moreover have "task_ok fake v i (t\<lparr>tk_stage := Opened\<rparr>)" using ok t by (simp add: task_ok_def)
  moreover have "task_ok fake v j u" if "(j, u) \<in> set (ue_tasks w)" "j \<noteq> i" for j u
    using task_facts(1) [OF f that(1)] that(2) by (simp add: task_ok_def)
  moreover have "task_numbers v i (t\<lparr>tk_stage := Opened\<rparr>)" using numbers by (simp add: task_numbers_def)
  moreover have "task_numbers v j u" if "(j, u) \<in> set (ue_tasks w)" "j \<noteq> i" for j u
    using task_facts(2) [OF f that(1)] that(2) by (simp add: task_numbers_def)
  ultimately have "sessions_ok fake v" "tasks_ok fake v" "numbers_ok v"
    unfolding tasks_ok_def numbers_ok_def tasks by auto
  moreover have "shared_ok N fake sh" using f sh shared_ok_cong by (auto simp: facts_def)
  ultimately show ?thesis using f unfolding v_def [symmetric] by (simp add: facts_def flows_ok_def queues_ok_def sniffers_ok_def)
qed

lemma task_number_fresh:
  assumes "facts N fake w" and "(i, t) \<in> set (ue_tasks w)" and "tk_stage t = Opening"
  shows "i \<notin> fst ` set (ue_readers w)"
  using task_facts(2) [OF assms(1,2)] assms(3) by (simp add: task_numbers_def)

text \<open>A state that a step may leave behind.\<close>

definition good :: "permit multiset \<Rightarrow> permit multiset \<Rightarrow> 'n ipv4net \<Rightarrow> (ip_addr \<Rightarrow> bool) \<Rightarrow> 'n udp_engine \<Rightarrow> 'n udp_engine \<Rightarrow> bool" where
  "good S F N fake w w' \<longleftrightarrow> books S F w' \<and> facts N fake w' \<and> config_of w' = config_of w"

lemma start_symmetric_good:
  assumes b: "books S F w" and f: "facts N fake w" and t: "(i, t) \<in> set (ue_tasks w)" "tk_stage t = Opening" "tk_kind t = Symmetric"
  shows "good S F N fake w (set_stage i Opened (start_symmetric now wall i t direct relay w))"
proof -
  obtain r v where r: "register_udp_record wall (tk_peer t) (tk_dst t) (tk_proto t) (tk_fakeip_host t) w = (r, v)" by fastforce
  obtain ids tbl where v: "v = w\<lparr>ue_shared := (ue_shared w)\<lparr>sh_ids := ids, sh_table := tbl\<rparr>\<rparr>" by (rule register_changes [OF r])
  let ?r = "\<lparr> rt_kind = Symmetric, rt_peer = tk_peer t, rt_dst = tk_dst t, rt_direct = direct, rt_rec = r, rt_canonical = None \<rparr>"
  obtain s where s: "start_symmetric now wall i t direct relay w = w\<lparr>ue_shared := (ue_shared w)\<lparr>sh_ids := ids, sh_table := tbl\<rparr>,
      ue_readers := (i, ?r) # ue_readers w, ue_sym_sessions := (ue_sym_sessions w)(i \<mapsto> s)\<rparr>"
      "sy_is_fakeip s = tk_is_fakeip t" "pred_option quic_inv (sy_sniffer s)"
    using r v quic_new_inv by (simp add: start_symmetric_def Let_def)
  have "books S F (w\<lparr>ue_readers := (i, ?r) # ue_readers w\<rparr>)"
    by (rule new_reader_books [OF b _ task_number_fresh [OF f t(1,2)]]) (use t in force)
  then have "books S F (w\<lparr>ue_shared := (ue_shared w)\<lparr>sh_ids := ids, sh_table := tbl\<rparr>,
      ue_readers := (i, ?r) # ue_readers w, ue_sym_sessions := (ue_sym_sessions w)(i \<mapsto> s)\<rparr>)" by (simp add: books_defs)
  then show ?thesis unfolding good_def s(1)
    using open_sym_facts [OF b f t s(2,3), of "(ue_shared w)\<lparr>sh_ids := ids, sh_table := tbl\<rparr>" ?r] by simp
qed

lemma start_fullcone_good:
  assumes b: "books S F w" and f: "facts N fake w" and t: "(i, t) \<in> set (ue_tasks w)" "tk_stage t = Opening" "tk_kind t = Fullcone"
  shows "good S F N fake w (set_stage i Opened (start_fullcone now wall i t direct relay w))"
proof -
  obtain r v where r: "register_udp_record wall (tk_peer t) (tk_dst t) (tk_proto t) None w = (r, v)" by fastforce
  obtain ids tbl where v: "v = w\<lparr>ue_shared := (ue_shared w)\<lparr>sh_ids := ids, sh_table := tbl\<rparr>\<rparr>" by (rule register_changes [OF r])
  let ?r = "\<lparr> rt_kind = Fullcone, rt_peer = tk_peer t, rt_dst = tk_dst t, rt_direct = direct, rt_rec = r, rt_canonical = None \<rparr>"
  obtain s where s: "start_fullcone now wall i t direct relay w = w\<lparr>ue_shared := (ue_shared w)\<lparr>sh_ids := ids, sh_table := tbl\<rparr>,
      ue_readers := (i, ?r) # ue_readers w, ue_fc_sessions := (ue_fc_sessions w)(i \<mapsto> s)\<rparr>"
    using r v by (simp add: start_fullcone_def Let_def)
  have "books S F (w\<lparr>ue_readers := (i, ?r) # ue_readers w\<rparr>)"
    by (rule new_reader_books [OF b _ task_number_fresh [OF f t(1,2)]]) (use t in force)
  then have "books S F (w\<lparr>ue_shared := (ue_shared w)\<lparr>sh_ids := ids, sh_table := tbl\<rparr>,
      ue_readers := (i, ?r) # ue_readers w, ue_fc_sessions := (ue_fc_sessions w)(i \<mapsto> s)\<rparr>)" by (simp add: books_defs)
  then show ?thesis unfolding good_def s(1)
    using open_fc_facts [OF b f t, of "(ue_shared w)\<lparr>sh_ids := ids, sh_table := tbl\<rparr>" s ?r] by simp
qed

end
