(* ===== verification/UdpSteps.thy ===== *)
theory UdpSteps
  imports UdpSafety
begin

text \<open>
  The events of the UDP engine, one lemma each: opening a session, installing it, flushing its
  queue, relaying a reply, a reader's end and the idle sweep keep the books of the budgets and the
  facts of the tables, and a step never addresses a datagram to an address of the pool.  The last
  lemmas put the events together for \<open>udp_step\<close>.
\<close>

lemma good_refl: "books S F w \<Longrightarrow> facts N fake w \<Longrightarrow> good S F N fake w w"
  by (simp add: good_def)

lemma good_config: "config_of v = config_of w \<Longrightarrow> good S F N fake v = good S F N fake w"
  by (simp add: good_def fun_eq_iff)

lemma good_fine: "good S F N fake w w' \<Longrightarrow> fine_step S F N fake w (Some ([], w'))"
  by (simp add: good_def fine_quiet)

lemma good_close_record: "good S F N fake w v \<Longrightarrow> good S F N fake w (close_record wall r v)"
  by (simp add: good_def close_record_facts)

lemma good_end_task: "good S F N fake w v \<Longrightarrow> good S F N fake w (end_task i v)"
  by (simp add: good_def end_task_facts)

lemma cache_good: "books S F w \<Longrightarrow> facts N fake w \<Longrightarrow> good S F N fake w (w\<lparr>ue_spoof_cache := c\<rparr>)"
  by (simp add: good_def)

text \<open>A session either opens, or nothing changes but the cache of sockets.\<close>

lemma open_session_good:
  assumes b: "books S F w" and f: "facts N fake w" and t: "(i, t) \<in> set (ue_tasks w)" "tk_stage t = Opening"
    and o': "open_session now wall i t up bind_ok w = (r, w')"
  shows "if r then good S F N fake w (set_stage i Opened w') else \<exists>c. w' = w\<lparr>ue_spoof_cache := c\<rparr>"
proof (cases "tk_kind t")
  case Symmetric
  have bound: "if r then good S F N fake w (set_stage i Opened w') else \<exists>c. w' = w\<lparr>ue_spoof_cache := c\<rparr>"
    if "bound_then now bind_ok (tk_dst t) (start_symmetric now wall i t direct relay) w = (r, w')" for direct relay
  proof -
    obtain s c where g: "get_or_bind now (if bind_ok then Some (tk_dst t) else None) (tk_dst t) (ue_spoof_cache w) = (s, c)" by fastforce
    let ?w = "w\<lparr>ue_spoof_cache := c\<rparr>"
    have "good S F N fake ?w (set_stage i Opened (start_symmetric now wall i t direct relay ?w))"
      by (rule start_symmetric_good) (use b f t Symmetric in simp_all)
    then have "good S F N fake w (set_stage i Opened (start_symmetric now wall i t direct relay ?w))" by (simp add: good_def)
    then show ?thesis using that g by (cases s) (auto simp: bound_then_def)
  qed
  have same: "\<exists>c. w = w\<lparr>ue_spoof_cache := c\<rparr>" by (rule exI [of _ "ue_spoof_cache w"]) simp
  show ?thesis using o' Symmetric bound same
    by (auto simp: open_session_def open_symmetric_session_def open_direct_symmetric_session_def
        split: upstream.splits option.splits if_splits)
next
  case Fullcone
  have same: "\<exists>c. w = w\<lparr>ue_spoof_cache := c\<rparr>" by (rule exI [of _ "ue_spoof_cache w"]) simp
  show ?thesis using o' Fullcone start_fullcone_good [OF b f t Fullcone] same
    by (auto simp: open_session_def open_fullcone_session_def open_direct_fullcone_session_def
        split: upstream.splits option.splits if_splits)
qed

lemma task_open_good:
  assumes b: "books S F w" and f: "facts N fake w" and t: "(i, t) \<in> set (ue_tasks w)" "tk_stage t = Opening"
  shows "good S F N fake w (task_open now wall i t up bind_ok w)"
proof -
  obtain r w' where o': "open_session now wall i t up bind_ok w = (r, w')" by fastforce
  note r = open_session_good [OF b f t o']
  show ?thesis
  proof (cases r)
    case True
    then show ?thesis using r o' by (simp add: task_open_def)
  next
    case False
    then obtain c where c: "w' = w\<lparr>ue_spoof_cache := c\<rparr>" using r by auto
    let ?v = "close_pending i w'"
    have v: "books S F ?v" "facts N fake ?v" "config_of ?v = config_of w"
      using b close_pending_facts [of N fake w'] f c by simp_all
    show ?thesis using False o' v remove_slot_good [OF v(1,2), of t]
      by (simp add: task_open_def Let_def end_task_facts good_def)
  qed
qed

lemma task_install_good:
  assumes b: "books S F w" and f: "facts N fake w" and t: "(i, t) \<in> set (ue_tasks w)" "tk_stage t = Opened"
  shows "\<exists>w'. task_install wall i t w = Some w' \<and> good S F N fake w w'"
proof (cases "slot_of t w = Some (SlotPending i)")
  case True
  define v where "v = set_stage i Installed (set_ready i t w)"
  have b': "books S F (set_ready i t w)" by (rule set_ready_books [OF b True])
  then have "books S F v" by (simp add: v_def)
  have t': "(i, t) \<in> set (ue_tasks (set_ready i t w))" using t by (simp add: set_ready_def split: flow_kind.splits)
  have tasks: "set (ue_tasks v) = insert (i, t\<lparr>tk_stage := Installed\<rparr>) {e \<in> set (ue_tasks w). fst e \<noteq> i}"
    using set_stage_tasks [OF b' t', of Installed] by (simp add: v_def set_ready_def split: flow_kind.splits)
  have numbers: "task_numbers w i t" and ok: "task_ok fake w i t" by (rule task_facts [OF f t(1)])+
  have same [simp]: "ue_flow_path v = ue_flow_path w" "ue_sym_sessions v = ue_sym_sessions w"
    "ue_pendings v = ue_pendings w" "ue_fc_sessions v = ue_fc_sessions w" "ue_next v = ue_next w" "ue_shared v = ue_shared w"
    "ue_readers v = ue_readers w" by (simp_all add: v_def set_stage_def set_ready_def split: flow_kind.splits)
  have d: "distinct (map fst (ue_symmetric w))" "distinct (map fst (ue_fullcone w))" using b by (simp_all add: books_def keys_distinct_def)
  have sym: "(k, bd) \<in> set (ue_symmetric w) \<or> (tk_kind t = Symmetric \<and> k = (tk_peer t, tk_dst t) \<and> bd_slot bd = SlotReady i)"
    if "(k, bd) \<in> set (ue_symmetric v)" for k bd
    using that by (auto simp: v_def set_stage_def set_ready_def set_map_entry [OF d(1)] split: flow_kind.splits if_splits)
  have fc: "(k, bd) \<in> set (ue_fullcone w) \<or> (tk_kind t = Fullcone \<and> k = tk_peer t \<and> bd_slot bd = SlotReady i)"
    if "(k, bd) \<in> set (ue_fullcone v)" for k bd
    using that by (auto simp: v_def set_stage_def set_ready_def set_map_entry [OF d(2)] split: flow_kind.splits if_splits)
  have "sessions_ok fake v"
    using f sym fc ok t(2) unfolding sessions_ok_def facts_def task_ok_def same by fastforce
  moreover have "task_ok fake v i (t\<lparr>tk_stage := Installed\<rparr>)" using ok t(2) by (simp add: task_ok_def)
  moreover have "task_ok fake v j u" if "(j, u) \<in> set (ue_tasks w)" for j u
    using task_facts(1) [OF f that(1)] by (simp add: task_ok_def)
  moreover have "task_numbers v i (t\<lparr>tk_stage := Installed\<rparr>)"
    using numbers sym fc unfolding task_numbers_def by fastforce
  moreover have "task_numbers v j u" if "(j, u) \<in> set (ue_tasks w)" "j \<noteq> i" for j u
    using task_facts(2) [OF f that(1)] that(2) sym fc unfolding task_numbers_def same by fastforce
  ultimately have "sessions_ok fake v" "tasks_ok fake v" "numbers_ok v"
    unfolding tasks_ok_def numbers_ok_def tasks by auto
  then have "facts N fake v" using f by (simp add: facts_def flows_ok_def queues_ok_def sniffers_ok_def)
  moreover have "config_of v = config_of w" by (simp add: v_def)
  moreover have "task_install wall i t w = Some v" using True by (simp add: task_install_def v_def)
  ultimately show ?thesis using \<open>books S F v\<close> by (auto simp: good_def)
next
  case False
  have "task_rec i t w \<noteq> None" using task_facts(1) [OF f t(1)] t(2) by (cases "tk_kind t") (auto simp: task_rec_def task_ok_def)
  then show ?thesis using False good_end_task [OF good_close_record [OF good_refl [OF b f]]] by (auto simp: task_install_def)
qed

lemma flush_symmetric_good:
  "crypto_laws C \<Longrightarrow> facts N fake w \<Longrightarrow> ue_sym_sessions w i = Some s \<Longrightarrow> sy_is_fakeip s = fake (sa_ip dst) \<Longrightarrow>
    \<exists>outs w'. flush_symmetric C i dst ps w = Some (outs, w') \<and> facts N fake w' \<and> frame_of w' = frame_of w \<and>
      (\<forall>out \<in> set outs. by_name fake out)"
proof (induction ps arbitrary: w s)
  case (Cons p ps)
  obtain x sent where p: "p = (x, sent)" by fastforce
  obtain fine outs w1 s1 where w1: "forward_symmetric C sent i dst x w = Some (fine, outs, w1)" "facts N fake w1"
      "frame_of w1 = frame_of w" "\<forall>out \<in> set outs. by_name fake out" "ue_sym_sessions w1 i = Some s1" "sy_is_fakeip s1 = fake (sa_ip dst)"
    using forward_symmetric_ok [OF Cons.prems, where sent = sent and p = x] by blast
  obtain outs' w2 where "flush_symmetric C i dst ps w1 = Some (outs', w2)" "facts N fake w2" "frame_of w2 = frame_of w1"
      "\<forall>out \<in> set outs'. by_name fake out" using Cons.IH [OF Cons.prems(1) w1(2,5,6)] by blast
  then show ?case using w1 p by (cases fine) auto
qed simp

lemma flush_fullcone_good:
  "facts N fake w \<Longrightarrow> ue_fc_sessions w i = Some s \<Longrightarrow> (\<forall>x \<in> set ps. \<not> fake (sa_ip (fst (fst x)))) \<Longrightarrow>
    \<exists>outs w'. flush_fullcone i ps w = Some (outs, w') \<and> facts N fake w' \<and> frame_of w' = frame_of w \<and>
      (\<forall>out \<in> set outs. by_name fake out)"
proof (induction ps arbitrary: w)
  case (Cons p ps)
  obtain dst x sent where p: "p = ((dst, x), sent)" by (metis prod.collapse)
  then have "\<not> fake (sa_ip dst)" using Cons.prems(3) by simp
  then obtain fine outs w1 where w1: "forward_fullcone sent i dst x w = Some (fine, outs, w1)" "facts N fake w1"
      "frame_of w1 = frame_of w" "\<forall>out \<in> set outs. by_name fake out" "ue_fc_sessions w1 = ue_fc_sessions w"
    using forward_fullcone_ok [OF Cons.prems(1,2), where sent = sent and p = x] by blast
  obtain outs' w2 where "flush_fullcone i ps w1 = Some (outs', w2)" "facts N fake w2" "frame_of w2 = frame_of w1"
      "\<forall>out \<in> set outs'. by_name fake out" using Cons.IH [OF w1(2)] w1(5) Cons.prems(2,3) by auto
  then show ?case using w1 p by (cases fine) auto
qed simp

lemma frame_good: "books S F w \<Longrightarrow> facts N fake w' \<Longrightarrow> frame_of w' = frame_of w \<Longrightarrow> good S F N fake w w'"
  using frame_books [of w' w] frame_config [of w' w] by (simp add: good_def)

lemma take_pending_good:
  assumes f: "facts N fake w" and "take_pending i w = (pkts, w')"
  shows "facts N fake w'" and "frame_of w' = frame_of w" and "ue_sym_sessions w' = ue_sym_sessions w"
    and "ue_fc_sessions w' = ue_fc_sessions w"
    and "(i, t) \<in> set (ue_tasks w) \<Longrightarrow> tk_kind t = Fullcone \<Longrightarrow> \<forall>x \<in> set pkts. \<not> fake (sa_ip (fst x))"
proof -
  have "w' = close_pending i w"
    using assms(2) by (auto simp: take_pending_def pending_take_def close_pending_def pending_close_def split: option.splits)
      (simp add: fun_upd_idem)
  then show "facts N fake w'" "frame_of w' = frame_of w" "ue_sym_sessions w' = ue_sym_sessions w" "ue_fc_sessions w' = ue_fc_sessions w"
    using close_pending_facts [OF f] by (simp_all add: close_pending_def)
  show "\<forall>x \<in> set pkts. \<not> fake (sa_ip (fst x))" if t: "(i, t) \<in> set (ue_tasks w)" "tk_kind t = Fullcone"
  proof
    fix x assume "x \<in> set pkts"
    then obtain p q where "ue_pendings w i = Some p" "pd_queue p = Some q" "x \<in> set q"
      using assms(2) by (auto simp: take_pending_def pending_take_def split: option.splits)
    then show "\<not> fake (sa_ip (fst x))" by (rule queued_dst [OF f t])
  qed
qed

lemma task_flush_fine:
  assumes C: "crypto_laws C" and b: "books S F w" and f: "facts N fake w" and t: "(i, t) \<in> set (ue_tasks w)" "tk_stage t = Installed"
  shows "fine_step S F N fake w (task_flush C sent i t w)"
proof -
  obtain pkts v where p: "take_pending i w = (pkts, v)" by fastforce
  note v = take_pending_good [OF f p]
  have ok: "task_ok fake w i t" by (rule task_facts [OF f t(1)])
  obtain r where r: "task_rec i t w = Some r" using ok t(2) by (cases "tk_kind t") (auto simp: task_rec_def task_ok_def)
  define u where "u = (if wants_head (tk_kind t) (tk_proto t) \<and> pkts \<noteq> []
      then v\<lparr>ue_shared := set_head_of r (snd (hd pkts)) (ue_shared v)\<rparr> else v)"
  have u: "facts N fake u" "frame_of u = frame_of w" "ue_sym_sessions u = ue_sym_sessions w" "ue_fc_sessions u = ue_fc_sessions w"
    using v(1-4) facts_same_pool [OF v(1)] by (auto simp: u_def set_head_of_def)
  let ?flushed = "case tk_kind t of
      Symmetric \<Rightarrow> flush_symmetric C i (tk_dst t) (zip (map snd pkts) (map sent [0..<length pkts])) u
    | Fullcone \<Rightarrow> flush_fullcone i (zip pkts (map sent [0..<length pkts])) u"
  have "\<exists>outs w'. ?flushed = Some (outs, w') \<and> facts N fake w' \<and> frame_of w' = frame_of u \<and> (\<forall>out \<in> set outs. by_name fake out)"
  proof (cases "tk_kind t")
    case Symmetric
    then obtain s where "ue_sym_sessions u i = Some s" "sy_is_fakeip s = fake (sa_ip (tk_dst t))"
      using ok t(2) u(3) by (auto simp: task_ok_def)
    then show ?thesis using flush_symmetric_good [OF C u(1)] Symmetric by simp
  next
    case Fullcone
    then obtain s where s: "ue_fc_sessions u i = Some s" using ok t(2) u(4) by (auto simp: task_ok_def)
    have "\<forall>x \<in> set (zip pkts (map sent [0..<length pkts])). \<not> fake (sa_ip (fst (fst x)))"
    proof
      fix x assume "x \<in> set (zip pkts (map sent [0..<length pkts]))"
      then have "fst x \<in> set pkts" by (metis prod.collapse set_zip_leftD)
      then show "\<not> fake (sa_ip (fst (fst x)))" using v(5) [OF t(1) Fullcone] by blast
    qed
    then show ?thesis using flush_fullcone_good [OF u(1) s] Fullcone by simp
  qed
  then obtain outs w' where w': "?flushed = Some (outs, w')" "facts N fake w'" "frame_of w' = frame_of u"
      "\<forall>out \<in> set outs. by_name fake out" by blast
  have "task_flush C sent i t w = Some (outs, end_task i w')"
    using r p w'(1) unfolding u_def
    by (cases "wants_head (tk_kind t) (tk_proto t) \<and> pkts \<noteq> []"; cases "tk_kind t") (auto simp: task_flush_def Let_def)
  moreover have "good S F N fake w (end_task i w')"
    by (rule good_end_task, rule frame_good [OF b w'(2)]) (simp add: w'(3) u(2))
  ultimately show ?thesis using w'(4) by (simp add: good_def fine_step_def)
qed

section \<open>Replies, exits and sweeps\<close>

lemma plain_good:
  assumes "books S F w" and "facts N fake w"
  shows "good S F N fake w (count_reply kind (w\<lparr>ue_spoof_cache := c\<rparr>))" "good S F N fake w (w\<lparr>ue_spoof_cache := c\<rparr>)"
    "good S F N fake w (downloaded r p w)" "good S F N fake w (count_reply kind w)"
  using assms by (auto simp: good_def count_reply_def downloaded_def add_down_to_def facts_same_pool split: flow_kind.splits)

lemma canonical_facts: "facts N fake w \<Longrightarrow> facts N fake (set_canonical i c w)"
proof -
  assume f: "facts N fake w"
  have k: "fst ` set (AList.map_entry i g (ue_readers w)) = fst ` set (ue_readers w)" for g
    by (metis map_entry_keys set_map)
  have "task_ok fake (set_canonical i c w) j t = task_ok fake w j t" "task_numbers (set_canonical i c w) j t = task_numbers w j t" for j t
    by (simp_all add: task_ok_def task_numbers_def set_canonical_def k)
  then show ?thesis using f
    by (simp add: facts_def set_canonical_def sessions_ok_def tasks_ok_def numbers_ok_def flows_ok_def queues_ok_def sniffers_ok_def)
qed

lemma send_spoofed_fine:
  assumes "good S F N fake w v" and "\<And>u. good S F N fake w u \<Longrightarrow> good S F N fake w (counted u)"
  shows "fine_step S F N fake w (Some (send_spoofed now bind_ok sent src counted peer p v))"
proof -
  have c: "good S F N fake w (v\<lparr>ue_spoof_cache := c\<rparr>)" for c using assms(1) by (simp add: good_def)
  then have "good S F N fake w (counted (v\<lparr>ue_spoof_cache := c\<rparr>))" for c by (rule assms(2))
  then show ?thesis using c
    by (auto simp: send_spoofed_def fine_step_def good_def by_name_def split: prod.splits option.splits)
qed

lemma counted_good: "good S F N fake w u \<Longrightarrow> good S F N fake w (count_reply kind u)"
  "good S F N fake w u \<Longrightarrow> good S F N fake w (downloaded r p u)"
  by (auto simp: good_def count_reply_def downloaded_def add_down_to_def facts_same_pool split: flow_kind.splits)

lemma decode_reply_returns: "\<exists>r. decode_udp_reply buf = Some r"
  by (auto simp: decode_udp_reply_def byte_at_def Let_def split: sum.splits if_splits)

lemma spoofed_fine: "good S F N fake w v \<Longrightarrow> fine_step S F N fake w (Some ([Spoofed a b p], v))"
  by (simp add: fine_step_def good_def by_name_def)

lemma relay_reply_fine:
  assumes b: "books S F w" and f: "facts N fake w"
  shows "fine_step S F N fake w (relay_reply now bind_ok sent i t frame w)"
proof -
  obtain d where d: "decode_udp_reply frame = Some d" using decode_reply_returns by blast
  show ?thesis
  proof (cases d)
    case (Inl e)
    then show ?thesis using d good_fine [OF good_refl [OF b f]] by (simp add: relay_reply_def)
  next
    case (Inr so)
    obtain src off where so: "so = (src, off)" by fastforce
    define v where "v = downloaded (rt_rec t) (drop off frame) w"
    have v: "good S F N fake w v" unfolding v_def by (rule plain_good(3) [OF b f])
    show ?thesis
    proof (cases "rt_kind t")
      case Symmetric
      obtain alt canon where a: "symmetric_spoof_src (rt_canonical t) src (rt_dst t) = (alt, canon)" by fastforce
      have c: "good S F N fake w (set_canonical i canon v)" using v canonical_facts [of N fake v] by (simp add: good_def)
      have "relay_reply now bind_ok sent i t frame w = Some (case alt of
          None \<Rightarrow> if sent then ([Spoofed (rt_dst t) (rt_peer t) (drop off frame)], count_reply Symmetric (set_canonical i canon v))
            else ([], set_canonical i canon v)
        | Some s \<Rightarrow> send_spoofed now bind_ok sent s (count_reply Symmetric) (rt_peer t) (drop off frame) (set_canonical i canon v))"
        using d Inr so Symmetric a by (cases alt) (simp_all add: relay_reply_def Let_def v_def)
      then show ?thesis using send_spoofed_fine [OF c counted_good(1)] spoofed_fine [OF counted_good(1) [OF c]] good_fine [OF c]
        by (cases alt) auto
    next
      case Fullcone
      have "relay_reply now bind_ok sent i t frame w = Some (send_spoofed now bind_ok sent
          (if sa_ip src = V4 0 \<or> sa_ip src = V6 0 then rt_dst t else src) (count_reply Fullcone) (rt_peer t) (drop off frame) v)"
        using d Inr so Fullcone by (simp add: relay_reply_def Let_def flip: v_def)
      then show ?thesis using send_spoofed_fine [OF v counted_good(1)] by simp
    qed
  qed
qed

lemma direct_reply_fine:
  assumes b: "books S F w" and f: "facts N fake w"
  shows "fine_step S F N fake w (Some (direct_reply now bind_ok sent t src p w))"
proof (cases "rt_kind t")
  case Symmetric
  then show ?thesis
    using spoofed_fine [OF counted_good(1) [OF plain_good(3) [OF b f]]] good_fine [OF good_refl [OF b f]] by (simp add: direct_reply_def)
next
  case Fullcone
  then show ?thesis
    using send_spoofed_fine [OF good_refl [OF b f] counted_good(1) [OF counted_good(2)]] by (simp add: direct_reply_def)
qed


lemma remove_symmetric_good:
  assumes "books S F w" and "facts N fake w" and "remove_symmetric k w = (s, w')"
  shows "good S F N fake w w'"
  using remove_symmetric_books [OF assms(1,3)] facts_remove_symmetric [OF assms(2), of k] assms(3) by (simp add: good_def)

lemma remove_fullcone_good:
  assumes "books S F w" and "facts N fake w" and "remove_fullcone k w = (s, w')"
  shows "good S F N fake w w'"
  using remove_fullcone_books [OF assms(1,3)] facts_remove_fullcone [OF assms(2), of k] assms(3) by (simp add: good_def)

lemma good_remove_flow: "good S F N fake w v \<Longrightarrow> \<exists>v'. remove_flow k v = Some v' \<and> good S F N fake w v'"
  using remove_flow_books [of S F v k] facts_remove_flow [of N fake v k] by (auto simp: good_def)

lemma good_remove_flows: "good S F N fake w v \<Longrightarrow> \<exists>v'. remove_flows ks v = Some v' \<and> good S F N fake w v'"
  using remove_flows_books [of S F v ks] facts_remove_flows [of N fake v ks] by (auto simp: good_def)

lemma good_trans: "good S F N fake w v \<Longrightarrow> good S F N fake v u \<Longrightarrow> good S F N fake w u"
  by (simp add: good_def)

lemma goodD: "good S F N fake w v \<Longrightarrow> books S F v" "good S F N fake w v \<Longrightarrow> facts N fake v"
  by (simp_all add: good_def)

lemma drop_reader_good: "good S F N fake w v \<Longrightarrow> good S F N fake w (v\<lparr>ue_readers := AList.delete i (ue_readers v)\<rparr>)"
proof -
  assume g: "good S F N fake w v"
  let ?v = "v\<lparr>ue_readers := AList.delete i (ue_readers v)\<rparr>"
  have "task_ok fake ?v j t = task_ok fake v j t" "task_numbers v j t \<Longrightarrow> task_numbers ?v j t" for j t
    by (auto simp: task_ok_def task_numbers_def set_delete)
  then have "tasks_ok fake ?v" "numbers_ok ?v" using goodD(2) [OF g] by (auto simp: facts_def tasks_ok_def numbers_ok_def)
  then show ?thesis using g
    by (simp add: good_def facts_def sessions_ok_def flows_ok_def queues_ok_def sniffers_ok_def)
qed

lemma remove_flow_readers: "remove_flow k w = Some w' \<Longrightarrow> ue_readers w' = ue_readers w"
  by (auto simp: remove_flow_def split: option.splits Option.bind_splits)

lemma remove_flows_readers: "remove_flows ks w = Some w' \<Longrightarrow> ue_readers w' = ue_readers w"
  by (induction ks arbitrary: w) (auto dest: remove_flow_readers split: Option.bind_splits)

lemma reader_exit_good:
  assumes b: "books S F w" and f: "facts N fake w"
  shows "\<exists>w'. reader_exit wall i t w = Some w' \<and> good S F N fake w w'"
proof -
  have "\<exists>v. (case rt_kind t of
       Symmetric \<Rightarrow> remove_flow (rt_peer t, rt_dst t) (snd (remove_symmetric (rt_peer t, rt_dst t) w))
     | Fullcone \<Rightarrow> let w' = snd (remove_fullcone (rt_peer t) w) in remove_flows (full_cone_flows (rt_peer t) w') w') = Some v \<and>
     good S F N fake w v"
    using good_remove_flow [OF remove_symmetric_good [OF b f surjective_pairing]]
      good_remove_flows [OF remove_fullcone_good [OF b f surjective_pairing]]
    by (cases "rt_kind t") (auto simp: Let_def)
  then obtain v where v: "(case rt_kind t of
       Symmetric \<Rightarrow> remove_flow (rt_peer t, rt_dst t) (snd (remove_symmetric (rt_peer t, rt_dst t) w))
     | Fullcone \<Rightarrow> let w' = snd (remove_fullcone (rt_peer t) w) in remove_flows (full_cone_flows (rt_peer t) w') w') = Some v"
     "good S F N fake w v" by blast
  have "ue_readers v = ue_readers (close_record wall (rt_rec t) v)" by (simp add: close_record_def)
  moreover have "ue_readers v = ue_readers w" using v(1)
    by (auto simp: remove_symmetric_def remove_fullcone_def Let_def split: flow_kind.splits option.splits dest: remove_flow_readers remove_flows_readers)
  ultimately have "reader_exit wall i t w = Some ((close_record wall (rt_rec t) v)\<lparr>ue_readers := AList.delete i (ue_readers (close_record wall (rt_rec t) v))\<rparr>)"
    using v(1) by (simp add: reader_exit_def)
  then show ?thesis using drop_reader_good [OF good_close_record [OF v(2)]] by auto
qed

lemma close_session_good: "good S F N fake w v \<Longrightarrow> good S F N fake w (close_session_record wall r v)"
  by (auto simp: close_session_record_def good_close_record split: option.splits)

lemma sweep_symmetric_good: "good S F N fake w v \<Longrightarrow> \<exists>v'. sweep_symmetric wall ks v = Some v' \<and> good S F N fake w v'"
proof (induction ks arbitrary: v)
  case (Cons k ks)
  obtain s v1 where s: "remove_symmetric k v = (s, v1)" by fastforce
  have v1: "good S F N fake w v1"
    by (rule good_trans [OF Cons.prems remove_symmetric_good [OF goodD [OF Cons.prems] s]])
  let ?v2 = "case s of Some (SlotReady i) \<Rightarrow> close_session_record wall (map_option sy_rec (ue_sym_sessions v1 i)) v1 | _ \<Rightarrow> v1"
  have "good S F N fake w ?v2" using v1 close_session_good [OF v1] by (auto split: option.splits slot.splits)
  then obtain v3 where v3: "remove_flow k ?v2 = Some v3" "good S F N fake w v3" using good_remove_flow by blast
  from Cons.IH [OF v3(2)] show ?case using s v3(1) by (simp add: Let_def)
qed simp

lemma sweep_fullcone_good: "good S F N fake w v \<Longrightarrow> good S F N fake w (sweep_fullcone wall ks v)"
proof (induction ks arbitrary: v)
  case (Cons k ks)
  obtain s v1 where s: "remove_fullcone k v = (s, v1)" by fastforce
  have v1: "good S F N fake w v1"
    by (rule good_trans [OF Cons.prems remove_fullcone_good [OF goodD [OF Cons.prems] s]])
  let ?v2 = "case s of Some (SlotReady i) \<Rightarrow> close_session_record wall (map_option fc_rec (ue_fc_sessions v1 i)) v1 | _ \<Rightarrow> v1"
  have "good S F N fake w ?v2" using v1 close_session_good [OF v1] by (auto split: option.splits slot.splits)
  from Cons.IH [OF this] show ?case using s by (simp add: Let_def)
qed simp

lemma sweep_idle_good:
  assumes b: "books S F w" and f: "facts N fake w"
  shows "\<exists>n w'. sweep_idle now wall w = Some (n, w') \<and> good S F N fake w w'"
proof -
  obtain w1 where w1: "sweep_symmetric wall (map fst (filter (\<lambda>(k, b). symmetric_dead now w k (bd_slot b)) (ue_symmetric w))) w = Some w1"
      "good S F N fake w w1" using sweep_symmetric_good [OF good_refl [OF b f]] by blast
  define w2 where "w2 = sweep_fullcone wall (map fst (filter (\<lambda>(k, b). fullcone_dead now w1 (bd_slot b)) (ue_fullcone w1))) w1"
  have "good S F N fake w w2" unfolding w2_def by (rule sweep_fullcone_good [OF w1(2)])
  then obtain w3 where "remove_flows (map fst (filter (\<lambda>(k, e). flow_dead now w2 k e) (ue_flow_path w2))) w2 = Some w3"
      "good S F N fake w w3" using good_remove_flows by blast
  then show ?thesis using w1(1) by (simp add: sweep_idle_def Let_def flip: w2_def)
qed

section \<open>Every step\<close>

lemma unowned_facts: "facts N fake w \<Longrightarrow> drop_unowned w = Some w' \<Longrightarrow> facts N fake w'"
  by (auto simp: drop_unowned_def split: Option.bind_splits)

lemma act_fine:
  assumes C: "crypto_laws C" and b: "books S F w" and f: "facts N fake w"
  shows "fine_step S F N fake w (act C N contains now wall ev w)"
proof -
  have quiet: "fine_step S F N fake w (Some ([], w))" by (rule good_fine [OF good_refl [OF b f]])
  have lift: "fine_step S F N fake w (map_option (Pair []) r)" if "\<exists>w'. r = Some w' \<and> good S F N fake w w'" for r
    using that good_fine by auto
  show ?thesis
  proof (cases ev)
    case (Packet peer dst p tun sent)
    then show ?thesis using dispatch_fine [OF C b f] by (simp add: act_def)
  next
    case (TaskOpen i up ok)
    then show ?thesis using good_fine [OF task_open_good [OF b f map_of_SomeD]] quiet by (auto simp: act_def split: option.splits)
  next
    case (TaskInstall i)
    then show ?thesis using lift [OF task_install_good [OF b f map_of_SomeD]] quiet by (auto simp: act_def split: option.splits)
  next
    case (TaskFlush i sent)
    then show ?thesis using task_flush_fine [OF C b f map_of_SomeD] quiet by (auto simp: act_def split: option.splits)
  next
    case (Reply i src p ok sent)
    then show ?thesis using relay_reply_fine [OF b f] direct_reply_fine [OF b f] quiet by (auto simp: act_def split: option.splits)
  next
    case (ReaderExit i)
    then show ?thesis using lift [OF reader_exit_good [OF b f]] quiet by (auto simp: act_def split: option.splits)
  next
    case (ReaderAborted i)
    then show ?thesis using good_fine [OF drop_reader_good [OF good_refl [OF b f]]] quiet by (simp add: act_def)
  next
    case Sweep
    obtain n w' where "sweep_idle now wall w = Some (n, w')" "good S F N fake w w'" using sweep_idle_good [OF b f] by blast
    then show ?thesis using Sweep good_fine by (auto simp: act_def)
  qed
qed

lemma udp_step_fine:
  assumes C: "crypto_laws C" and b: "books S F w" and f: "facts N fake w"
  shows "fine_step S F N fake w (udp_step C N contains now wall ev w)"
    and "udp_step C N contains now wall ev w = Some (outs, w') \<Longrightarrow> fst ` set (ue_permits w') = set (permit_owners w')"
proof -
  obtain os v where v: "act C N contains now wall ev w = Some (os, v)" "books S F v" "facts N fake v" "config_of v = config_of w"
      "\<forall>out \<in> set os. by_name fake out" using act_fine [OF C b f] unfolding fine_step_def by blast
  obtain u where u: "drop_unowned v = Some u" "books S F u" "config_of u = config_of v" "fst ` set (ue_permits u) = set (permit_owners u)"
    using drop_unowned_books [OF v(2)] by blast
  show "fine_step S F N fake w (udp_step C N contains now wall ev w)"
    using v u unowned_facts [OF v(3) u(1)] by (simp add: udp_step_def fine_step_def)
  show "udp_step C N contains now wall ev w = Some (outs, w') \<Longrightarrow> fst ` set (ue_permits w') = set (permit_owners w')"
    using v(1) u by (simp add: udp_step_def)
qed

end
