(* ===== verification/UdpClocks.thy ===== *)
theory UdpClocks
  imports UdpSteps
begin

text \<open>
  Times and direct sockets in the UDP engine: no event leaves a time stamp later than its own, a full-cone
  session's timeout is at most the engine's, and a direct socket is connected to no address of the pool,
  event by event and then for \<open>udp_step\<close>.
\<close>



section \<open>Clocks and sockets\<close>

text \<open>Every socket of the cache is the one bound to its address.\<close>

definition own_sockets :: "socket_addr spoof_cache \<Rightarrow> bool" where
  "own_sockets c \<longleftrightarrow> (\<forall>e \<in> set (sc_map c). snd e = fst e)"

lemma bound_socket_is_own:
  assumes "own_sockets c" and "get_or_bind now (if ok then Some src else None) src c = (r, c')"
  shows "own_sockets c'" and "r = None \<or> r = Some src"
proof -
  have keep: "own_sockets (keep_socket src src d)" if "own_sockets d" for d
    using that set_update_subset [of src src] by (fastforce simp: keep_socket_def own_sockets_def Let_def set_delete)
  have failed: "own_sockets (note_failed_bind now src d) = own_sockets d" for d
    by (simp add: note_failed_bind_def own_sockets_def Let_def)
  have del: "own_sockets (c\<lparr>sc_nx := x\<rparr>)" for x using assms(1) by (simp add: own_sockets_def)
  have hit: "k = src" if "map_of (sc_map c) src = Some k" for k
    using assms(1) map_of_SomeD [OF that] by (force simp: own_sockets_def)
  show "own_sockets c'" using assms keep [OF del] failed del
    by (auto simp: get_or_bind_def Let_def split: option.splits if_splits)
  show "r = None \<or> r = Some src" using assms(2) hit
    by (auto simp: get_or_bind_def Let_def split: option.splits if_splits)
qed

text \<open>
  Nothing carries a time later than the last event, a full-cone session never waits longer than the
  engine's timeout, and a direct socket goes to no address of the pool.
\<close>

definition sym_clock :: "(ip_addr \<Rightarrow> bool) \<Rightarrow> nat \<Rightarrow> symmetric_session \<Rightarrow> bool" where
  "sym_clock fake t s \<longleftrightarrow> sy_last_seen s \<le> t \<and> (sy_direct s \<longrightarrow> \<not> fake (sa_ip (sy_relay s)))"

definition fc_clock :: "nat \<Rightarrow> nat \<Rightarrow> fullcone_session \<Rightarrow> bool" where
  "fc_clock idle t s \<longleftrightarrow> fc_last_seen s \<le> t \<and> fc_idle s \<le> idle"

definition clocks :: "(ip_addr \<Rightarrow> bool) \<Rightarrow> nat \<Rightarrow> 'n udp_engine \<Rightarrow> bool" where
  "clocks fake t w \<longleftrightarrow> (\<forall>i. pred_option (sym_clock fake t) (ue_sym_sessions w i)) \<and>
     (\<forall>i. pred_option (fc_clock (ue_idle_timeout w) t) (ue_fc_sessions w i)) \<and>
     (\<forall>i. pred_option (\<lambda>p. pd_created p \<le> t) (ue_pendings w i)) \<and>
     (\<forall>e \<in> set (ue_flow_path w). fe_last_seen (snd e) \<le> t) \<and> own_sockets (ue_spoof_cache w)"

definition direct_ok :: "(ip_addr \<Rightarrow> bool) \<Rightarrow> udp_out \<Rightarrow> bool" where
  "direct_ok fake out = (case out of ToDirect d _ \<Rightarrow> \<not> fake (sa_ip d) | _ \<Rightarrow> True)"

lemma direct_ok_simps [simp]:
  "direct_ok fake (ToDirect d p) = (\<not> fake (sa_ip d))" "direct_ok fake (ToRelay d p)" "direct_ok fake (SentTo d p)" "direct_ok fake (Spoofed s d p)"
  by (simp_all add: direct_ok_def)

lemma clocks_later: "clocks fake t w \<Longrightarrow> t \<le> now \<Longrightarrow> clocks fake now w"
  by (fastforce simp: clocks_def sym_clock_def fc_clock_def pred_option_def)

lemma clocks_plain [simp]:
  "clocks fake t (w\<lparr>ue_shared := x1\<rparr>) = clocks fake t w"
  "clocks fake t (w\<lparr>ue_fwd_sym := x3\<rparr>) = clocks fake t w" "clocks fake t (w\<lparr>ue_fwd_fc := x3\<rparr>) = clocks fake t w"
  "clocks fake t (w\<lparr>ue_reply_sym := x3\<rparr>) = clocks fake t w" "clocks fake t (w\<lparr>ue_reply_fc := x3\<rparr>) = clocks fake t w"
  "clocks fake t (w\<lparr>ue_drops_flow := x3\<rparr>) = clocks fake t w" "clocks fake t (w\<lparr>ue_drops_session := x3\<rparr>) = clocks fake t w"
  "clocks fake t (w\<lparr>ue_last_drop := x4\<rparr>) = clocks fake t w" "clocks fake t (w\<lparr>ue_permits := x5\<rparr>) = clocks fake t w"
  "clocks fake t (w\<lparr>ue_budget := x6\<rparr>) = clocks fake t w" "clocks fake t (w\<lparr>ue_session_budget := x7\<rparr>) = clocks fake t w"
  "clocks fake t (w\<lparr>ue_flow_budget := x7\<rparr>) = clocks fake t w" "clocks fake t (w\<lparr>ue_symmetric := x8\<rparr>) = clocks fake t w"
  "clocks fake t (w\<lparr>ue_fullcone := x9\<rparr>) = clocks fake t w" "clocks fake t (w\<lparr>ue_tasks := x10\<rparr>) = clocks fake t w"
  "clocks fake t (w\<lparr>ue_readers := x11\<rparr>) = clocks fake t w" "clocks fake t (w\<lparr>ue_next := x12\<rparr>) = clocks fake t w"
  by (simp_all add: clocks_def)

lemma clocks_cache: "clocks fake t w \<Longrightarrow> own_sockets c \<Longrightarrow> clocks fake t (w\<lparr>ue_spoof_cache := c\<rparr>)"
  by (simp add: clocks_def)

lemma clocks_own: "clocks fake t w \<Longrightarrow> own_sockets (ue_spoof_cache w)"
  by (simp add: clocks_def)

lemma clocks_quiet [simp]:
  "clocks fake t (close_record wall r w) = clocks fake t w" "clocks fake t (end_task i w) = clocks fake t w"
  "clocks fake t (set_stage i st w) = clocks fake t w" "clocks fake t (set_ready i tk w) = clocks fake t w"
  "clocks fake t (remove_slot tk w) = clocks fake t w" "clocks fake t (snd (remove_symmetric k w)) = clocks fake t w"
  "clocks fake t (snd (remove_fullcone c w)) = clocks fake t w" "clocks fake t (note_flow_drop ip w) = clocks fake t w"
  "clocks fake t (note_session_drop ip w) = clocks fake t w" "clocks fake t (count_reply kind w) = clocks fake t w"
  "clocks fake t (downloaded r p w) = clocks fake t w" "clocks fake t (set_canonical i canon w) = clocks fake t w"
  "clocks fake t (close_session_record wall ro w) = clocks fake t w" "clocks fake t (count_forwarded_sym r p w) = clocks fake t w"
  by (simp_all add: close_record_def end_task_def set_stage_def set_ready_def remove_slot_def remove_symmetric_def
      remove_fullcone_def note_flow_drop_def note_session_drop_def count_reply_def downloaded_def set_canonical_def
      close_session_record_def count_forwarded_sym_def split: flow_kind.splits option.splits)

lemma clocks_flow: "clocks fake t w \<Longrightarrow> fe_last_seen e \<le> t \<Longrightarrow> clocks fake t (w\<lparr>ue_flow_path := AList.update k e (ue_flow_path w)\<rparr>)"
  using set_update_subset [of k e "ue_flow_path w"] by (auto simp: clocks_def)

lemma clocks_sym:
  "clocks fake t w \<Longrightarrow> pred_option (sym_clock fake t) s \<Longrightarrow> clocks fake t (w\<lparr>ue_sym_sessions := (ue_sym_sessions w)(i := s)\<rparr>)"
  by (simp add: clocks_def)

lemma clocks_fc:
  "clocks fake t w \<Longrightarrow> pred_option (fc_clock (ue_idle_timeout w) t) s \<Longrightarrow> clocks fake t (w\<lparr>ue_fc_sessions := (ue_fc_sessions w)(i := s)\<rparr>)"
  by (simp add: clocks_def)

lemma clocks_pending:
  "clocks fake t w \<Longrightarrow> pred_option (\<lambda>p. pd_created p \<le> t) p \<Longrightarrow> clocks fake t (w\<lparr>ue_pendings := (ue_pendings w)(i := p)\<rparr>)"
  by (simp add: clocks_def)

lemma created_kept [simp]: "pd_created (pending_push item p) = pd_created p" "pd_created (pending_close p) = pd_created p"
  "pd_created (snd (pending_take p)) = pd_created p" "pd_created (pending_new item now) = now"
  by (simp_all add: pending_push_def pending_close_def pending_take_def pending_new_def split: option.splits)

lemma clocks_queues:
  assumes "clocks fake t w"
  shows "clocks fake t (push_pending i item w)" "clocks fake t (close_pending i w)" "clocks fake t (snd (take_pending i w))"
proof -
  have p: "pred_option (\<lambda>p. pd_created p \<le> t) (ue_pendings w i)" using assms by (simp add: clocks_def)
  then show "clocks fake t (push_pending i item w)" "clocks fake t (close_pending i w)"
    unfolding push_pending_def close_pending_def by (auto intro!: clocks_pending assms simp: pred_option_def)
  show "clocks fake t (snd (take_pending i w))"
  proof (cases "ue_pendings w i")
    case (Some q)
    then show ?thesis using p created_kept(3) [of q] unfolding take_pending_def
      by (auto intro!: clocks_pending [OF assms] simp: split_beta simp del: created_kept(3))
  qed (simp add: take_pending_def assms)
qed

lemma clocks_touch:
  assumes "clocks fake t w" and "now \<le> t"
  shows "clocks fake t (touch_symmetric now i w)" "clocks fake t (touch_fullcone now i w)"
proof -
  have "pred_option (sym_clock fake t) (ue_sym_sessions w i)" "pred_option (fc_clock (ue_idle_timeout w) t) (ue_fc_sessions w i)"
    using assms(1) by (simp_all add: clocks_def)
  then show "clocks fake t (touch_symmetric now i w)" "clocks fake t (touch_fullcone now i w)" using assms(2)
    unfolding touch_symmetric_def touch_fullcone_def
    by (auto intro!: clocks_sym clocks_fc assms(1) simp: pred_option_def sym_clock_def fc_clock_def)
qed


lemma sniff_keeps:
  assumes "sniff_datagram C dst p s hints = Some (s', hints')"
  shows "sy_direct s' = sy_direct s" "sy_last_seen s' = sy_last_seen s" "sy_relay s' = sy_relay s"
  using assms by (auto simp: sniff_datagram_def learn_sni_def Let_def split: if_splits option.splits Option.bind_splits prod.splits)

lemma clocks_forward_symmetric:
  assumes c: "clocks fake t w" and f: "forward_symmetric C sent i dst p w = Some (ok, outs, w')"
  shows "clocks fake t w' \<and> (\<forall>out \<in> set outs. direct_ok fake out)"
proof -
  obtain s where s: "ue_sym_sessions w i = Some s" using f by (auto simp: forward_symmetric_def split: Option.bind_splits)
  have sc: "sym_clock fake t s" using c s by (metis clocks_def option.pred_inject(2))
  show ?thesis
  proof (cases "sy_direct s")
    case True
    then show ?thesis using f s sc c by (auto simp: forward_symmetric_def sym_clock_def split: if_splits)
  next
    case False
    then obtain s' h where h: "sniff_datagram C dst p s (sh_domain_ips (ue_shared w)) = Some (s', h)"
      using f s by (auto simp: forward_symmetric_def split: Option.bind_splits)
    define v where "v = w\<lparr>ue_sym_sessions := (ue_sym_sessions w)(i \<mapsto> s'), ue_shared := (ue_shared w)\<lparr>sh_domain_ips := h\<rparr>\<rparr>"
    have "clocks fake t v" unfolding v_def using clocks_sym [OF c, of "Some s'" i] sc sniff_keeps [OF h] by (simp add: sym_clock_def)
    then show ?thesis using f s h False
      by (auto simp: forward_symmetric_def Let_def split: sum.splits option.splits if_splits simp flip: v_def)
  qed
qed

lemma clocks_forward_fullcone:
  assumes "clocks fake t w" and "forward_fullcone sent i dst p w = Some (ok, outs, w')"
  shows "clocks fake t w' \<and> (\<forall>out \<in> set outs. direct_ok fake out)"
  using assms by (auto simp: forward_fullcone_def split: Option.bind_splits if_splits)

lemma clocks_decide:
  assumes c: "clocks fake t w" and now: "now \<le> t" and d: "decide_flow_kind N now peer dst p w = (r, w')"
  shows "clocks fake t w'"
proof (cases "map_of (ue_flow_path w) (peer, dst)")
  case (Some e)
  then show ?thesis using d clocks_flow [OF c, of "e\<lparr>fe_last_seen := now\<rparr>"] now by (auto simp: decide_flow_kind_def)
next
  case None
  obtain q v where q: "flow_permits (new_flow_kind N dst p w) (sa_ip peer) w = (q, v)" by fastforce
  then have "clocks fake t v" using c by (auto simp: flow_permits_def Let_def split: option.splits)
  then show ?thesis using d None q now
    by (auto simp: decide_flow_kind_def Let_def split: option.splits prod.splits if_splits intro!: clocks_flow)
qed

lemma clocks_admit:
  assumes "clocks fake t w" and "now \<le> t"
  shows "admit_session now ip item w = Inl w' \<Longrightarrow> clocks fake t w'"
    and "admit_session now ip item w = Inr (i, b, w') \<Longrightarrow> clocks fake t w'"
  using assms by (fastforce simp: admit_session_def note_session_drop_def Let_def clocks_def split: option.splits)+

lemma clocks_hint: "clocks fake t w \<Longrightarrow> clocks fake t (snd (group_hint dst w))"
  by (simp add: group_hint_def split_beta)

lemma clocks_spawn_fullcone: "clocks fake t w \<Longrightarrow> clocks fake t (spawn_open_fullcone contains peer dst p i w)"
  using clocks_hint [of fake t w dst] by (simp add: spawn_open_fullcone_def split_beta)

lemma clocks_spawn_symmetric:
  "clocks fake t w \<Longrightarrow> spawn_open_symmetric N contains peer dst p i w = Some w' \<Longrightarrow> clocks fake t w'"
  using clocks_hint [of fake t "w\<lparr>ue_shared := x\<rparr>" dst for x]
  by (auto simp: spawn_open_symmetric_def split_beta Let_def split: Option.bind_splits)

lemma clocks_dispatch:
  assumes c: "clocks fake t w" and now: "now \<le> t"
    and d: "dispatch_packet C N contains now tun sent peer dst p w = Some (outs, w')"
  shows "clocks fake t w' \<and> (\<forall>out \<in> set outs. direct_ok fake out)"
proof -
  obtain r v where r: "decide_flow_kind N now peer dst p w = (r, v)" by fastforce
  note v = clocks_decide [OF c now r]
  have sym: ?thesis if h: "handle_symmetric C N contains now sent peer dst p v = Some (outs, w')"
  proof (cases "map_of (ue_symmetric v) (peer, dst)")
    case None
    show ?thesis
    proof (cases "admit_session now (sa_ip peer) (dst, p) v")
      case (Inl u)
      then show ?thesis using h None clocks_admit(1) [OF v now] by (simp add: handle_symmetric_def)
    next
      case (Inr a)
      obtain i b u where a: "a = (i, b, u)" by (cases a)
      have "clocks fake t u" using clocks_admit(2) [OF v now] Inr a by blast
      then show ?thesis using h None Inr a clocks_spawn_symmetric [of fake t "u\<lparr>ue_symmetric := AList.update (peer, dst) b (ue_symmetric u)\<rparr>"]
        by (auto simp: handle_symmetric_def)
    qed
  next
    case (Some b)
    show ?thesis
    proof (cases "bd_slot b")
      case (SlotReady i)
      then obtain ok where "forward_symmetric C sent i dst p (touch_symmetric now i v) = Some (ok, outs, w')"
        using h Some by (auto simp: handle_symmetric_def)
      then show ?thesis by (rule clocks_forward_symmetric [OF clocks_touch(1) [OF v now]])
    qed (use h Some clocks_queues(1) [OF v] in \<open>auto simp: handle_symmetric_def\<close>)
  qed
  have fc: ?thesis if h: "handle_fullcone contains now sent peer dst p v = Some (outs, w')"
  proof (cases "map_of (ue_fullcone v) peer")
    case None
    show ?thesis
    proof (cases "admit_session now (sa_ip peer) (dst, p) v")
      case (Inl u)
      then show ?thesis using h None clocks_admit(1) [OF v now] by (simp add: handle_fullcone_def)
    next
      case (Inr a)
      obtain i b u where a: "a = (i, b, u)" by (cases a)
      have "clocks fake t u" using clocks_admit(2) [OF v now] Inr a by blast
      then show ?thesis using h None Inr a clocks_spawn_fullcone [of fake t "u\<lparr>ue_fullcone := AList.update peer b (ue_fullcone u)\<rparr>"]
        by (auto simp: handle_fullcone_def)
    qed
  next
    case (Some b)
    show ?thesis
    proof (cases "bd_slot b")
      case (SlotReady i)
      then obtain ok where "forward_fullcone sent i dst p (touch_fullcone now i v) = Some (ok, outs, w')"
        using h Some by (auto simp: handle_fullcone_def)
      then show ?thesis by (rule clocks_forward_fullcone [OF clocks_touch(2) [OF v now]])
    qed (use h Some clocks_queues(1) [OF v] in \<open>auto simp: handle_fullcone_def\<close>)
  qed
  show ?thesis using d r c v sym fc
    by (auto simp: dispatch_packet_def split: if_splits option.splits flow_kind.splits)
qed

lemma clocks_start_symmetric:
  assumes "clocks fake t w" and "now \<le> t" and "direct \<Longrightarrow> \<not> fake (sa_ip relay)"
  shows "clocks fake t (start_symmetric now wall i tk direct relay w)"
proof -
  obtain r sh where r: "register_udp_record wall (tk_peer tk) (tk_dst tk) (tk_proto tk) (tk_fakeip_host tk) w = (r, w\<lparr>ue_shared := sh\<rparr>)"
    by (simp add: register_udp_record_def Let_def split_beta)
  show ?thesis unfolding start_symmetric_def r using assms
    by (auto simp: Let_def clocks_def sym_clock_def)
qed

lemma clocks_start_fullcone:
  assumes "clocks fake t w" and "now \<le> t"
  shows "clocks fake t (start_fullcone now wall i tk direct relay w)"
proof -
  obtain r sh where r: "register_udp_record wall (tk_peer tk) (tk_dst tk) (tk_proto tk) None w = (r, w\<lparr>ue_shared := sh\<rparr>)"
    by (simp add: register_udp_record_def Let_def split_beta)
  have "idle_for_dst p n \<le> n" for p n by (simp add: idle_for_dst_def)
  then show ?thesis unfolding start_fullcone_def r using assms
    by (auto simp: Let_def clocks_def fc_clock_def)
qed


definition resolved_ok :: "(ip_addr \<Rightarrow> bool) \<Rightarrow> udp_event \<Rightarrow> bool" where
  "resolved_ok fake ev \<longleftrightarrow> (\<forall>i ip socket_ok bind_ok. ev = TaskOpen i (UpDirect (Some ip) socket_ok) bind_ok \<longrightarrow> \<not> fake (V4 ip))"

lemma clocks_bound_then:
  assumes "clocks fake t w" and "\<And>v. clocks fake t v \<Longrightarrow> clocks fake t (start v)" and "bound_then now ok dst start w = (r, w')"
  shows "clocks fake t w'"
proof -
  obtain s c where s: "get_or_bind now (if ok then Some dst else None) dst (ue_spoof_cache w) = (s, c)" by fastforce
  have "clocks fake t (w\<lparr>ue_spoof_cache := c\<rparr>)"
    by (rule clocks_cache [OF assms(1) bound_socket_is_own(1) [OF clocks_own [OF assms(1)] s]])
  then show ?thesis using assms(2,3) s by (auto simp: bound_then_def split: option.splits)
qed

lemma clocks_open_session:
  assumes c: "clocks fake t w" and now: "now \<le> t" and tk: "tk_kind tk = Symmetric \<Longrightarrow> tk_is_fakeip tk = fake (sa_ip (tk_dst tk))"
    and up: "\<And>ip socket_ok. up = UpDirect (Some ip) socket_ok \<Longrightarrow> \<not> fake (V4 ip)"
    and o': "open_session now wall i tk up ok w = (r, w')"
  shows "clocks fake t w'"
proof (cases "tk_kind tk")
  case Symmetric
  have b: "clocks fake t w'" if "bound_then now ok (tk_dst tk) (start_symmetric now wall i tk direct relay) w = (r, w')"
    "direct \<Longrightarrow> \<not> fake (sa_ip relay)" for direct relay
    by (rule clocks_bound_then [OF c _ that(1)]) (use clocks_start_symmetric now that(2) in blast)
  have "\<not> fake (sa_ip real)" if "up = UpDirect resolved s" "direct_dst tk resolved = Some real" for resolved s real
    using that up tk Symmetric by (auto simp: direct_dst_def split: option.splits if_splits)
  then show ?thesis using o' Symmetric c b [of True] b [of False]
    by (auto simp: open_session_def open_symmetric_session_def open_direct_symmetric_session_def
        split: upstream.splits option.splits if_splits)
next
  case Fullcone
  then show ?thesis using o' c clocks_start_fullcone [OF c now]
    by (auto simp: open_session_def open_fullcone_session_def open_direct_fullcone_session_def
        split: upstream.splits option.splits if_splits)
qed

lemma clocks_task_open:
  assumes c: "clocks fake t w" and now: "now \<le> t" and tk: "tk_kind tk = Symmetric \<Longrightarrow> tk_is_fakeip tk = fake (sa_ip (tk_dst tk))"
    and up: "\<And>ip socket_ok. up = UpDirect (Some ip) socket_ok \<Longrightarrow> \<not> fake (V4 ip)"
  shows "clocks fake t (task_open now wall i tk up ok w)"
proof -
  obtain r v where r: "open_session now wall i tk up ok w = (r, v)" by fastforce
  have "clocks fake t v" by (rule clocks_open_session [OF c now tk up r])
  then show ?thesis using clocks_queues(2) [of fake t v i] r by (simp add: task_open_def Let_def split: bool.splits)
qed

lemma clocks_flush_symmetric:
  "clocks fake t w \<Longrightarrow> flush_symmetric C i dst ps w = Some (outs, w') \<Longrightarrow>
    clocks fake t w' \<and> (\<forall>out \<in> set outs. direct_ok fake out)"
proof (induction C i dst ps w arbitrary: outs rule: flush_symmetric.induct)
  case (2 C i dst p sent ps w)
  obtain ok out v where f: "forward_symmetric C sent i dst p w = Some (ok, out, v)"
    using 2(3) by (auto split: Option.bind_splits)
  note v = clocks_forward_symmetric [OF 2(2) f]
  show ?case
  proof (cases ok)
    case True
    then obtain os where os: "flush_symmetric C i dst ps v = Some (os, w')" "outs = out @ os" using 2(3) f by (auto split: Option.bind_splits)
    have "clocks fake t w' \<and> (\<forall>out \<in> set os. direct_ok fake out)" by (rule 2(1) [OF f refl refl True _ os(1)]) (use v in simp)
    then show ?thesis using v os(2) by auto
  qed (use 2(3) f v in auto)
qed simp

lemma clocks_flush_fullcone:
  "clocks fake t w \<Longrightarrow> flush_fullcone i ps w = Some (outs, w') \<Longrightarrow>
    clocks fake t w' \<and> (\<forall>out \<in> set outs. direct_ok fake out)"
proof (induction i ps w arbitrary: outs rule: flush_fullcone.induct)
  case (2 i dst p sent ps w)
  obtain ok out v where f: "forward_fullcone sent i dst p w = Some (ok, out, v)"
    using 2(3) by (auto split: Option.bind_splits)
  note v = clocks_forward_fullcone [OF 2(2) f]
  show ?case
  proof (cases ok)
    case True
    then obtain os where os: "flush_fullcone i ps v = Some (os, w')" "outs = out @ os" using 2(3) f by (auto split: Option.bind_splits)
    have "clocks fake t w' \<and> (\<forall>out \<in> set os. direct_ok fake out)" by (rule 2(1) [OF f refl refl True _ os(1)]) (use v in simp)
    then show ?thesis using v os(2) by auto
  qed (use 2(3) f v in auto)
qed simp

lemma clocks_task_flush:
  assumes c: "clocks fake t w" and f: "task_flush C sent i tk w = Some (outs, w')"
  shows "clocks fake t w' \<and> (\<forall>out \<in> set outs. direct_ok fake out)"
proof -
  obtain r where r: "task_rec i tk w = Some r" using f by (auto simp: task_flush_def split: Option.bind_splits)
  obtain pkts v where v: "take_pending i w = (pkts, v)" by fastforce
  define u where u_def: "u = (if wants_head (tk_kind tk) (tk_proto tk) \<and> pkts \<noteq> []
              then v\<lparr>ue_shared := set_head_of r (snd (hd pkts)) (ue_shared v)\<rparr> else v)"
  have u: "clocks fake t u" using clocks_queues(3) [OF c, of i] v by (simp add: u_def)
  show ?thesis
  proof (cases "tk_kind tk")
    case Symmetric
    then obtain x where "flush_symmetric C i (tk_dst tk) (zip (map snd pkts) (map sent [0..<length pkts])) u = Some (outs, x)" "w' = end_task i x"
      using f r v unfolding u_def by (auto simp: task_flush_def Let_def split: Option.bind_splits)
    then show ?thesis using clocks_flush_symmetric [OF u] by auto
  next
    case Fullcone
    then obtain x where "flush_fullcone i (zip pkts (map sent [0..<length pkts])) u = Some (outs, x)" "w' = end_task i x"
      using f r v unfolding u_def by (auto simp: task_flush_def Let_def split: Option.bind_splits)
    then show ?thesis using clocks_flush_fullcone [OF u] by auto
  qed
qed

lemma clocks_task_install: "clocks fake t w \<Longrightarrow> task_install wall i tk w = Some w' \<Longrightarrow> clocks fake t w'"
  by (auto simp: task_install_def split: if_splits Option.bind_splits)

lemma clocks_send_spoofed:
  assumes c: "clocks fake t w" and n: "\<And>v. clocks fake t v \<Longrightarrow> clocks fake t (counted v)" and s: "send_spoofed now ok sent src counted peer p w = (outs, w')"
  shows "clocks fake t w' \<and> (\<forall>out \<in> set outs. direct_ok fake out)"
proof -
  obtain r ca where r: "get_or_bind now (if ok then Some src else None) src (ue_spoof_cache w) = (r, ca)" by fastforce
  have v: "clocks fake t (w\<lparr>ue_spoof_cache := ca\<rparr>)" by (rule clocks_cache [OF c bound_socket_is_own(1) [OF clocks_own [OF c] r]])
  show ?thesis
  proof (cases "r = None \<or> \<not> sent")
    case True
    then have "outs = []" "w' = w\<lparr>ue_spoof_cache := ca\<rparr>" using s r by (auto simp: send_spoofed_def split: option.splits)
    then show ?thesis using v by simp
  next
    case False
    then obtain k where "outs = [Spoofed k peer p]" "w' = counted (w\<lparr>ue_spoof_cache := ca\<rparr>)" using s r by (auto simp: send_spoofed_def)
    then show ?thesis using n [OF v] by simp
  qed
qed

lemma clocks_relay_reply:
  assumes c: "clocks fake t w" and r: "relay_reply now ok sent i rt f w = Some (outs, w')"
  shows "clocks fake t w' \<and> (\<forall>out \<in> set outs. direct_ok fake out)"
proof -
  obtain dec where d: "decode_udp_reply f = Some dec" using r by (auto simp: relay_reply_def split: Option.bind_splits)
  show ?thesis
  proof (cases dec)
    case (Inr so)
    obtain src off where so: "so = (src, off)" by (cases so)
    obtain alt canon where a: "symmetric_spoof_src (rt_canonical rt) src (rt_dst rt) = (alt, canon)" by fastforce
    let ?w = "downloaded (rt_rec rt) (drop off f) w"
    show ?thesis
    proof (cases "rt_kind rt")
      case Symmetric
      show ?thesis
      proof (cases alt)
        case None
        then show ?thesis using Symmetric r d Inr so a c by (auto simp: relay_reply_def Let_def split: if_splits)
      next
        case (Some s)
        then have "send_spoofed now ok sent s (count_reply Symmetric) (rt_peer rt) (drop off f) (set_canonical i canon ?w) = (outs, w')"
          using Symmetric r d Inr so a by (simp add: relay_reply_def Let_def)
        then show ?thesis by (rule clocks_send_spoofed [rotated 2]) (use c in simp_all)
      qed
    next
      case Fullcone
      then have "send_spoofed now ok sent (if sa_ip src = V4 0 \<or> sa_ip src = V6 0 then rt_dst rt else src) (count_reply Fullcone)
          (rt_peer rt) (drop off f) ?w = (outs, w')" using r d Inr so by (simp add: relay_reply_def Let_def)
      then show ?thesis by (rule clocks_send_spoofed [rotated 2]) (use c in simp_all)
    qed
  qed (use r d c in \<open>auto simp: relay_reply_def\<close>)
qed

lemma clocks_direct_reply:
  assumes c: "clocks fake t w" and r: "direct_reply now ok sent rt src p w = (outs, w')"
  shows "clocks fake t w' \<and> (\<forall>out \<in> set outs. direct_ok fake out)"
proof (cases "rt_kind rt")
  case Fullcone
  then have "send_spoofed now ok sent src (\<lambda>w. count_reply Fullcone (downloaded (rt_rec rt) p w)) (rt_peer rt) p w = (outs, w')"
    using r by (simp add: direct_reply_def)
  then show ?thesis by (rule clocks_send_spoofed [rotated 2]) (use c in simp_all)
qed (use assms in \<open>auto simp: direct_reply_def split: if_splits\<close>)


lemma clocks_remove_flow: "clocks fake t w \<Longrightarrow> remove_flow k w = Some w' \<Longrightarrow> clocks fake t w'"
  by (auto simp: remove_flow_def clocks_def set_delete split: option.splits Option.bind_splits)

lemma clocks_remove_flows: "clocks fake t w \<Longrightarrow> remove_flows ks w = Some w' \<Longrightarrow> clocks fake t w'"
  by (induction ks arbitrary: w) (auto split: Option.bind_splits intro: clocks_remove_flow)

lemma clocks_reader_exit:
  assumes c: "clocks fake t w" and r: "reader_exit wall i rt w = Some w'"
  shows "clocks fake t w'"
proof -
  obtain v where v: "w' = (close_record wall (rt_rec rt) v)\<lparr>ue_readers := AList.delete i (ue_readers v)\<rparr>" "clocks fake t v"
  proof (cases "rt_kind rt")
    case Symmetric
    then show ?thesis using r c that clocks_remove_flow [of fake t "snd (remove_symmetric (rt_peer rt, rt_dst rt) w)"]
      by (auto simp: reader_exit_def split: Option.bind_splits)
  next
    case Fullcone
    then show ?thesis using r c that clocks_remove_flows [of fake t "snd (remove_fullcone (rt_peer rt) w)"]
      by (auto simp: reader_exit_def Let_def split: Option.bind_splits)
  qed
  then show ?thesis by simp
qed

lemma clocks_sweep_symmetric: "clocks fake t w \<Longrightarrow> sweep_symmetric wall ks w = Some w' \<Longrightarrow> clocks fake t w'"
proof (induction ks arbitrary: w)
  case (Cons k ks)
  obtain s v where s: "remove_symmetric k w = (s, v)" by fastforce
  have v: "clocks fake t v" using Cons.prems(1) clocks_quiet(6) [of fake t k w] s by simp
  define u where "u = (case s of Some (SlotReady i) \<Rightarrow> close_session_record wall (map_option sy_rec (ue_sym_sessions v i)) v | _ \<Rightarrow> v)"
  have u: "clocks fake t u" using v by (simp add: u_def split: option.splits slot.splits)
  obtain x where x: "remove_flow k u = Some x" "sweep_symmetric wall ks x = Some w'"
    using Cons.prems(2) s by (auto simp: Let_def u_def split: Option.bind_splits)
  show ?case using Cons.IH [OF clocks_remove_flow [OF u x(1)] x(2)] .
qed simp

lemma clocks_sweep_fullcone: "clocks fake t w \<Longrightarrow> clocks fake t (sweep_fullcone wall ks w)"
proof (induction ks arbitrary: w)
  case (Cons k ks)
  obtain s v where s: "remove_fullcone k w = (s, v)" by fastforce
  have v: "clocks fake t v" using Cons.prems clocks_quiet(7) [of fake t k w] s by simp
  define u where "u = (case s of Some (SlotReady i) \<Rightarrow> close_session_record wall (map_option fc_rec (ue_fc_sessions v i)) v | _ \<Rightarrow> v)"
  have "clocks fake t u" using v by (simp add: u_def split: option.splits slot.splits)
  then show ?case using Cons.IH [of u] s by (simp add: Let_def u_def)
qed simp

lemma clocks_sweep_idle:
  assumes c: "clocks fake t w" and s: "sweep_idle now wall w = Some (n, w')"
  shows "clocks fake t w'"
proof -
  let ?dead = "map fst (filter (\<lambda>(k, b). symmetric_dead now w k (bd_slot b)) (ue_symmetric w))"
  obtain v where v: "sweep_symmetric wall ?dead w = Some v" using s by (auto simp: sweep_idle_def split: Option.bind_splits)
  define u where "u = sweep_fullcone wall (map fst (filter (\<lambda>(k, b). fullcone_dead now v (bd_slot b)) (ue_fullcone v))) v"
  have "clocks fake t u" unfolding u_def by (rule clocks_sweep_fullcone [OF clocks_sweep_symmetric [OF c v]])
  moreover obtain ks where "remove_flows ks u = Some w'" using s v by (auto simp: sweep_idle_def Let_def u_def split: Option.bind_splits)
  ultimately show ?thesis by (rule clocks_remove_flows)
qed

lemma clocks_act:
  assumes c: "clocks fake t w" and now: "now \<le> t" and f: "facts N fake w" and e: "resolved_ok fake ev"
    and a: "act C N contains now wall ev w = Some (outs, w')"
  shows "clocks fake t w' \<and> (\<forall>out \<in> set outs. direct_ok fake out)"
proof (cases ev)
  case (Packet peer dst p tun sent)
  then show ?thesis using a clocks_dispatch [OF c now] by (simp add: act_def)
next
  case (TaskOpen i up ok)
  have "tk_is_fakeip tk = fake (sa_ip (tk_dst tk))" if "map_of (ue_tasks w) i = Some tk" "tk_kind tk = Symmetric" for tk
    using f map_of_SomeD [OF that(1)] that(2) by (auto simp: facts_def tasks_ok_def task_ok_def)
  then show ?thesis using TaskOpen a c clocks_task_open [OF c now] e
    by (auto simp: act_def resolved_ok_def split: option.splits if_splits)
next
  case (TaskInstall i)
  then show ?thesis using a c clocks_task_install [OF c] by (auto simp: act_def split: option.splits if_splits)
next
  case (TaskFlush i sent)
  then show ?thesis using a c clocks_task_flush [OF c] by (auto simp: act_def split: option.splits if_splits)
next
  case (Reply i src p ok sent)
  then show ?thesis using a c clocks_relay_reply [OF c] clocks_direct_reply [OF c]
    by (auto simp: act_def split: option.splits if_splits)
next
  case (ReaderExit i)
  then show ?thesis using a c clocks_reader_exit [OF c] by (auto simp: act_def split: option.splits if_splits)
next
  case (ReaderAborted i)
  then show ?thesis using a c by (auto simp: act_def)
next
  case Sweep
  then show ?thesis using a c clocks_sweep_idle [OF c] by (auto simp: act_def)
qed

lemma clocks_udp_step:
  assumes "clocks fake t w" and "now \<le> t" and "facts N fake w" and "resolved_ok fake ev"
    and "udp_step C N contains now wall ev w = Some (outs, w')"
  shows "clocks fake t w' \<and> (\<forall>out \<in> set outs. direct_ok fake out)"
proof -
  obtain v where v: "act C N contains now wall ev w = Some (outs, v)" "drop_unowned v = Some w'"
    using assms(5) by (auto simp: udp_step_def split: Option.bind_splits)
  have "clocks fake t w' = clocks fake t v" using v(2) by (auto simp: drop_unowned_def split: Option.bind_splits)
  then show ?thesis using clocks_act [OF assms(1-4) v(1)] by simp
qed

end
