(* ===== verification/UdpReach.thy ===== *)
theory UdpReach
  imports UdpClocks
begin

text \<open>
  The reachable states of the UDP engine, with the rest of the program interfering, and what holds of
  all of them: the budgets are those of the tables, no event panics or addresses a datagram to the pool,
  and an engine whose clients have gone quiet gives everything back.
\<close>

section \<open>Reachable states\<close>

text \<open>
  The engine starts empty; its events come in any order, at times that do not go back; the rest of the
  program changes the shared state, short of the pool's networks, and takes and returns permits of its own.
\<close>

inductive udp_reachable :: "quic_crypto \<Rightarrow> 'n ipv4net \<Rightarrow> (string \<Rightarrow> ip_addr \<Rightarrow> bool) \<Rightarrow> (ip_addr \<Rightarrow> bool) \<Rightarrow>
    permit multiset \<Rightarrow> permit multiset \<Rightarrow> nat \<Rightarrow> 'n udp_engine \<Rightarrow> bool"
  for C N contains fake where
  start: "\<lbrakk>shared_ok N fake sh; budget_holds (ub_sessions b) S; budget_holds (ub_flows b) F\<rbrakk> \<Longrightarrow>
    udp_reachable C N contains fake S F t (udp_engine_new idle cap cloudflared max_flows max_sessions b sh)"
| step: "\<lbrakk>udp_reachable C N contains fake S F t w; t \<le> now; resolved_ok fake ev;
    udp_step C N contains now wall ev w = Some (outs, w')\<rbrakk> \<Longrightarrow> udp_reachable C N contains fake S F now w'"
| shared: "\<lbrakk>udp_reachable C N contains fake S F t w; shared_ok N fake sh\<rbrakk> \<Longrightarrow> udp_reachable C N contains fake S F t (w\<lparr>ue_shared := sh\<rparr>)"
| others_session: "\<lbrakk>udp_reachable C N contains fake S F t w; acquire_with_headroom ip c h ch (ub_sessions (ue_budget w)) = Some (p, b)\<rbrakk> \<Longrightarrow>
    udp_reachable C N contains fake (add_mset p S) F t (w\<lparr>ue_budget := (ue_budget w)\<lparr>ub_sessions := b\<rparr>\<rparr>)"
| others_session_end: "\<lbrakk>udp_reachable C N contains fake S F t w; p \<in># S; permit_drop p (ub_sessions (ue_budget w)) = Some b\<rbrakk> \<Longrightarrow>
    udp_reachable C N contains fake (S - {#p#}) F t (w\<lparr>ue_budget := (ue_budget w)\<lparr>ub_sessions := b\<rparr>\<rparr>)"
| others_flow: "\<lbrakk>udp_reachable C N contains fake S F t w; acquire_with_headroom ip c h ch (ub_flows (ue_budget w)) = Some (p, b)\<rbrakk> \<Longrightarrow>
    udp_reachable C N contains fake S (add_mset p F) t (w\<lparr>ue_budget := (ue_budget w)\<lparr>ub_flows := b\<rparr>\<rparr>)"
| others_flow_end: "\<lbrakk>udp_reachable C N contains fake S F t w; p \<in># F; permit_drop p (ub_flows (ue_budget w)) = Some b\<rbrakk> \<Longrightarrow>
    udp_reachable C N contains fake S (F - {#p#}) t (w\<lparr>ue_budget := (ue_budget w)\<lparr>ub_flows := b\<rparr>\<rparr>)"

definition owned :: "'n udp_engine \<Rightarrow> bool" where
  "owned w \<longleftrightarrow> fst ` set (ue_permits w) = set (permit_owners w)"

lemma books_sessions_changed:
  "books S F w \<Longrightarrow> budget_holds b (session_permit_bag w + S') \<Longrightarrow> books S' F (w\<lparr>ue_budget := (ue_budget w)\<lparr>ub_sessions := b\<rparr>\<rparr>)"
  by (simp add: books_defs)

lemma books_flows_changed:
  "books S F w \<Longrightarrow> budget_holds b (flow_permit_bag w + F') \<Longrightarrow> books S F' (w\<lparr>ue_budget := (ue_budget w)\<lparr>ub_flows := b\<rparr>\<rparr>)"
  by (simp add: books_defs)

lemma new_engine_ok:
  assumes "shared_ok N fake sh" and "budget_holds (ub_sessions b) S" and "budget_holds (ub_flows b) F"
  shows "books S F (udp_engine_new idle cap cf mf ms b sh)" "facts N fake (udp_engine_new idle cap cf mf ms b sh)"
    "clocks fake t (udp_engine_new idle cap cf mf ms b sh)" "owned (udp_engine_new idle cap cf mf ms b sh)"
  using assms by (simp_all add: udp_engine_new_def books_defs facts_defs clocks_def own_sockets_def spoof_new_def owned_def permit_owners_def)

lemma reachable_ok:
  assumes "udp_reachable C N contains fake S F t w" and C: "crypto_laws C"
  shows "books S F w \<and> facts N fake w \<and> clocks fake t w \<and> owned w"
  using assms(1)
proof induction
  case (start sh b S F t idle cap cf mf ms)
  then show ?case by (intro conjI new_engine_ok)
next
  case (step S F t w now ev wall outs w')
  then have f: "books S F w" "facts N fake w" "clocks fake now w" using clocks_later by blast+
  have "books S F w' \<and> facts N fake w'"
    using udp_step_fine(1) [OF C f(1,2), of contains now wall ev] step.hyps(4) by (auto simp: fine_step_def)
  then show ?case using udp_step_fine(2) [OF C f(1,2) step.hyps(4)] clocks_udp_step [OF f(3) order_refl f(2) step.hyps(3,4)]
    by (simp add: owned_def)
next
  case (shared S F t w sh)
  then show ?case using facts_shared by (auto simp: owned_def permit_owners_def)
next
  case (others_session S F t w ip c h ch p b)
  then have "budget_holds (ub_sessions (ue_budget w)) (session_permit_bag w + S)" by (simp add: books_def)
  then show ?case using others_session budget_acquired(1) [of "ub_sessions (ue_budget w)" "session_permit_bag w + S" ip c h ch p b]
    books_sessions_changed [of S F w b "add_mset p S"] by (simp add: owned_def permit_owners_def)
next
  case (others_session_end S F t w p b)
  then have "budget_holds (ub_sessions (ue_budget w)) (session_permit_bag w + S)" by (simp add: books_def)
  then have "budget_holds b (session_permit_bag w + S - {#p#})"
    using budget_released [of "ub_sessions (ue_budget w)" "session_permit_bag w + S" p] others_session_end.hyps by auto
  then show ?case using others_session_end books_sessions_changed [of S F w b "S - {#p#}"] by (simp add: owned_def permit_owners_def)
next
  case (others_flow S F t w ip c h ch p b)
  then have "budget_holds (ub_flows (ue_budget w)) (flow_permit_bag w + F)" by (simp add: books_def)
  then show ?case using others_flow budget_acquired(1) [of "ub_flows (ue_budget w)" "flow_permit_bag w + F" ip c h ch p b]
    books_flows_changed [of S F w b "add_mset p F"] by (simp add: owned_def permit_owners_def)
next
  case (others_flow_end S F t w p b)
  then have "budget_holds (ub_flows (ue_budget w)) (flow_permit_bag w + F)" by (simp add: books_def)
  then have "budget_holds b (flow_permit_bag w + F - {#p#})"
    using budget_released [of "ub_flows (ue_budget w)" "flow_permit_bag w + F" p] others_flow_end.hyps by auto
  then show ?case using others_flow_end books_flows_changed [of S F w b "F - {#p#}"] by (simp add: owned_def permit_owners_def)
qed


section \<open>An idle engine empties itself\<close>

lemma remove_symmetric_only:
  "remove_symmetric k w = (s, w') \<Longrightarrow> ue_symmetric w' = filter (\<lambda>e. fst e \<noteq> k) (ue_symmetric w) \<and> ue_fullcone w' = ue_fullcone w \<and>
    ue_fc_sessions w' = ue_fc_sessions w \<and> ue_pendings w' = ue_pendings w \<and> ue_idle_timeout w' = ue_idle_timeout w"
  by (auto simp: remove_symmetric_def delete_is_filter map_of_eq_None_iff rev_image_eqI split: option.splits intro!: filter_True [symmetric])

lemma remove_fullcone_only:
  "remove_fullcone k w = (s, w') \<Longrightarrow> ue_fullcone w' = filter (\<lambda>e. fst e \<noteq> k) (ue_fullcone w) \<and> ue_symmetric w' = ue_symmetric w \<and>
    ue_idle_timeout w' = ue_idle_timeout w"
  by (auto simp: remove_fullcone_def delete_is_filter map_of_eq_None_iff rev_image_eqI split: option.splits intro!: filter_True [symmetric])

lemma remove_flow_only:
  "remove_flow k w = Some w' \<Longrightarrow> ue_flow_path w' = filter (\<lambda>e. fst e \<noteq> k) (ue_flow_path w) \<and> ue_symmetric w' = ue_symmetric w \<and>
    ue_fullcone w' = ue_fullcone w \<and> ue_fc_sessions w' = ue_fc_sessions w \<and> ue_pendings w' = ue_pendings w \<and>
    ue_idle_timeout w' = ue_idle_timeout w"
  by (auto simp: remove_flow_def delete_is_filter map_of_eq_None_iff rev_image_eqI split: option.splits Option.bind_splits
      intro!: filter_True [symmetric])

lemma remove_flows_only:
  "remove_flows ks w = Some w' \<Longrightarrow> ue_flow_path w' = filter (\<lambda>e. fst e \<notin> set ks) (ue_flow_path w) \<and> ue_symmetric w' = ue_symmetric w \<and>
    ue_fullcone w' = ue_fullcone w"
proof (induction ks arbitrary: w)
  case (Cons k ks)
  obtain v where v: "remove_flow k w = Some v" "remove_flows ks v = Some w'" using Cons.prems by (auto split: Option.bind_splits)
  show ?case using Cons.IH [OF v(2)] remove_flow_only [OF v(1)] by (auto intro!: filter_cong)
qed simp

lemma close_session_only [simp]:
  "ue_symmetric (close_session_record wall r w) = ue_symmetric w" "ue_fullcone (close_session_record wall r w) = ue_fullcone w"
  "ue_fc_sessions (close_session_record wall r w) = ue_fc_sessions w" "ue_pendings (close_session_record wall r w) = ue_pendings w"
  "ue_idle_timeout (close_session_record wall r w) = ue_idle_timeout w"
  by (simp_all add: close_session_record_def close_record_def split: option.splits)

lemma sweep_symmetric_only:
  "sweep_symmetric wall ks w = Some w' \<Longrightarrow> ue_symmetric w' = filter (\<lambda>e. fst e \<notin> set ks) (ue_symmetric w) \<and>
    ue_fullcone w' = ue_fullcone w \<and> ue_fc_sessions w' = ue_fc_sessions w \<and> ue_pendings w' = ue_pendings w \<and>
    ue_idle_timeout w' = ue_idle_timeout w"
proof (induction ks arbitrary: w)
  case (Cons k ks)
  obtain s v where s: "remove_symmetric k w = (s, v)" by fastforce
  define u where "u = (case s of Some (SlotReady i) \<Rightarrow> close_session_record wall (map_option sy_rec (ue_sym_sessions v i)) v | _ \<Rightarrow> v)"
  have u: "ue_symmetric u = ue_symmetric v" "ue_fullcone u = ue_fullcone v" "ue_fc_sessions u = ue_fc_sessions v"
    "ue_pendings u = ue_pendings v" "ue_idle_timeout u = ue_idle_timeout v" by (simp_all add: u_def split: option.splits slot.splits)
  obtain x where x: "remove_flow k u = Some x" "sweep_symmetric wall ks x = Some w'"
    using Cons.prems s by (auto simp: Let_def u_def split: Option.bind_splits)
  show ?case using Cons.IH [OF x(2)] remove_flow_only [OF x(1)] remove_symmetric_only [OF s] u by (auto intro!: filter_cong)
qed simp

lemma sweep_fullcone_only:
  "ue_fullcone (sweep_fullcone wall ks w) = filter (\<lambda>e. fst e \<notin> set ks) (ue_fullcone w) \<and>
    ue_symmetric (sweep_fullcone wall ks w) = ue_symmetric w \<and> ue_idle_timeout (sweep_fullcone wall ks w) = ue_idle_timeout w"
proof (induction ks arbitrary: w)
  case (Cons k ks)
  obtain s v where s: "remove_fullcone k w = (s, v)" by fastforce
  define u where "u = (case s of Some (SlotReady i) \<Rightarrow> close_session_record wall (map_option fc_rec (ue_fc_sessions v i)) v | _ \<Rightarrow> v)"
  have u: "ue_symmetric u = ue_symmetric v" "ue_fullcone u = ue_fullcone v" "ue_idle_timeout u = ue_idle_timeout v" by (simp_all add: u_def split: option.splits slot.splits)
  have "sweep_fullcone wall (k # ks) w = sweep_fullcone wall ks u" using s by (simp add: Let_def u_def)
  then show ?case using Cons.IH [of u] remove_fullcone_only [OF s] u by (auto intro!: filter_cong)
qed simp

lemma idle_for_dst_le: "idle_for_dst port n \<le> n"
  by (simp add: idle_for_dst_def)

lemma stale: "seen \<le> t \<Longrightarrow> limit \<le> idle \<Longrightarrow> t + idle < now \<Longrightarrow> expired now seen limit"
  by (simp add: expired_def)

lemma all_symmetric_dead:
  assumes b: "books S F w" and f: "facts N fake w" and c: "clocks fake t w" and late: "t + ue_idle_timeout w < now"
    and e: "e \<in> set (ue_symmetric w)"
  shows "symmetric_dead now w (fst e) (bd_slot (snd e))"
proof (cases "bd_slot (snd e)")
  case (SlotPending i)
  have "i \<in> set (permit_owners w)" using e SlotPending by (force simp: permit_owners_def)
  then have "i < ue_next w" using b unfolding books_def by auto
  then obtain p where p: "ue_pendings w i = Some p" using f by (auto simp: facts_def queues_ok_def)
  then have "pd_created p \<le> t" using c by (metis clocks_def option.pred_inject(2))
  then show ?thesis using SlotPending p late by (simp add: symmetric_dead_def expired_def)
next
  case (SlotReady i)
  then obtain s where s: "ue_sym_sessions w i = Some s" using f e unfolding facts_def sessions_ok_def by (metis prod.collapse)
  then have "sy_last_seen s \<le> t" using c by (metis clocks_def sym_clock_def option.pred_inject(2))
  from stale [OF this idle_for_dst_le late] show ?thesis using SlotReady s by (simp add: symmetric_dead_def)
qed

lemma all_fullcone_dead:
  assumes b: "books S F w" and f: "facts N fake w" and c: "clocks fake t w" and late: "t + ue_idle_timeout w < now"
    and e: "e \<in> set (ue_fullcone w)"
  shows "fullcone_dead now w (bd_slot (snd e))"
proof (cases "bd_slot (snd e)")
  case (SlotPending i)
  have "i \<in> set (permit_owners w)" using e SlotPending by (force simp: permit_owners_def)
  then have "i < ue_next w" using b unfolding books_def by auto
  then obtain p where p: "ue_pendings w i = Some p" using f by (auto simp: facts_def queues_ok_def)
  then have "pd_created p \<le> t" using c by (metis clocks_def option.pred_inject(2))
  then show ?thesis using SlotPending p late by (simp add: fullcone_dead_def expired_def)
next
  case (SlotReady i)
  then obtain s where s: "ue_fc_sessions w i = Some s" using f e unfolding facts_def sessions_ok_def by (metis prod.collapse not_None_eq)
  then have "fc_clock (ue_idle_timeout w) t s" using c by (metis clocks_def option.pred_inject(2))
  then have "expired now (fc_last_seen s) (fc_idle s)" by (intro stale [OF _ _ late]) (simp_all add: fc_clock_def)
  then show ?thesis using SlotReady s by (simp add: fullcone_dead_def)
qed

lemma fullcone_dead_same:
  "ue_fc_sessions v = ue_fc_sessions w \<Longrightarrow> ue_pendings v = ue_pendings w \<Longrightarrow> ue_idle_timeout v = ue_idle_timeout w \<Longrightarrow>
    fullcone_dead now v x = fullcone_dead now w x"
  by (auto simp: fullcone_dead_def split: slot.splits option.splits)

lemma sweep_drains:
  assumes b: "books S F w" and f: "facts N fake w" and c: "clocks fake t w" and late: "t + ue_idle_timeout w < now"
  shows "\<exists>n w'. sweep_idle now wall w = Some (n, w') \<and> good S F N fake w w' \<and> ue_symmetric w' = [] \<and> ue_fullcone w' = [] \<and> ue_flow_path w' = []"
proof -
  obtain n w' where s: "sweep_idle now wall w = Some (n, w')" "good S F N fake w w'" using sweep_idle_good [OF b f] by blast
  let ?dead = "map fst (filter (\<lambda>(k, b). symmetric_dead now w k (bd_slot b)) (ue_symmetric w))"
  obtain v where v: "sweep_symmetric wall ?dead w = Some v" using s(1) by (auto simp: sweep_idle_def split: Option.bind_splits)
  note so = sweep_symmetric_only [OF v]
  have 1: "ue_symmetric v = []" using all_symmetric_dead [OF b f c late]
    by (simp only: so filter_empty_conv not_not) (auto intro!: rev_image_eqI)
  let ?dead_fc = "map fst (filter (\<lambda>(k, b). fullcone_dead now v (bd_slot b)) (ue_fullcone v))"
  define u where "u = sweep_fullcone wall ?dead_fc v"
  have dead: "fullcone_dead now v x = fullcone_dead now w x" for x by (rule fullcone_dead_same) (simp_all only: so)
  note fo = sweep_fullcone_only [of wall ?dead_fc v, folded u_def]
  have fcs: "ue_fullcone v = ue_fullcone w" by (simp only: so)
  have "fst e \<in> set ?dead_fc" if "e \<in> set (ue_fullcone v)" for e
    using all_fullcone_dead [OF b f c late] that fcs dead by (auto intro!: rev_image_eqI)
  then have "filter (\<lambda>e. fst e \<notin> set ?dead_fc) (ue_fullcone v) = []" by (simp only: filter_empty_conv not_not) blast
  then have 2: "ue_symmetric u = []" "ue_fullcone u = []" using fo 1 by simp_all
  let ?dead_fp = "map fst (filter (\<lambda>(k, e). flow_dead now u k e) (ue_flow_path u))"
  have r: "remove_flows ?dead_fp u = Some w'" using s(1) v by (auto simp: sweep_idle_def Let_def u_def split: Option.bind_splits)
  have cu: "clocks fake t u" unfolding u_def by (rule clocks_sweep_fullcone [OF clocks_sweep_symmetric [OF c v]])
  have idle: "ue_idle_timeout u = ue_idle_timeout w" using so fo by simp
  have "fst e \<in> set ?dead_fp" if e: "e \<in> set (ue_flow_path u)" for e
  proof -
    have "fe_last_seen (snd e) \<le> t" using cu e by (simp add: clocks_def)
    then have "flow_dead now u (fst e) (snd e)" using stale [OF _ idle_for_dst_le late] idle by (simp add: flow_dead_def)
    then show ?thesis using e by (auto intro!: rev_image_eqI)
  qed
  then have "filter (\<lambda>e. fst e \<notin> set ?dead_fp) (ue_flow_path u) = []" by (simp only: filter_empty_conv not_not) blast
  then show ?thesis using s 2 remove_flows_only [OF r] by (intro exI [of _ n] exI [of _ w']) simp
qed


section \<open>What holds of every reachable engine\<close>

definition client_sessions :: "ip_addr \<Rightarrow> 'n udp_engine \<Rightarrow> nat" where
  "client_sessions ip w = length (filter (\<lambda>e. sa_ip (fst (fst e)) = ip) (ue_symmetric w)) +
     length (filter (\<lambda>e. sa_ip (fst e) = ip) (ue_fullcone w))"

definition client_flows :: "ip_addr \<Rightarrow> 'n udp_engine \<Rightarrow> nat" where
  "client_flows ip w = length (filter (\<lambda>e. sa_ip (fst (fst e)) = ip) (ue_flow_path w))"

lemma count_tokens: "(\<forall>e \<in> set al. f e = g e) \<Longrightarrow> count (mset (map f al)) ip = length (filter (\<lambda>e. g e = ip) al)"
  by (induction al) auto

lemma books_counts:
  assumes "books S F w"
  shows "count (session_tokens w) ip = client_sessions ip w" "count (flow_tokens w) ip = client_flows ip w"
  using assms count_tokens [of "ue_symmetric w" "\<lambda>e. bd_ip (snd e)" "\<lambda>e. sa_ip (fst (fst e))" ip]
    count_tokens [of "ue_fullcone w" "\<lambda>e. bd_ip (snd e)" "\<lambda>e. sa_ip (fst e)" ip]
    count_tokens [of "ue_flow_path w" "\<lambda>e. fe_ip (snd e)" "\<lambda>e. sa_ip (fst (fst e))" ip]
  by (simp_all add: session_tokens_def flow_tokens_def client_sessions_def client_flows_def books_def tokens_named_def)

lemma budgets_exact:
  assumes "udp_reachable C N contains fake S F t w" and "crypto_laws C"
  shows "client_sessions ip w \<le> ue_max_sessions w" and "client_flows ip w \<le> ue_max_flows w"
    and "ue_session_budget w ip = (if client_sessions ip w = 0 then None else Some (client_sessions ip w))"
    and "ue_flow_budget w ip = (if client_flows ip w = 0 then None else Some (client_flows ip w))"
    and "bg_used (ub_sessions (ue_budget w)) c = class_count (mset (map snd (ue_permits w))) c + class_count S c"
    and "bg_used (ub_flows (ue_budget w)) c = class_count (mset (map (fe_permit \<circ> snd) (ue_flow_path w))) c + class_count F c"
    and "bg_used (ub_sessions (ue_budget w)) c \<le> bg_limits (ub_sessions (ue_budget w)) c"
    and "bg_used (ub_flows (ue_budget w)) c \<le> bg_limits (ub_flows (ue_budget w)) c"
    and "fst ` set (ue_permits w) = set (permit_owners w)"
proof -
  have b: "books S F w" and o': "owned w" using reachable_ok [OF assms] by simp_all
  have ct: "counts ps k = (if count ps k = 0 then None else Some (count ps k))" for ps :: "ip_addr multiset" and k
    by (simp add: counts_def not_in_iff)
  have s: "client_holds (ue_max_sessions w) (ue_session_budget w) (session_tokens w)"
    "client_holds (ue_max_flows w) (ue_flow_budget w) (flow_tokens w)"
    "budget_holds (ub_sessions (ue_budget w)) (session_permit_bag w + S)"
    "budget_holds (ub_flows (ue_budget w)) (flow_permit_bag w + F)" using b by (simp_all add: books_def)
  show "client_sessions ip w \<le> ue_max_sessions w" "client_flows ip w \<le> ue_max_flows w"
    using s(1,2) books_counts [OF b, of ip] by (metis client_holds_def)+
  show "ue_session_budget w ip = (if client_sessions ip w = 0 then None else Some (client_sessions ip w))"
    "ue_flow_budget w ip = (if client_flows ip w = 0 then None else Some (client_flows ip w))"
    using s(1,2) books_counts [OF b, of ip] by (metis client_holds_def ct)+
  show "bg_used (ub_sessions (ue_budget w)) c = class_count (mset (map snd (ue_permits w))) c + class_count S c"
    using s(3) by (simp add: budget_holds_def session_permit_bag_def)
  show "bg_used (ub_flows (ue_budget w)) c = class_count (mset (map (fe_permit \<circ> snd) (ue_flow_path w))) c + class_count F c"
    using s(4) by (simp add: budget_holds_def flow_permit_bag_def comp_def)
  show "bg_used (ub_sessions (ue_budget w)) c \<le> bg_limits (ub_sessions (ue_budget w)) c"
    "bg_used (ub_flows (ue_budget w)) c \<le> bg_limits (ub_flows (ue_budget w)) c"
    using s(3,4) by (simp_all add: budget_holds_def)
  show "fst ` set (ue_permits w) = set (permit_owners w)" using o' by (simp add: owned_def)
qed

lemma step_by_name:
  assumes r: "udp_reachable C N contains fake S F t w" and C: "crypto_laws C" and t: "t \<le> now" and e: "resolved_ok fake ev"
  shows "\<exists>outs w'. udp_step C N contains now wall ev w = Some (outs, w') \<and> udp_reachable C N contains fake S F now w' \<and>
    (\<forall>out \<in> set outs. by_name fake out \<and> direct_ok fake out)"
proof -
  have i: "books S F w" "facts N fake w" "clocks fake now w" using reachable_ok [OF r C] clocks_later [OF _ t] by blast+
  obtain outs w' where s: "udp_step C N contains now wall ev w = Some (outs, w')" "\<forall>out \<in> set outs. by_name fake out"
    using udp_step_fine(1) [OF C i(1,2)] unfolding fine_step_def by blast
  then show ?thesis using clocks_udp_step [OF i(3) order_refl i(2) e s(1)] udp_reachable.step [OF r t e s(1)] by blast
qed

lemma late_sweep:
  assumes r: "udp_reachable C N contains fake S F t w" and C: "crypto_laws C" and late: "t + ue_idle_timeout w < now"
  shows "\<exists>w'. udp_step C N contains now wall Sweep w = Some ([], w') \<and> engine_is_empty w' \<and> ue_flow_path w' = [] \<and>
    ue_session_budget w' = Map.empty \<and> ue_flow_budget w' = Map.empty \<and> bg_used (ub_flows (ue_budget w')) = class_count F"
proof -
  have i: "books S F w" "facts N fake w" "clocks fake t w" using reachable_ok [OF r C] by blast+
  obtain n v where v: "sweep_idle now wall w = Some (n, v)" "good S F N fake w v" "ue_symmetric v = []" "ue_fullcone v = []"
      "ue_flow_path v = []" using sweep_drains [OF i late] by blast
  obtain w' where w': "drop_unowned v = Some w'" using drop_unowned_books goodD(1) [OF v(2)] by blast
  have s: "udp_step C N contains now wall Sweep w = Some ([], w')" using v(1) w' by (cases n) (simp add: udp_step_def act_def)
  have e: "ue_symmetric w' = []" "ue_fullcone w' = []" "ue_flow_path w' = []"
    using w' v(3-5) by (auto simp: drop_unowned_def split: Option.bind_splits)
  have r': "udp_reachable C N contains fake S F now w'"
    by (rule udp_reachable.step [OF r _ _ s]) (use late in \<open>simp_all add: resolved_ok_def\<close>)
  have "ue_session_budget w' = Map.empty" "ue_flow_budget w' = Map.empty"
    using budgets_exact(3,4) [OF r' C] e by (simp_all add: fun_eq_iff client_sessions_def client_flows_def)
  moreover have "bg_used (ub_flows (ue_budget w')) = class_count F" using budgets_exact(6) [OF r' C] e by (simp add: fun_eq_iff)
  ultimately show ?thesis using s e by (simp add: engine_is_empty_def)
qed


section \<open>Runs\<close>

fun run_udp :: "quic_crypto \<Rightarrow> 'n ipv4net \<Rightarrow> (string \<Rightarrow> ip_addr \<Rightarrow> bool) \<Rightarrow> nat \<Rightarrow> nat \<Rightarrow> udp_event list \<Rightarrow> 'n udp_engine \<Rightarrow>
    (udp_out list \<times> 'n udp_engine) option" where
  "run_udp C N contains now wall [] w = Some ([], w)"
| "run_udp C N contains now wall (ev # evs) w = do {
     (outs, w) \<leftarrow> udp_step C N contains now wall ev w;
     (outs', w) \<leftarrow> run_udp C N contains now wall evs w;
     Some (outs @ outs', w) }"

lemma drop_unowned_only:
  assumes "drop_unowned v = Some w"
  obtains ps b where "w = v\<lparr>ue_permits := ps, ue_budget := b\<rparr>" and "ub_flows b = ub_flows (ue_budget v)"
  using assms by (auto simp: drop_unowned_def split: Option.bind_splits)

lemma reachable_run:
  "udp_reachable C N contains fake S F now w \<Longrightarrow> \<forall>ev \<in> set evs. resolved_ok fake ev \<Longrightarrow>
    run_udp C N contains now wall evs w = Some (outs, w') \<Longrightarrow> udp_reachable C N contains fake S F now w'"
proof (induction evs arbitrary: w outs)
  case (Cons ev evs)
  then obtain o1 v os where v: "udp_step C N contains now wall ev w = Some (o1, v)" "run_udp C N contains now wall evs v = Some (os, w')"
    by (auto split: Option.bind_splits)
  have "udp_reachable C N contains fake S F now v" by (rule udp_reachable.step [OF Cons.prems(1) order_refl _ v(1)]) (use Cons.prems in simp)
  then show ?case using Cons.IH Cons.prems(2) v(2) by simp
qed simp

text \<open>With no session and no task left, every reader may end, and then nothing holds a permit.\<close>

lemma abort_all_readers:
  assumes r: "udp_reachable C N contains fake S F now w" and C: "crypto_laws C"
    and e: "ue_symmetric w = []" "ue_fullcone w = []" "ue_tasks w = []" "ue_flow_path w = []" "fst ` set (ue_readers w) \<subseteq> set is"
  shows "\<exists>w'. run_udp C N contains now wall (map ReaderAborted is) w = Some ([], w') \<and> udp_reachable C N contains fake S F now w' \<and>
    ue_symmetric w' = [] \<and> ue_fullcone w' = [] \<and> ue_flow_path w' = [] \<and> permit_owners w' = []"
  using r e
proof (induction "is" arbitrary: w)
  case Nil
  then show ?case by (simp add: permit_owners_def)
next
  case (Cons i "is")
  let ?v = "w\<lparr>ue_readers := AList.delete i (ue_readers w)\<rparr>"
  have live: "\<not> session_live i w" using Cons.prems by (simp add: session_live_def)
  obtain o1 u where u: "udp_step C N contains now wall (ReaderAborted i) w = Some (o1, u)"
    using step_by_name [OF Cons.prems(1) C order_refl, of "ReaderAborted i" wall] by (auto simp: resolved_ok_def)
  then have d: "o1 = []" "drop_unowned ?v = Some u" using live by (auto simp: udp_step_def act_def split: Option.bind_splits)
  obtain ps b where u': "u = ?v\<lparr>ue_permits := ps, ue_budget := b\<rparr>" by (rule drop_unowned_only [OF d(2)])
  have ru: "udp_reachable C N contains fake S F now u"
    by (rule udp_reachable.step [OF Cons.prems(1) order_refl _ u]) (simp add: resolved_ok_def)
  have "fst ` set (ue_readers u) \<subseteq> set is" using Cons.prems(6) by (auto simp: u' set_delete)
  then show ?case using Cons.IH [OF ru] Cons.prems u d(1) by (simp add: u')
qed

lemma sweep_keeps_tasks:
  assumes "udp_step C N contains now wall Sweep w = Some (outs, w')"
  shows "ue_tasks w' = ue_tasks w \<and> ue_readers w' = ue_readers w"
proof -
  have sym: "ue_tasks v = ue_tasks u \<and> ue_readers v = ue_readers u" if "sweep_symmetric wall ks u = Some v" for ks and u v :: "'a udp_engine"
    using that
  proof (induction ks arbitrary: u)
    case (Cons k ks)
    obtain s x where s: "remove_symmetric k u = (s, x)" by fastforce
    define y where "y = (case s of Some (SlotReady i) \<Rightarrow> close_session_record wall (map_option sy_rec (ue_sym_sessions x i)) x | _ \<Rightarrow> x)"
    have y: "ue_tasks y = ue_tasks u \<and> ue_readers y = ue_readers u" using s
      by (auto simp: y_def remove_symmetric_def close_session_record_def close_record_def split: option.splits slot.splits)
    obtain z where z: "remove_flow k y = Some z" "sweep_symmetric wall ks z = Some v"
      using Cons.prems s by (auto simp: Let_def y_def split: Option.bind_splits)
    have "ue_tasks z = ue_tasks y \<and> ue_readers z = ue_readers y"
      using z(1) by (rule remove_flow_changes) simp
    then show ?case using Cons.IH [OF z(2)] y by simp
  qed simp
  have fc: "ue_tasks (sweep_fullcone wall ks u) = ue_tasks u \<and> ue_readers (sweep_fullcone wall ks u) = ue_readers u" for ks and u :: "'a udp_engine"
  proof (induction ks arbitrary: u)
    case (Cons k ks)
    obtain s x where s: "remove_fullcone k u = (s, x)" by fastforce
    define y where "y = (case s of Some (SlotReady i) \<Rightarrow> close_session_record wall (map_option fc_rec (ue_fc_sessions x i)) x | _ \<Rightarrow> x)"
    have "ue_tasks y = ue_tasks u \<and> ue_readers y = ue_readers u" using s
      by (auto simp: y_def remove_fullcone_def close_session_record_def close_record_def split: option.splits slot.splits)
    then show ?case using Cons.IH [of y] s by (simp add: Let_def y_def)
  qed simp
  have fl: "ue_tasks v = ue_tasks u \<and> ue_readers v = ue_readers u" if "remove_flows ks u = Some v" for ks and u v :: "'a udp_engine"
    using that
  proof (induction ks arbitrary: u)
    case (Cons k ks)
    then obtain x where x: "remove_flow k u = Some x" "remove_flows ks x = Some v" by (auto split: Option.bind_splits)
    have "ue_tasks x = ue_tasks u \<and> ue_readers x = ue_readers u" using x(1) by (rule remove_flow_changes) simp
    then show ?case using Cons.IH [OF x(2)] by simp
  qed simp
  obtain n v where v: "sweep_idle now wall w = Some (n, v)" "drop_unowned v = Some w'"
    using assms by (auto simp: udp_step_def act_def split: Option.bind_splits)
  obtain v1 where v1: "sweep_symmetric wall (map fst (filter (\<lambda>(k, b). symmetric_dead now w k (bd_slot b)) (ue_symmetric w))) w = Some v1"
    using v(1) by (auto simp: sweep_idle_def split: Option.bind_splits)
  define v2 where "v2 = sweep_fullcone wall (map fst (filter (\<lambda>(k, b). fullcone_dead now v1 (bd_slot b)) (ue_fullcone v1))) v1"
  obtain ks where "remove_flows ks v2 = Some v" using v(1) v1 by (auto simp: sweep_idle_def Let_def v2_def split: Option.bind_splits)
  then have "ue_tasks v = ue_tasks w \<and> ue_readers v = ue_readers w" using fl [of ks v2 v] sym [OF v1] fc by (simp add: v2_def)
  moreover obtain ps b where "w' = v\<lparr>ue_permits := ps, ue_budget := b\<rparr>" by (rule drop_unowned_only [OF v(2)])
  ultimately show ?thesis by simp
qed

end
