(* ===== verification/UdpNamed.thy ===== *)
theory UdpNamed
  imports UdpReach
begin

text \<open>
  A datagram from a client to the address of a name, followed through the engine: accepted, queued while
  the upstream is opened, and sent on with the name in place of the address; and the replies, which come
  back to the client from the address it sent to.
\<close>

section \<open>The way out\<close>

lemma feed_not_initial:
  assumes "\<not> is_quic_initial p"
  shows "\<exists>r s. quic_feed C p quic_sniffer_new = Some (r, s) \<and> try_take_sni s = (None, s)"
  using assms by (cases "parse_long_header_initial p")
    (auto simp: quic_feed_def quic_sniffer_new_def is_quic_initial_def MAX_FEED_ATTEMPTS_def try_take_sni_def
      try_reassemble_handshake_record_def)

lemma accept_datagram:
  assumes r: "udp_reachable C N contains fake S F now w" and C: "crypto_laws C"
    and new: "map_of (ue_flow_path w) (peer, dst) = None" "map_of (ue_symmetric w) (peer, dst) = None"
    and allowed: "ue_cloudflared w \<or> proxy_allowed N (sa_ip peer) (ue_shared w)" and p: "\<not> is_quic_initial p"
    and dst: "fake (sa_ip dst)" "sa_ip dst = V4 ip" "sh_fakeip (ue_shared w) = Some fk" "pool_lookback ip fk = Some (Some host, fk')"
    and room: "client_flows (sa_ip peer) w < ue_max_flows w" "client_sessions (sa_ip peer) w < ue_max_sessions w"
      "acquire (sa_ip peer) (ue_cloudflared w) (ub_flows (ue_budget w)) \<noteq> None"
      "acquire (sa_ip peer) (ue_cloudflared w) (ub_sessions (ue_budget w)) \<noteq> None"
  obtains w' proto where "udp_step C N contains now wall (Packet peer dst p True sent) w = Some ([], w')"
    and "udp_reachable C N contains fake S F now w'"
    and "map_of (ue_symmetric w') (peer, dst) = Some \<lparr> bd_slot = SlotPending (ue_next w), bd_ip = sa_ip peer \<rparr>"
    and "ue_pendings w' (ue_next w) = Some (pending_new (dst, p) now)"
    and "map_of (ue_tasks w') (ue_next w) = Some \<lparr> tk_kind = Symmetric, tk_peer = peer, tk_dst = dst, tk_is_fakeip = True,
      tk_fakeip_host = Some host, tk_proto = proto, tk_stage = Opening \<rparr>"
    and "ue_spoof_cache w' = ue_spoof_cache w"
proof -
  have f: "in_fakeip N (ue_shared w) = fake" using reachable_ok [OF r C] by (simp add: facts_def shared_ok_def)
  have pc: "pool_contains N fk (sa_ip dst)" using f dst by (auto simp: in_fakeip_def fun_eq_iff)
  have kind: "new_flow_kind N dst p w = Symmetric" using f dst by (simp add: new_flow_kind_def)
  note exact = budgets_exact [OF r C]
  obtain fp fb where fb: "acquire_with_headroom (sa_ip peer) (ue_cloudflared w) 0 0 (ub_flows (ue_budget w)) = Some (fp, fb)"
    using room(3) by (auto simp: acquire_def)
  obtain sp sb where sb: "acquire (sa_ip peer) (ue_cloudflared w) (ub_sessions (ue_budget w)) = Some (sp, sb)" using room(4) by auto
  have ta: "try_acquire (sa_ip peer) (ue_max_flows w) (ue_flow_budget w) =
      Some (sa_ip peer, (ue_flow_budget w)(sa_ip peer \<mapsto> client_flows (sa_ip peer) w + 1))"
    using room(1) exact(4) [of "sa_ip peer"] by (simp add: try_acquire_def)
  have ts: "try_acquire (sa_ip peer) (ue_max_sessions w) (ue_session_budget w) =
      Some (sa_ip peer, (ue_session_budget w)(sa_ip peer \<mapsto> client_sessions (sa_ip peer) w + 1))"
    using room(2) exact(3) [of "sa_ip peer"] by (simp add: try_acquire_def)
  obtain w1 where w1: "decide_flow_kind N now peer dst p w = (Some Symmetric, w1)" "ue_symmetric w1 = ue_symmetric w"
      "ue_session_budget w1 = ue_session_budget w" "ub_sessions (ue_budget w1) = ub_sessions (ue_budget w)" "ue_shared w1 = ue_shared w"
      "ue_cloudflared w1 = ue_cloudflared w" "ue_max_sessions w1 = ue_max_sessions w" "ue_next w1 = ue_next w"
      "ue_spoof_cache w1 = ue_spoof_cache w" "ue_pendings w1 = ue_pendings w"
    using new(1) kind ta fb by (simp add: decide_flow_kind_def flow_permits_def)
  obtain w2 where w2: "admit_session now (sa_ip peer) (dst, p) w1 = Inr (ue_next w, \<lparr> bd_slot = SlotPending (ue_next w), bd_ip = sa_ip peer \<rparr>, w2)"
      "ue_symmetric w2 = ue_symmetric w" "ue_shared w2 = ue_shared w" "ue_pendings w2 (ue_next w) = Some (pending_new (dst, p) now)"
      "ue_spoof_cache w2 = ue_spoof_cache w" "ue_cloudflared w2 = ue_cloudflared w"
    using w1 ts sb by (simp add: admit_session_def Let_def)
  let ?w3 = "w2\<lparr>ue_symmetric := AList.update (peer, dst) \<lparr> bd_slot = SlotPending (ue_next w), bd_ip = sa_ip peer \<rparr> (ue_symmetric w2)\<rparr>"
  have rf: "resolve_fakeip N dst (ue_shared ?w3) = Some ((True, Some host), (ue_shared w)\<lparr>sh_fakeip := Some fk'\<rparr>)"
    using dst pc w2(3) by (simp add: resolve_fakeip_def)
  obtain h w4 where h: "group_hint dst (?w3\<lparr>ue_shared := (ue_shared w)\<lparr>sh_fakeip := Some fk'\<rparr>\<rparr>) = (h, w4)" by fastforce
  have w4: "ue_symmetric w4 = ue_symmetric ?w3" "ue_pendings w4 = ue_pendings w2" "ue_spoof_cache w4 = ue_spoof_cache w" "ue_tasks w4 = ue_tasks w2"
    using h w2 by (auto simp: group_hint_def split: if_splits prod.splits)
  let ?proto = "classify_udp_proto contains dst p PFakeIp h"
  let ?t = "\<lparr> tk_kind = Symmetric, tk_peer = peer, tk_dst = dst, tk_is_fakeip = True,
      tk_fakeip_host = Some host, tk_proto = ?proto, tk_stage = Opening \<rparr>"
  let ?w5 = "w4\<lparr>ue_tasks := (ue_next w, ?t) # ue_tasks w4\<rparr>"
  have "handle_symmetric C N contains now sent peer dst p w1 = Some ([], ?w5)"
    using w1 w2(1) new(2) rf h by (simp add: handle_symmetric_def spawn_open_symmetric_def)
  then have a: "act C N contains now wall (Packet peer dst p True sent) w = Some ([], ?w5)"
    using allowed p w1(1) by (auto simp: act_def dispatch_packet_def)
  obtain outs v where v: "udp_step C N contains now wall (Packet peer dst p True sent) w = Some (outs, v)"
      "udp_reachable C N contains fake S F now v"
    using step_by_name [OF r C order_refl, of "Packet peer dst p True sent" wall] by (auto simp: resolved_ok_def)
  then have d: "outs = []" "drop_unowned ?w5 = Some v" using a by (auto simp: udp_step_def split: Option.bind_splits)
  obtain ps b where v': "v = ?w5\<lparr>ue_permits := ps, ue_budget := b\<rparr>" by (rule drop_unowned_only [OF d(2)])
  have "map_of (ue_symmetric v) (peer, dst) = Some \<lparr> bd_slot = SlotPending (ue_next w), bd_ip = sa_ip peer \<rparr>"
    using w4(1) by (simp add: v' update_conv')
  then show ?thesis using that v d(1) w4 w2(4) by (simp add: v')
qed


lemma step_only:
  assumes r: "udp_reachable C N contains fake S F now w" and C: "crypto_laws C" and e: "resolved_ok fake ev"
    and a: "act C N contains now wall ev w = Some (outs, v)"
  obtains w' ps b where "udp_step C N contains now wall ev w = Some (outs, w')" and "udp_reachable C N contains fake S F now w'"
    and "w' = v\<lparr>ue_permits := ps, ue_budget := b\<rparr>"
proof -
  obtain o1 w' where w': "udp_step C N contains now wall ev w = Some (o1, w')" "udp_reachable C N contains fake S F now w'"
    using step_by_name [OF r C order_refl e] by blast
  then have d: "o1 = outs" "drop_unowned v = Some w'" using a by (auto simp: udp_step_def split: Option.bind_splits)
  obtain ps b where "w' = v\<lparr>ue_permits := ps, ue_budget := b\<rparr>" by (rule drop_unowned_only [OF d(2)])
  then show ?thesis using that w' d(1) by blast
qed

definition waiting_task :: "socket_addr \<Rightarrow> socket_addr \<Rightarrow> bytes \<Rightarrow> conn_proto \<Rightarrow> open_stage \<Rightarrow> open_task" where
  "waiting_task peer dst host proto st = \<lparr> tk_kind = Symmetric, tk_peer = peer, tk_dst = dst, tk_is_fakeip = True,
     tk_fakeip_host = Some host, tk_proto = proto, tk_stage = st \<rparr>"

definition fresh_session :: "socket_addr \<Rightarrow> bytes \<Rightarrow> symmetric_session \<Rightarrow> bool" where
  "fresh_session relay host s \<longleftrightarrow> sy_relay s = relay \<and> sy_routing_host s = Some host \<and> \<not> sy_direct s \<and>
     (sy_sniff_done s \<or> sy_sniffer s = Some quic_sniffer_new)"

lemma open_waiting:
  assumes r: "udp_reachable C N contains fake S F now w" and C: "crypto_laws C"
    and t: "map_of (ue_tasks w) i = Some (waiting_task peer dst host proto Opening)"
    and b: "fst (get_or_bind now (Some dst) dst (ue_spoof_cache w)) \<noteq> None"
  obtains w' s where "udp_step C N contains now wall (TaskOpen i (UpSocks5 (Some relay)) True) w = Some ([], w')"
    and "udp_reachable C N contains fake S F now w'" and "ue_symmetric w' = ue_symmetric w" and "ue_pendings w' = ue_pendings w"
    and "map_of (ue_tasks w') i = Some (waiting_task peer dst host proto Opened)"
    and "ue_sym_sessions w' i = Some s" and "fresh_session relay host s"
    and "map_of (ue_readers w') i = Some \<lparr> rt_kind = Symmetric, rt_peer = peer, rt_dst = dst, rt_direct = False, rt_rec = sy_rec s, rt_canonical = None \<rparr>"
proof -
  let ?t = "waiting_task peer dst host proto Opening"
  obtain k c where c: "get_or_bind now (Some dst) dst (ue_spoof_cache w) = (Some k, c)" using b by (cases "get_or_bind now (Some dst) dst (ue_spoof_cache w)") auto
  let ?w = "w\<lparr>ue_spoof_cache := c\<rparr>"
  obtain rec sh where g: "register_udp_record wall peer dst proto (Some host) ?w = (rec, ?w\<lparr>ue_shared := sh\<rparr>)"
    by (simp add: register_udp_record_def Let_def split_beta)
  define v where "v = start_symmetric now wall i ?t False relay ?w"
  have v: "ue_symmetric v = ue_symmetric w" "ue_pendings v = ue_pendings w" "ue_tasks v = ue_tasks w"
    using g by (simp_all add: v_def start_symmetric_def waiting_task_def Let_def)
  define s where "s = the (ue_sym_sessions v i)"
  have s: "ue_sym_sessions v i = Some s" "fresh_session relay host s"
    "map_of (ue_readers v) i = Some \<lparr> rt_kind = Symmetric, rt_peer = peer, rt_dst = dst, rt_direct = False, rt_rec = sy_rec s, rt_canonical = None \<rparr>"
    using g by (simp_all add: s_def v_def start_symmetric_def waiting_task_def Let_def fresh_session_def)
  have a: "act C N contains now wall (TaskOpen i (UpSocks5 (Some relay)) True) w = Some ([], set_stage i Opened v)"
    using t c by (simp add: act_def task_open_def open_session_def open_symmetric_session_def bound_then_def waiting_task_def v_def)
  obtain w' ps b where w': "udp_step C N contains now wall (TaskOpen i (UpSocks5 (Some relay)) True) w = Some ([], w')"
      "udp_reachable C N contains fake S F now w'" "w' = (set_stage i Opened v)\<lparr>ue_permits := ps, ue_budget := b\<rparr>"
    by (rule step_only [OF r C _ a]) (simp add: resolved_ok_def)
  show ?thesis
    by (rule that [OF w'(1,2)]) (use v s t in \<open>simp_all add: w'(3) set_stage_def map_of_map_entry waiting_task_def\<close>)
qed

lemma install_waiting:
  assumes r: "udp_reachable C N contains fake S F now w" and C: "crypto_laws C"
    and t: "map_of (ue_tasks w) i = Some (waiting_task peer dst host proto Opened)"
    and b: "map_of (ue_symmetric w) (peer, dst) = Some \<lparr> bd_slot = SlotPending i, bd_ip = ip \<rparr>"
  obtains w' where "udp_step C N contains now wall (TaskInstall i) w = Some ([], w')"
    and "udp_reachable C N contains fake S F now w'" and "ue_pendings w' = ue_pendings w" and "ue_sym_sessions w' = ue_sym_sessions w"
    and "map_of (ue_tasks w') i = Some (waiting_task peer dst host proto Installed)"
    and "map_of (ue_symmetric w') (peer, dst) = Some \<lparr> bd_slot = SlotReady i, bd_ip = ip \<rparr>"
proof -
  let ?t = "waiting_task peer dst host proto Opened"
  have a: "act C N contains now wall (TaskInstall i) w = Some ([], set_stage i Installed (set_ready i ?t w))"
    using t b by (simp add: act_def task_install_def slot_of_def waiting_task_def)
  obtain w' ps b' where w': "udp_step C N contains now wall (TaskInstall i) w = Some ([], w')"
      "udp_reachable C N contains fake S F now w'" "w' = (set_stage i Installed (set_ready i ?t w))\<lparr>ue_permits := ps, ue_budget := b'\<rparr>"
    by (rule step_only [OF r C _ a]) (simp add: resolved_ok_def)
  show ?thesis
    by (rule that [OF w'(1,2)]) (use t b in \<open>simp_all add: w'(3) set_stage_def set_ready_def map_of_map_entry waiting_task_def\<close>)
qed

lemma flush_waiting:
  assumes r: "udp_reachable C N contains fake S F now w" and C: "crypto_laws C"
    and t: "map_of (ue_tasks w) i = Some (waiting_task peer dst host proto Installed)"
    and q: "ue_pendings w i = Some (pending_new (dst, p) now)" "length p \<le> 65536"
    and s: "ue_sym_sessions w i = Some s" "fresh_session relay host s"
    and p: "\<not> is_quic_initial p" and f: "encode_udp_request_domain host (sa_port dst) p = Inr frame"
  obtains w' where "udp_step C N contains now wall (TaskFlush i (\<lambda>_. True)) w = Some ([ToRelay relay frame], w')"
    and "udp_reachable C N contains fake S F now w'"
proof -
  let ?t = "waiting_task peer dst host proto Installed"
  obtain v where v: "take_pending i w = ([(dst, p)], v)" "ue_sym_sessions v = ue_sym_sessions w"
    using q by (simp add: take_pending_def pending_take_def pending_new_def)
  define u where "u = (if wants_head Symmetric proto then v\<lparr>ue_shared := set_head_of (sy_rec s) p (ue_shared v)\<rparr> else v)"
  have us: "ue_sym_sessions u i = Some s" using v(2) s(1) by (simp add: u_def)
  obtain rr sn where sn: "quic_feed C p quic_sniffer_new = Some (rr, sn)" "try_take_sni sn = (None, sn)"
    using feed_not_initial [OF p] by blast
  obtain s' where s': "sniff_datagram C dst p s (sh_domain_ips (ue_shared u)) = Some (s', sh_domain_ips (ue_shared u))"
      "sy_routing_host s' = Some host" "sy_relay s' = relay"
    using s(2) sn by (cases "sy_sniff_done s"; cases "qs_done sn") (auto simp: sniff_datagram_def fresh_session_def)
  have "\<exists>x. forward_symmetric C True i dst p u = Some (True, [ToRelay relay frame], x)"
    using us s(2) s' f by (simp add: forward_symmetric_def relay_frame_def fresh_session_def Let_def)
  then obtain x where x: "forward_symmetric C True i dst p u = Some (True, [ToRelay relay frame], x)" by blast
  have "act C N contains now wall (TaskFlush i (\<lambda>_. True)) w = Some ([ToRelay relay frame], end_task i x)"
    using t s(1) v x by (auto simp: act_def task_flush_def task_rec_def waiting_task_def Let_def u_def split: if_splits)
  then show ?thesis by (rule step_only [OF r C, rotated]) (use that in \<open>simp_all add: resolved_ok_def\<close>)
qed


section \<open>The way back\<close>

text \<open>The sources a symmetric flow's replies get, as long as the upstream answers from one address.\<close>

lemma spoof_src_of_one_address:
  assumes "canonical = None \<or> canonical = Some (sa_ip src)" and "sa_ip src \<noteq> V4 0" and "sa_ip src \<noteq> V6 0"
  shows "symmetric_spoof_src canonical src dst =
    (if sa_port src = sa_port dst then None else Some \<lparr> sa_ip = sa_ip dst, sa_port = sa_port src \<rparr>, Some (sa_ip src))"
  using assms by (auto simp: symmetric_spoof_src_def Let_def)

lemma sent_from:
  assumes "own_sockets (ue_spoof_cache w)" and "send_spoofed now ok sent s counted peer p w = (outs, w')"
    and "\<And>v. ue_readers (counted v) = ue_readers v"
  shows "set outs \<subseteq> {Spoofed s peer p}" and "ue_readers w' = ue_readers w"
proof -
  obtain r c where r: "get_or_bind now (if ok then Some s else None) s (ue_spoof_cache w) = (r, c)" by fastforce
  then have "r = None \<or> r = Some s" by (rule bound_socket_is_own(2) [OF assms(1)])
  then show "set outs \<subseteq> {Spoofed s peer p}" "ue_readers w' = ue_readers w"
    using assms(2,3) r by (auto simp: send_spoofed_def split: if_splits)
qed

lemma reply_step:
  assumes r: "udp_reachable C N contains fake S F now w" and C: "crypto_laws C"
    and rt: "map_of (ue_readers w) i = Some rt" "rt_kind rt = Symmetric" "\<not> rt_direct rt"
      "rt_canonical rt = None \<or> rt_canonical rt = Some (sa_ip src)"
    and src: "sa_ip src \<noteq> V4 0" "sa_ip src \<noteq> V6 0" and f: "decode_udp_reply f = Some (Inr (src, off))"
    and s: "udp_step C N contains now wall (Reply i any f ok sent) w = Some (outs, w')"
  shows "set outs \<subseteq> {Spoofed \<lparr> sa_ip = sa_ip (rt_dst rt), sa_port = sa_port src \<rparr> (rt_peer rt) (drop off f)}"
    and "map_of (ue_readers w') i = Some (rt\<lparr>rt_canonical := Some (sa_ip src)\<rparr>)"
    and "sa_port src = sa_port (rt_dst rt) \<Longrightarrow> sent \<Longrightarrow> outs \<noteq> []"
proof -
  obtain v where v: "act C N contains now wall (Reply i any f ok sent) w = Some (outs, v)" "drop_unowned v = Some w'"
    using s by (auto simp: udp_step_def split: Option.bind_splits)
  have readers: "ue_readers w' = ue_readers v" by (rule drop_unowned_only [OF v(2)]) simp
  let ?u = "set_canonical i (Some (sa_ip src)) (downloaded (rt_rec rt) (drop off f) w)"
  have own: "own_sockets (ue_spoof_cache ?u)" using reachable_ok [OF r C] by (simp add: clocks_def set_canonical_def downloaded_def)
  have ur: "map_of (ue_readers ?u) i = Some (rt\<lparr>rt_canonical := Some (sa_ip src)\<rparr>)"
    using rt(1) by (simp add: set_canonical_def downloaded_def map_of_map_entry)
  have a: "(outs, v) = (if sa_port src = sa_port (rt_dst rt)
      then if sent then ([Spoofed (rt_dst rt) (rt_peer rt) (drop off f)], count_reply Symmetric ?u) else ([], ?u)
      else send_spoofed now ok sent \<lparr> sa_ip = sa_ip (rt_dst rt), sa_port = sa_port src \<rparr> (count_reply Symmetric) (rt_peer rt) (drop off f) ?u)"
    using v(1) rt f spoof_src_of_one_address [OF rt(4) src, of "rt_dst rt"]
    by (auto simp: act_def relay_reply_def Let_def split: if_splits)
  have "set outs \<subseteq> {Spoofed \<lparr> sa_ip = sa_ip (rt_dst rt), sa_port = sa_port src \<rparr> (rt_peer rt) (drop off f)} \<and>
      ue_readers v = ue_readers ?u \<and> (sa_port src = sa_port (rt_dst rt) \<longrightarrow> sent \<longrightarrow> outs \<noteq> [])"
  proof (cases "sa_port src = sa_port (rt_dst rt)")
    case True
    then have "\<lparr> sa_ip = sa_ip (rt_dst rt), sa_port = sa_port src \<rparr> = rt_dst rt" by simp
    then show ?thesis using a True by (auto simp: count_reply_def split: if_splits)
  next
    case False
    then have s: "send_spoofed now ok sent \<lparr> sa_ip = sa_ip (rt_dst rt), sa_port = sa_port src \<rparr> (count_reply Symmetric) (rt_peer rt) (drop off f) ?u = (outs, v)"
      using a by simp
    then show ?thesis using sent_from [OF own s] False by (simp add: count_reply_def)
  qed
  then show "set outs \<subseteq> {Spoofed \<lparr> sa_ip = sa_ip (rt_dst rt), sa_port = sa_port src \<rparr> (rt_peer rt) (drop off f)}"
    "map_of (ue_readers w') i = Some (rt\<lparr>rt_canonical := Some (sa_ip src)\<rparr>)"
    "sa_port src = sa_port (rt_dst rt) \<Longrightarrow> sent \<Longrightarrow> outs \<noteq> []" using ur readers by simp_all
qed

end
