(* ===== verification/UdpClaims.thy ===== *)
theory UdpClaims
  imports UdpNamed
begin

text \<open>
  What the UDP engine promises, each with a concrete engine it applies to: one that starts empty beside a
  FakeIP pool in which a name has been given an address.
\<close>

section \<open>An engine\<close>

definition example_crypto :: quic_crypto where
  "example_crypto = \<lparr> hkdf_extract = (\<lambda>_ _. []), hkdf_expand = (\<lambda>_ _ n. replicate n 0), aes_block = (\<lambda>_ _. replicate 16 0),
     aead_open = (\<lambda>_ _ _ _. None) \<rparr>"

lemma example_crypto_laws: "crypto_laws example_crypto"
  by (simp add: crypto_laws_def example_crypto_def)

definition example_engine :: "'n pool \<Rightarrow> 'n udp_engine" where
  "example_engine fk = udp_engine_new 60000 16 False 16384 1024 (udp_budget_new 256 64) (example_shared (Some fk))"

abbreviation (input) none_contains :: "string \<Rightarrow> ip_addr \<Rightarrow> bool" where
  "none_contains \<equiv> \<lambda>_ _. False"

lemma example_engine_reachable:
  assumes "pool_inv fk"
  shows "udp_reachable example_crypto N none_contains (in_fakeip N (example_shared (Some fk))) {#} {#} t (example_engine fk)"
  unfolding example_engine_def
  by (rule udp_reachable.start) (use assms in \<open>simp_all add: shared_ok_def example_shared_def udp_budget_new_def\<close>)

lemma example_name:
  obtains ip fk t where "pool_intern (bytes_of ''a.com'') example_pool = Some (ip, fk)" and "pool_inv fk"
    and "pool_lookback ip fk = Some (Some (lowers (bytes_of ''a.com'')), t)" and "pool_contains cidr4 fk (V4 ip)"
proof -
  have p: "pool_inv example_pool" using reachable_inv example_reachable by blast
  obtain ip fk t where fk: "pool_intern (bytes_of ''a.com'') example_pool = Some (ip, fk)"
    "pool_lookback ip fk = Some (Some (lowers (bytes_of ''a.com'')), t)"
    using pool_service.intern_lookback [OF p, of "bytes_of ''a.com''"] by blast
  show ?thesis
    by (rule that [OF fk(1) intern_next(1) [OF p fk(1)] fk(2)]) (use interned_inside [OF cidr4_laws example_reachable fk(1)] in blast)
qed

abbreviation (input) example_peer :: socket_addr where
  "example_peer \<equiv> \<lparr> sa_ip = V4 0x0A000002, sa_port = 5555 \<rparr>"

lemma example_engine_room:
  fixes fk :: "'n pool"
  defines "w \<equiv> example_engine fk"
  shows "ue_flow_path w = []" "ue_symmetric w = []" "ue_fullcone w = []" "ue_tasks w = []" "ue_readers w = []"
    "proxy_allowed N ip (ue_shared w)" "sh_fakeip (ue_shared w) = Some fk" "client_flows ip w < ue_max_flows w"
    "client_sessions ip w < ue_max_sessions w" "acquire ip (ue_cloudflared w) (ub_flows (ue_budget w)) \<noteq> None"
    "acquire ip (ue_cloudflared w) (ub_sessions (ue_budget w)) \<noteq> None"
    "fst (get_or_bind now (Some dst) dst (ue_spoof_cache w)) \<noteq> None" "ue_next w = 0" "\<not> is_quic_initial [1, 2, 3]"
  by (simp_all add: w_def example_engine_def udp_engine_new_def example_shared_def proxy_allowed_def acl_allows_def client_flows_def
      client_sessions_def acquire_def acquire_with_headroom_def udp_budget_new_def budget_new_def get_or_bind_def spoof_new_def
      is_quic_initial_def parse_long_header_initial_def Let_def split: option.splits)

lemma example_engine_empty: "map_of (ue_flow_path (example_engine fk)) k = None" "map_of (ue_symmetric (example_engine fk)) k = None"
  by (simp_all add: example_engine_room)

abbreviation (input) example_dst :: "u32 \<Rightarrow> socket_addr" where
  "example_dst ip \<equiv> \<lparr> sa_ip = V4 ip, sa_port = 443 \<rparr>"

lemma example_fake: "pool_contains N fk (V4 ip) \<Longrightarrow> in_fakeip N (example_shared (Some fk)) (sa_ip (example_dst ip))"
  by (simp add: in_fakeip_def example_shared_def)

lemma example_dst_ip: "sa_ip (example_dst ip) = V4 ip"
  by simp

lemmas example_room = example_engine_empty disjI2 [OF example_engine_room(6)] example_engine_room(14)

section \<open>Safety\<close>

text \<open>
  C5: no datagram is ever addressed to the pool. In every reachable state of the UDP engine, whatever the
  rest of the program does and in whatever order datagrams, openings, replies, sweeps and ends of readers
  come, the next event is handled without a panic; no frame handed to a SOCKS5 relay names an address of
  the pool, no datagram is sent directly to one, and no socket is connected to one (the resolver giving none).
\<close>

theorem udp_never_to_the_pool:
  assumes "udp_reachable C N contains fake S F t w" and "crypto_laws C" and "t \<le> now" and "resolved_ok fake ev"
  shows "\<exists>outs w'. udp_step C N contains now wall ev w = Some (outs, w') \<and> (\<forall>out \<in> set outs. by_name fake out \<and> direct_ok fake out)"
  using step_by_name [OF assms] by blast

theorem udp_never_to_the_pool_witness:
  "\<exists>ip fk outs w'. pool_intern (bytes_of ''a.com'') example_pool = Some (ip, fk) \<and>
    udp_step example_crypto cidr4 none_contains 5 7 (Packet example_peer \<lparr> sa_ip = V4 ip, sa_port = 443 \<rparr> [1, 2, 3] True True) (example_engine fk) =
      Some (outs, w') \<and>
    (\<forall>out \<in> set outs. by_name (in_fakeip cidr4 (example_shared (Some fk))) out)"
proof -
  obtain ip fk t where fk: "pool_intern (bytes_of ''a.com'') example_pool = Some (ip, fk)" "pool_inv fk" by (rule example_name)
  have e: "resolved_ok x (Packet example_peer \<lparr> sa_ip = V4 ip, sa_port = 443 \<rparr> [1, 2, 3] True True)" for x by (simp add: resolved_ok_def)
  from udp_never_to_the_pool [OF example_engine_reachable [OF fk(2)] example_crypto_laws _ e, where now = 5 and wall = 7 and N = cidr4] fk(1)
  show ?thesis by blast
qed

section \<open>Budgets\<close>

text \<open>
  C12: the budgets are exact and never exceeded. In every reachable state, a client has at most
  \<open>max_sessions\<close> sessions and \<open>max_flows\<close> flows, its counters are the numbers of its entries (and absent
  when it has none), the process-wide counters of each class are the permits of the engine's live openings
  and flows plus those the rest of the program holds, within the limits, and the openings with a permit are
  exactly those that a slot, a task or a reader still stands for.
\<close>

theorem udp_budgets_are_exact:
  assumes "udp_reachable C N contains fake S F t w" and "crypto_laws C"
  shows "client_sessions ip w \<le> ue_max_sessions w \<and> client_flows ip w \<le> ue_max_flows w \<and>
    ue_session_budget w ip = (if client_sessions ip w = 0 then None else Some (client_sessions ip w)) \<and>
    ue_flow_budget w ip = (if client_flows ip w = 0 then None else Some (client_flows ip w)) \<and>
    bg_used (ub_sessions (ue_budget w)) c = class_count (mset (map snd (ue_permits w))) c + class_count S c \<and>
    bg_used (ub_flows (ue_budget w)) c = class_count (mset (map (fe_permit \<circ> snd) (ue_flow_path w))) c + class_count F c \<and>
    bg_used (ub_sessions (ue_budget w)) c \<le> bg_limits (ub_sessions (ue_budget w)) c \<and>
    bg_used (ub_flows (ue_budget w)) c \<le> bg_limits (ub_flows (ue_budget w)) c \<and>
    fst ` set (ue_permits w) = set (permit_owners w)"
  by (intro conjI budgets_exact [OF assms])

theorem udp_budgets_are_exact_witness:
  "\<exists>ip fk w' n. pool_intern (bytes_of ''a.com'') example_pool = Some (ip, fk) \<and>
    udp_step example_crypto cidr4 none_contains 5 7 (Packet example_peer \<lparr> sa_ip = V4 ip, sa_port = 443 \<rparr> [1, 2, 3] True True) (example_engine fk) =
      Some ([], w') \<and> 1 \<le> n \<and> client_sessions (sa_ip example_peer) w' = n \<and> ue_session_budget w' (sa_ip example_peer) = Some n"
proof -
  obtain ip fk t where fk: "pool_intern (bytes_of ''a.com'') example_pool = Some (ip, fk)" "pool_inv fk"
    "pool_lookback ip fk = Some (Some (lowers (bytes_of ''a.com'')), t)" "pool_contains cidr4 fk (V4 ip)" by (rule example_name)
  let ?w = "example_engine fk" and ?dst = "\<lparr> sa_ip = V4 ip, sa_port = 443 \<rparr>" and ?fake = "in_fakeip cidr4 (example_shared (Some fk))"
  have r: "udp_reachable example_crypto cidr4 none_contains ?fake {#} {#} 5 ?w" by (rule example_engine_reachable [OF fk(2)])
  have f: "?fake (sa_ip ?dst)" using fk(4) by (simp add: in_fakeip_def example_shared_def)
  obtain w' where w': "udp_step example_crypto cidr4 none_contains 5 7 (Packet example_peer ?dst [1, 2, 3] True True) ?w = Some ([], w')"
      "udp_reachable example_crypto cidr4 none_contains ?fake {#} {#} 5 w'"
      "map_of (ue_symmetric w') (example_peer, ?dst) = Some \<lparr> bd_slot = SlotPending (ue_next ?w), bd_ip = sa_ip example_peer \<rparr>"
    by (rule accept_datagram [OF r example_crypto_laws example_room f example_dst_ip example_engine_room(7) fk(3) example_engine_room(8-11),
          where wall = 7 and sent = True])
  have "filter (\<lambda>e. sa_ip (fst (fst e)) = sa_ip example_peer) (ue_symmetric w') \<noteq> []"
    using map_of_SomeD [OF w'(3)] by (force simp: filter_empty_conv)
  then have "1 \<le> client_sessions (sa_ip example_peer) w'" by (simp add: client_sessions_def Suc_le_eq)
  then show ?thesis using fk(1) w'(1) udp_budgets_are_exact [OF w'(2) example_crypto_laws, of "sa_ip example_peer" False] by auto
qed

section \<open>Quiet\<close>




section \<open>Names\<close>







end
