(* ===== verification/Resolver.thy ===== *)
theory Resolver
  imports DnsServer Socks Tables
begin

text \<open>
  The resolver of the direct mode (\<open>sniffbox/src/resolver.rs\<close>): which datagrams answer a query, the
  three attempts and the change to TCP for a truncated answer, the cache with its bounds, and the
  sharing of one query by everyone who asks for the same name at the same time. Time is in
  milliseconds and an argument; what the socket delivers is a list of events. The overall timeout of
  three seconds is the deadline of the callers. Reading \<open>/etc/resolv.conf\<close> is I/O.
\<close>

section \<open>Addresses as text\<close>

text \<open>\<open>str::parse::<Ipv4Addr>\<close>: four groups of one to three digits, no leading zero, none above 255.\<close>

definition parse_octet :: "bytes \<Rightarrow> u8 option" where
  "parse_octet s =
     (let n = foldl (\<lambda>a c. a * 10 + (unat c - 48)) 0 s in
      if s \<noteq> [] \<and> length s \<le> 3 \<and> list_all (\<lambda>c. 48 \<le> c \<and> c \<le> 57) s \<and> (hd s = 48 \<longrightarrow> length s = 1) \<and> n \<le> 255
      then Some (of_nat n) else None)"

definition parse_ipv4 :: "bytes \<Rightarrow> u32 option" where
  "parse_ipv4 s = (case map parse_octet (split_on dot s) of
     [Some a, Some b, Some c, Some d] \<Rightarrow> Some (be32_of a b c d)
   | _ \<Rightarrow> None)"

section \<open>One query\<close>

datatype io_kind = KTimedOut | KNotFound | KInvalidData | KOther | KNet

type_synonym query_result = "io_kind + u32 list"

text \<open>What the socket delivers: a datagram, nothing until the attempt is over, an error.\<close>

datatype net_event = Got bytes | Quiet | NetError

abbreviation (input) RECV_BUF :: nat where "RECV_BUF \<equiv> 4096"

text \<open>A datagram that answers the query: its id and its question, as a response to a standard query.\<close>

definition echoes :: "u8 \<Rightarrow> bytes \<Rightarrow> bytes \<Rightarrow> bool" where
  "echoes flags query buf \<longleftrightarrow> length query \<le> length buf \<and> take 2 buf = take 2 query \<and> buf ! 2 AND flags = 0x80 \<and>
     take 2 (drop 4 buf) = [0, 1] \<and> lowers (drop 12 (take (length query) buf)) = lowers (drop 12 query)"

definition addresses_of :: "dns_response \<Rightarrow> io_kind + (u32 list \<times> u32)" where
  "addresses_of r = (if r_rcode r \<noteq> 0 \<or> r_v4 r = [] then Inl KNotFound else Inr (r_v4 r, r_min_ttl r))"

datatype query_outcome = Answered "io_kind + (u32 list \<times> u32)" | UseTcp

text \<open>The loop over \<open>attempts\<close> more attempts; \<open>None\<close> while it waits for more.\<close>

fun query_loop :: "nat \<Rightarrow> bytes \<Rightarrow> net_event list \<Rightarrow> query_outcome option" where
  "query_loop attempts query [] = None"
| "query_loop attempts query (Quiet # es) =
     (if attempts \<le> 1 then Some (Answered (Inl KTimedOut)) else query_loop (attempts - 1) query es)"
| "query_loop attempts query (NetError # es) = Some (Answered (Inl KNet))"
| "query_loop attempts query (Got d # es) =
     (let buf = take RECV_BUF d in
      if \<not> echoes 0xf8 query buf then query_loop attempts query es
      else if buf ! 2 AND 0x02 \<noteq> 0 then Some UseTcp
      else case parse_response buf of
        Inl _ \<Rightarrow> query_loop attempts query es
      | Inr r \<Rightarrow> Some (Answered (addresses_of r)))"

definition query_tcp :: "bytes \<Rightarrow> (io_kind + (u32 list \<times> u32)) io" where
  "query_tcp query =
     and_then (write_all (to_be16 (of_nat (length query)))) (\<lambda>_.
     and_then (write_all query) (\<lambda>_.
     and_then (read_exact 2) (\<lambda>l.
       let len = unat (be16_of (l ! 0) (l ! 1)) in
       if len < length query then ret (Inl KInvalidData)
       else and_then (read_exact len) (\<lambda>response.
         ret (if \<not> echoes 0xfa query response then Inl KInvalidData
              else case parse_response response of Inl _ \<Rightarrow> Inl KOther | Inr r \<Rightarrow> addresses_of r)))))"

text \<open>\<open>tcp\<close> is the connection made when the answer is truncated, if it can be made.\<close>

definition query_upstream :: "u16 \<Rightarrow> bytes \<Rightarrow> net_event list \<Rightarrow> stream option \<Rightarrow> (io_kind + (u32 list \<times> u32)) option" where
  "query_upstream qid host es tcp =
     (case build_query qid host TYPE_A of
        Inl _ \<Rightarrow> Some (Inl KOther)
      | Inr query \<Rightarrow>
          (case query_loop 3 query es of
             None \<Rightarrow> None
           | Some (Answered r) \<Rightarrow> Some r
           | Some UseTcp \<Rightarrow> Some (case tcp of
               None \<Rightarrow> Inl KNet
             | Some s \<Rightarrow> (case fst (query_tcp query s) of Inl _ \<Rightarrow> Inl KNet | Inr r \<Rightarrow> r))))"

section \<open>The cache\<close>

record cache_entry =
  ce_ips :: "u32 list"
  ce_expire :: nat

type_synonym dns_cache = "(bytes \<times> cache_entry) list"

abbreviation (input) CACHE_TTL_MIN :: nat where "CACHE_TTL_MIN \<equiv> 2"
abbreviation (input) CACHE_TTL_MAX :: nat where "CACHE_TTL_MAX \<equiv> 600"
abbreviation (input) CACHE_SOFT_CAP :: nat where "CACHE_SOFT_CAP \<equiv> 8192"

definition cache_get :: "nat \<Rightarrow> bytes \<Rightarrow> dns_cache \<Rightarrow> u32 list option" where
  "cache_get now host c = (case map_of c host of
     None \<Rightarrow> None | Some e \<Rightarrow> if now < ce_expire e then Some (ce_ips e) else None)"

definition clamp_ttl :: "u32 \<Rightarrow> nat" where
  "clamp_ttl ttl = min CACHE_TTL_MAX (max CACHE_TTL_MIN (unat ttl))"

definition cache_put :: "nat \<Rightarrow> bytes \<Rightarrow> u32 list \<Rightarrow> u32 \<Rightarrow> dns_cache \<Rightarrow> dns_cache" where
  "cache_put now host ips ttl c =
     (let full = length c \<ge> CACHE_SOFT_CAP;
          c' = (if full then filter (\<lambda>(h, e). now < ce_expire e) c else c)
      in if full \<and> length c' \<ge> CACHE_SOFT_CAP then c'
         else AList.update host \<lparr> ce_ips = ips, ce_expire = now + clamp_ttl ttl * 1000 \<rparr> c')"

section \<open>Sharing a query\<close>

text \<open>
  A caller is at the head of its loop; past the cache and the deadline; waiting on a leader's channel;
  leading, that is querying; about to publish; or done with the guard still to be dropped. \<open>Left\<close> is a
  caller whose future was dropped.
\<close>

datatype caller = AtHead | PastCache | Follows nat | Leads nat | Publishes nat query_result | Published nat query_result
  | Returned query_result | Left

datatype channel = Open | Sent query_result | Closed

record request =
  rq_host :: bytes
  rq_deadline :: nat
  rq_state :: caller

record resolving =
  rv_cache :: dns_cache
  rv_inflight :: "bytes \<rightharpoonup> nat"
  rv_channels :: "nat \<Rightarrow> channel"
  rv_callers :: "nat \<rightharpoonup> request"
  rv_next :: nat

definition resolving_new :: resolving where
  "resolving_new = \<lparr> rv_cache = [], rv_inflight = Map.empty, rv_channels = (\<lambda>_. Closed), rv_callers = Map.empty, rv_next = 0 \<rparr>"

text \<open>\<open>resolve_all_v4\<close>: an address is its own answer.\<close>

definition call_resolve :: "nat \<Rightarrow> nat \<Rightarrow> bytes \<Rightarrow> resolving \<Rightarrow> resolving" where
  "call_resolve i now host v = v\<lparr>rv_callers := (rv_callers v)(i \<mapsto> \<lparr> rq_host = host, rq_deadline = now + 3000,
     rq_state = (case parse_ipv4 host of Some ip \<Rightarrow> Returned (Inr [ip]) | None \<Rightarrow> AtHead) \<rparr>)\<rparr>"

definition to_state :: "nat \<Rightarrow> caller \<Rightarrow> resolving \<Rightarrow> resolving" where
  "to_state i st v = v\<lparr>rv_callers := (rv_callers v)(i := map_option (rq_state_update (\<lambda>_. st)) (rv_callers v i))\<rparr>"

text \<open>The head of the loop.\<close>

definition check_cache :: "nat \<Rightarrow> nat \<Rightarrow> request \<Rightarrow> resolving \<Rightarrow> resolving" where
  "check_cache i now r v = to_state i (case cache_get now (rq_host r) (rv_cache v) of
     Some ips \<Rightarrow> Returned (Inr ips)
   | None \<Rightarrow> if now \<ge> rq_deadline r then Returned (Inl KTimedOut) else PastCache) v"

definition join :: "nat \<Rightarrow> request \<Rightarrow> resolving \<Rightarrow> resolving" where
  "join i r v = (case rv_inflight v (rq_host r) of
     Some c \<Rightarrow> to_state i (Follows c) v
   | None \<Rightarrow> to_state i (Leads (rv_next v)) (v\<lparr>rv_inflight := (rv_inflight v)(rq_host r \<mapsto> rv_next v),
       rv_channels := (rv_channels v)(rv_next v := Open), rv_next := rv_next v + 1\<rparr>))"

text \<open>A follower wakes up: a result is there, the channel is closed without one, or its time is over.\<close>

definition wake :: "nat \<Rightarrow> nat \<Rightarrow> resolving \<Rightarrow> resolving" where
  "wake i c v = (case rv_channels v c of
     Sent res \<Rightarrow> to_state i (Returned res) v
   | Closed \<Rightarrow> to_state i AtHead v
   | Open \<Rightarrow> v)"

definition give_up :: "nat \<Rightarrow> nat \<Rightarrow> request \<Rightarrow> resolving \<Rightarrow> resolving" where
  "give_up i now r v = (if now \<ge> rq_deadline r then to_state i (Returned (Inl KTimedOut)) v else v)"

text \<open>The leader's query ends, or its time is over (then the outcome is that error); a good answer is cached first.\<close>

definition leader_done :: "nat \<Rightarrow> nat \<Rightarrow> nat \<Rightarrow> request \<Rightarrow> io_kind + (u32 list \<times> u32) \<Rightarrow> resolving \<Rightarrow> resolving" where
  "leader_done i now c r outcome v = (case outcome of
     Inl e \<Rightarrow> to_state i (Publishes c (Inl e)) v
   | Inr (ips, ttl) \<Rightarrow> to_state i (Publishes c (Inr ips)) (v\<lparr>rv_cache := cache_put now (rq_host r) ips ttl (rv_cache v)\<rparr>))"

definition publish :: "nat \<Rightarrow> nat \<Rightarrow> query_result \<Rightarrow> resolving \<Rightarrow> resolving" where
  "publish i c res v = to_state i (Published c res) (v\<lparr>rv_channels := (rv_channels v)(c := Sent res)\<rparr>)"

text \<open>The guard's drop takes the name off the table, whatever is there.\<close>

definition drop_guard :: "bytes \<Rightarrow> resolving \<Rightarrow> resolving" where
  "drop_guard host v = v\<lparr>rv_inflight := (rv_inflight v)(host := None)\<rparr>"

definition close_unsent :: "nat \<Rightarrow> resolving \<Rightarrow> resolving" where
  "close_unsent c v = (case rv_channels v c of Open \<Rightarrow> v\<lparr>rv_channels := (rv_channels v)(c := Closed)\<rparr> | _ \<Rightarrow> v)"

text \<open>A future dropped while it waits: at the query for a leader, at the channel for a follower.\<close>

definition abandon :: "nat \<Rightarrow> request \<Rightarrow> resolving \<Rightarrow> resolving" where
  "abandon i r v = (case rq_state r of
     Leads c \<Rightarrow> to_state i Left (close_unsent c (drop_guard (rq_host r) v))
   | Follows c \<Rightarrow> to_state i Left v
   | AtHead \<Rightarrow> to_state i Left v
   | _ \<Rightarrow> v)"

datatype resolver_event = Call nat bytes | Step nat | QueryEnds nat "io_kind + (u32 list \<times> u32)" | GiveUp nat | Abandon nat

definition resolver_act :: "nat \<Rightarrow> resolver_event \<Rightarrow> resolving \<Rightarrow> resolving" where
  "resolver_act now ev v = (case ev of
     Call i host \<Rightarrow> if rv_callers v i = None then call_resolve i now host v else v
   | Step i \<Rightarrow> (case rv_callers v i of None \<Rightarrow> v | Some r \<Rightarrow>
       (case rq_state r of
          AtHead \<Rightarrow> check_cache i now r v
        | PastCache \<Rightarrow> join i r v
        | Follows c \<Rightarrow> wake i c v
        | Publishes c res \<Rightarrow> publish i c res v
        | Published c res \<Rightarrow> to_state i (Returned res) (drop_guard (rq_host r) v)
        | _ \<Rightarrow> v))
   | QueryEnds i outcome \<Rightarrow> (case rv_callers v i of None \<Rightarrow> v | Some r \<Rightarrow>
       (case rq_state r of Leads c \<Rightarrow> leader_done i now c r outcome v | _ \<Rightarrow> v))
   | GiveUp i \<Rightarrow> (case rv_callers v i of None \<Rightarrow> v | Some r \<Rightarrow>
       (case rq_state r of Follows c \<Rightarrow> give_up i now r v | _ \<Rightarrow> v))
   | Abandon i \<Rightarrow> (case rv_callers v i of None \<Rightarrow> v | Some r \<Rightarrow> abandon i r v))"


text \<open>\<open>resolve_v4\<close> takes the first address.\<close>

definition resolve_v4 :: "query_result \<Rightarrow> io_kind + u32" where
  "resolve_v4 r = (case r of Inl e \<Rightarrow> Inl e | Inr [] \<Rightarrow> Inl KNotFound | Inr (ip # _) \<Rightarrow> Inr ip)"

section \<open>What the sharing keeps\<close>

primrec leading :: "caller \<Rightarrow> nat option" where
  "leading AtHead = None"
| "leading PastCache = None"
| "leading (Follows c) = None"
| "leading (Leads c) = Some c"
| "leading (Publishes c res) = Some c"
| "leading (Published c res) = Some c"
| "leading (Returned res) = None"
| "leading Left = None"

text \<open>The result a caller is about to publish, or has.\<close>

primrec result_of :: "caller \<Rightarrow> query_result option" where
  "result_of AtHead = None"
| "result_of PastCache = None"
| "result_of (Follows c) = None"
| "result_of (Leads c) = None"
| "result_of (Publishes c res) = Some res"
| "result_of (Published c res) = Some res"
| "result_of (Returned res) = None"
| "result_of Left = None"

abbreviation (input) is_published :: "caller \<Rightarrow> bool" where
  "is_published st \<equiv> (\<exists>c res. st = Published c res)"

text \<open>The leaders and the followers of a state; \<open>Q\<close> is what queries have answered so far, by name.\<close>

definition at :: "resolving \<Rightarrow> nat \<Rightarrow> bytes \<Rightarrow> caller \<Rightarrow> bool" where
  "at v i h st \<longleftrightarrow> (\<exists>r. rv_callers v i = Some r \<and> rq_host r = h \<and> rq_state r = st)"

definition leads :: "resolving \<Rightarrow> nat \<Rightarrow> bytes \<Rightarrow> caller \<Rightarrow> nat \<Rightarrow> bool" where
  "leads v i h st c \<longleftrightarrow> at v i h st \<and> leading st = Some c"

definition channel_of :: "caller \<Rightarrow> channel" where
  "channel_of st = (case st of Published c res \<Rightarrow> Sent res | _ \<Rightarrow> Open)"

definition leaders_ok :: "resolving \<Rightarrow> bool" where
  "leaders_ok v \<longleftrightarrow>
     (\<forall>i h st c. leads v i h st c \<longrightarrow> c < rv_next v \<and> rv_inflight v h = Some c \<and> rv_channels v c = channel_of st) \<and>
     (\<forall>i j h k st su c. leads v i h st c \<longrightarrow> leads v j k su c \<longrightarrow> i = j) \<and>
     (\<forall>h c. rv_inflight v h = Some c \<longrightarrow> (\<exists>i st. leads v i h st c)) \<and>
     (\<forall>c. rv_channels v c = Open \<longrightarrow> (\<exists>i h st. leads v i h st c))"

definition followers_ok :: "(bytes \<times> query_result) set \<Rightarrow> resolving \<Rightarrow> bool" where
  "followers_ok Q v \<longleftrightarrow> (\<forall>i h c. at v i h (Follows c) \<longrightarrow> c < rv_next v \<and>
     (\<forall>j k st. leads v j k st c \<longrightarrow> k = h) \<and> (\<forall>res. rv_channels v c = Sent res \<longrightarrow> (h, res) \<in> Q))"

definition results_ok :: "(bytes \<times> query_result) set \<Rightarrow> resolving \<Rightarrow> bool" where
  "results_ok Q v \<longleftrightarrow>
     (\<forall>(h, e) \<in> set (rv_cache v). (h, Inr (ce_ips e)) \<in> Q) \<and>
     (\<forall>i h st res. at v i h st \<longrightarrow> result_of st = Some res \<longrightarrow> (h, res) \<in> Q) \<and>
     (\<forall>i h res. at v i h (Returned res) \<longrightarrow>
        (h, res) \<in> Q \<or> res = Inl KTimedOut \<or> (\<exists>ip. parse_ipv4 h = Some ip \<and> res = Inr [ip]))"

definition resolving_ok :: "(bytes \<times> query_result) set \<Rightarrow> resolving \<Rightarrow> bool" where
  "resolving_ok Q v \<longleftrightarrow> leaders_ok v \<and> followers_ok Q v \<and> results_ok Q v"

lemma new_ok: "resolving_ok {} resolving_new"
  by (simp add: resolving_ok_def leaders_ok_def followers_ok_def results_ok_def resolving_new_def leads_def at_def)

lemma more_answers: "resolving_ok Q v \<Longrightarrow> Q \<subseteq> Q' \<Longrightarrow> resolving_ok Q' v"
  unfolding resolving_ok_def followers_ok_def results_ok_def by blast

lemma to_state_fields [simp]:
  "rv_inflight (to_state i st v) = rv_inflight v" "rv_channels (to_state i st v) = rv_channels v"
  "rv_cache (to_state i st v) = rv_cache v" "rv_next (to_state i st v) = rv_next v"
  by (simp_all add: to_state_def)

lemma at_fields [simp]:
  "at (v\<lparr>rv_cache := x\<rparr>) = at v" "at (v\<lparr>rv_inflight := y\<rparr>) = at v" "at (v\<lparr>rv_channels := z\<rparr>) = at v" "at (v\<lparr>rv_next := n\<rparr>) = at v"
  by (simp_all add: at_def fun_eq_iff)

lemma at_to_state: "at (to_state i st v) j h su \<longleftrightarrow> (if j = i then su = st \<and> (\<exists>r. rv_callers v i = Some r \<and> rq_host r = h) else at v j h su)"
  by (auto simp: at_def to_state_def)

lemma at_unique: "at v i h st \<Longrightarrow> at v i k su \<Longrightarrow> h = k \<and> st = su"
  by (auto simp: at_def)

text \<open>A caller that neither leads nor is about to may move on.\<close>

lemma move_ok:
  assumes v: "resolving_ok Q v" and r: "rv_callers v i = Some r" and l: "leading (rq_state r) = None"
    and st: "leading st = None" "result_of st = None" "\<And>res. st = Returned res \<Longrightarrow> (rq_host r, res) \<in> Q \<or> res = Inl KTimedOut"
      "\<And>c. st = Follows c \<Longrightarrow> rv_inflight v (rq_host r) = Some c"
  shows "resolving_ok Q (to_state i st v)"
proof -
  have lo: "leaders_ok v" and fo: "followers_ok Q v" and ro: "results_ok Q v" using v by (simp_all add: resolving_ok_def)
  have old: "at v i (rq_host r) (rq_state r)" using r by (simp add: at_def)
  have ls: "leads (to_state i st v) = leads v"
    using l st(1) at_unique [OF old] by (auto simp: leads_def at_to_state fun_eq_iff)
  have here: "at (to_state i st v) i h su \<longleftrightarrow> su = st \<and> h = rq_host r" for h su using r by (auto simp: at_to_state)
  have "leaders_ok (to_state i st v)" using lo by (simp add: leaders_ok_def ls)
  moreover have "followers_ok Q (to_state i st v)"
  proof -
    have new: "c < rv_next v \<and> (\<forall>j k su. leads v j k su c \<longrightarrow> k = rq_host r) \<and>
        (\<forall>res. rv_channels v c = Sent res \<longrightarrow> (rq_host r, res) \<in> Q)" if f: "st = Follows c" for c
    proof -
      obtain j su where j: "leads v j (rq_host r) su c" using lo st(4) [OF f] unfolding leaders_ok_def by blast
      have c: "c < rv_next v" "rv_channels v c = channel_of su" using lo j unfolding leaders_ok_def by blast+
      moreover have "k = rq_host r" if "leads v m k sw c" for m k sw
        using lo j that at_unique unfolding leaders_ok_def leads_def by metis
      moreover have "(rq_host r, res) \<in> Q" if "channel_of su = Sent res" for res
        using ro j that unfolding results_ok_def leads_def by (auto simp: channel_of_def split: caller.splits)
      ultimately show ?thesis by auto
    qed
    show ?thesis unfolding followers_ok_def ls
    proof (intro allI impI)
      fix j h c assume "at (to_state i st v) j h (Follows c)"
      then show "c < rv_next (to_state i st v) \<and> (\<forall>j k st. leads v j k st c \<longrightarrow> k = h) \<and>
          (\<forall>res. rv_channels (to_state i st v) c = Sent res \<longrightarrow> (h, res) \<in> Q)"
      proof (cases "j = i")
        case True
        then have "h = rq_host r" "st = Follows c" using \<open>at (to_state i st v) j h (Follows c)\<close> here by simp_all
        then show ?thesis using new by simp
      next
        case False
        then have "at v j h (Follows c)" using \<open>at (to_state i st v) j h (Follows c)\<close> by (simp add: at_to_state)
        then show ?thesis using fo unfolding followers_ok_def by simp
      qed
    qed
  qed
  moreover have "results_ok Q (to_state i st v)"
    using ro st(2,3) here unfolding results_ok_def by (simp add: at_to_state) (metis option.distinct(1))
  ultimately show ?thesis by (simp add: resolving_ok_def)
qed


lemma lead_ok:
  assumes v: "resolving_ok Q v" and r: "rv_callers v i = Some r" and l: "leading (rq_state r) = None"
    and free: "rv_inflight v (rq_host r) = None"
  shows "resolving_ok Q (to_state i (Leads (rv_next v)) (v\<lparr>rv_inflight := (rv_inflight v)(rq_host r \<mapsto> rv_next v),
       rv_channels := (rv_channels v)(rv_next v := Open), rv_next := rv_next v + 1\<rparr>))" (is "resolving_ok Q ?x")
proof -
  define w where "w = ?x"
  have lo: "leaders_ok v" and fo: "followers_ok Q v" and ro: "results_ok Q v" using v by (simp_all add: resolving_ok_def)
  have old: "at v i (rq_host r) (rq_state r)" using r by (simp add: at_def)
  have at': "at w j h su \<longleftrightarrow> (if j = i then su = Leads (rv_next v) \<and> h = rq_host r else at v j h su)" for j h su
    using r by (auto simp: w_def at_to_state simp del: add_Suc_right One_nat_def)
  have ls: "leads w j h su c \<longleftrightarrow> leads v j h su c \<or> j = i \<and> h = rq_host r \<and> su = Leads (rv_next v) \<and> c = rv_next v" for j h su c
    using l at_unique [OF old] by (auto simp: leads_def at')
  have below: "c < rv_next v" "h \<noteq> rq_host r" "rv_inflight v h = Some c" "rv_channels v c = channel_of su" if "leads v j h su c" for j h su c
    using lo that free unfolding leaders_ok_def by (metis option.distinct(1))+
  have nf: "rv_next w = Suc (rv_next v)" "rv_inflight w = (rv_inflight v)(rq_host r \<mapsto> rv_next v)"
    "rv_channels w = (rv_channels v)(rv_next v := Open)" by (simp_all add: w_def)
  have "leaders_ok w" unfolding leaders_ok_def ls nf
  proof (intro conjI allI impI)
    fix j h su c assume "leads v j h su c \<or> j = i \<and> h = rq_host r \<and> su = Leads (rv_next v) \<and> c = rv_next v"
    then show "c < Suc (rv_next v)" "((rv_inflight v)(rq_host r \<mapsto> rv_next v)) h = Some c" "((rv_channels v)(rv_next v := Open)) c = channel_of su"
      using below [of j h su c] by (auto simp: channel_of_def)
  next
    fix j k h g su sv c
    assume a: "leads v j h su c \<or> j = i \<and> h = rq_host r \<and> su = Leads (rv_next v) \<and> c = rv_next v"
      "leads v k g sv c \<or> k = i \<and> g = rq_host r \<and> sv = Leads (rv_next v) \<and> c = rv_next v"
    have inj: "\<And>j k h g su sv. leads v j h su c \<Longrightarrow> leads v k g sv c \<Longrightarrow> j = k" using lo unfolding leaders_ok_def by blast
    have "\<not> leads v m n sw (rv_next v)" for m n sw using below(1) [of m n sw "rv_next v"] by blast
    then show "j = k" using a inj by blast
  next
    fix h c assume "((rv_inflight v)(rq_host r \<mapsto> rv_next v)) h = Some c"
    then show "\<exists>j su. leads v j h su c \<or> j = i \<and> h = rq_host r \<and> su = Leads (rv_next v) \<and> c = rv_next v"
      using lo unfolding leaders_ok_def by (auto split: if_splits)
  next
    fix c assume "((rv_channels v)(rv_next v := Open)) c = Open"
    then show "\<exists>j h su. leads v j h su c \<or> j = i \<and> h = rq_host r \<and> su = Leads (rv_next v) \<and> c = rv_next v"
      using lo unfolding leaders_ok_def by (auto split: if_splits)
  qed
  moreover have "followers_ok Q w" unfolding followers_ok_def
  proof (intro allI impI)
    fix j h c assume "at w j h (Follows c)"
    then have f: "at v j h (Follows c)" by (auto simp: at' split: if_splits)
    have a: "c < rv_next v" "\<And>j k st. leads v j k st c \<Longrightarrow> k = h" "\<And>x. rv_channels v c = Sent x \<Longrightarrow> (h, x) \<in> Q"
      using fo f unfolding followers_ok_def by blast+
    have "k = h" if "leads w m k su c" for m k su
    proof -
      have "leads v m k su c" using that a(1) by (auto simp: ls)
      then show ?thesis by (rule a(2))
    qed
    then show "c < rv_next w \<and> (\<forall>j k st. leads w j k st c \<longrightarrow> k = h) \<and> (\<forall>res. rv_channels w c = Sent res \<longrightarrow> (h, res) \<in> Q)"
      using a(1,3) by (simp add: nf)
  qed
  moreover have "results_ok Q w"
    using ro unfolding results_ok_def at' by (auto simp: w_def split: if_splits)
  ultimately show ?thesis by (simp add: resolving_ok_def w_def)
qed

text \<open>A leader goes on: its channel and its place on the table stay.\<close>

lemma leader_moves:
  assumes v: "resolving_ok Q v" and r: "rv_callers v i = Some r" and l: "leading (rq_state r) = Some c"
    and st: "leading st = Some c" and res: "\<And>x. result_of st = Some x \<Longrightarrow> (rq_host r, x) \<in> Q"
    and ch: "ch = (rv_channels v)(c := channel_of st)"
    and cache: "\<forall>(h, e) \<in> set ca. (h, Inr (ce_ips e)) \<in> Q"
  shows "resolving_ok Q (to_state i st (v\<lparr>rv_channels := ch, rv_cache := ca\<rparr>))" (is "resolving_ok Q ?w")
proof -
  have lo: "leaders_ok v" and fo: "followers_ok Q v" and ro: "results_ok Q v" using v by (simp_all add: resolving_ok_def)
  have old: "at v i (rq_host r) (rq_state r)" using r by (simp add: at_def)
  have me: "leads v i (rq_host r) (rq_state r) c" using old l by (simp add: leads_def)
  have at': "at ?w j h su \<longleftrightarrow> (if j = i then su = st \<and> h = rq_host r else at v j h su)" for j h su
    using r by (auto simp: at_to_state)
  have ls: "leads ?w j h su d \<longleftrightarrow> (if j = i then su = st \<and> h = rq_host r \<and> d = c else leads v j h su d)" for j h su d
    using st by (auto simp: leads_def at')
  have only: "j = i" if "leads v j h su c" for j h su using lo me that unfolding leaders_ok_def by blast
  have mine: "h = rq_host r \<and> su = rq_state r \<and> d = c" if "leads v i h su d" for h su d
    using that at_unique [OF old] l by (auto simp: leads_def)
  have c: "c < rv_next v" "rv_inflight v (rq_host r) = Some c" using lo me unfolding leaders_ok_def by blast+
  have "leaders_ok ?w" unfolding leaders_ok_def
  proof (intro conjI allI impI)
    fix j h su d assume "leads ?w j h su d"
    then show "d < rv_next ?w" "rv_inflight ?w h = Some d" "rv_channels ?w d = channel_of su"
      using c lo only unfolding leaders_ok_def ls by (auto simp: ch split: if_splits)
  next
    fix j k h g su sv d assume "leads ?w j h su d" "leads ?w k g sv d"
    then show "j = k" using only lo unfolding ls leaders_ok_def by (auto split: if_splits)
  next
    fix h d assume "rv_inflight ?w h = Some d"
    then have "rv_inflight v h = Some d" by simp
    then obtain j su where "leads v j h su d" using lo unfolding leaders_ok_def by blast
    then show "\<exists>j su. leads ?w j h su d" unfolding ls using mine by (cases "j = i") auto
  next
    fix d assume "rv_channels ?w d = Open"
    then show "\<exists>j h su. leads ?w j h su d"
    proof (cases "d = c")
      case False
      then obtain j h su where "leads v j h su d" using \<open>rv_channels ?w d = Open\<close> lo unfolding leaders_ok_def by (auto simp: ch)
      then show ?thesis unfolding ls using mine False by (metis (full_types))
    qed (auto simp: ls)
  qed
  moreover have "followers_ok Q ?w" unfolding followers_ok_def
  proof (intro allI impI)
    fix j h d assume "at ?w j h (Follows d)"
    then have f: "at v j h (Follows d)" using st by (auto simp: at' split: if_splits)
    have a: "d < rv_next v" "\<And>j k st. leads v j k st d \<Longrightarrow> k = h" "\<And>x. rv_channels v d = Sent x \<Longrightarrow> (h, x) \<in> Q"
      using fo f unfolding followers_ok_def by blast+
    have "(h, x) \<in> Q" if "rv_channels ?w d = Sent x" for x
    proof (cases "d = c")
      case True
      then have "h = rq_host r" "channel_of st = Sent x" using a(2) me that by (auto simp: ch)
      then show ?thesis using res by (auto simp: channel_of_def split: caller.splits)
    qed (use a(3) that in \<open>simp add: ch\<close>)
    moreover have "k = h" if "leads ?w m k su d" for m k su using that a(2) me unfolding ls by (auto split: if_splits)
    ultimately show "d < rv_next ?w \<and> (\<forall>j k st. leads ?w j k st d \<longrightarrow> k = h) \<and> (\<forall>res. rv_channels ?w d = Sent res \<longrightarrow> (h, res) \<in> Q)"
      using a(1) by simp
  qed
  moreover have "results_ok Q ?w" using ro res cache st unfolding results_ok_def at' by (auto split: if_splits)
  ultimately show ?thesis by (simp add: resolving_ok_def)
qed


text \<open>A leader leaves: published and dropping its guard, or abandoned.\<close>

lemma leader_leaves:
  assumes v: "resolving_ok Q v" and r: "rv_callers v i = Some r" and l: "leading (rq_state r) = Some c"
    and st: "leading st = None" "result_of st = None" "\<And>d. st \<noteq> Follows d" "\<And>x. st = Returned x \<Longrightarrow> (rq_host r, x) \<in> Q"
    and ch: "ch = (rv_channels v)(c := x)" "x = Closed \<or> (\<exists>res. x = Sent res \<and> rq_state r = Published c res)"
  shows "resolving_ok Q (to_state i st (v\<lparr>rv_inflight := (rv_inflight v)(rq_host r := None), rv_channels := ch\<rparr>))" (is "resolving_ok Q ?w")
proof -
  have lo: "leaders_ok v" and fo: "followers_ok Q v" and ro: "results_ok Q v" using v by (simp_all add: resolving_ok_def)
  have old: "at v i (rq_host r) (rq_state r)" using r by (simp add: at_def)
  have me: "leads v i (rq_host r) (rq_state r) c" using old l by (simp add: leads_def)
  have at': "at ?w j h su \<longleftrightarrow> (if j = i then su = st \<and> h = rq_host r else at v j h su)" for j h su
    using r by (auto simp: at_to_state)
  have ls: "leads ?w j h su d \<longleftrightarrow> j \<noteq> i \<and> leads v j h su d" for j h su d
    using st by (auto simp: leads_def at')
  have only: "j = i" if "leads v j h su c" for j h su using lo me that unfolding leaders_ok_def by blast
  have mine: "h = rq_host r \<and> su = rq_state r \<and> d = c" if "leads v i h su d" for h su d
    using that at_unique [OF old] l by (auto simp: leads_def)
  have c: "c < rv_next v" "rv_inflight v (rq_host r) = Some c" using lo me unfolding leaders_ok_def by blast+
  have other: "h \<noteq> rq_host r" "d \<noteq> c" if "leads v j h su d" "j \<noteq> i" for j h su d
    using that only c(2) lo unfolding leaders_ok_def by (metis option.inject)+
  have "leaders_ok ?w" unfolding leaders_ok_def
  proof (intro conjI allI impI)
    fix j h su d assume "leads ?w j h su d"
    then have a: "j \<noteq> i" "leads v j h su d" by (simp_all add: ls)
    have "d < rv_next v" "rv_inflight v h = Some d" "rv_channels v d = channel_of su" using a(2) lo unfolding leaders_ok_def by blast+
    then show "d < rv_next ?w" "rv_inflight ?w h = Some d" "rv_channels ?w d = channel_of su" using other [OF a(2,1)] by (simp_all add: ch(1))
  next
    fix j k h g su sv d assume "leads ?w j h su d" "leads ?w k g sv d"
    then have "leads v j h su d" "leads v k g sv d" by (simp_all add: ls)
    then show "j = k" using lo unfolding leaders_ok_def by blast
  next
    fix h d assume "rv_inflight ?w h = Some d"
    then have h: "h \<noteq> rq_host r" "rv_inflight v h = Some d" by (auto split: if_splits)
    then obtain j su where "leads v j h su d" using lo unfolding leaders_ok_def by blast
    moreover have "j \<noteq> i" using mine [of h su d] h(1) \<open>leads v j h su d\<close> by blast
    ultimately show "\<exists>j su. leads ?w j h su d" unfolding ls by blast
  next
    fix d assume o': "rv_channels ?w d = Open"
    then have d: "d \<noteq> c" using ch by auto
    then have "rv_channels v d = Open" using o' by (simp add: ch(1))
    then obtain j h su where "leads v j h su d" using lo unfolding leaders_ok_def by blast
    moreover have "j \<noteq> i" using mine [of h su d] d \<open>leads v j h su d\<close> by blast
    ultimately show "\<exists>j h su. leads ?w j h su d" unfolding ls by blast
  qed
  moreover have "followers_ok Q ?w" unfolding followers_ok_def
  proof (intro allI impI)
    fix j h d assume "at ?w j h (Follows d)"
    then have f: "at v j h (Follows d)" using st(3) by (auto simp: at' split: if_splits)
    have a: "d < rv_next v" "\<And>j k st. leads v j k st d \<Longrightarrow> k = h" "\<And>x. rv_channels v d = Sent x \<Longrightarrow> (h, x) \<in> Q"
      using fo f unfolding followers_ok_def by blast+
    have "(h, y) \<in> Q" if "rv_channels ?w d = Sent y" for y
    proof (cases "d = c")
      case True
      then have "rq_state r = Published c y" using that ch by auto
      moreover have "h = rq_host r" using a(2) me True by blast
      ultimately show ?thesis using ro old unfolding results_ok_def by (metis result_of.simps(6))
    qed (use a(3) that in \<open>simp add: ch\<close>)
    moreover have "k = h" if "leads ?w m k su d" for m k su using that a(2) unfolding ls by blast
    ultimately show "d < rv_next ?w \<and> (\<forall>j k st. leads ?w j k st d \<longrightarrow> k = h) \<and> (\<forall>res. rv_channels ?w d = Sent res \<longrightarrow> (h, res) \<in> Q)"
      using a(1) by simp
  qed
  moreover have "results_ok Q ?w" using ro st unfolding results_ok_def at' by (auto split: if_splits)
  ultimately show ?thesis by (simp add: resolving_ok_def)
qed

lemma call_ok:
  assumes v: "resolving_ok Q v" and n: "rv_callers v i = None"
  shows "resolving_ok Q (call_resolve i now host v)" (is "resolving_ok Q ?w")
proof -
  have lo: "leaders_ok v" and fo: "followers_ok Q v" and ro: "results_ok Q v" using v by (simp_all add: resolving_ok_def)
  have at': "at ?w j h su \<longleftrightarrow> (if j = i then h = host \<and> su = (case parse_ipv4 host of Some ip \<Rightarrow> Returned (Inr [ip]) | None \<Rightarrow> AtHead)
      else at v j h su)" for j h su by (auto simp: at_def call_resolve_def)
  have none: "\<not> at v i h su" for h su using n by (simp add: at_def)
  then have ls: "leads ?w = leads v" by (auto simp: leads_def at' fun_eq_iff split: option.splits)
  have same: "rv_next ?w = rv_next v" "rv_inflight ?w = rv_inflight v" "rv_channels ?w = rv_channels v" "rv_cache ?w = rv_cache v"
    by (simp_all add: call_resolve_def)
  have "leaders_ok ?w" using lo unfolding leaders_ok_def ls same .
  moreover have "followers_ok Q ?w" unfolding followers_ok_def ls same
  proof (intro allI impI)
    fix j h c assume "at ?w j h (Follows c)"
    then have "at v j h (Follows c)" by (auto simp: at' split: if_splits option.splits)
    then show "c < rv_next v \<and> (\<forall>j k st. leads v j k st c \<longrightarrow> k = h) \<and> (\<forall>res. rv_channels v c = Sent res \<longrightarrow> (h, res) \<in> Q)"
      using fo unfolding followers_ok_def by blast
  qed
  moreover have "results_ok Q ?w" using ro unfolding results_ok_def at' same by (auto split: if_splits option.splits)
  ultimately show ?thesis by (simp add: resolving_ok_def)
qed


lemma same_channel: "leaders_ok v \<Longrightarrow> rv_callers v i = Some r \<Longrightarrow> leading (rq_state r) = Some c \<Longrightarrow> rv_channels v c = channel_of (rq_state r)"
  unfolding leaders_ok_def leads_def at_def by blast

lemma set_cache_put:
  "set (cache_put now host ips ttl c) \<subseteq> insert (host, \<lparr> ce_ips = ips, ce_expire = now + clamp_ttl ttl * 1000 \<rparr>) (set c)"
  by (auto simp: cache_put_def Let_def dest!: subsetD [OF set_update_subset])

definition answered :: "resolver_event \<Rightarrow> resolving \<Rightarrow> (bytes \<times> query_result) set" where
  "answered ev v = {(rq_host r, map_sum id fst outcome) |i r c outcome. ev = QueryEnds i outcome \<and> rv_callers v i = Some r \<and> rq_state r = Leads c}"

lemma leader_done_ok:
  assumes v: "resolving_ok Q v" and r: "rv_callers v i = Some r" "rq_state r = Leads c" and q: "(rq_host r, map_sum id fst outcome) \<in> Q"
  shows "resolving_ok Q (leader_done i now c r outcome v)"
proof -
  have lo: "leaders_ok v" and ro: "results_ok Q v" using v by (simp_all add: resolving_ok_def)
  have "rv_channels v c = Open" using same_channel [OF lo r(1)] r(2) by (simp add: channel_of_def)
  then have ch: "rv_channels v = (rv_channels v)(c := channel_of (Publishes c res))" for res by (auto simp: channel_of_def)
  have old: "\<forall>(h, e) \<in> set (rv_cache v). (h, Inr (ce_ips e)) \<in> Q" using ro by (simp add: results_ok_def)
  have moved: "resolving_ok Q (to_state i (Publishes c res) (v\<lparr>rv_channels := rv_channels v, rv_cache := ca\<rparr>))"
    if "(rq_host r, res) \<in> Q" "\<forall>(h, e) \<in> set ca. (h, Inr (ce_ips e)) \<in> Q" for res ca
    by (rule leader_moves [OF v r(1) _ _ _ ch that(2)]) (use r(2) that in simp_all)
  show ?thesis
  proof (cases outcome)
    case (Inl e)
    then show ?thesis using moved [of "Inl e" "rv_cache v"] old q by (simp add: leader_done_def)
  next
    case (Inr x)
    obtain ips ttl where x: "x = (ips, ttl)" by (cases x)
    have "\<forall>(h, e) \<in> set (cache_put now (rq_host r) ips ttl (rv_cache v)). (h, Inr (ce_ips e)) \<in> Q"
      using set_cache_put [of now "rq_host r" ips ttl "rv_cache v"] old q Inr x by auto
    then show ?thesis using moved [of "Inr ips" "cache_put now (rq_host r) ips ttl (rv_cache v)"] q Inr x by (simp add: leader_done_def)
  qed
qed

lemma resolver_step_ok:
  assumes v: "resolving_ok Q v" and q: "answered ev v \<subseteq> Q"
  shows "resolving_ok Q (resolver_act now ev v)"
proof -
  have lo: "leaders_ok v" and fo: "followers_ok Q v" and ro: "results_ok Q v" using v by (simp_all add: resolving_ok_def)
  show ?thesis
  proof (cases ev)
    case (Call i host)
    then show ?thesis using v call_ok by (simp add: resolver_act_def)
  next
    case (Step i)
    show ?thesis
    proof (cases "rv_callers v i")
      case (Some r)
      have cached: "(rq_host r, Inr ips) \<in> Q" if "cache_get now (rq_host r) (rv_cache v) = Some ips" for ips
        using that ro map_of_SomeD by (fastforce simp: cache_get_def results_ok_def split: option.splits if_splits)
      show ?thesis
      proof (cases "rq_state r")
        case AtHead
        have "resolving_ok Q (check_cache i now r v)" unfolding check_cache_def
          by (rule move_ok [OF v Some]) (use AtHead cached in \<open>auto split: option.splits if_splits\<close>)
        then show ?thesis using Step Some AtHead by (simp add: resolver_act_def)
      next
        case PastCache
        have "resolving_ok Q (join i r v)"
        proof (cases "rv_inflight v (rq_host r)")
          case None
          then show ?thesis using lead_ok [OF v Some _ None] PastCache by (simp add: join_def)
        next
          case (Some c)
          then show ?thesis using move_ok [OF v \<open>rv_callers v i = Some r\<close>, of "Follows c"] PastCache by (simp add: join_def)
        qed
        then show ?thesis using Step Some PastCache by (simp add: resolver_act_def)
      next
        case (Follows c)
        then have "at v i (rq_host r) (Follows c)" using Some by (simp add: at_def)
        then have "(rq_host r, res) \<in> Q" if "rv_channels v c = Sent res" for res using fo that unfolding followers_ok_def by blast
        then have "resolving_ok Q (wake i c v)" using v Follows unfolding wake_def
          by (auto intro!: move_ok [OF v Some] split: channel.splits)
        then show ?thesis using Step Some Follows by (simp add: resolver_act_def)
      next
        case (Publishes c res)
        have inq: "(rq_host r, res) \<in> Q" using ro Some Publishes unfolding results_ok_def at_def by fastforce
        have "resolving_ok Q (to_state i (Published c res) (v\<lparr>rv_channels := (rv_channels v)(c := Sent res), rv_cache := rv_cache v\<rparr>))"
          by (rule leader_moves [OF v Some, of c]) (use Publishes inq ro in \<open>auto simp: channel_of_def results_ok_def\<close>)
        then show ?thesis using Step Some Publishes by (simp add: resolver_act_def publish_def)
      next
        case (Published c res)
        have inq: "(rq_host r, res) \<in> Q" using ro Some Published unfolding results_ok_def at_def by fastforce
        have ch: "rv_channels v = (rv_channels v)(c := Sent res)" using same_channel [OF lo Some, of c] Published by (auto simp: channel_of_def)
        have "resolving_ok Q (to_state i (Returned res) (v\<lparr>rv_inflight := (rv_inflight v)(rq_host r := None), rv_channels := rv_channels v\<rparr>))"
          by (rule leader_leaves [OF v Some, of c, OF _ _ _ _ _ ch]) (use Published inq in auto)
        then show ?thesis using Step Some Published by (simp add: resolver_act_def drop_guard_def)
      qed (use Step Some v in \<open>simp_all add: resolver_act_def\<close>)
    qed (use Step v in \<open>simp add: resolver_act_def\<close>)
  next
    case (QueryEnds i outcome)
    show ?thesis
    proof (cases "rv_callers v i")
      case (Some r)
      show ?thesis
      proof (cases "rq_state r")
        case (Leads c)
        have "(rq_host r, map_sum id fst outcome) \<in> Q" using q Leads Some QueryEnds by (auto simp: answered_def)
        then show ?thesis using leader_done_ok [OF v Some Leads] QueryEnds Some Leads by (simp add: resolver_act_def)
      qed (use v Some QueryEnds in \<open>simp_all add: resolver_act_def\<close>)
    qed (use v QueryEnds in \<open>simp add: resolver_act_def\<close>)
  next
    case (GiveUp i)
    then show ?thesis using v by (auto simp: resolver_act_def give_up_def intro!: move_ok [OF v] split: option.splits caller.splits)
  next
    case (Abandon i)
    show ?thesis
    proof (cases "rv_callers v i")
      case (Some r)
      show ?thesis
      proof (cases "rq_state r")
        case (Leads c)
        have o': "rv_channels v c = Open" using same_channel [OF lo Some, of c] Leads by (simp add: channel_of_def)
        have "resolving_ok Q (to_state i Left (v\<lparr>rv_inflight := (rv_inflight v)(rq_host r := None), rv_channels := (rv_channels v)(c := Closed)\<rparr>))"
          by (rule leader_leaves [OF v Some, of c]) (use Leads in auto)
        then show ?thesis using Abandon Some Leads o' by (simp add: resolver_act_def abandon_def close_unsent_def drop_guard_def)
      qed (use v Some Abandon in \<open>auto simp: resolver_act_def abandon_def intro!: move_ok [OF v Some]\<close>)
    qed (use v Abandon in \<open>simp add: resolver_act_def\<close>)
  qed
qed

inductive resolver_runs :: "(bytes \<times> query_result) set \<Rightarrow> resolving \<Rightarrow> bool" where
  start: "resolver_runs {} resolving_new"
| step: "resolver_runs Q v \<Longrightarrow> resolver_runs (Q \<union> answered ev v) (resolver_act now ev v)"

lemma runs_ok: "resolver_runs Q v \<Longrightarrow> resolving_ok Q v"
proof (induction rule: resolver_runs.induct)
  case (step Q v ev now)
  then show ?case using resolver_step_ok [OF more_answers [OF step.IH, of "Q \<union> answered ev v"]] by simp
qed (rule new_ok)

lemma steps_run:
  "resolver_runs Q v \<Longrightarrow> \<forall>e \<in> set es. \<forall>i r. e \<noteq> QueryEnds i r \<Longrightarrow> resolver_runs Q (foldl (\<lambda>v e. resolver_act now e v) v es)"
proof (induction es arbitrary: v)
  case (Cons e es)
  have "answered e v = {}" using Cons.prems(2) by (cases e) (auto simp: answered_def)
  then have "resolver_runs Q (resolver_act now e v)" using resolver_runs.step [OF Cons.prems(1), of e now] by simp
  then show ?case using Cons by simp
qed simp

section \<open>Answers\<close>

text \<open>Datagrams that do not echo the query might as well not have come.\<close>

definition noise :: "bytes \<Rightarrow> net_event \<Rightarrow> bool" where
  "noise query e = (case e of Got d \<Rightarrow> \<not> echoes 0xf8 query (take RECV_BUF d) | _ \<Rightarrow> False)"

lemma query_loop_ignores_noise: "query_loop n query es = query_loop n query (filter (\<lambda>e. \<not> noise query e) es)"
  by (induction n query es rule: query_loop.induct) (auto simp: noise_def Let_def split: sum.splits)

lemma noise_first: "\<forall>e \<in> set junk. noise query e \<Longrightarrow> query_loop n query (junk @ es) = query_loop n query es"
  by (induction junk) (auto simp: noise_def split: net_event.splits)

lemma three_quiet_periods_end: "attempts \<le> count (mset es) Quiet \<Longrightarrow> 1 \<le> attempts \<Longrightarrow> query_loop attempts query es \<noteq> None"
proof (induction attempts query es rule: query_loop.induct)
  case (2 attempts query es)
  then show ?case by (cases "attempts \<le> 1") simp_all
qed (auto simp: Let_def split: sum.splits)

lemma echoed_answer:
  assumes q: "parse_query pkt = Inr q" and e: "question_end q = length pkt" "be16_of (pkt ! 4) (pkt ! 5) = 1"
    and a: "answer_a q ip ttl = Some r"
  shows "echoes 0xf8 pkt r" and "r ! 2 AND 0x02 = 0" and "length r = length pkt + 16"
proof -
  have raw: "q_raw q = pkt" "17 \<le> length pkt" using parse_query_bounds(1,2) [OF q] e(1) by simp_all
  obtain out where o': "write_response_header pkt (q_rd q) RCODE_NOERROR 1 = Some out"
      "r = out @ [0xC0, 0x0C, 0, 1, 0, 1] @ to_be32 ttl @ [0, 4] @ to_be32 ip"
    using a e(1) raw by (auto simp: answers_by_header echo_header_def echo_prefix_def)
  note n = write_response_header_nth [OF o'(1)]
  have two: "r ! 2 = 0x80 OR (if q_rd q then 1 else 0)" using n(1,4) raw(2) o'(2) by (simp add: nth_append)
  then show "r ! 2 AND 0x02 = 0" by simp
  show "length r = length pkt + 16" using n(1) o'(2) by simp
  have t2: "take 2 out = take 2 pkt" using n(1) n(3) [of 0] n(3) [of 1] raw(2)
    by (intro nth_equalityI) (auto simp: less_Suc_eq numeral_2_eq_2)
  have t4: "take 2 (drop 4 out) = take 2 (drop 4 pkt)" using n(1) n(3) [of 4] n(3) [of 5] raw(2)
    by (intro nth_equalityI) (auto simp: less_Suc_eq numeral_2_eq_2)
  have "[pkt ! 4, pkt ! 5] = to_be16 (be16_of (pkt ! 4) (pkt ! 5))" by simp
  then have "[pkt ! 4, pkt ! 5] = [0, 1]" using e(2) by (simp add: to_be16_def)
  moreover have "take 2 (drop 4 pkt) = [pkt ! 4, pkt ! 5]" using raw(2)
    by (intro nth_equalityI) (auto simp: less_Suc_eq numeral_2_eq_2)
  moreover have "drop 12 out = drop 12 pkt" using n(1,2) by (intro nth_equalityI) auto
  ultimately show "echoes 0xf8 pkt r" using two t2 t4 n(1) raw(2) o'(2) by (simp add: echoes_def)
qed

section \<open>Properties\<close>

text \<open>
  C37: however calls, queries, time-outs and dropped futures interleave, at most one query per name is under
  way; a call returns what a query for its own name answered (or the address it was given, or a time-out); a
  call that waits has a leader that is still querying or about to publish, or has something to wake up to;
  and a name stays on the table of queries only as long as its leader is alive.
\<close>

theorem resolver_shares_queries:
  assumes "resolver_runs Q v"
  shows "(\<forall>i j r s c d. rv_callers v i = Some r \<longrightarrow> rv_callers v j = Some s \<longrightarrow> rq_state r = Leads c \<longrightarrow> rq_state s = Leads d \<longrightarrow>
      rq_host r = rq_host s \<longrightarrow> i = j) \<and>
    (\<forall>i r res. rv_callers v i = Some r \<longrightarrow> rq_state r = Returned res \<longrightarrow>
      (rq_host r, res) \<in> Q \<or> res = Inl KTimedOut \<or> (\<exists>ip. parse_ipv4 (rq_host r) = Some ip \<and> res = Inr [ip])) \<and>
    (\<forall>i r c. rv_callers v i = Some r \<longrightarrow> rq_state r = Follows c \<longrightarrow> rv_channels v c = Open \<longrightarrow>
      (\<exists>j s. rv_callers v j = Some s \<and> rq_host s = rq_host r \<and> (rq_state s = Leads c \<or> (\<exists>res. rq_state s = Publishes c res)))) \<and>
    (\<forall>h c. rv_inflight v h = Some c \<longrightarrow> (\<exists>i r. rv_callers v i = Some r \<and> rq_host r = h \<and> leading (rq_state r) = Some c))"
proof (intro conjI allI impI)
  have ok: "leaders_ok v" "followers_ok Q v" "results_ok Q v" using runs_ok [OF assms] by (simp_all add: resolving_ok_def)
  fix i j r s c d
  assume a: "rv_callers v i = Some r" "rv_callers v j = Some s" "rq_state r = Leads c" "rq_state s = Leads d" "rq_host r = rq_host s"
  then have "leads v i (rq_host r) (Leads c) c" "leads v j (rq_host r) (Leads d) d" by (auto simp: leads_def at_def)
  then show "i = j" using ok(1) unfolding leaders_ok_def by (metis option.inject)
next
  have ok: "results_ok Q v" using runs_ok [OF assms] by (simp add: resolving_ok_def)
  fix i r res assume "rv_callers v i = Some r" "rq_state r = Returned res"
  then show "(rq_host r, res) \<in> Q \<or> res = Inl KTimedOut \<or> (\<exists>ip. parse_ipv4 (rq_host r) = Some ip \<and> res = Inr [ip])"
    using ok unfolding results_ok_def at_def by blast
next
  have ok: "leaders_ok v" "followers_ok Q v" using runs_ok [OF assms] by (simp_all add: resolving_ok_def)
  fix i r c assume a: "rv_callers v i = Some r" "rq_state r = Follows c" "rv_channels v c = Open"
  then obtain j h st where l: "leads v j h st c" using ok(1) unfolding leaders_ok_def by blast
  then have "channel_of st = Open" using ok(1) a(3) unfolding leaders_ok_def by metis
  then have "st = Leads c \<or> (\<exists>res. st = Publishes c res)" using l by (cases st) (auto simp: leads_def channel_of_def)
  moreover have "at v i (rq_host r) (Follows c)" using a by (simp add: at_def)
  then have "h = rq_host r" using ok(2) l unfolding followers_ok_def by blast
  ultimately show "\<exists>j s. rv_callers v j = Some s \<and> rq_host s = rq_host r \<and> (rq_state s = Leads c \<or> (\<exists>res. rq_state s = Publishes c res))"
    using l by (auto simp: leads_def at_def)
next
  have ok: "leaders_ok v" using runs_ok [OF assms] by (simp add: resolving_ok_def)
  fix h c assume "rv_inflight v h = Some c"
  then show "\<exists>i r. rv_callers v i = Some r \<and> rq_host r = h \<and> leading (rq_state r) = Some c"
    using ok unfolding leaders_ok_def leads_def at_def by blast
qed

theorem resolver_shares_queries_witness:
  "\<exists>(v :: resolving) s. rv_callers v 2 = Some s \<and> rq_state s = Follows 0 \<and> rv_channels v 0 = Open \<and>
    (\<exists>j l. rv_callers v j = Some l \<and> rq_host l = bytes_of ''a.io'' \<and> (rq_state l = Leads 0 \<or> (\<exists>res. rq_state l = Publishes 0 res)))"
proof -
  have "parse_ipv4 (bytes_of ''a.io'') = None" by code_simp
  then obtain h where h: "h = bytes_of ''a.io''" "parse_ipv4 h = None" by blast
  define w where "w = foldl (\<lambda>v e. resolver_act 0 e v) resolving_new [Call 1 h, Call 2 h, Step 1, Step 2, Step 1, Step 2]"
  have "resolver_runs {} w" unfolding w_def by (rule steps_run [OF resolver_runs.start]) simp
  note r = conjunct1 [OF conjunct2 [OF conjunct2 [OF resolver_shares_queries [OF this]]]]
  have w: "rv_callers w 2 = Some \<lparr> rq_host = h, rq_deadline = 3000, rq_state = Follows 0 \<rparr>" "rv_channels w 0 = Open"
    unfolding w_def using h(2)
    by (simp_all add: resolver_act_def resolving_new_def call_resolve_def check_cache_def join_def to_state_def cache_get_def)
  have "\<exists>j s. rv_callers w j = Some s \<and> rq_host s = h \<and> (rq_state s = Leads 0 \<or> (\<exists>res. rq_state s = Publishes 0 res))"
    using r [rule_format, OF w(1) _ w(2)] by simp
  moreover obtain s where "rv_callers w 2 = Some s" "rq_state s = Follows 0" using w(1) by simp
  ultimately show ?thesis using w(2) unfolding h(1) by blast
qed



section \<open>The cache's bounds\<close>

definition cache_ok :: "nat \<Rightarrow> dns_cache \<Rightarrow> bool" where
  "cache_ok now c \<longleftrightarrow> length c \<le> CACHE_SOFT_CAP \<and> distinct (map fst c) \<and> (\<forall>(h, e) \<in> set c. ce_expire e \<le> now + CACHE_TTL_MAX * 1000)"

lemma clamp_ttl_bounds: "2 \<le> clamp_ttl ttl" "clamp_ttl ttl \<le> 600"
  by (simp_all add: clamp_ttl_def)

lemma cache_ok_put: "cache_ok now c \<Longrightarrow> cache_ok now (cache_put now h ips ttl c)"
proof -
  assume ok: "cache_ok now c"
  let ?e = "\<lparr> ce_ips = ips, ce_expire = now + clamp_ttl ttl * 1000 \<rparr>"
  have upd: "cache_ok now (AList.update h ?e d)" if d: "cache_ok now d" and n: "length d < CACHE_SOFT_CAP" for d
  proof -
    have "length (AList.update h ?e d) \<le> Suc (length d)" by (induction d) auto
    moreover have "ce_expire ?e \<le> now + CACHE_TTL_MAX * 1000" using clamp_ttl_bounds(2) [of ttl] by simp
    ultimately show ?thesis using d n unfolding cache_ok_def
      by (auto simp: distinct_update dest!: subsetD [OF set_update_subset])
  qed
  have "cache_ok now (filter (\<lambda>(h, e). now < ce_expire e) c)"
    using ok order_trans [OF length_filter_le [of "\<lambda>(h, e). now < ce_expire e" c]] by (auto simp: cache_ok_def distinct_keys_filter)
  then show ?thesis using ok upd unfolding cache_put_def by (auto simp: Let_def)
qed

text \<open>
  The cache keeps at most 8192 names, each once, and no entry for longer than ten minutes from now; an
  answer that is stored is returned for its time to live, at least two seconds and at most ten minutes, and no
  longer; and storing it changes no live answer for another name.
\<close>

theorem cache_is_bounded_and_fresh:
  assumes "cache_ok now c"
  shows "cache_ok now (cache_put now h ips ttl c) \<and>
    (length c < CACHE_SOFT_CAP \<longrightarrow> (\<forall>t. cache_get t h (cache_put now h ips ttl c) = (if t < now + clamp_ttl ttl * 1000 then Some ips else None))) \<and>
    2 \<le> clamp_ttl ttl \<and> clamp_ttl ttl \<le> 600 \<and>
    (k \<noteq> h \<longrightarrow> cache_get now k (cache_put now h ips ttl c) = cache_get now k c)"
proof -
  have f: "cache_get now k (filter (\<lambda>(h, e). now < ce_expire e) c) = cache_get now k c"
    using assms by (auto simp: cache_ok_def cache_get_def map_of_filter split: option.splits)
  have u: "k \<noteq> h \<Longrightarrow> cache_get now k (AList.update h e d) = cache_get now k d" for e d
    by (simp add: cache_get_def update_conv)
  show ?thesis using cache_ok_put [OF assms] clamp_ttl_bounds f u
    by (auto simp: cache_put_def Let_def cache_get_def update_conv)
qed

theorem cache_is_bounded_and_fresh_witness:
  "cache_get 1999 (bytes_of ''a.io'') (cache_put 0 (bytes_of ''a.io'') [0x01020304] 0 []) = Some [0x01020304] \<and>
   cache_get 2000 (bytes_of ''a.io'') (cache_put 0 (bytes_of ''a.io'') [0x01020304] 0 []) = None"
proof -
  have "cache_ok 0 []" by (simp add: cache_ok_def)
  from cache_is_bounded_and_fresh [OF this, of "bytes_of ''a.io''" "[0x01020304]" 0 "bytes_of ''b.io''"] show ?thesis
    by (simp add: clamp_ttl_def bytes_of_def)
qed

text \<open>
  C39: a query ends: three attempts whose time runs out are enough, whatever else arrives.
\<close>

theorem resolver_query_ends:
  assumes "3 \<le> count (mset es) Quiet"
  shows "\<exists>r. query_upstream qid host es tcp = Some r"
proof (cases "build_query qid host TYPE_A")
  case (Inr query)
  obtain o' where "query_loop 3 query es = Some o'" using three_quiet_periods_end [OF assms, of query] by auto
  then show ?thesis using Inr by (cases o') (auto simp: query_upstream_def)
qed (simp add: query_upstream_def)

theorem resolver_query_ends_witness:
  "\<exists>r. query_upstream 7 (bytes_of ''a.io'') [Got [1], Quiet, Quiet, Got [], Quiet] None = Some r"
  by (rule resolver_query_ends) simp

end
