(* ===== verification/IniEnv.thy ===== *)
theory IniEnv
  imports Tables "HOL-Library.List_Lexorder" "HOL-Library.RBT"
begin

text \<open>
  The settings file (\<open>sb-ppgw/src/inienv.rs\<close>): the assignments of \<open>ppgw.ini\<close> are scanned as a shell would
  read them, without expansions, and exported as a file that the start scripts source as root. A
  \<open>BTreeMap\<close> is a red-black tree. Characters are read as their UTF-8 bytes: no byte of one character
  begins another.
\<close>

section \<open>Scanning\<close>

definition KEYS :: "(bytes \<times> bytes) list" where
  "KEYS = map (\<lambda>(k, d). (bytes_of k, bytes_of d))
    [(''mode'', ''free''), (''fake_cidr'', ''7.0.0.0/8''), (''dns_ip'', ''223.5.5.5''),
     (''dns_port'', ''53''), (''clash_web_password'', ''clashpass''), (''openport'', ''no''),
     (''openport_auth'', ''''), (''udp_enable'', ''no''), (''udp_max_sessions'', ''''),
     (''udp_reserved_sessions'', ''32''), (''admin_cidr'', ''''), (''proxy_cidr'', ''''),
     (''socks5_ip'', ''''), (''socks5_port'', ''7890''), (''socks5_username'', ''''),
     (''socks5_password'', ''''), (''ovpnfile'', ''custom.ovpn''), (''ovpn_username'', ''''),
     (''ovpn_password'', ''''), (''yamlfile'', ''custom.yaml''), (''suburl'', ''''),
     (''subtime'', ''1d''), (''subcron'', ''''), (''fast_node'', ''''),
     (''test_node_url'', ''http://cp.cloudflare.com/generate_204''), (''ext_node'', ''Traffic|Expire| GB|Days|Date''), (''fall_direct'', ''no''),
     (''dns_burn'', ''yes''), (''ex_dns'', ''223.5.5.5:53,1.0.0.1:53''), (''net_rec'', ''no''),
     (''max_rec'', ''5000''), (''net_cleanday'', ''''), (''pplog'', ''''),
     (''pplog_uuid'', ''''), (''cloudflared_token'', ''''), (''cf_proxy'', ''yes''),
     (''cf_protocol'', ''auto''), (''box'', ''''), (''splice_threshold'', ''''),
     (''tune_nic'', ''''), (''tune_rps'', ''''), (''traffic_window_min'', '''')]"

definition CF_PROXY_VALUES :: "bytes list" where
  "CF_PROXY_VALUES = map bytes_of [''yes'', ''no'', ''both'']"

datatype ini_error = UnclosedQuote nat bytes

type_synonym ini = "(bytes, bytes) RBT.rbt"

abbreviation (input) quote_char :: u8 where "quote_char \<equiv> 39"
abbreviation (input) dquote_char :: u8 where "dquote_char \<equiv> 34"
abbreviation (input) backslash :: u8 where "backslash \<equiv> 92"
abbreviation (input) newline :: u8 where "newline \<equiv> 10"
abbreviation (input) cr_char :: u8 where "cr_char \<equiv> 13"
abbreviation (input) equals_char :: u8 where "equals_char \<equiv> 61"

definition starts_blank :: "bytes \<Rightarrow> bool" where
  "starts_blank s \<longleftrightarrow> list_ex (\<lambda>w. starts_with w s) ws_chars"

text \<open>One value: unquoted, inside single quotes, inside double quotes. \<open>None\<close> is an unclosed quote.\<close>

fun scan_value :: "bytes \<Rightarrow> bytes \<Rightarrow> bytes option" and scan_single :: "bytes \<Rightarrow> bytes \<Rightarrow> bytes option"
  and scan_double :: "bytes \<Rightarrow> bytes \<Rightarrow> bytes option" where
  "scan_value out [] = Some out"
| "scan_value out (c # cs) =
     (if c = quote_char then scan_single out cs
      else if c = dquote_char then scan_double out cs
      else if c = backslash then (case cs of [] \<Rightarrow> None | n # cs' \<Rightarrow> scan_value (out @ [n]) cs')
      else if starts_blank (c # cs) then Some out
      else scan_value (out @ [c]) cs)"
| "scan_single out [] = None"
| "scan_single out (c # cs) = (if c = quote_char then scan_value out cs else scan_single (out @ [c]) cs)"
| "scan_double out [] = None"
| "scan_double out (c # cs) =
     (if c = dquote_char then scan_value out cs
      else if c = backslash then (case cs of [] \<Rightarrow> None
        | n # cs' \<Rightarrow> if n \<in> {dquote_char, backslash, 36, 96} then scan_double (out @ [n]) cs'
            else scan_double (out @ [backslash, n]) cs')
      else scan_double (out @ [c]) cs)"

definition is_key_byte :: "u8 \<Rightarrow> bool" where
  "is_key_byte b \<longleftrightarrow> is_alnum b \<or> b = 95"

definition split_assignment :: "bytes \<Rightarrow> (bytes \<times> bytes) option" where
  "split_assignment line =
     (if equals_char \<notin> set line then None
      else let key = takeWhile (\<lambda>c. c \<noteq> equals_char) line in
        if key = [] \<or> \<not> list_all is_key_byte key then None
        else Some (key, drop (length key + 1) line))"

fun scan_lines :: "bool \<Rightarrow> nat \<Rightarrow> bytes list \<Rightarrow> nat \<Rightarrow> ini \<Rightarrow> ini_error + (ini \<times> nat)" where
  "scan_lines strict idx [] skipped m = Inr (m, skipped)"
| "scan_lines strict idx (raw # ls) skipped m =
     (case split_assignment (trim_start raw) of
        None \<Rightarrow> scan_lines strict (idx + 1) ls skipped m
      | Some (key, rest) \<Rightarrow>
          (case scan_value [] rest of
             Some v \<Rightarrow> scan_lines strict (idx + 1) ls skipped (RBT.insert key v m)
           | None \<Rightarrow> if strict then Inl (UnclosedQuote (idx + 1) key)
               else scan_lines strict (idx + 1) ls (skipped + 1) m))"

definition scan :: "bool \<Rightarrow> bytes \<Rightarrow> ini_error + (ini \<times> nat)" where
  "scan strict txt = scan_lines strict 0 (split_on newline (map (\<lambda>c. if c = cr_char then newline else c) txt)) 0 RBT.empty"

definition ini_parse :: "bytes \<Rightarrow> ini_error + ini" where
  "ini_parse txt = map_sum id fst (scan True txt)"

definition ini_parse_lossy :: "bytes \<Rightarrow> ini" where
  "ini_parse_lossy txt = (case scan False txt of Inl _ \<Rightarrow> RBT.empty | Inr (m, _) \<Rightarrow> m)"

section \<open>Reading and exporting\<close>

definition ini_raw :: "ini \<Rightarrow> bytes \<Rightarrow> bytes option" where
  "ini_raw m key = RBT.lookup m key"

definition ini_get :: "ini \<Rightarrow> bytes \<Rightarrow> bytes option" where
  "ini_get m key = (case ini_raw m key of Some v \<Rightarrow> if v = [] then None else Some v | None \<Rightarrow> None)"

definition default_of :: "bytes \<Rightarrow> bytes option" where
  "default_of key = map_of KEYS key"

definition effective :: "ini \<Rightarrow> bytes \<Rightarrow> bytes" where
  "effective m key = (case ini_get m key of Some v \<Rightarrow> v | None \<Rightarrow> (case default_of key of Some d \<Rightarrow> d | None \<Rightarrow> []))"

definition extra_keys :: "ini \<Rightarrow> (bytes \<times> bytes) list" where
  "extra_keys m = filter (\<lambda>(k, _). default_of k = None) (RBT.entries m)"

definition clamp_cf_proxy :: "bytes \<Rightarrow> bytes" where
  "clamp_cf_proxy v = (if v \<in> set CF_PROXY_VALUES then v else bytes_of ''yes'')"

definition shell_quote :: "bytes \<Rightarrow> bytes" where
  "shell_quote v = quote_char # concat (map (\<lambda>c. if c = quote_char then [quote_char, backslash, quote_char, quote_char] else [c]) v) @ [quote_char]"

definition export_line :: "bytes \<times> bytes \<Rightarrow> bytes" where
  "export_line kv = fst kv @ equals_char # shell_quote (snd kv)"

definition export_value :: "ini \<Rightarrow> bytes \<Rightarrow> bytes" where
  "export_value m key = (if key = bytes_of ''cf_proxy'' then clamp_cf_proxy (effective m key) else effective m key)"

definition export_head :: bytes where
  "export_head = bytes_of ''# generated by `ppgw -ini-export`; every key is always assigned''"

definition ini_export :: "ini \<Rightarrow> bytes" where
  "ini_export m = concat (map (\<lambda>l. l @ [newline])
     (export_head # map (\<lambda>(k, _). export_line (k, export_value m k)) KEYS @ map export_line (extra_keys m)))"

definition ini_warnings :: "ini \<Rightarrow> bytes list" where
  "ini_warnings m = (case ini_get m (bytes_of ''cf_proxy'') of
     Some v \<Rightarrow> if v \<notin> set CF_PROXY_VALUES
       then [bytes_of ''unknown cf_proxy=['' @ v @ bytes_of ''], treat as yes''] else []
   | None \<Rightarrow> [])"

section \<open>What a shell makes of a word\<close>

text \<open>
  The quoting rules of the POSIX shell, for words that need no expansion: a word ends at a blank, a newline
  or an operator; \<open>None\<close> is a word with an expansion (or an unclosed quote). This is the reader of the
  exported file.
\<close>

fun sh_word :: "bytes \<Rightarrow> bytes \<Rightarrow> (bytes \<times> bytes) option" and sh_single :: "bytes \<Rightarrow> bytes \<Rightarrow> (bytes \<times> bytes) option" where
  "sh_word out [] = Some (out, [])"
| "sh_word out (c # cs) =
     (if c = quote_char then sh_single out cs
      else if c = backslash then (case cs of [] \<Rightarrow> None | n # cs' \<Rightarrow> if n = newline then sh_word out cs' else sh_word (out @ [n]) cs')
      else if c \<in> set (newline # 9 # bytes_of '' &|;<>()'') then Some (out, c # cs)
      else if c \<in> set (dquote_char # bytes_of ''$`*?[~#'') then None
      else sh_word (out @ [c]) cs)"
| "sh_single out [] = None"
| "sh_single out (c # cs) = (if c = quote_char then sh_word out cs else sh_single (out @ [c]) cs)"

abbreviation (input) escaped :: "bytes \<Rightarrow> bytes" where
  "escaped v \<equiv> concat (map (\<lambda>c. if c = quote_char then [quote_char, backslash, quote_char, quote_char] else [c]) v)"

lemma scan_escaped: "scan_single out (escaped v @ quote_char # cs) = scan_value (out @ v) cs"
  by (induction v arbitrary: out) auto

lemma sh_escaped: "sh_single out (escaped v @ quote_char # cs) = sh_word (out @ v) cs"
  by (induction v arbitrary: out) auto

lemma scan_quoted [simp]: "scan_value [] (shell_quote v) = Some v"
  using scan_escaped [of "[]" v "[]"] by (simp add: shell_quote_def)

lemma shell_reads_quoted: "sh_word [] (shell_quote v @ newline # rest) = Some (v, newline # rest)"
  using sh_escaped [of "[]" v "newline # rest"] by (simp add: shell_quote_def)

section \<open>What is in a parsed file\<close>

definition ini_ok :: "ini \<Rightarrow> bool" where
  "ini_ok m \<longleftrightarrow> (\<forall>k v. RBT.lookup m k = Some v \<longrightarrow> k \<noteq> [] \<and> list_all is_key_byte k \<and> newline \<notin> set v \<and> cr_char \<notin> set v)"

lemma scan_value_bytes:
  "scan_value out s = Some v \<Longrightarrow> set v \<subseteq> set out \<union> set s"
  "scan_single out s = Some v \<Longrightarrow> set v \<subseteq> set out \<union> set s"
  "scan_double out s = Some v \<Longrightarrow> set v \<subseteq> set out \<union> set s"
proof (induction out s and out s and out s arbitrary: v and v and v rule: scan_value_scan_single_scan_double.induct)
  case (2 out c cs) then show ?case by (fastforce split: if_splits list.splits)
next
  case (6 out c cs) then show ?case by (fastforce split: if_splits list.splits)
qed (fastforce split: if_splits)+

lemma split_assignment_Some:
  assumes "split_assignment line = Some (k, rest)"
  shows "k \<noteq> []" "list_all is_key_byte k" "set rest \<subseteq> set line"
  using assms by (auto simp: split_assignment_def Let_def split: if_splits dest: in_set_dropD)

lemma strip_leading_suffix: "set (strip_leading ws s) \<subseteq> set s"
  by (induction ws s rule: strip_leading.induct) (subst strip_leading.simps, auto split: option.splits dest: in_set_dropD)

lemma scan_lines_ok:
  "\<lbrakk>scan_lines strict idx ls skipped m = Inr (m', n); ini_ok m; \<forall>l \<in> set ls. newline \<notin> set l \<and> cr_char \<notin> set l\<rbrakk> \<Longrightarrow> ini_ok m'"
proof (induction strict idx ls skipped m rule: scan_lines.induct)
  case (2 strict idx raw ls skipped m)
  show ?case
  proof (cases "split_assignment (trim_start raw)")
    case (Some kr)
    obtain k rest where kr: "kr = (k, rest)" by fastforce
    show ?thesis
    proof (cases "scan_value [] rest")
      case (Some v)
      have "set v \<subseteq> set raw" using scan_value_bytes(1) [OF Some] split_assignment_Some(3) \<open>split_assignment (trim_start raw) = Some kr\<close> kr
          strip_leading_suffix [of ws_chars raw] by (fastforce simp: trim_start_def)
      then have "ini_ok (RBT.insert k v m)" using 2(5,6) split_assignment_Some(1,2) \<open>split_assignment (trim_start raw) = Some kr\<close> kr
        unfolding ini_ok_def by auto
      then show ?thesis using 2 \<open>split_assignment (trim_start raw) = Some kr\<close> kr Some by auto
    qed (use 2 Some kr in \<open>auto split: if_splits\<close>)
  qed (use 2 in auto)
qed auto

lemma parsed_ok: "ini_parse txt = Inr m \<Longrightarrow> ini_ok m"
proof -
  assume "ini_parse txt = Inr m"
  then obtain n where "scan True txt = Inr (m, n)" by (auto simp: ini_parse_def map_sum_def split: sum.splits)
  moreover have "newline \<notin> set l \<and> cr_char \<notin> set l" if "l \<in> set (split_on newline (map (\<lambda>c. if c = cr_char then newline else c) txt))" for l
    using split_on_pieces [OF that] by (auto split: if_splits)
  moreover have "ini_ok RBT.empty" by (simp add: ini_ok_def)
  ultimately show ?thesis unfolding scan_def using scan_lines_ok by blast
qed

section \<open>Reading the export back\<close>

definition line_ok :: "bytes \<times> bytes \<Rightarrow> bool" where
  "line_ok kv \<longleftrightarrow> fst kv \<noteq> [] \<and> list_all is_key_byte (fst kv) \<and> newline \<notin> set (snd kv) \<and> cr_char \<notin> set (snd kv)"

lemma blanks_not_key: "w \<in> set ws_chars \<Longrightarrow> w \<noteq> [] \<and> \<not> is_key_byte (hd w)"
proof -
  have "list_all (\<lambda>w. w \<noteq> [] \<and> \<not> is_key_byte (hd w)) ws_chars" by code_simp
  then show "w \<in> set ws_chars \<Longrightarrow> w \<noteq> [] \<and> \<not> is_key_byte (hd w)" by (auto simp: list_all_iff)
qed

lemma trim_start_key:
  assumes "is_key_byte b" shows "trim_start (b # s) = b # s"
proof -
  have "\<not> starts_with w (b # s)" if "w \<in> set ws_chars" for w
    using blanks_not_key [OF that] assms by (cases w) (auto simp: starts_with_def)
  then show ?thesis by (subst trim_start_def, subst strip_leading.simps) (auto simp: find_None_iff split: option.splits dest!: find_Some_iff [THEN iffD1])
qed

lemma key_bytes_plain: "is_key_byte b \<Longrightarrow> b \<noteq> equals_char \<and> b \<noteq> newline \<and> b \<noteq> cr_char"
  by (auto simp: is_key_byte_def is_alnum_def is_upper_def is_lower_def is_digit_def)

lemma export_line_splits:
  assumes "line_ok kv" shows "split_assignment (trim_start (export_line kv)) = Some (fst kv, shell_quote (snd kv))"
proof -
  obtain b k where k: "fst kv = b # k" using assms by (cases "fst kv") (auto simp: line_ok_def)
  have kb: "\<forall>c \<in> set (fst kv). c \<noteq> equals_char" using assms key_bytes_plain by (auto simp: line_ok_def list_all_iff)
  have "trim_start (export_line kv) = export_line kv" unfolding export_line_def k using assms k by (simp add: trim_start_key line_ok_def)
  moreover have "takeWhile (\<lambda>c. c \<noteq> equals_char) (export_line kv) = fst kv"
    using kb unfolding export_line_def by (simp add: takeWhile_append2)
  ultimately show ?thesis using assms unfolding split_assignment_def line_ok_def by (simp add: Let_def export_line_def)
qed

lemma scan_export_lines:
  "\<forall>kv \<in> set kvs. line_ok kv \<Longrightarrow>
    scan_lines strict idx (map export_line kvs @ [[]]) sk m = Inr (fold (\<lambda>(k, v). RBT.insert k v) kvs m, sk)"
proof (induction kvs arbitrary: idx m)
  case Nil
  have "trim_start [] = []" using strip_leading_suffix [of ws_chars "[]"] by (simp add: trim_start_def)
  then show ?case by (simp add: split_assignment_def)
qed (simp add: export_line_splits split_beta)

lemma lookup_fold_insert: "RBT.lookup (fold (\<lambda>(k, v). RBT.insert k v) kvs m) = RBT.lookup m ++ map_of (rev kvs)"
  by (induction kvs arbitrary: m) (auto simp: fun_eq_iff map_add_def split: option.splits)

lemma split_lines:
  "\<forall>l \<in> set ls. newline \<notin> set l \<Longrightarrow> split_on newline (concat (map (\<lambda>l. l @ [newline]) ls)) = ls @ [[]]"
  by (induction ls) (simp_all add: split_on_append)

lemma export_line_bytes: "line_ok kv \<Longrightarrow> newline \<notin> set (export_line kv) \<and> cr_char \<notin> set (export_line kv)"
  using key_bytes_plain by (auto simp: line_ok_def list_all_iff export_line_def shell_quote_def split: if_splits)

definition exported :: "ini \<Rightarrow> (bytes \<times> bytes) list" where
  "exported m = map (\<lambda>(k, _). (k, export_value m k)) KEYS @ extra_keys m"

lemma ini_export_lines: "ini_export m = concat (map (\<lambda>l. l @ [newline]) (export_head # map export_line (exported m)))"
  by (simp add: ini_export_def exported_def comp_def split_beta)

lemma KEYS_ok:
  "list_all (\<lambda>(k, d). line_ok (k, d)) KEYS" "distinct (map fst KEYS)"
  by code_simp+

lemma head_ok: "newline \<notin> set export_head" "cr_char \<notin> set export_head" "equals_char \<notin> set export_head"
  by code_simp+

lemma default_known: "default_of k \<noteq> None \<longleftrightarrow> k \<in> fst ` set KEYS"
  by (simp add: default_of_def map_of_eq_None_iff)

lemma default_plain: "default_of k = Some d \<Longrightarrow> newline \<notin> set d \<and> cr_char \<notin> set d"
  using KEYS_ok(1) by (auto simp: default_of_def line_ok_def list_all_iff dest!: map_of_SomeD)

lemma effective_plain: "ini_ok m \<Longrightarrow> newline \<notin> set (effective m k) \<and> cr_char \<notin> set (effective m k)"
  using default_plain [of k] by (auto simp: ini_ok_def effective_def ini_get_def ini_raw_def split: option.splits)

lemma export_value_plain: "ini_ok m \<Longrightarrow> newline \<notin> set (export_value m k) \<and> cr_char \<notin> set (export_value m k)"
  using effective_plain [of m k] by (auto simp: export_value_def clamp_cf_proxy_def bytes_of_def)

lemma exported_ok: "ini_ok m \<Longrightarrow> kv \<in> set (exported m) \<Longrightarrow> line_ok kv"
proof (cases kv)
  case (Pair k v)
  assume m: "ini_ok m" and "kv \<in> set (exported m)"
  then consider d where "(k, d) \<in> set KEYS" "v = export_value m k" | "RBT.lookup m k = Some v"
    unfolding exported_def extra_keys_def using Pair map_of_entries [of m] distinct_entries [of m]
    by (auto dest: map_of_is_SomeI [OF distinct_entries])
  then show "line_ok kv"
    using KEYS_ok(1) export_value_plain [OF m, of k] m Pair unfolding ini_ok_def
    by cases (auto simp: line_ok_def list_all_iff)
qed

lemma export_scans:
  assumes "ini_ok m"
  shows "scan strict (ini_export m) = Inr (fold (\<lambda>(k, v). RBT.insert k v) (exported m) RBT.empty, 0)"
proof -
  have l: "\<forall>l \<in> set (export_head # map export_line (exported m)). newline \<notin> set l \<and> cr_char \<notin> set l"
    using head_ok export_line_bytes exported_ok [OF assms] by auto
  have "c \<noteq> cr_char" if "c \<in> set (concat (map (\<lambda>l. l @ [newline]) ls))" "\<forall>l \<in> set ls. newline \<notin> set l \<and> cr_char \<notin> set l" for c ls
    using that by (induction ls) auto
  from this [OF _ l] have "cr_char \<notin> set (ini_export m)" unfolding ini_export_lines by blast
  then have "map (\<lambda>c. if c = cr_char then newline else c) (ini_export m) = ini_export m" by (intro map_idI) auto
  then have "split_on newline (map (\<lambda>c. if c = cr_char then newline else c) (ini_export m)) = export_head # map export_line (exported m) @ [[]]"
    unfolding ini_export_lines using split_lines [of "export_head # map export_line (exported m)"] l by simp
  moreover have "split_assignment (trim_start export_head) = None"
    using head_ok(3) strip_leading_suffix [of ws_chars export_head] by (auto simp: split_assignment_def trim_start_def)
  ultimately show ?thesis using scan_export_lines [of "exported m"] exported_ok [OF assms] by (simp add: scan_def)
qed

lemma exported_keys: "distinct (map fst (exported m))"
proof -
  have "distinct (map fst (extra_keys m))" unfolding extra_keys_def by (simp add: distinct_keys_filter distinct_entries)
  moreover have "map fst (map (\<lambda>(k, _). (k, export_value m k)) KEYS) = map fst KEYS" by (simp add: split_beta)
  moreover have "k \<notin> fst ` set KEYS" if "k \<in> fst ` set (extra_keys m)" for k
    using that default_known [of k] by (auto simp: extra_keys_def)
  ultimately show ?thesis using KEYS_ok(2) unfolding exported_def by (auto simp del: map_map simp: image_iff)
qed

lemma map_of_exported:
  "map_of (exported m) k = (if default_of k \<noteq> None then Some (export_value m k) else RBT.lookup m k)"
proof (cases "default_of k")
  case None
  then have "map_of (map (\<lambda>(k, _). (k, export_value m k)) KEYS) k = None" by (auto simp: default_of_def map_of_eq_None_iff image_iff split_beta)
  moreover have "map_of (extra_keys m) k = RBT.lookup m k"
    unfolding extra_keys_def using map_of_filter [OF distinct_entries, of "\<lambda>(k, _). default_of k = None" m k] None
    by (simp split: option.splits)
  ultimately show ?thesis using None by (simp add: exported_def map_add_def)
next
  case (Some d)
  then have "(k, export_value m k) \<in> set (exported m)"
    by (force simp: default_of_def exported_def dest!: map_of_SomeD)
  then show ?thesis using Some map_of_is_SomeI [OF exported_keys] by simp
qed

definition reread :: "ini \<Rightarrow> ini" where
  "reread m = fold (\<lambda>(k, v). RBT.insert k v) (exported m) RBT.empty"

lemma lookup_reread: "RBT.lookup (reread m) k = (if default_of k \<noteq> None then Some (export_value m k) else RBT.lookup m k)"
proof -
  have "map_of (rev (exported m)) = map_of (exported m)"
    using map_of_inject_set [of "rev (exported m)" "exported m"] exported_keys [of m] by (simp add: rev_map [symmetric])
  then show ?thesis using map_of_exported [of m k] by (simp add: reread_def lookup_fold_insert)
qed

lemma clamp_idem: "clamp_cf_proxy (clamp_cf_proxy v) = clamp_cf_proxy v"
proof -
  have "bytes_of ''yes'' \<in> set CF_PROXY_VALUES" by (simp add: CF_PROXY_VALUES_def)
  then show ?thesis by (simp add: clamp_cf_proxy_def)
qed

lemma clamp_not_empty: "clamp_cf_proxy v \<noteq> []"
proof -
  have "bytes_of ''yes'' \<noteq> []" "[] \<notin> set CF_PROXY_VALUES" by code_simp+
  then show ?thesis by (auto simp: clamp_cf_proxy_def)
qed

lemma export_value_reread: "default_of k \<noteq> None \<Longrightarrow> export_value (reread m) k = export_value m k"
proof -
  assume "default_of k \<noteq> None"
  then obtain d where d: "default_of k = Some d" by blast
  have e: "effective (reread m) k = (if export_value m k = [] then d else export_value m k)"
    using d lookup_reread [of m k] by (simp add: effective_def ini_get_def ini_raw_def)
  have "export_value m k = [] \<Longrightarrow> d = []"
    using d clamp_not_empty by (auto simp: export_value_def effective_def ini_get_def split: if_splits option.splits)
  then have "effective (reread m) k = export_value m k" using e by auto
  then show ?thesis by (auto simp: export_value_def clamp_idem)
qed

lemma set_extra_keys: "set (extra_keys m) = {(k, v). default_of k = None \<and> RBT.lookup m k = Some v}"
  unfolding extra_keys_def using map_of_eq_Some_iff [OF distinct_entries, of m] by auto

lemma extra_keys_reread: "extra_keys (reread m) = extra_keys m"
proof (rule map_sorted_distinct_set_unique [of fst])
  show "inj_on fst (set (extra_keys (reread m)) \<union> set (extra_keys m))" by (auto simp: inj_on_def set_extra_keys lookup_reread)
  show "set (extra_keys (reread m)) = set (extra_keys m)" by (auto simp: set_extra_keys lookup_reread)
qed (simp_all add: extra_keys_def sorted_filter sorted_entries distinct_keys_filter distinct_entries)

lemma export_reread: "ini_export (reread m) = ini_export m"
proof -
  have "map (\<lambda>(k, _). export_line (k, export_value (reread m) k)) KEYS = map (\<lambda>(k, _). export_line (k, export_value m k)) KEYS"
  proof (rule map_cong [OF refl])
    fix kd assume "kd \<in> set KEYS"
    then have "default_of (fst kd) \<noteq> None" using default_known by blast
    then show "(\<lambda>(k, _). export_line (k, export_value (reread m) k)) kd = (\<lambda>(k, _). export_line (k, export_value m k)) kd"
      using export_value_reread by (simp add: split_beta)
  qed
  then show ?thesis by (simp only: ini_export_def extra_keys_reread)
qed

text \<open>
  C13: exporting a parsed settings file gives a file that reads back: every known setting is assigned its
  effective value, every other one the value it had, and exporting what was read gives the same file again;
  and a shell that sources the file takes each value as one word, with nothing expanded or left over.
\<close>

theorem ini_export_reads_back:
  assumes "ini_parse txt = Inr m"
  shows "\<exists>m'. ini_parse (ini_export m) = Inr m' \<and> ini_export m' = ini_export m \<and>
    (\<forall>k. ini_raw m' k = (if default_of k \<noteq> None then Some (export_value m k) else ini_raw m k)) \<and>
    (\<forall>k rest. sh_word [] (shell_quote (export_value m k) @ newline # rest) = Some (export_value m k, newline # rest))"
proof -
  have "ini_parse (ini_export m) = Inr (reread m)" by (simp add: ini_parse_def export_scans [OF parsed_ok [OF assms]] reread_def)
  then show ?thesis using export_reread lookup_reread shell_reads_quoted unfolding ini_raw_def by blast
qed

theorem ini_export_reads_back_witness:
  "\<exists>m m'. ini_parse (bytes_of ''cf_proxy=maybe pass=$(id)'') = Inr m \<and> ini_parse (ini_export m) = Inr m' \<and>
    ini_raw m' (bytes_of ''cf_proxy'') = Some (bytes_of ''yes'') \<and> ini_raw m' (bytes_of ''mode'') = Some (bytes_of ''free'')"
proof -
  have "case ini_parse (bytes_of ''cf_proxy=maybe pass=$(id)'') of Inr m \<Rightarrow> True | Inl _ \<Rightarrow> False" by code_simp
  then obtain m where m: "ini_parse (bytes_of ''cf_proxy=maybe pass=$(id)'') = Inr m" by (auto split: sum.splits)
  have "case ini_parse (bytes_of ''cf_proxy=maybe pass=$(id)'') of Inl _ \<Rightarrow> False | Inr m \<Rightarrow>
      (default_of (bytes_of ''cf_proxy''), default_of (bytes_of ''mode''), export_value m (bytes_of ''cf_proxy''), export_value m (bytes_of ''mode'')) =
      (Some (bytes_of ''yes''), Some (bytes_of ''free''), bytes_of ''yes'', bytes_of ''free'')" by code_simp
  with m have e: "default_of (bytes_of ''cf_proxy'') \<noteq> None" "default_of (bytes_of ''mode'') \<noteq> None"
    "export_value m (bytes_of ''cf_proxy'') = bytes_of ''yes''" "export_value m (bytes_of ''mode'') = bytes_of ''free''" by simp_all
  from ini_export_reads_back [OF m] obtain m' where "ini_parse (ini_export m) = Inr m'"
    "\<And>k. ini_raw m' k = (if default_of k \<noteq> None then Some (export_value m k) else ini_raw m k)" by blast
  then show ?thesis using m e by (metis (full_types))
qed

end
