(* ===== verification/Base64.thy ===== *)
theory Base64
  imports Base
begin

unbundle bit_operations_syntax

text \<open>
  The credentials of an HTTP client of the local port: the Base64 encoder of \<open>sniffbox/src/inbound_proxy.rs\<close>
  and a reader of it, which shows that a header value names one user and password.
\<close>

section \<open>Credentials\<close>

definition BASE64 :: bytes where
  "BASE64 = bytes_of ''ABCDEFGHIJKLMNOPQRSTUVWXYZabcdefghijklmnopqrstuvwxyz0123456789+/''"

definition base64_digit :: "u32 \<Rightarrow> nat \<Rightarrow> u8" where
  "base64_digit n shift = BASE64 ! unat (drop_bit shift n AND 0x3f)"

definition base64_word :: "u8 \<Rightarrow> u8 \<Rightarrow> u8 \<Rightarrow> u32" where
  "base64_word a b c = push_bit 16 (ucast a) OR push_bit 8 (ucast b) OR ucast c"

fun base64_encode :: "bytes \<Rightarrow> bytes" where
  "base64_encode [] = []"
| "base64_encode [a] = (let n = base64_word a 0 0 in [base64_digit n 18, base64_digit n 12, 61, 61])"
| "base64_encode [a, b] = (let n = base64_word a b 0 in [base64_digit n 18, base64_digit n 12, base64_digit n 6, 61])"
| "base64_encode (a # b # c # rest) =
     (let n = base64_word a b c in [base64_digit n 18, base64_digit n 12, base64_digit n 6, base64_digit n 0] @ base64_encode rest)"

definition basic_auth_header_value :: "bytes \<Rightarrow> bytes \<Rightarrow> bytes" where
  "basic_auth_header_value user pass = bytes_of ''Basic '' @ base64_encode (user @ 58 # pass)"

text \<open>The reader of the encoding: four digits give three bytes, less at the padding.\<close>

definition base64_value :: "u8 \<Rightarrow> u32" where
  "base64_value c = of_nat (length (takeWhile (\<lambda>x. x \<noteq> c) BASE64))"

fun base64_decode :: "bytes \<Rightarrow> bytes" where
  "base64_decode (w # x # y # z # rest) =
     (let n = push_bit 18 (base64_value w) OR push_bit 12 (base64_value x); n' = n OR push_bit 6 (base64_value y); n'' = n' OR base64_value z in
      if y = 61 then [ucast (drop_bit 16 n)] else if z = 61 then [ucast (drop_bit 16 n'), ucast (drop_bit 8 n')]
      else [ucast (drop_bit 16 n''), ucast (drop_bit 8 n''), ucast n''] @ base64_decode rest)"
| "base64_decode _ = []"

lemma takeWhile_nth: "distinct xs \<Longrightarrow> i < length xs \<Longrightarrow> length (takeWhile (\<lambda>x. x \<noteq> xs ! i) xs) = i"
proof (induction xs arbitrary: i)
  case (Cons x xs)
  then show ?case by (cases i) auto
qed simp

lemma base64_alphabet: "distinct BASE64" "length BASE64 = 64" "61 \<notin> set BASE64"
  by code_simp+

lemma six_bits: "x AND 0x3f = take_bit 6 (x :: u32)"
proof -
  have "(0x3f :: u32) = mask 6" by (simp add: mask_eq_exp_minus_1)
  then show ?thesis by (simp add: take_bit_eq_mask)
qed

lemma six_bits_less: "unat (take_bit 6 x :: u32) < 64"
  using take_bit_nat_less_exp [of 6 "unat x"] by (simp add: unsigned_take_bit_eq)

lemma base64_value_digit: "base64_value (base64_digit n k) = take_bit 6 (drop_bit k n)"
  using takeWhile_nth [OF base64_alphabet(1), of "unat (take_bit 6 (drop_bit k n))"] six_bits_less base64_alphabet(2)
  by (simp add: base64_value_def base64_digit_def six_bits)

lemma base64_digit_not_pad: "base64_digit n k \<noteq> 61"
proof -
  have "base64_digit n k \<in> set BASE64"
    unfolding base64_digit_def six_bits using six_bits_less base64_alphabet(2) by (intro nth_mem) simp
  then show ?thesis using base64_alphabet(3) by metis
qed

lemma bits_join: "push_bit k (take_bit m (drop_bit k n)) OR take_bit k n = take_bit (k + m) (n :: u32)"
  by (rule bit_word_eqI) (auto simp: bit_simps less_diff_conv2 not_less)

lemma base64_four: "((push_bit 18 (take_bit 6 (drop_bit 18 n)) OR push_bit 12 (take_bit 6 (drop_bit 12 n))) OR
    push_bit 6 (take_bit 6 (drop_bit 6 n))) OR take_bit 6 n = take_bit 24 (n :: u32)"
  using bits_join [of 6 6 n] bits_join [of 12 6 n] bits_join [of 18 6 n] by (simp add: or.assoc)

lemma base64_more:
  "drop_bit 16 (n OR push_bit 6 (take_bit 6 m)) = drop_bit 16 (n :: u32)"
  "drop_bit 16 (n OR take_bit 6 m) = drop_bit 16 n"
  "drop_bit 8 (n OR take_bit 6 m) = drop_bit 8 n"
  by (rule bit_word_eqI, auto simp: bit_simps)+

lemma base64_parts:
  "ucast (drop_bit 16 (take_bit 24 (base64_word a b c))) = a"
  "ucast (drop_bit 8 (take_bit 24 (base64_word a b c))) = b"
  "ucast (take_bit 24 (base64_word a b c)) = c"
  unfolding base64_word_def by (rule bit_word_eqI, auto simp: bit_simps dest: bit_imp_le_length)+

lemma base64_first: "ucast (drop_bit 16 (push_bit 18 (take_bit 6 (drop_bit 18 n)) OR push_bit 12 (take_bit 6 (drop_bit 12 n)))) = (a :: u8)"
  if "n = base64_word a b c"
  using base64_parts(1) [of a b c] unfolding that base64_four [symmetric] base64_more .

lemma base64_second: "ucast (drop_bit 8 ((push_bit 18 (take_bit 6 (drop_bit 18 n)) OR push_bit 12 (take_bit 6 (drop_bit 12 n))) OR
    push_bit 6 (take_bit 6 (drop_bit 6 n)))) = (b :: u8)" if "n = base64_word a b c"
  using base64_parts(2) [of a b c] unfolding that base64_four [symmetric] base64_more .

lemma base64_decode_encode: "base64_decode (base64_encode s) = s"
  by (induction s rule: base64_encode.induct)
    (simp_all add: Let_def base64_value_digit base64_digit_not_pad base64_more base64_four base64_parts
      base64_first [OF refl] base64_second [OF refl] del: drop_bit_or drop_bit_take_bit)

lemma basic_auth_value_inject: "basic_auth_header_value u p = basic_auth_header_value u' p' \<longleftrightarrow> u @ 58 # p = u' @ 58 # p'"
  unfolding basic_auth_header_value_def using base64_decode_encode by (metis same_append_eq)

end
