(* ===== verification/HttpForward.thy ===== *)
theory HttpForward
  imports Relay SniffAll "HOL-Library.Sublist"
begin

text \<open>
  The relay of a forwarded HTTP request (\<open>sniffbox/src/http_forward.rs\<close>): the request's body is delimited as it
  passes, so that nothing after it reaches the upstream; the trailers of a chunked body are filtered; a
  change of protocol is let through only when both sides agreed on it. A direction is a buffered reader over
  one wire and a counted writer to it. Parsing a chunk size, trailers and a response head is the work of the
  \<open>httparse\<close> crate, a parameter.
\<close>

section \<open>Reading and writing\<close>

abbreviation (input) HEAD_LIMIT :: nat where "HEAD_LIMIT \<equiv> 16384"
abbreviation (input) HTTP_BUF :: nat where "HTTP_BUF \<equiv> 8192"

datatype body = Fixed u64 | Chunked

record http_req =
  hq_body :: body
  hq_upgrade :: "bytes option"

datatype http_err = BadFraming string | UnexpectedEof | WriteZero | NetBroken

text \<open>A step ends with an error, or waits for an event that does not come.\<close>

datatype stop = Error http_err | Pending

text \<open>A direction: what the buffered reader holds, what is left of the replayed prefix, and the wire.\<close>

record hconn =
  hc_buf :: bytes
  hc_prefix :: bytes
  hc_wire :: wire

type_synonym 'a http = "(hconn, stop, 'a) comp"

definition fill_buf :: "bytes http" where
  "fill_buf c =
     (if hc_buf c \<noteq> [] then (Inr (hc_buf c), c)
      else if hc_prefix c \<noteq> [] then
        let d = take HTTP_BUF (hc_prefix c) in (Inr d, c\<lparr>hc_buf := d, hc_prefix := drop HTTP_BUF (hc_prefix c)\<rparr>)
      else case read_once HTTP_BUF (hc_wire c) of
        (Ready d, w) \<Rightarrow> (Inr d, c\<lparr>hc_buf := d, hc_wire := w\<rparr>)
      | (Failed, w) \<Rightarrow> (Inl (Error NetBroken), c\<lparr>hc_wire := w\<rparr>)
      | (Waiting, w) \<Rightarrow> (Inl Pending, c\<lparr>hc_wire := w\<rparr>))"

definition consume :: "nat \<Rightarrow> unit http" where
  "consume n c = (Inr (), c\<lparr>hc_buf := drop n (hc_buf c)\<rparr>)"

definition read_at_most :: "nat \<Rightarrow> bytes http" where
  "read_at_most n = and_then fill_buf (\<lambda>b. and_then (consume n) (\<lambda>_. ret (take n b)))"

text \<open>Each part that is written is counted.\<close>

fun counted_loop :: "attempt list \<Rightarrow> bytes \<Rightarrow> wire \<Rightarrow> (stop + unit) \<times> wire" where
  "counted_loop es [] w = (Inr (), w\<lparr>w_writes := es\<rparr>)"
| "counted_loop [] data w = (Inl Pending, w\<lparr>w_writes := []\<rparr>)"
| "counted_loop (WouldBlock # es) data w = counted_loop es data w"
| "counted_loop (Broken # es) data w = (Inl (Error NetBroken), w\<lparr>w_writes := es\<rparr>)"
| "counted_loop (Moved n # es) data w =
     (if n = 0 then (Inl (Error WriteZero), w\<lparr>w_writes := es\<rparr>)
      else let k = min n (length data) in
        counted_loop es (drop k data) (count_bytes k (w\<lparr>w_dst := w_dst w @ take k data\<rparr>)))"

definition write_counted :: "bytes \<Rightarrow> unit http" where
  "write_counted data c = (let (r, w) = counted_loop (w_writes (hc_wire c)) data (hc_wire c) in (r, c\<lparr>hc_wire := w\<rparr>))"

definition stream_of :: "hconn \<Rightarrow> bytes" where
  "stream_of c = hc_buf c @ hc_prefix c @ w_src (hc_wire c)"

text \<open>From \<open>c\<close> to \<open>d\<close>, \<open>taken\<close> was read and \<open>sent\<close> was written and counted.\<close>

definition passed :: "hconn \<Rightarrow> hconn \<Rightarrow> bytes \<Rightarrow> bytes \<Rightarrow> bool" where
  "passed c d taken sent \<longleftrightarrow> stream_of c = taken @ stream_of d \<and>
     w_dst (hc_wire d) = w_dst (hc_wire c) @ sent \<and> w_counter (hc_wire d) = w_counter (hc_wire c) + of_nat (length sent) \<and>
     w_shut (hc_wire d) = w_shut (hc_wire c)"

lemma passed_refl: "passed c c [] []"
  by (simp add: passed_def)

lemma passed_trans: "passed c d t s \<Longrightarrow> passed d e t' s' \<Longrightarrow> passed c e (t @ t') (s @ s')"
  by (simp add: passed_def)

lemma read_once_shut: "w_shut (snd (read_once n w)) = w_shut w"
  by (simp add: read_once_def split_beta)

lemma fill_buf_spec:
  assumes "fill_buf c = (r, d)"
  shows "passed c d [] [] \<and> (\<forall>b. r = Inr b \<longrightarrow> hc_buf d = b \<and> (b = [] \<longrightarrow> stream_of c = []) \<and> (\<exists>rest. stream_of c = b @ rest))"
proof -
  obtain p w where rd: "read_once HTTP_BUF (hc_wire c) = (p, w)" by fastforce
  note s = read_once_stream [OF rd] read_once_shut [of HTTP_BUF "hc_wire c", unfolded rd]
  show ?thesis
  proof (cases "hc_buf c = [] \<and> hc_prefix c = []")
    case True
    then show ?thesis using assms s rd by (cases p) (auto simp: fill_buf_def passed_def stream_of_def)
  next
    case False
    have "take HTTP_BUF (hc_prefix c) @ drop HTTP_BUF (hc_prefix c) @ w_src (hc_wire c) = hc_prefix c @ w_src (hc_wire c)" by simp
    then show ?thesis using assms False by (fastforce simp: fill_buf_def passed_def stream_of_def Let_def split: if_splits)
  qed
qed

lemma read_at_most_spec:
  assumes "read_at_most n c = (r, d)" and "0 < n"
  shows "case r of Inr x \<Rightarrow> passed c d x [] \<and> length x \<le> n \<and> (x = [] \<longrightarrow> stream_of c = []) | Inl e \<Rightarrow> passed c d [] []"
proof -
  obtain q c1 where f: "fill_buf c = (q, c1)" by fastforce
  note s = fill_buf_spec [OF f]
  show ?thesis
  proof (cases q)
    case (Inl e)
    then show ?thesis using assms s f by (auto simp: read_at_most_def and_then_def)
  next
    case (Inr b)
    have "stream_of c1 = take n b @ stream_of (c1\<lparr>hc_buf := drop n b\<rparr>)" using s Inr by (simp add: stream_of_def)
    then show ?thesis using assms s f Inr by (auto simp: read_at_most_def and_then_def consume_def passed_def)
  qed
qed

lemma counted_loop_spec:
  "counted_loop es data w = (r, w') \<Longrightarrow> \<exists>sent rest. data = sent @ rest \<and> w_dst w' = w_dst w @ sent \<and>
     w_counter w' = w_counter w + of_nat (length sent) \<and> w_src w' = w_src w \<and> w_shut w' = w_shut w \<and> (r = Inr () \<longrightarrow> rest = [])"
proof (induction es data w rule: counted_loop.induct)
  case (5 n es v va w)
  show ?case
  proof (cases "n = 0")
    case False
    let ?d = "v # va" and ?k = "min n (length (v # va))"
    have "counted_loop es (drop ?k ?d) (count_bytes ?k (w\<lparr>w_dst := w_dst w @ take ?k ?d\<rparr>)) = (r, w')"
      using 5(2) False by (simp add: Let_def)
    from 5(1) [OF False refl this] obtain sent rest where h: "drop ?k ?d = sent @ rest"
      "w_dst w' = (w_dst w @ take ?k ?d) @ sent" "w_counter w' = w_counter w + of_nat ?k + of_nat (length sent)"
      "w_src w' = w_src w" "w_shut w' = w_shut w" "r = Inr () \<longrightarrow> rest = []" by (auto simp: count_bytes_def)
    then have "?d = (take ?k ?d @ sent) @ rest" by (metis append_assoc append_take_drop_id)
    moreover have "length (take ?k ?d) = ?k" by simp
    ultimately show ?thesis using h by (intro exI [of _ "take ?k ?d @ sent"] exI [of _ rest]) (simp add: add.assoc)
  qed (use 5(2) in auto)
qed (auto simp: count_bytes_def)

lemma write_counted_spec:
  assumes "write_counted data c = (r, d)"
  shows "\<exists>sent rest. passed c d [] sent \<and> data = sent @ rest \<and> (r = Inr () \<longrightarrow> rest = [])"
proof -
  obtain w where "counted_loop (w_writes (hc_wire c)) data (hc_wire c) = (r, w)" "d = c\<lparr>hc_wire := w\<rparr>"
    using assms by (auto simp: write_counted_def split: prod.splits)
  with counted_loop_spec [OF this(1)] show ?thesis by (fastforce simp: passed_def stream_of_def)
qed


section \<open>Copying, lines and chunks\<close>

lemma and_then_cong [fundef_cong]:
  "\<lbrakk>m s = m' s'; \<And>x t. m' s' = (Inr x, t) \<Longrightarrow> f x t = f' x t\<rbrakk> \<Longrightarrow> and_then m f s = and_then m' f' s'"
  by (simp add: and_then_def split: prod.splits sum.splits)

lemma read_at_most_less:
  "read_at_most n c = (Inr x, d) \<Longrightarrow> 0 < n \<Longrightarrow> x \<noteq> [] \<Longrightarrow> length (stream_of d) < length (stream_of c)"
  using read_at_most_spec [of n c "Inr x" d] by (auto simp: passed_def)

lemma write_counted_same: "write_counted data c = (r, d) \<Longrightarrow> stream_of d = stream_of c"
  using write_counted_spec [of data c r d] by (auto simp: passed_def)

text \<open>Everything up to the end of the stream; exactly \<open>len\<close> bytes.\<close>

function http_copy :: "unit http" where
  "http_copy c = and_then (read_at_most HTTP_BUF) (\<lambda>d s.
     if d = [] then ret () s else and_then (write_counted d) (\<lambda>_ t. http_copy t) s) c"
  by pat_completeness auto
termination
  by (relation "measure (length \<circ> stream_of)") (auto dest!: read_at_most_less write_counted_same)

function exact :: "nat \<Rightarrow> unit http" where
  "exact len c =
     (if len = 0 then ret () c
      else and_then (read_at_most (min len HTTP_BUF)) (\<lambda>d s.
        if d = [] then raise (Error UnexpectedEof) s
        else and_then (write_counted d) (\<lambda>_ t. exact (len - length d) t) s) c)"
  by pat_completeness auto
termination
  by (relation "measure fst") auto

function read_exact_loop :: "nat \<Rightarrow> bytes \<Rightarrow> bytes http" where
  "read_exact_loop n out c =
     (if n = 0 then ret out c
      else and_then (read_at_most n) (\<lambda>d s.
        if d = [] then raise (Error UnexpectedEof) s else read_exact_loop (n - length d) (out @ d) s) c)"
  by pat_completeness auto
termination
  by (relation "measure fst") auto

declare http_copy.simps [simp del] exact.simps [simp del] read_exact_loop.simps [simp del]

abbreviation (input) LF :: u8 where "LF \<equiv> 10"
abbreviation (input) CRLF :: bytes where "CRLF \<equiv> [13, 10]"

text \<open>One line with its end, of at most \<open>limit\<close> bytes.\<close>

definition line_part :: "bytes \<Rightarrow> nat" where
  "line_part b = (if LF \<in> set b then length (takeWhile (\<lambda>c. c \<noteq> LF) b) + 1 else length b)"

definition ends_with :: "bytes \<Rightarrow> bytes \<Rightarrow> bool" where
  "ends_with q b \<longleftrightarrow> (\<exists>p. b = p @ q)"

lemma ends_with_code [code]: "ends_with q b \<longleftrightarrow> starts_with (rev q) (rev b)"
proof
  assume "starts_with (rev q) (rev b)"
  then have "rev b = rev q @ drop (length q) (rev b)" unfolding starts_with_def by (metis append_take_drop_id length_rev)
  then have "b = rev (drop (length q) (rev b)) @ q" by (metis rev_append rev_rev_ident)
  then show "ends_with q b" unfolding ends_with_def by blast
qed (auto simp: ends_with_def starts_with_def)

lemma takeWhile_to: "c \<notin> set x \<Longrightarrow> takeWhile (\<lambda>y. y \<noteq> c) (x @ c # z) = x"
  by (induction x) auto

lemma line_part_bounds: "b \<noteq> [] \<Longrightarrow> 0 < line_part b" "line_part b \<le> length b"
  by (auto simp: line_part_def takeWhile_to dest!: split_list_first)

function read_line :: "nat \<Rightarrow> bytes \<Rightarrow> bytes http" where
  "read_line limit out c = and_then fill_buf (\<lambda>b s.
     if b = [] then raise (Error UnexpectedEof) s
     else let n = line_part b; out' = out @ take n b in
       if length out + n > limit then raise (Error (BadFraming ''HTTP framing too large'')) s
       else and_then (consume n) (\<lambda>_ t.
         if ends_with [LF] out' then
           (if ends_with CRLF out' then ret out' t else raise (Error (BadFraming ''HTTP framing requires CRLF'')) t)
         else read_line limit out' t) s) c"
  by pat_completeness auto
termination
  by (relation "measure (\<lambda>(limit, out, c). limit + 1 - length out)")
    (auto simp: line_part_bounds(2) min_absorb2 dest: line_part_bounds(1))

declare read_line.simps [simp del]

lemma line_part_ends: "b \<noteq> [] \<Longrightarrow> ends_with [LF] (out @ take (line_part b) b) \<longleftrightarrow> LF \<in> set b"
proof -
  assume b: "b \<noteq> []"
  show ?thesis
  proof (cases "LF \<in> set b")
    case True
    then obtain x y where xy: "b = x @ LF # y" "LF \<notin> set x" by (meson split_list_first)
    then show ?thesis by (auto simp: line_part_def ends_with_def takeWhile_to)
  next
    case False
    have "last (out @ b) \<in> set b" using b by simp
    then have "last (out @ b) \<noteq> LF" using False by metis
    then show ?thesis using False by (auto simp: line_part_def ends_with_def)
  qed
qed

section \<open>Bodies\<close>

datatype 'a parsed = BadSyntax | Partial | Complete 'a

type_synonym headers = "(bytes \<times> bytes) list"

record http_parsers =
  hp_chunk :: "bytes \<Rightarrow> (nat \<times> u64) parsed"
  hp_trailers :: "bytes \<Rightarrow> headers parsed"
  hp_response :: "bytes \<Rightarrow> (u16 option \<times> headers) option"

definition HOP_BY_HOP_HEADERS :: "bytes list" where
  "HOP_BY_HOP_HEADERS = map bytes_of [''connection'', ''keep-alive'', ''proxy-connection'', ''proxy-authorization'',
     ''proxy-authenticate'', ''te'', ''trailer'', ''upgrade'']"

definition hop_header :: "bytes \<Rightarrow> bool" where
  "hop_header name \<longleftrightarrow> list_ex (eq_nocase name) HOP_BY_HOP_HEADERS"

definition trailer_kept :: "bytes \<Rightarrow> bool" where
  "trailer_kept name \<longleftrightarrow> \<not> hop_header name \<and>
     \<not> list_ex (eq_nocase name) (map bytes_of [''host'', ''content-length'', ''transfer-encoding'', ''authorization''])"

fun write_trailers :: "headers \<Rightarrow> unit http" where
  "write_trailers [] c = write_counted CRLF c"
| "write_trailers ((name, value) # hs) c =
     (if \<not> trailer_kept name then write_trailers hs c
      else and_then (write_counted name) (\<lambda>_. and_then (write_counted [58, 32]) (\<lambda>_. and_then (write_counted value) (\<lambda>_.
        and_then (write_counted CRLF) (\<lambda>_. write_trailers hs)))) c)"

text \<open>Lines up to the empty one, of at most \<open>HEAD_LIMIT\<close> bytes together.\<close>

lemma read_line_length: "read_line limit out c = (Inr l, d) \<Longrightarrow> length out < length l \<and> length l \<le> limit"
proof (induction limit out c arbitrary: l d rule: read_line.induct)
  case (1 limit out c)
  obtain b s where f: "fill_buf c = (Inr b, s)" using 1(2) by (cases "fill_buf c"; cases "fst (fill_buf c)") (auto simp: read_line.simps [of limit out c] and_then_def)
  have b: "b \<noteq> []" "length out + line_part b \<le> limit"
    using 1(2) f by (auto simp: read_line.simps [of limit out c] and_then_def Let_def split: if_splits)
  note lp = line_part_bounds [of b]
  show ?case
  proof (cases "ends_with [LF] (out @ take (line_part b) b)")
    case True
    then have "l = out @ take (line_part b) b" using 1(2) f b
      by (auto simp: read_line.simps [of limit out c] and_then_def consume_def Let_def split: if_splits)
    then show ?thesis using b lp by (simp add: min_absorb2)
  next
    case False
    then have "read_line limit (out @ take (line_part b) b) (s\<lparr>hc_buf := drop (line_part b) (hc_buf s)\<rparr>) = (Inr l, d)" using 1(2) f b
      by (auto simp: read_line.simps [of limit out c] and_then_def consume_def Let_def split: if_splits)
    moreover have "\<not> limit < length out + line_part b" using b(2) by simp
    ultimately have "length (out @ take (line_part b) b) < length l \<and> length l \<le> limit"
      using 1(1) [OF f b(1) refl refl _ _ False] by (simp add: consume_def)
    then show ?thesis by simp
  qed
qed

function read_block :: "bytes \<Rightarrow> bytes http" where
  "read_block acc c = and_then (read_line (HEAD_LIMIT - length acc) []) (\<lambda>l s.
     if l = CRLF then ret (acc @ l) s else read_block (acc @ l) s) c"
  by pat_completeness auto
termination
proof (relation "measure (\<lambda>(acc, c). HEAD_LIMIT - length acc)", simp)
  fix acc l :: bytes and c s assume "read_line (HEAD_LIMIT - length acc) [] c = (Inr l, s)"
  then have "0 < length l" "length l \<le> HEAD_LIMIT - length acc" using read_line_length by fastforce+
  then show "((acc @ l, s), acc, c) \<in> measure (\<lambda>(acc, c). HEAD_LIMIT - length acc)" by (cases l) auto
qed

declare read_block.simps [simp del]


section \<open>What the parts read and write\<close>

lemma and_then_cases:
  assumes "and_then m f c = (r, d)"
  obtains e where "m c = (Inl e, d)" "r = Inl e" | x s where "m c = (Inr x, s)" "f x s = (r, d)"
  using assms by (auto simp: and_then_def split: prod.splits sum.splits)

lemma read_line_spec:
  "read_line limit out c = (r, d) \<Longrightarrow> \<exists>x. passed c d x [] \<and> (\<forall>l. r = Inr l \<longrightarrow> l = out @ x \<and> ends_with CRLF l \<and> LF \<notin> set (butlast x))"
proof (induction limit out c arbitrary: r d rule: read_line.induct)
  case (1 limit out c)
  obtain q s where f: "fill_buf c = (q, s)" by fastforce
  note fs = fill_buf_spec [OF f]
  show ?case
  proof (cases q)
    case (Inl e)
    then show ?thesis using 1(2) f fs by (auto simp: read_line.simps [of limit out c] and_then_def)
  next
    case (Inr b)
    let ?n = "line_part b" and ?s = "s\<lparr>hc_buf := drop (line_part b) (hc_buf s)\<rparr>"
    let ?x = "take ?n b"
    have sp: "passed c s [] []" "hc_buf s = b" using fs Inr by auto
    have p: "passed c ?s ?x []" using sp by (simp add: passed_def stream_of_def)
    have step: "read_line limit out c = (if b = [] then (Inl (Error UnexpectedEof), s)
        else if length out + ?n > limit then (Inl (Error (BadFraming ''HTTP framing too large'')), s)
        else if ends_with [LF] (out @ ?x) then
          (if ends_with CRLF (out @ ?x) then (Inr (out @ ?x), ?s) else (Inl (Error (BadFraming ''HTTP framing requires CRLF'')), ?s))
        else read_line limit (out @ ?x) ?s)"
      using f Inr by (simp add: read_line.simps [of limit out c] and_then_def consume_def Let_def)
    show ?thesis
    proof (cases "b = [] \<or> length out + ?n > limit \<or> ends_with [LF] (out @ ?x)")
      case True
      have "LF \<notin> set (butlast ?x)" if "LF \<in> set b"
        using split_list_first [OF that] by (auto simp: line_part_def takeWhile_to butlast_append)
      then show ?thesis using 1(2) step sp(1) p True line_part_ends [of b out] by (auto split: if_splits)
    next
      case False
      then have nl: "LF \<notin> set b" and rest: "read_line limit (out @ ?x) ?s = (r, d)"
        using 1(2) step line_part_ends [of b out] by auto
      have "consume ?n s = (Inr (), ?s)" by (simp add: consume_def)
      then have "\<exists>y. passed ?s d y [] \<and> (\<forall>l. r = Inr l \<longrightarrow> l = (out @ ?x) @ y \<and> ends_with CRLF l \<and> LF \<notin> set (butlast y))"
        using 1(1) [OF f [unfolded Inr] _ refl refl _ _ _ rest] False by simp
      then obtain y where y: "passed ?s d y []" "\<forall>l. r = Inr l \<longrightarrow> l = (out @ ?x) @ y \<and> ends_with CRLF l \<and> LF \<notin> set (butlast y)"
        by blast
      have "LF \<notin> set (butlast (?x @ y))" if "LF \<notin> set (butlast y)"
        using nl that by (auto simp: butlast_append dest: in_set_takeD in_set_butlastD)
      then show ?thesis using passed_trans [OF p y(1)] y(2) by (intro exI [of _ "?x @ y"]) auto
    qed
  qed
qed

text \<open>
  A step performs \<open>body\<close>, \<open>out\<close> with result \<open>x\<close> when, given a stream that starts with \<open>body\<close>, it reads
  exactly \<open>body\<close>, writes exactly \<open>out\<close> and returns \<open>x\<close>; or it is stopped by the network on the way, having read a
  part of the one and written a part of the other.
\<close>

definition stalled :: "stop \<Rightarrow> bool" where
  "stalled e \<longleftrightarrow> e = Pending \<or> e = Error NetBroken \<or> e = Error WriteZero"

definition performs :: "'a http \<Rightarrow> bytes \<Rightarrow> bytes \<Rightarrow> 'a \<Rightarrow> bool" where
  "performs m body out x \<longleftrightarrow> (\<forall>c rest r d. stream_of c = body @ rest \<longrightarrow> m c = (r, d) \<longrightarrow>
     (r = Inr x \<and> passed c d body out) \<or>
     (\<exists>e t s. r = Inl e \<and> stalled e \<and> passed c d t s \<and> prefix t body \<and> prefix s out))"

lemma performs_ret: "performs (ret x) [] [] x"
  by (simp add: performs_def passed_refl)

lemma performs_then:
  assumes m: "performs m b1 o1 x" and f: "performs (f x) b2 o2 y"
  shows "performs (and_then m f) (b1 @ b2) (o1 @ o2) y"
  unfolding performs_def
proof (intro allI impI)
  fix c rest r d assume s: "stream_of c = (b1 @ b2) @ rest" and run: "and_then m f c = (r, d)"
  have s1: "stream_of c = b1 @ (b2 @ rest)" using s by simp
  obtain q c1 where q: "m c = (q, c1)" by fastforce
  consider "q = Inr x" "passed c c1 b1 o1" | e t u where "q = Inl e" "stalled e" "passed c c1 t u" "prefix t b1" "prefix u o1"
    using m s1 q unfolding performs_def by blast
  then show "(r = Inr y \<and> passed c d (b1 @ b2) (o1 @ o2)) \<or>
     (\<exists>e t u. r = Inl e \<and> stalled e \<and> passed c d t u \<and> prefix t (b1 @ b2) \<and> prefix u (o1 @ o2))"
  proof cases
    case 1
    then have s2: "stream_of c1 = b2 @ rest" "f x c1 = (r, d)" using s1 run q by (simp_all add: passed_def and_then_def)
    then consider "r = Inr y" "passed c1 d b2 o2" | e t u where "r = Inl e" "stalled e" "passed c1 d t u" "prefix t b2" "prefix u o2"
      using f unfolding performs_def by blast
    then show ?thesis
    proof cases
      case a: 1
      then show ?thesis using passed_trans [OF 1(2)] by blast
    next
      case (2 e t u)
      then have "passed c d (b1 @ t) (o1 @ u)" using passed_trans [OF 1(2)] by blast
      then show ?thesis using 2 by (metis same_prefix_prefix)
    qed
  next
    case (2 e t u)
    then have "r = Inl e" "d = c1" using run q by (simp_all add: and_then_def)
    then show ?thesis using 2 by (metis prefix_prefix)
  qed
qed

lemma performs_bind:
  "\<lbrakk>performs m b1 o1 x; performs (f x) b2 o2 y; body = b1 @ b2; out = o1 @ o2\<rbrakk> \<Longrightarrow> performs (and_then m f) body out y"
  by (simp add: performs_then)

lemma performs_write: "performs (write_counted data) [] data u"
  unfolding performs_def
proof (intro allI impI)
  fix c rest r d assume w: "write_counted data c = (r, d)"
  obtain sent tl where s: "passed c d [] sent" "data = sent @ tl" "r = Inr () \<longrightarrow> tl = []" using write_counted_spec [OF w] by blast
  have "stalled e" if "r = Inl e" for e
  proof -
    have "counted_loop es x w = (Inl e, w') \<Longrightarrow> stalled e" for es x w w'
      by (induction es x w rule: counted_loop.induct) (auto simp: stalled_def Let_def split: if_splits)
    then show ?thesis using w that by (auto simp: write_counted_def split: prod.splits)
  qed
  then show "(r = Inr u \<and> passed c d [] data) \<or> (\<exists>e t w. r = Inl e \<and> stalled e \<and> passed c d t w \<and> prefix t [] \<and> prefix w data)"
    using s by (cases r) auto
qed

lemma fill_buf_stalls: "fill_buf c = (Inl e, d) \<Longrightarrow> stalled e"
  by (auto simp: fill_buf_def stalled_def Let_def split: if_splits prod.splits progress.splits)

lemma read_at_most_stalls: "read_at_most n c = (Inl e, d) \<Longrightarrow> stalled e"
  using fill_buf_stalls by (auto simp: read_at_most_def and_then_def consume_def split: prod.splits sum.splits)

lemma performs_read:
  assumes f: "\<And>x tl. data = x @ tl \<Longrightarrow> x \<noteq> [] \<Longrightarrow> length x \<le> n \<Longrightarrow> performs (f x) tl out y"
    and n: "0 < n" "n \<le> length data"
  shows "performs (and_then (read_at_most n) f) data out y"
  unfolding performs_def
proof (intro allI impI)
  fix c rest r d assume s: "stream_of c = data @ rest" and run: "and_then (read_at_most n) f c = (r, d)"
  show "(r = Inr y \<and> passed c d data out) \<or> (\<exists>e t u. r = Inl e \<and> stalled e \<and> passed c d t u \<and> prefix t data \<and> prefix u out)"
    using run
  proof (rule and_then_cases)
    fix e assume "read_at_most n c = (Inl e, d)" "r = Inl e"
    then show ?thesis using read_at_most_spec [of n c "Inl e" d] read_at_most_stalls n(1) by (metis Nil_prefix old.sum.simps(5))
  next
    fix x c1 assume x: "read_at_most n c = (Inr x, c1)" "f x c1 = (r, d)"
    then have p: "passed c c1 x []" "length x \<le> n" "x \<noteq> []" using read_at_most_spec [OF x(1) n(1)] s n by auto
    have "x @ stream_of c1 = data @ rest" using p(1) s by (simp add: passed_def)
    then have "x = take (length x) data" "stream_of c1 = drop (length x) data @ rest"
      using p(2) n(2) by (auto simp: append_eq_append_conv_if)
    then obtain tl where tl: "data = x @ tl" "stream_of c1 = tl @ rest" by (metis append_take_drop_id)
    then consider "r = Inr y" "passed c1 d tl out" | e t u where "r = Inl e" "stalled e" "passed c1 d t u" "prefix t tl" "prefix u out"
      using f [OF tl(1) p(3,2)] x(2) unfolding performs_def by blast
    then show ?thesis
    proof cases
      case 1
      then show ?thesis using passed_trans [OF p(1)] tl(1) by fastforce
    next
      case (2 e t u)
      have "passed c d (x @ t) u" using passed_trans [OF p(1) 2(3)] by simp
      then show ?thesis using 2 tl(1) by (metis same_prefix_prefix)
    qed
  qed
qed

lemma exact_0 [simp]: "exact 0 = ret ()"
  by (intro ext) (simp add: exact.simps)

lemma exact_pos: "len \<noteq> 0 \<Longrightarrow> exact len = and_then (read_at_most (min len HTTP_BUF))
    (\<lambda>d. if d = [] then raise (Error UnexpectedEof) else and_then (write_counted d) (\<lambda>_. exact (len - length d)))"
  by (intro ext) (auto simp: exact.simps [of len] if_distribR intro!: and_then_cong)

lemma read_exact_0 [simp]: "read_exact_loop 0 out = ret out"
  by (intro ext) (simp add: read_exact_loop.simps)

lemma read_exact_pos: "n \<noteq> 0 \<Longrightarrow> read_exact_loop n out = and_then (read_at_most n)
    (\<lambda>d. if d = [] then raise (Error UnexpectedEof) else read_exact_loop (n - length d) (out @ d))"
  by (intro ext) (auto simp: read_exact_loop.simps [of n] if_distribR intro!: and_then_cong)

lemma performs_exact: "performs (exact (length data)) data data ()"
proof (induction "length data" arbitrary: data rule: less_induct)
  case less
  show ?case
  proof (cases "data = []")
    case False
    let ?f = "\<lambda>d. if d = [] then raise (Error UnexpectedEof) else and_then (write_counted d) (\<lambda>_. exact (length data - length d))"
    have "exact (length data) = and_then (read_at_most (min (length data) HTTP_BUF)) ?f" using False by (simp add: exact_pos)
    moreover have "performs (?f x) tl data ()" if "data = x @ tl" "x \<noteq> []" for x tl
    proof -
      have "performs (exact (length tl)) tl tl ()" by (rule less) (use that in auto)
      from performs_then [OF performs_write [of x] this] show ?thesis using that by simp
    qed
    ultimately show ?thesis using False by (simp add: performs_read)
  next
    case True
    then show ?thesis using True performs_ret [of "()"] by simp
  qed
qed

lemma performs_read_exact: "performs (read_exact_loop (length data) out) data [] (out @ data)"
proof (induction "length data" arbitrary: data out rule: less_induct)
  case less
  show ?case
  proof (cases "data = []")
    case False
    let ?f = "\<lambda>d. if d = [] then raise (Error UnexpectedEof) else read_exact_loop (length data - length d) (out @ d)"
    have "read_exact_loop (length data) out = and_then (read_at_most (length data)) ?f" using False by (simp add: read_exact_pos)
    moreover have "performs (?f x) tl [] (out @ data)" if "data = x @ tl" "x \<noteq> []" for x tl
    proof -
      have "performs (read_exact_loop (length tl) (out @ x)) tl [] ((out @ x) @ tl)" by (rule less) (use that in auto)
      then show ?thesis using that by simp
    qed
    ultimately show ?thesis using False by (simp add: performs_read)
  next
    case True
    then show ?thesis using True performs_ret [of out] by simp
  qed
qed

definition is_line :: "bytes \<Rightarrow> bool" where
  "is_line l \<longleftrightarrow> ends_with CRLF l \<and> LF \<notin> set (butlast l)"

lemma first_split: "xs @ c # ys = us @ c # vs \<Longrightarrow> c \<notin> set xs \<Longrightarrow> c \<notin> set us \<Longrightarrow> xs = us"
  by (metis takeWhile_to)

lemma prefix_before: "b @ rb = z @ c # t \<Longrightarrow> c \<notin> set b \<Longrightarrow> \<exists>z'. z = b @ z'"
  by (induction b arbitrary: z) (auto simp: Cons_eq_append_conv)

lemma read_line_performs:
  "\<lbrakk>read_line limit out c = (r, d); stream_of c = x @ rest; x = z @ [LF]; LF \<notin> set z; ends_with CRLF (out @ x);
     length (out @ x) \<le> limit\<rbrakk> \<Longrightarrow>
   (r = Inr (out @ x) \<and> passed c d x []) \<or> (\<exists>e t. r = Inl e \<and> stalled e \<and> passed c d t [] \<and> prefix t x)"
proof (induction limit out c arbitrary: r d x z rule: read_line.induct)
    case (1 limit out c)
    obtain q s where f: "fill_buf c = (q, s)" by fastforce
    note fs = fill_buf_spec [OF f]
    show ?case
    proof (cases q)
      case (Inl e)
      then have "r = Inl e" "d = s" using 1(2) f by (simp_all add: read_line.simps [of limit out c] and_then_def)
      then show ?thesis using fs fill_buf_stalls f Inl by (metis Nil_prefix)
    next
      case (Inr b)
      let ?n = "line_part b" and ?s = "s\<lparr>hc_buf := drop (line_part b) (hc_buf s)\<rparr>"
      let ?x = "take ?n b"
      have sp: "passed c s [] []" "hc_buf s = b" "b \<noteq> []" using fs Inr 1(3,4) by auto
      have p: "passed c ?s ?x []" using sp by (simp add: passed_def stream_of_def)
      obtain rb where rb: "x @ rest = b @ rb" using fs Inr 1(3) by auto
      have step: "read_line limit out c = (if length out + ?n > limit then (Inl (Error (BadFraming ''HTTP framing too large'')), s)
          else if ends_with [LF] (out @ ?x) then
            (if ends_with CRLF (out @ ?x) then (Inr (out @ ?x), ?s) else (Inl (Error (BadFraming ''HTTP framing requires CRLF'')), ?s))
          else read_line limit (out @ ?x) ?s)"
        using f Inr sp(3) by (simp add: read_line.simps [of limit out c] and_then_def consume_def Let_def)
      show ?thesis
      proof (cases "LF \<in> set b")
        case True
        then obtain u v where u: "b = u @ LF # v" "LF \<notin> set u" by (meson split_list_first)
        have "u = z" using rb u 1(4,5) first_split [of u LF "v @ rb" z rest] by simp
        then have "?x = x" using u 1(4) by (simp add: line_part_def takeWhile_to)
        moreover have "?n = length x" using u \<open>u = z\<close> 1(4) by (simp add: line_part_def takeWhile_to)
        ultimately show ?thesis using 1(2,6,7) step p line_part_ends [OF sp(3), of out] True by simp
      next
        case False
        then have n: "?n = length b" "?x = b" by (simp_all add: line_part_def)
        obtain z' where z': "z = b @ z'" using prefix_before [of b rb z LF rest] rb 1(4) False by auto
        have st: "stream_of ?s = (z' @ [LF]) @ rest" using p 1(3,4) z' n by (simp add: passed_def)
        have le: "\<not> limit < length out + ?n" using 1(4,7) z' n by simp
        then have rl: "read_line limit (out @ ?x) ?s = (r, d)" using 1(2) step line_part_ends [OF sp(3), of out] False by simp
        have nl: "\<not> ends_with [LF] (out @ ?x)" using line_part_ends [OF sp(3), of out] False by simp
        have cs: "consume ?n s = (Inr (), ?s)" by (simp add: consume_def)
        have "(r = Inr ((out @ ?x) @ z' @ [LF]) \<and> passed ?s d (z' @ [LF]) []) \<or>
            (\<exists>e t. r = Inl e \<and> stalled e \<and> passed ?s d t [] \<and> prefix t (z' @ [LF]))"
          using 1(1) [OF f [unfolded Inr] sp(3) refl refl le cs nl rl st refl] 1(4,5,6,7) z' n by simp
        then show ?thesis
        proof
          assume "r = Inr ((out @ ?x) @ z' @ [LF]) \<and> passed ?s d (z' @ [LF]) []"
          then show ?thesis using passed_trans [OF p, of d "z' @ [LF]" "[]"] z' n 1(4) by simp
        next
          assume "\<exists>e t. r = Inl e \<and> stalled e \<and> passed ?s d t [] \<and> prefix t (z' @ [LF])"
          then obtain e t where e: "r = Inl e" "stalled e" "passed ?s d t []" "prefix t (z' @ [LF])" by blast
          have "passed c d (b @ t) []" "prefix (b @ t) x" using passed_trans [OF p e(3)] e(4) z' n 1(4) by simp_all
          then show ?thesis using e by blast
        qed
      qed
    qed
  qed
lemma performs_line:
  assumes "is_line l" and "length l \<le> limit"
  shows "performs (read_line limit []) l [] l"
proof -
  obtain q where "l = (q @ [13]) @ [LF]" using assms(1) by (auto simp: is_line_def ends_with_def)
  then show ?thesis using read_line_performs [of limit "[]" _ _ _ l _ "q @ [13]"] assms unfolding performs_def
    by (auto simp: is_line_def butlast_append)
qed

section \<open>Chunked bodies\<close>

definition last_chunk :: "http_parsers \<Rightarrow> unit http" where
  "last_chunk P = and_then (read_block []) (\<lambda>trailers.
     case hp_trailers P trailers of
       Complete hs \<Rightarrow> write_trailers hs
     | Partial \<Rightarrow> raise (Error (BadFraming ''incomplete HTTP trailers''))
     | BadSyntax \<Rightarrow> raise (Error (BadFraming ''invalid HTTP trailers'')))"

definition chunk_data :: "nat \<Rightarrow> unit http" where
  "chunk_data n = and_then (exact n) (\<lambda>_. and_then (read_exact_loop 2 []) (\<lambda>term.
     if term \<noteq> CRLF then raise (Error (BadFraming ''invalid chunk terminator'')) else write_counted term))"

definition size_line :: "http_parsers \<Rightarrow> u64 http" where
  "size_line P = and_then (read_line HEAD_LIMIT []) (\<lambda>size.
     case hp_chunk P size of
       Complete (used, n) \<Rightarrow>
         if used \<noteq> length size then raise (Error (BadFraming ''invalid chunk extension''))
         else and_then (write_counted size) (\<lambda>_. ret n)
     | Partial \<Rightarrow> raise (Error (BadFraming ''incomplete chunk size''))
     | BadSyntax \<Rightarrow> raise (Error (BadFraming ''invalid chunk size'')))"

text \<open>A lawful step reads a part of the stream and delivers and counts what it writes, whatever its outcome.\<close>

definition lawful :: "'a http \<Rightarrow> bool" where
  "lawful m \<longleftrightarrow> (\<forall>c r d. m c = (r, d) \<longrightarrow> (\<exists>t s. passed c d t s))"

lemma lawful_ret [intro]: "lawful (ret x)"
  by (auto simp: lawful_def intro: passed_refl)

lemma lawful_pair [intro, simp]: "lawful (Pair r)"
  by (auto simp: lawful_def intro: passed_refl)

lemma lawful_raise [intro, simp]: "lawful (raise e)"
  by (auto simp: lawful_def intro: passed_refl)

lemma lawful_then [intro]:
  assumes "lawful m" and "\<And>x. lawful (f x)"
  shows "lawful (and_then m f)"
  unfolding lawful_def
proof (intro allI impI)
  fix c r d assume "and_then m f c = (r, d)"
  then show "\<exists>t s. passed c d t s"
  proof (rule and_then_cases)
    fix x s assume x: "m c = (Inr x, s)" "f x s = (r, d)"
    obtain t u where "passed c s t u" using assms(1) x(1) unfolding lawful_def by blast
    moreover obtain t' u' where "passed s d t' u'" using assms(2) x(2) unfolding lawful_def by blast
    ultimately show ?thesis using passed_trans by blast
  qed (use assms(1) in \<open>auto simp: lawful_def\<close>)
qed

lemma lawful_write [intro, simp]: "lawful (write_counted data)"
  unfolding lawful_def using write_counted_spec by blast

lemma lawful_line [intro, simp]: "lawful (read_line limit out)"
  unfolding lawful_def using read_line_spec by blast

lemma lawful_read: "0 < n \<Longrightarrow> lawful (read_at_most n)"
  unfolding lawful_def by (auto dest!: read_at_most_spec split: sum.splits; blast)

lemma lawful_exact [intro, simp]: "lawful (exact len)"
proof (induction len rule: less_induct)
  case (less len)
  then show ?case by (cases "len = 0") (auto simp: exact_pos intro!: lawful_then lawful_read)
qed

lemma lawful_read_exact [intro, simp]: "lawful (read_exact_loop n out)"
proof (induction n arbitrary: out rule: less_induct)
  case (less n)
  then show ?case by (cases "n = 0") (auto simp: read_exact_pos intro!: lawful_then lawful_read)
qed

lemma block_silent: "read_block acc c = (r, d) \<Longrightarrow> \<exists>t. passed c d t []"
proof (induction acc c arbitrary: r d rule: read_block.induct)
  case (1 acc c)
  from 1(2) [unfolded read_block.simps [of acc c]] show ?case
  proof (rule and_then_cases)
    fix l s assume l: "read_line (HEAD_LIMIT - length acc) [] c = (Inr l, s)"
      "(if l = CRLF then ret (acc @ l) s else read_block (acc @ l) s) = (r, d)"
    obtain t where p: "passed c s t []" using read_line_spec [OF l(1)] by blast
    show ?thesis
    proof (cases "l = CRLF")
      case False
      then obtain t' where "passed s d t' []" using 1(1) [OF l(1) False] l(2) by auto
      then show ?thesis using passed_trans [OF p] by fastforce
    qed (use l p in auto)
  qed (use read_line_spec in blast)
qed

lemma lawful_block [intro, simp]: "lawful (read_block acc)"
  unfolding lawful_def using block_silent by blast

lemma write_trailers_0 [simp]: "write_trailers [] = write_counted CRLF"
  by (intro ext) simp

lemma write_trailers_Cons: "write_trailers ((n, v) # hs) = (if trailer_kept n then and_then (write_counted n) (\<lambda>_.
    and_then (write_counted [58, 32]) (\<lambda>_. and_then (write_counted v) (\<lambda>_. and_then (write_counted CRLF) (\<lambda>_. write_trailers hs))))
    else write_trailers hs)"
  by (intro ext) simp

declare write_trailers.simps [simp del]

lemma lawful_trailers [intro, simp]: "lawful (write_trailers hs)"
proof (induction hs)
  case (Cons h hs)
  then show ?case by (cases h) (auto simp: write_trailers_Cons intro!: lawful_then)
qed simp

lemma lawful_last_chunk [intro, simp]: "lawful (last_chunk P)"
  unfolding last_chunk_def by (intro lawful_then) (auto split: parsed.splits)

lemma lawful_chunk_data [intro, simp]: "lawful (chunk_data n)"
  unfolding chunk_data_def by (intro lawful_then) (auto split: if_splits)

lemma lawful_size_line [intro, simp]: "lawful (size_line P)"
  unfolding size_line_def by (intro lawful_then) (auto intro!: lawful_then split: parsed.splits if_splits)

lemma lawful_shorter: "lawful m \<Longrightarrow> m c = (r, d) \<Longrightarrow> length (stream_of d) \<le> length (stream_of c)"
  unfolding lawful_def by (fastforce simp: passed_def)

lemma size_line_Inr:
  assumes "size_line P c = (Inr n, d)"
  obtains l where "is_line l" "length l \<le> HEAD_LIMIT" "hp_chunk P l = Complete (length l, n)" "passed c d l l"
proof -
  from assms obtain l s where l: "read_line HEAD_LIMIT [] c = (Inr l, s)" and
    w: "(case hp_chunk P l of Complete (used, n) \<Rightarrow>
         if used \<noteq> length l then raise (Error (BadFraming ''invalid chunk extension'')) else and_then (write_counted l) (\<lambda>_. ret n)
     | Partial \<Rightarrow> raise (Error (BadFraming ''incomplete chunk size''))
     | BadSyntax \<Rightarrow> raise (Error (BadFraming ''invalid chunk size''))) s = (Inr n, d)"
    unfolding size_line_def and_then_Inr_iff by blast
  then have c: "hp_chunk P l = Complete (length l, n)" "write_counted l s = (Inr (), d)"
    by (auto simp: and_then_def split: parsed.splits if_splits prod.splits sum.splits)
  obtain x where x: "passed c s x []" "l = x" "ends_with CRLF l" "LF \<notin> set (butlast x)" using read_line_spec [OF l] by auto
  obtain sent where "passed s d [] sent" "sent = l" using write_counted_spec [OF c(2)] by auto
  then have "passed c d l l" using passed_trans [OF x(1), of d "[]" l] x(2) by simp
  then show thesis using that c(1) x read_line_length [OF l] unfolding is_line_def by blast
qed

function chunked :: "http_parsers \<Rightarrow> unit http" where
  "chunked P c = and_then (size_line P) (\<lambda>n s.
     if n = 0 then last_chunk P s else and_then (chunk_data (unat n)) (\<lambda>_ t. chunked P t) s) c"
  by pat_completeness auto
termination
proof (relation "measure (length \<circ> stream_of \<circ> snd)", simp)
  fix P c n s and x :: unit and t assume "size_line P c = (Inr n, s)" "chunk_data (unat n) s = (Inr x, t)"
  then have "length (stream_of s) < length (stream_of c)" "length (stream_of t) \<le> length (stream_of s)"
    using lawful_shorter [OF lawful_chunk_data] by (auto elim!: size_line_Inr simp: passed_def is_line_def ends_with_def)
  then show "((P, t), P, c) \<in> measure (length \<circ> stream_of \<circ> snd)" by simp
qed

declare chunked.simps [simp del]


section \<open>The form of a chunked body\<close>

text \<open>
  The bytes of a chunked body and what the upstream is sent for it: the chunks unchanged, the trailers without
  those a proxy must not pass on.
\<close>

inductive block :: "nat \<Rightarrow> bytes \<Rightarrow> bool" where
  last: "length CRLF \<le> limit \<Longrightarrow> block limit CRLF"
| more: "\<lbrakk>is_line l; l \<noteq> CRLF; length l \<le> limit; block (limit - length l) b\<rbrakk> \<Longrightarrow> block limit (l @ b)"

definition trailers_out :: "headers \<Rightarrow> bytes" where
  "trailers_out hs = concat (map (\<lambda>(n, v). n @ [58, 32] @ v @ CRLF) (filter (trailer_kept \<circ> fst) hs)) @ CRLF"

inductive chunk_form :: "http_parsers \<Rightarrow> bytes \<Rightarrow> bytes \<Rightarrow> bool" for P where
  last: "\<lbrakk>is_line l; length l \<le> HEAD_LIMIT; hp_chunk P l = Complete (length l, 0); block HEAD_LIMIT b;
     hp_trailers P b = Complete hs\<rbrakk> \<Longrightarrow> chunk_form P (l @ b) (l @ trailers_out hs)"
| chunk: "\<lbrakk>is_line l; length l \<le> HEAD_LIMIT; hp_chunk P l = Complete (length l, n); n \<noteq> 0; length data = unat n;
     chunk_form P body out\<rbrakk> \<Longrightarrow> chunk_form P (l @ data @ CRLF @ body) (l @ data @ CRLF @ out)"

lemma performs_trailers: "performs (write_trailers hs) [] (trailers_out hs) ()"
proof (induction hs)
  case Nil
  then show ?case using performs_write [of CRLF] by (simp add: trailers_out_def)
next
  case (Cons h hs)
  obtain n v where h: "h = (n, v)" by fastforce
  show ?case
  proof (cases "trailer_kept n")
    case True
    have "performs (and_then (write_counted n) (\<lambda>_. and_then (write_counted [58, 32]) (\<lambda>_. and_then (write_counted v) (\<lambda>_.
        and_then (write_counted CRLF) (\<lambda>_. write_trailers hs))))) ([] @ [] @ [] @ [] @ []) (n @ [58, 32] @ v @ CRLF @ trailers_out hs) ()"
      by (intro performs_then performs_write Cons.IH)
    then show ?thesis using True h by (simp add: write_trailers_Cons trailers_out_def)
  next
    case False
    then show ?thesis using Cons.IH h by (simp add: write_trailers_Cons trailers_out_def)
  qed
qed

lemma read_block_eq: "read_block acc = and_then (read_line (HEAD_LIMIT - length acc) []) (\<lambda>l.
    if l = CRLF then ret (acc @ l) else read_block (acc @ l))"
  by (intro ext) (auto simp: read_block.simps [of acc] if_distribR intro!: and_then_cong)

lemma performs_block: "block limit b \<Longrightarrow> limit = HEAD_LIMIT - length acc \<Longrightarrow> performs (read_block acc) b [] (acc @ b)"
proof (induction limit b arbitrary: acc rule: block.induct)
  case (last limit)
  have "is_line CRLF" by (simp add: is_line_def ends_with_def)
  from performs_then [OF performs_line [OF this last(1)], of "\<lambda>l. if l = CRLF then ret (acc @ l) else read_block (acc @ l)" "[]" "[]" "acc @ CRLF"]
  show ?case using last(2) performs_ret [of "acc @ CRLF"] by (simp add: read_block_eq [of acc])
next
  case (more l limit b)
  have "performs (read_block (acc @ l)) b [] ((acc @ l) @ b)"
    using more(5) [of "acc @ l"] more(6) by simp
  from performs_then [OF performs_line [OF more(1,3)], of "\<lambda>l. if l = CRLF then ret (acc @ l) else read_block (acc @ l)" b "[]" "acc @ l @ b"] this
  show ?case using more(2,6) by (simp add: read_block_eq [of acc])
qed

lemma performs_size_line:
  assumes "is_line l" "length l \<le> HEAD_LIMIT" "hp_chunk P l = Complete (length l, n)"
  shows "performs (size_line P) l l n"
proof -
  have "performs (and_then (write_counted l) (\<lambda>_. ret n)) ([] @ []) (l @ []) n" by (intro performs_then performs_write performs_ret)
  then show ?thesis
    unfolding size_line_def using assms(3) by (intro performs_bind [OF performs_line [OF assms(1,2)]]) simp_all
qed

lemma performs_chunk_data: "performs (chunk_data (length data)) (data @ CRLF) (data @ CRLF) ()"
proof -
  have "performs (read_exact_loop 2 []) CRLF [] CRLF" using performs_read_exact [of CRLF "[]"] by (simp add: numeral_2_eq_2)
  moreover have "performs ((\<lambda>term. if term \<noteq> CRLF then raise (Error (BadFraming ''invalid chunk terminator'')) else write_counted term) CRLF) [] CRLF ()"
    using performs_write [of CRLF] by simp
  ultimately have "performs (and_then (read_exact_loop 2 []) (\<lambda>term. if term \<noteq> CRLF then raise (Error (BadFraming ''invalid chunk terminator'')) else write_counted term))
      (CRLF @ []) ([] @ CRLF) ()" by (rule performs_then)
  from performs_then [OF performs_exact [of data], of "\<lambda>_. and_then (read_exact_loop 2 []) (\<lambda>term. if term \<noteq> CRLF then raise (Error (BadFraming ''invalid chunk terminator'')) else write_counted term)", OF this]
  show ?thesis by (simp add: chunk_data_def)
qed

lemma chunked_eq: "chunked P = and_then (size_line P) (\<lambda>n. if n = 0 then last_chunk P else and_then (chunk_data (unat n)) (\<lambda>_. chunked P))"
  by (intro ext) (auto simp: chunked.simps [of P] if_distribR intro!: and_then_cong)

lemma performs_chunked: "chunk_form P body out \<Longrightarrow> performs (chunked P) body out ()"
proof (induction rule: chunk_form.induct)
  case (last l b hs)
  have "performs (last_chunk P) (b @ []) ([] @ trailers_out hs) ()"
    unfolding last_chunk_def using performs_block [OF last(4), of "[]"] performs_trailers last(5) by (intro performs_then) auto
  from performs_then [OF performs_size_line [OF last(1,2,3)], of "\<lambda>n. if n = 0 then last_chunk P else and_then (chunk_data (unat n)) (\<lambda>_. chunked P)"] this
  show ?case by (simp add: chunked_eq [of P])
next
  case (chunk l n data body out)
  have "performs (and_then (chunk_data (unat n)) (\<lambda>_. chunked P)) ((data @ CRLF) @ body) ((data @ CRLF) @ out) ()"
    using performs_then [OF performs_chunk_data [of data] chunk.IH] chunk(5) by simp
  from performs_then [OF performs_size_line [OF chunk(1,2,3)], of "\<lambda>n. if n = 0 then last_chunk P else and_then (chunk_data (unat n)) (\<lambda>_. chunked P)", OF _] this chunk(4)
  show ?case by (simp add: chunked_eq [of P])
qed

lemma performs_Inr:
  assumes "performs m [] out x" and "m c = (Inr y, d)"
  shows "passed c d [] out"
  using assms unfolding performs_def by (metis append_Nil sum.simps(4))

lemma exact_Inr: "exact len c = (Inr (), d) \<Longrightarrow> \<exists>data. length data = len \<and> passed c d data data"
proof (induction len arbitrary: c rule: less_induct)
  case (less len)
  show ?case
  proof (cases "len = 0")
    case True
    then show ?thesis using less(2) by (auto intro: passed_refl)
  next
    case False
    then obtain x s t where x: "read_at_most (min len HTTP_BUF) c = (Inr x, s)" "x \<noteq> []" "write_counted x s = (Inr (), t)"
        "exact (len - length x) t = (Inr (), d)"
      using less(2) by (auto simp: exact_pos and_then_Inr_iff split: if_splits)
    have p: "passed c s x []" "length x \<le> len" using read_at_most_spec [OF x(1)] False by auto
    obtain data where d: "length data = len - length x" "passed t d data data" using less(1) [OF _ x(4)] x(2) False by (cases x) auto
    have "passed c d (x @ data) (x @ data)"
      using passed_trans [OF passed_trans [OF p(1) performs_Inr [OF performs_write x(3)]] d(2)] by simp
    then show ?thesis using d(1) p(2) by (intro exI [of _ "x @ data"]) simp
  qed
qed

lemma read_exact_loop_Inr: "read_exact_loop n out c = (Inr l, d) \<Longrightarrow> \<exists>x. l = out @ x \<and> passed c d x []"
proof (induction n arbitrary: c out rule: less_induct)
  case (less n)
  show ?case
  proof (cases "n = 0")
    case True
    then show ?thesis using less(2) by (auto intro: passed_refl)
  next
    case False
    then obtain x s where x: "read_at_most n c = (Inr x, s)" "x \<noteq> []" "read_exact_loop (n - length x) (out @ x) s = (Inr l, d)"
      using less(2) by (auto simp: read_exact_pos and_then_Inr_iff split: if_splits)
    obtain y where "l = (out @ x) @ y" "passed s d y []" using less(1) [OF _ x(3)] x(2) False by (cases x) auto
    moreover have "passed c s x []" using read_at_most_spec [OF x(1)] False by simp
    ultimately show ?thesis using passed_trans by fastforce
  qed
qed

lemma read_block_Inr: "read_block acc c = (Inr b, d) \<Longrightarrow> \<exists>x. b = acc @ x \<and> x \<noteq> [] \<and> block (HEAD_LIMIT - length acc) x \<and> passed c d x []"
proof (induction acc c rule: read_block.induct)
  case (1 acc c)
  from 1(2) obtain l s where l: "read_line (HEAD_LIMIT - length acc) [] c = (Inr l, s)"
    and r: "(if l = CRLF then ret (acc @ l) s else read_block (acc @ l) s) = (Inr b, d)"
    unfolding read_block.simps [of acc c] and_then_Inr_iff by blast
  obtain x where x: "passed c s x []" "l = x" "ends_with CRLF l" "LF \<notin> set (butlast x)" using read_line_spec [OF l] by auto
  have len: "length l \<le> HEAD_LIMIT - length acc" "l \<noteq> []" using read_line_length [OF l] by auto
  show ?case
  proof (cases "l = CRLF")
    case True
    then show ?thesis using r x len by (auto intro!: block.last)
  next
    case False
    then obtain y where y: "b = (acc @ l) @ y" "block (HEAD_LIMIT - length (acc @ l)) y" "passed s d y []" using 1(1) [OF l False] r by auto
    have "block (HEAD_LIMIT - length acc) (l @ y)" using y(2) x len False by (intro block.more) (auto simp: is_line_def)
    then show ?thesis using passed_trans [OF x(1) y(3)] x(2) y(1) len by (intro exI [of _ "l @ y"]) simp
  qed
qed

lemma last_chunk_Inr:
  assumes "last_chunk P c = (Inr (), d)"
  shows "\<exists>b hs. block HEAD_LIMIT b \<and> hp_trailers P b = Complete hs \<and> passed c d b (trailers_out hs)"
proof -
  from assms obtain b s where b: "read_block [] c = (Inr b, s)" and t: "(case hp_trailers P b of
       Complete hs \<Rightarrow> write_trailers hs
     | Partial \<Rightarrow> raise (Error (BadFraming ''incomplete HTTP trailers''))
     | BadSyntax \<Rightarrow> raise (Error (BadFraming ''invalid HTTP trailers''))) s = (Inr (), d)"
    unfolding last_chunk_def and_then_Inr_iff by blast
  then obtain hs where hs: "hp_trailers P b = Complete hs" "write_trailers hs s = (Inr (), d)" by (auto split: parsed.splits)
  have "block HEAD_LIMIT b" "passed c s b []" using read_block_Inr [OF b] by auto
  then show ?thesis using passed_trans performs_Inr [OF performs_trailers hs(2)] hs(1) by fastforce
qed

lemma chunk_data_Inr:
  assumes "chunk_data n c = (Inr (), d)"
  shows "\<exists>data. length data = n \<and> passed c d (data @ CRLF) (data @ CRLF)"
proof -
  from assms obtain s e t where e: "exact n c = (Inr (), s)" "read_exact_loop 2 [] s = (Inr e, t)"
      "(if e \<noteq> CRLF then raise (Error (BadFraming ''invalid chunk terminator'')) else write_counted e) t = (Inr (), d)"
    unfolding chunk_data_def and_then_Inr_iff by auto
  then have c: "e = CRLF" "write_counted CRLF t = (Inr (), d)" by (auto split: if_splits)
  obtain data where data: "length data = n" "passed c s data data" using exact_Inr [OF e(1)] by blast
  have "passed s t CRLF []" using read_exact_loop_Inr [OF e(2)] c(1) by auto
  from passed_trans [OF data(2) passed_trans [OF this performs_Inr [OF performs_write c(2)]]]
  show ?thesis using data(1) by auto
qed

lemma chunked_Inr: "chunked P c = (Inr (), d) \<Longrightarrow> \<exists>body out. chunk_form P body out \<and> passed c d body out"
proof (induction P c rule: chunked.induct)
  case (1 P c)
  from 1(2) obtain n s where n: "size_line P c = (Inr n, s)"
    and r: "(if n = 0 then last_chunk P s else and_then (chunk_data (unat n)) (\<lambda>_ t. chunked P t) s) = (Inr (), d)"
    unfolding chunked.simps [of P c] and_then_Inr_iff by blast
  from n obtain l where l: "is_line l" "length l \<le> HEAD_LIMIT" "hp_chunk P l = Complete (length l, n)" "passed c s l l"
    by (rule size_line_Inr)
  show ?case
  proof (cases "n = 0")
    case True
    then obtain b hs where "block HEAD_LIMIT b" "hp_trailers P b = Complete hs" "passed s d b (trailers_out hs)"
      using last_chunk_Inr r by fastforce
    then show ?thesis using chunk_form.last [of l P b hs] l True passed_trans [OF l(4)] by blast
  next
    case False
    then obtain t where t: "chunk_data (unat n) s = (Inr (), t)" "chunked P t = (Inr (), d)" using r by (auto simp: and_then_Inr_iff)
    obtain data where data: "length data = unat n" "passed s t (data @ CRLF) (data @ CRLF)" using chunk_data_Inr [OF t(1)] by blast
    obtain body out where bo: "chunk_form P body out" "passed t d body out" using 1(1) [OF n False t(1)] t(2) by blast
    have "passed c d (l @ data @ CRLF @ body) (l @ data @ CRLF @ out)"
      using passed_trans [OF l(4) passed_trans [OF data(2) bo(2)]] by simp
    then show ?thesis using chunk_form.chunk [OF l(1,2,3) False data(1) bo(1)] by blast
  qed
qed

lemma lawful_chunked [intro, simp]: "lawful (chunked P)"
proof -
  have "\<exists>t s. passed c d t s" if "chunked P c = (r, d)" for c r d
    using that
  proof (induction P c arbitrary: r d rule: chunked.induct)
    case (1 P c)
    from 1(2) [unfolded chunked.simps [of P c]] show ?case
    proof (rule and_then_cases)
      fix n s assume n: "size_line P c = (Inr n, s)" "(if n = 0 then last_chunk P s else and_then (chunk_data (unat n)) (\<lambda>_ t. chunked P t) s) = (r, d)"
      obtain t u where p: "passed c s t u" using lawful_size_line n(1) unfolding lawful_def by blast
      obtain t' u' where "passed s d t' u'"
      proof (cases "n = 0")
        case True
        then show ?thesis using n(2) lawful_last_chunk that unfolding lawful_def by metis
      next
        case False
        then have "and_then (chunk_data (unat n)) (\<lambda>_ t. chunked P t) s = (r, d)" using n(2) by simp
        then show ?thesis
        proof (rule and_then_cases)
          fix x t assume x: "chunk_data (unat n) s = (Inr x, t)" "chunked P t = (r, d)"
          obtain a b where "passed s t a b" using lawful_chunk_data x(1) unfolding lawful_def by blast
          then show ?thesis using 1(1) [OF n(1) False x] passed_trans that by blast
        next
          fix e assume "chunk_data (unat n) s = (Inl e, d)"
          then show ?thesis using lawful_chunk_data that unfolding lawful_def by blast
        qed
      qed
      then show ?thesis using passed_trans p by blast
    qed (use lawful_size_line in \<open>auto simp: lawful_def\<close>)
  qed
  then show ?thesis by (simp add: lawful_def)
qed


section \<open>Both directions\<close>

definition is_ascii_space :: "u8 \<Rightarrow> bool" where
  "is_ascii_space b \<longleftrightarrow> b \<in> {9, 10, 12, 13, 32}"

definition trim_ascii :: "bytes \<Rightarrow> bytes" where
  "trim_ascii s = rev (dropWhile is_ascii_space (rev (dropWhile is_ascii_space s)))"

abbreviation (input) comma :: u8 where "comma \<equiv> 44"

text \<open>Does a header field of that name list the token?\<close>

definition lists_token :: "bytes \<Rightarrow> bytes \<Rightarrow> bytes \<times> bytes \<Rightarrow> bool" where
  "lists_token name token h \<longleftrightarrow> eq_nocase (fst h) name \<and>
     list_ex (\<lambda>v. eq_nocase (trim_ascii v) token) (split_on comma (snd h))"

definition upgrade_accepted :: "bytes \<Rightarrow> headers \<Rightarrow> bool" where
  "upgrade_accepted protocol hs \<longleftrightarrow>
     list_ex (\<lambda>h. eq_nocase (fst h) (bytes_of ''upgrade'') \<and> eq_nocase (snd h) protocol) hs \<and>
     list_ex (lists_token (bytes_of ''connection'') (bytes_of ''upgrade'')) hs"

lemma block_not_Nil: "block limit b \<Longrightarrow> b \<noteq> []"
  by (induction rule: block.induct) auto

text \<open>The response heads up to the final one; is the protocol changed?\<close>

function upgrade_heads :: "http_parsers \<Rightarrow> bytes \<Rightarrow> bool http" where
  "upgrade_heads P protocol c = and_then (read_block []) (\<lambda>head s.
     case hp_response P head of
       None \<Rightarrow> raise (Error (BadFraming ''invalid upgrade response'')) s
     | Some (None, _) \<Rightarrow> raise (Error (BadFraming ''missing HTTP status'')) s
     | Some (Some code, hs) \<Rightarrow>
         if code = 101 \<and> \<not> upgrade_accepted protocol hs then raise (Error (BadFraming ''unaccepted HTTP upgrade'')) s
         else and_then (write_counted head) (\<lambda>_ t.
           if code = 101 \<or> code \<ge> 200 then ret (code = 101) t else upgrade_heads P protocol t) s) c"
  by pat_completeness auto
termination
proof (relation "measure (length \<circ> stream_of \<circ> snd \<circ> snd)", simp)
  fix P protocol c head s and u :: unit and t
  assume "read_block [] c = (Inr head, s)" "write_counted head s = (Inr u, t)"
  then have "passed c s head []" "head \<noteq> []" "stream_of t = stream_of s" using read_block_Inr write_counted_same by fastforce+
  then show "((P, protocol, t), P, protocol, c) \<in> measure (length \<circ> stream_of \<circ> snd \<circ> snd)" by (auto simp: passed_def)
qed

declare upgrade_heads.simps [simp del]

definition http_shutdown :: "unit http" where
  "http_shutdown c = (Inr (), c\<lparr>hc_wire := shutdown_write (hc_wire c)\<rparr>)"

definition upload_body :: "http_parsers \<Rightarrow> body \<Rightarrow> unit http" where
  "upload_body P b = (case b of Fixed len \<Rightarrow> exact (unat len) | Chunked \<Rightarrow> chunked P)"

text \<open>
  \<open>decided\<close> is what the response said about the change of protocol, if it has come that far.
\<close>

definition upload :: "http_parsers \<Rightarrow> http_req \<Rightarrow> bool option \<Rightarrow> unit http" where
  "upload P req decided = and_then (upload_body P (hq_body req)) (\<lambda>_.
     and_then (if hq_upgrade req = None then ret ()
       else case decided of None \<Rightarrow> raise Pending | Some yes \<Rightarrow> if yes then http_copy else ret ()) (\<lambda>_. http_shutdown))"

definition response_heads :: "http_parsers \<Rightarrow> http_req \<Rightarrow> bool http" where
  "response_heads P req = (case hq_upgrade req of Some protocol \<Rightarrow> upgrade_heads P protocol | None \<Rightarrow> ret False)"

definition download :: "http_parsers \<Rightarrow> http_req \<Rightarrow> unit http" where
  "download P req = and_then (response_heads P req) (\<lambda>_. and_then http_copy (\<lambda>_. http_shutdown))"

definition decision :: "http_parsers \<Rightarrow> http_req \<Rightarrow> hconn \<Rightarrow> bool option" where
  "decision P req c = (case fst (response_heads P req c) of Inr yes \<Rightarrow> Some yes | Inl _ \<Rightarrow> None)"

definition reader_on :: "bytes \<Rightarrow> wire \<Rightarrow> hconn" where
  "reader_on replayed w = \<lparr> hc_buf = [], hc_prefix = replayed, hc_wire = w \<rparr>"

text \<open>
  The relay, over what the network does to each direction; the direction that the other one's end cuts short
  has no more events.
\<close>

definition http_relay_run :: "http_parsers \<Rightarrow> http_req \<Rightarrow> bytes \<Rightarrow> wire \<times> wire \<Rightarrow> wire \<times> wire" where
  "http_relay_run P req replayed ws =
     (hc_wire (snd (upload P req (decision P req (reader_on [] (snd ws))) (reader_on replayed (fst ws)))),
      hc_wire (snd (download P req (reader_on [] (snd ws)))))"

section \<open>Properties\<close>

definition body_form :: "http_parsers \<Rightarrow> body \<Rightarrow> bytes \<Rightarrow> bytes \<Rightarrow> bool" where
  "body_form P b body out \<longleftrightarrow> (case b of Fixed len \<Rightarrow> length body = unat len \<and> out = body | Chunked \<Rightarrow> chunk_form P body out)"

lemma performs_body: "body_form P b body out \<Longrightarrow> performs (upload_body P b) body out ()"
  using performs_exact [of body] performs_chunked by (auto simp: body_form_def upload_body_def split: body.splits)

lemma body_Inr: "upload_body P b c = (Inr (), d) \<Longrightarrow> \<exists>body out. body_form P b body out \<and> passed c d body out"
  using exact_Inr chunked_Inr by (fastforce simp: body_form_def upload_body_def split: body.splits)

lemma lawful_body [intro, simp]: "lawful (upload_body P b)"
  by (auto simp: upload_body_def split: body.splits)

lemma http_copy_eq: "http_copy = and_then (read_at_most HTTP_BUF) (\<lambda>d.
    if d = [] then ret () else and_then (write_counted d) (\<lambda>_. http_copy))"
  by (intro ext) (auto simp: http_copy.simps if_distribR intro!: and_then_cong)

lemma http_copy_spec: "http_copy c = (r, d) \<Longrightarrow>
  \<exists>t s. passed c d t s \<and> prefix s t \<and> (r = Inr () \<longrightarrow> s = t \<and> stream_of d = [])"
proof (induction c rule: http_copy.induct)
  case (1 c)
  from 1(2) [unfolded http_copy.simps [of c]] show ?case
  proof (rule and_then_cases)
    fix e assume "read_at_most HTTP_BUF c = (Inl e, d)" "r = Inl e"
    then show ?thesis using read_at_most_spec [of HTTP_BUF c "Inl e" d] by fastforce
  next
    fix x s assume x: "read_at_most HTTP_BUF c = (Inr x, s)" "(if x = [] then ret () s else and_then (write_counted x) (\<lambda>_ t. http_copy t) s) = (r, d)"
    have p: "passed c s x []" "x = [] \<longrightarrow> stream_of c = []" using read_at_most_spec [OF x(1)] by auto
    show ?thesis
    proof (cases "x = []")
      case True
      then have "d = s" "r = Inr ()" using x(2) by simp_all
      then show ?thesis using p True by (intro exI [of _ "[]"] conjI) (simp_all add: passed_def)
    next
      case False
      then have "and_then (write_counted x) (\<lambda>_ t. http_copy t) s = (r, d)" using x(2) by simp
      then show ?thesis
      proof (rule and_then_cases)
        fix e assume w: "write_counted x s = (Inl e, d)" "r = Inl e"
        then obtain sent tl where "passed s d [] sent" "x = sent @ tl" using write_counted_spec [OF w(1)] by blast
        then show ?thesis using passed_trans [OF p(1), of d "[]" sent] w(2) by (intro exI [of _ x] exI [of _ sent]) auto
      next
        fix u t assume w: "write_counted x s = (Inr u, t)" "http_copy t = (r, d)"
        obtain a b where ab: "passed t d a b" "prefix b a" "r = Inr () \<longrightarrow> b = a \<and> stream_of d = []" using 1(1) [OF x(1) False _ w(2)] w(1) by auto
        have "passed c d (x @ a) (x @ b)" using passed_trans [OF passed_trans [OF p(1) performs_Inr [OF performs_write]]] w(1) ab(1) by fastforce
        then show ?thesis using ab by (intro exI [of _ "x @ a"] exI [of _ "x @ b"]) auto
      qed
    qed
  qed
qed

lemma stream_reader [simp]: "stream_of (reader_on replayed w) = replayed @ w_src w" "hc_wire (reader_on replayed w) = w"
  by (simp_all add: stream_of_def reader_on_def)

text \<open>
  A body that is cut short, or that is followed by more: what is sent of it, and that the rest is not.
\<close>

lemma upload_delimits:
  assumes run: "upload P req decided c = (r, d)" and stays: "decided \<noteq> Some True \<or> hq_upgrade req = None"
  shows "\<exists>sent. w_dst (hc_wire d) = w_dst (hc_wire c) @ sent \<and> w_counter (hc_wire d) = w_counter (hc_wire c) + of_nat (length sent) \<and>
    (\<forall>body out rest. body_form P (hq_body req) body out \<longrightarrow> stream_of c = body @ rest \<longrightarrow> prefix sent out) \<and>
    (w_shut (hc_wire d) \<longrightarrow> w_shut (hc_wire c) \<or> (\<exists>body rest. body_form P (hq_body req) body sent \<and> stream_of c = body @ rest))"
  using run [unfolded upload_def]
proof (rule and_then_cases)
  fix e assume e: "upload_body P (hq_body req) c = (Inl e, d)" "r = Inl e"
  obtain t s where p: "passed c d t s" using lawful_body e(1) unfolding lawful_def by blast
  have "prefix s out" if f: "body_form P (hq_body req) body out" and st: "stream_of c = body @ rest" for body out rest
  proof -
    obtain t' s' where "passed c d t' s'" "prefix s' out" using performs_body [OF f] st e(1) unfolding performs_def by blast
    then show ?thesis using p by (simp add: passed_def)
  qed
  then show ?thesis using p by (auto simp: passed_def)
next
  fix u s assume x: "upload_body P (hq_body req) c = (Inr u, s)" "and_then (if hq_upgrade req = None then ret ()
       else case decided of None \<Rightarrow> raise Pending | Some yes \<Rightarrow> if yes then http_copy else ret ()) (\<lambda>_. http_shutdown) s = (r, d)"
  obtain body out where b: "body_form P (hq_body req) body out" "passed c s body out" using body_Inr x(1) by fastforce
  have d: "w_dst (hc_wire d) = w_dst (hc_wire s)" "w_counter (hc_wire d) = w_counter (hc_wire s)" "w_shut (hc_wire d) \<longrightarrow> w_shut (hc_wire s) \<or> True"
    using x(2) stays by (auto simp: and_then_def http_shutdown_def shutdown_write_def split: if_splits option.splits bool.splits)
  have "prefix out out'" if "body_form P (hq_body req) body' out'" "stream_of c = body' @ rest" for body' out' rest
  proof -
    have "passed c s body' out'" using performs_body [OF that(1)] that(2) x(1) unfolding performs_def by fastforce
    then show ?thesis using b(2) by (simp add: passed_def)
  qed
  then show ?thesis using b d by (auto simp: passed_def)
qed

lemma upload_continues:
  assumes run: "upload P req decided c = (r, d)" and f: "body_form P (hq_body req) body out" and st: "stream_of c = body @ rest"
  shows "\<exists>sent. w_dst (hc_wire d) = w_dst (hc_wire c) @ sent \<and> (prefix sent out \<or> (\<exists>more. sent = out @ more \<and> prefix more rest))"
  using run [unfolded upload_def]
proof (rule and_then_cases)
  fix e assume e: "upload_body P (hq_body req) c = (Inl e, d)" "r = Inl e"
  then obtain t s where "passed c d t s" "prefix s out" using performs_body [OF f] st unfolding performs_def by blast
  then show ?thesis by (auto simp: passed_def)
next
  fix u s assume x: "upload_body P (hq_body req) c = (Inr u, s)" "and_then (if hq_upgrade req = None then ret ()
       else case decided of None \<Rightarrow> raise Pending | Some yes \<Rightarrow> if yes then http_copy else ret ()) (\<lambda>_. http_shutdown) s = (r, d)"
  have p: "passed c s body out" using performs_body [OF f] st x(1) unfolding performs_def by fastforce
  have "\<exists>more. w_dst (hc_wire d) = w_dst (hc_wire s) @ more \<and> prefix more (stream_of s)"
  proof (cases "decided = Some True \<and> hq_upgrade req \<noteq> None")
    case True
    then have "and_then http_copy (\<lambda>_. http_shutdown) s = (r, d)" using x(2) by auto
    then show ?thesis
    proof (rule and_then_cases)
      fix e assume "http_copy s = (Inl e, d)"
      then obtain t m where "passed s d t m" "prefix m t" using http_copy_spec by blast
      then show ?thesis by (auto simp: passed_def prefix_def)
    next
      fix v t assume v: "http_copy s = (Inr v, t)" "http_shutdown t = (r, d)"
      obtain a m where "passed s t a m" "prefix m a" using http_copy_spec [OF v(1)] by blast
      then show ?thesis using v(2) by (auto simp: passed_def prefix_def http_shutdown_def shutdown_write_def)
    qed
  next
    case False
    then have "w_dst (hc_wire d) = w_dst (hc_wire s)" using x(2)
      by (auto simp: and_then_def http_shutdown_def shutdown_write_def split: if_splits option.splits bool.splits)
    then show ?thesis by auto
  qed
  then show ?thesis using p st by (auto simp: passed_def)
qed

text \<open>A response head that accepts the protocol, at the end of what was read.\<close>

definition accepted_in :: "http_parsers \<Rightarrow> bytes \<Rightarrow> bytes \<Rightarrow> bool" where
  "accepted_in P protocol t \<longleftrightarrow> (\<exists>before head hs. t = before @ head \<and> hp_response P head = Some (Some 101, hs) \<and> upgrade_accepted protocol hs)"

lemma accepted_in_append: "accepted_in P protocol t \<Longrightarrow> accepted_in P protocol (x @ t)"
  unfolding accepted_in_def by (metis append_assoc)

lemma upgrade_heads_spec: "upgrade_heads P protocol c = (r, d) \<Longrightarrow>
  \<exists>t s. passed c d t s \<and> prefix s t \<and> (\<forall>yes. r = Inr yes \<longrightarrow> s = t \<and> (yes \<longrightarrow> accepted_in P protocol t))"
proof (induction P protocol c arbitrary: r d rule: upgrade_heads.induct)
  case (1 P protocol c)
  let ?next = "\<lambda>head s. case hp_response P head of
       None \<Rightarrow> raise (Error (BadFraming ''invalid upgrade response'')) s
     | Some (None, _) \<Rightarrow> raise (Error (BadFraming ''missing HTTP status'')) s
     | Some (Some code, hs) \<Rightarrow>
         if code = 101 \<and> \<not> upgrade_accepted protocol hs then raise (Error (BadFraming ''unaccepted HTTP upgrade'')) s
         else and_then (write_counted head) (\<lambda>_ t.
           if code = 101 \<or> code \<ge> 200 then ret (code = 101) t else upgrade_heads P protocol t) s"
  from 1(2) [unfolded upgrade_heads.simps [of P protocol c]] show ?case
  proof (rule and_then_cases)
    fix e assume "read_block [] c = (Inl e, d)" "r = Inl e"
    then show ?thesis using block_silent [of "[]" c "Inl e" d] by fastforce
  next
    fix head s assume h: "read_block [] c = (Inr head, s)" and nx: "?next head s = (r, d)"
    have p: "passed c s head []" using read_block_Inr [OF h] by auto
    let ?go = "\<lambda>code. and_then (write_counted head) (\<lambda>_ t. if code = 101 \<or> code \<ge> 200 then ret (code = 101) t else upgrade_heads P protocol t)"
    consider "(\<exists>e. r = Inl e) \<and> d = s"
      | code hs where "hp_response P head = Some (Some code, hs)" "\<not> (code = 101 \<and> \<not> upgrade_accepted protocol hs)" "?go code s = (r, d)"
    proof (cases "hp_response P head")
      case None
      then show thesis using nx that(1) by auto
    next
      case (Some a)
      obtain oc hs where a: "a = (oc, hs)" by fastforce
      show thesis
      proof (cases oc)
        case None
        then show thesis using nx that(1) \<open>hp_response P head = Some a\<close> a by auto
      next
        case (Some code)
        show thesis
        proof (cases "code = 101 \<and> \<not> upgrade_accepted protocol hs")
          case True
          then show thesis using nx that(1) \<open>hp_response P head = Some a\<close> a Some by auto
        next
          case False
          have g: "hp_response P head = Some (Some code, hs)" using \<open>hp_response P head = Some a\<close> a Some by simp
          have "?go code s = (r, d)" using nx False by (simp only: g option.case prod.case if_False)
          then show thesis by (rule that(2) [OF g False])
        qed
      qed
    qed
    then show ?thesis
    proof cases
      case 1
      then show ?thesis using p by (intro exI [of _ head] exI [of _ "[]"]) auto
    next
      case ch: (2 code hs)
      from ch(3)
      show ?thesis
      proof (rule and_then_cases)
        fix e assume w: "write_counted head s = (Inl e, d)" "r = Inl e"
        then obtain sent tl where "passed s d [] sent" "head = sent @ tl" using write_counted_spec [OF w(1)] by blast
        then show ?thesis using passed_trans [OF p, of d "[]" sent] w(2) by (intro exI [of _ head] exI [of _ sent]) auto
      next
        fix u t assume w: "write_counted head s = (Inr u, t)" "(if code = 101 \<or> code \<ge> 200 then ret (code = 101) t else upgrade_heads P protocol t) = (r, d)"
        have pt: "passed c t head head" using passed_trans [OF p performs_Inr [OF performs_write w(1)]] by simp
        show ?thesis
        proof (cases "code = 101 \<or> code \<ge> 200")
          case True
          then have "r = Inr (code = 101)" "d = t" using w(2) by auto
          moreover have "code = 101 \<Longrightarrow> accepted_in P protocol head" using ch unfolding accepted_in_def by (metis append_Nil)
          ultimately show ?thesis using pt by (intro exI [of _ head]) auto
        next
          case False
          then have "upgrade_heads P protocol t = (r, d)" using w(2) by simp
          from 1(1) [OF h ch(1) refl refl ch(2) w(1) False this] obtain a b where ab: "passed t d a b" "prefix b a"
            "\<forall>yes. r = Inr yes \<longrightarrow> b = a \<and> (yes \<longrightarrow> accepted_in P protocol a)" by blast
          have "passed c d (head @ a) (head @ b)" using passed_trans [OF pt ab(1)] .
          moreover have "prefix (head @ b) (head @ a)" using ab(2) by simp
          ultimately show ?thesis using ab(3)
            by (intro exI [of _ "head @ a"] exI [of _ "head @ b"]) (simp add: accepted_in_append)
        qed
      qed
    qed
  qed
qed

lemma decision_agreed:
  assumes "decision P req c = Some True" and "hq_upgrade req \<noteq> None"
  shows "\<exists>protocol t rest. hq_upgrade req = Some protocol \<and> accepted_in P protocol t \<and> stream_of c = t @ rest"
proof -
  obtain protocol where u: "hq_upgrade req = Some protocol" using assms(2) by blast
  obtain d where "upgrade_heads P protocol c = (Inr True, d)"
    using assms(1) u by (cases "upgrade_heads P protocol c") (auto simp: decision_def response_heads_def split: sum.splits)
  from upgrade_heads_spec [OF this] obtain t where "passed c d t t" "accepted_in P protocol t" by blast
  then show ?thesis using u unfolding passed_def by blast
qed

lemma response_heads_spec: "response_heads P req c = (r, d) \<Longrightarrow> \<exists>t s. passed c d t s \<and> prefix s t \<and> (\<forall>yes. r = Inr yes \<longrightarrow> s = t)"
proof (cases "hq_upgrade req")
  case None
  then show "response_heads P req c = (r, d) \<Longrightarrow> ?thesis" by (auto simp: response_heads_def intro!: exI [of _ "[]"] passed_refl)
next
  case (Some protocol)
  assume "response_heads P req c = (r, d)"
  then have "upgrade_heads P protocol c = (r, d)" using Some by (simp add: response_heads_def)
  from upgrade_heads_spec [OF this] show ?thesis by blast
qed

lemma download_spec:
  assumes "download P req c = (r, d)"
  shows "\<exists>got. w_dst (hc_wire d) = w_dst (hc_wire c) @ got \<and> w_counter (hc_wire d) = w_counter (hc_wire c) + of_nat (length got) \<and>
    prefix got (stream_of c) \<and> (w_shut (hc_wire d) \<longrightarrow> w_shut (hc_wire c) \<or> got = stream_of c)"
  using assms [unfolded download_def]
proof (rule and_then_cases)
  fix e assume "response_heads P req c = (Inl e, d)"
  from response_heads_spec [OF this] show ?thesis by (auto simp: passed_def prefix_def)
next
  fix yes s assume x: "response_heads P req c = (Inr yes, s)" "and_then http_copy (\<lambda>_. http_shutdown) s = (r, d)"
  obtain t where p: "passed c s t t" using response_heads_spec [OF x(1)] by blast
  from x(2) show ?thesis
  proof (rule and_then_cases)
    fix e assume "http_copy s = (Inl e, d)"
    then obtain a b where "passed s d a b" "prefix b a" using http_copy_spec by blast
    with passed_trans [OF p this(1)] show ?thesis by (auto simp: passed_def prefix_def)
  next
    fix u v assume v: "http_copy s = (Inr u, v)" "http_shutdown v = (r, d)"
    then obtain a where "passed s v a a" "stream_of v = []" using http_copy_spec [OF v(1)] by auto
    with passed_trans [OF p this(1)] show ?thesis using v(2) by (auto simp: passed_def http_shutdown_def shutdown_write_def)
  qed
qed

lemma upload_extends: "upload P req decided c = (r, d) \<Longrightarrow> \<exists>sent. w_dst (hc_wire d) = w_dst (hc_wire c) @ sent"
proof (cases "decided \<noteq> Some True \<or> hq_upgrade req = None")
  case False
  assume run: "upload P req decided c = (r, d)"
  have go: "\<exists>more. w_dst (hc_wire d) = w_dst (hc_wire s) @ more" if "and_then http_copy (\<lambda>_. http_shutdown) s = (r, d)" for s
    using that
  proof (rule and_then_cases)
    fix x t assume x: "http_copy s = (Inr x, t)" "http_shutdown t = (r, d)"
    then obtain a b where "passed s t a b" using http_copy_spec by blast
    then show ?thesis using x(2) by (auto simp: passed_def http_shutdown_def shutdown_write_def)
  next
    fix e assume "http_copy s = (Inl e, d)"
    then obtain a b where "passed s d a b" using http_copy_spec by blast
    then show ?thesis by (auto simp: passed_def)
  qed
  from run [unfolded upload_def] show ?thesis
  proof (rule and_then_cases)
    fix u s assume x: "upload_body P (hq_body req) c = (Inr u, s)" "and_then (if hq_upgrade req = None then ret ()
       else case decided of None \<Rightarrow> raise Pending | Some yes \<Rightarrow> if yes then http_copy else ret ()) (\<lambda>_. http_shutdown) s = (r, d)"
    obtain a b where "passed c s a b" using lawful_body x(1) unfolding lawful_def by blast
    moreover have "and_then http_copy (\<lambda>_. http_shutdown) s = (r, d)" using x(2) False by auto
    ultimately show ?thesis using go by (fastforce simp: passed_def)
  next
    fix e assume "upload_body P (hq_body req) c = (Inl e, d)"
    then obtain a b where "passed c d a b" using lawful_body unfolding lawful_def by blast
    then show ?thesis by (auto simp: passed_def)
  qed
qed (use upload_delimits in blast)

lemma http_relay_run_spec:
  assumes "http_relay_run P req replayed (up, down) = (up', down')"
  shows "\<exists>sent got. w_dst up' = w_dst up @ sent \<and> w_dst down' = w_dst down @ got \<and> w_counter down' = w_counter down + of_nat (length got) \<and>
    (\<forall>body out rest. body_form P (hq_body req) body out \<longrightarrow> replayed @ w_src up = body @ rest \<longrightarrow>
      prefix sent out \<or> (\<exists>more protocol t. sent = out @ more \<and> prefix more rest \<and> hq_upgrade req = Some protocol \<and>
        accepted_in P protocol t \<and> prefix t (w_src down))) \<and>
    (hq_upgrade req = None \<longrightarrow> w_counter up' = w_counter up + of_nat (length sent) \<and> (w_shut up' \<longrightarrow> w_shut up \<or>
      (\<exists>body rest. body_form P (hq_body req) body sent \<and> replayed @ w_src up = body @ rest))) \<and>
    prefix got (w_src down) \<and> (w_shut down' \<longrightarrow> w_shut down \<or> got = w_src down)"
proof -
  let ?dec = "decision P req (reader_on [] down)" and ?c = "reader_on replayed up"
  obtain r d where d: "upload P req ?dec ?c = (r, d)" by fastforce
  obtain q e where e: "download P req (reader_on [] down) = (q, e)" by fastforce
  have w: "up' = hc_wire d" "down' = hc_wire e" using assms d e by (auto simp: http_relay_run_def)
  obtain got where g: "w_dst down' = w_dst down @ got" "w_counter down' = w_counter down + of_nat (length got)"
    "prefix got (w_src down)" "w_shut down' \<longrightarrow> w_shut down \<or> got = w_src down" using download_spec [OF e] w by auto
  obtain sent where s: "w_dst up' = w_dst up @ sent" using upload_extends [OF d] w by auto
  have A: "prefix sent out \<or> (\<exists>more protocol t. sent = out @ more \<and> prefix more rest \<and> hq_upgrade req = Some protocol \<and>
        accepted_in P protocol t \<and> prefix t (w_src down))"
    if f: "body_form P (hq_body req) body out" "replayed @ w_src up = body @ rest" for body out rest
  proof (cases "?dec = Some True \<and> hq_upgrade req \<noteq> None")
    case True
    obtain sent' where c: "w_dst up' = w_dst up @ sent'" "prefix sent' out \<or> (\<exists>more. sent' = out @ more \<and> prefix more rest)"
      using upload_continues [OF d f(1), of rest] f(2) w by auto
    obtain protocol t rest' where p: "hq_upgrade req = Some protocol" "accepted_in P protocol t" "w_src down = t @ rest'"
      using decision_agreed [of P req "reader_on [] down"] True by auto
    then have "prefix t (w_src down)" by simp
    moreover have "sent' = sent" using c(1) s by simp
    ultimately show ?thesis using c(2) p(1,2) by blast
  next
    case False
    then have "?dec \<noteq> Some True \<or> hq_upgrade req = None" by blast
    from upload_delimits [OF d this] show ?thesis using f s w by auto
  qed
  have B: "w_counter up' = w_counter up + of_nat (length sent)" "w_shut up' \<longrightarrow> w_shut up \<or>
      (\<exists>body rest. body_form P (hq_body req) body sent \<and> replayed @ w_src up = body @ rest)" if "hq_upgrade req = None"
    using upload_delimits [OF d disjI2 [OF that]] s w by auto
  show ?thesis by (intro exI [of _ sent] exI [of _ got] conjI allI impI A B s g(1,2,3) g(4) [THEN mp]) assumption+
qed

text \<open>
  C11: whatever the network does, the upstream gets of a forwarded request only its body. If the client's
  bytes start with a body of the announced length, or with a well-formed chunked one, then what is sent is a
  part of that body (the trailers filtered), and what follows it is sent only if the client asked for a change
  of protocol and the upstream accepted that very protocol; the upload is closed only after a whole body. The
  client gets the bytes of the response in order, all of them when its side is closed, and each direction
  counts what it delivered.
\<close>

theorem forwarded_request_is_delimited:
  assumes "http_relay_run P req replayed (up, down) = (up', down')"
  shows "\<exists>sent got. w_dst up' = w_dst up @ sent \<and> w_dst down' = w_dst down @ got \<and> w_counter down' = w_counter down + of_nat (length got) \<and>
    (\<forall>body out rest. body_form P (hq_body req) body out \<longrightarrow> replayed @ w_src up = body @ rest \<longrightarrow>
      prefix sent out \<or> (\<exists>more protocol t. sent = out @ more \<and> prefix more rest \<and> hq_upgrade req = Some protocol \<and>
        accepted_in P protocol t \<and> prefix t (w_src down))) \<and>
    (hq_upgrade req = None \<longrightarrow> w_counter up' = w_counter up + of_nat (length sent) \<and> (w_shut up' \<longrightarrow> w_shut up \<or>
      (\<exists>body rest. body_form P (hq_body req) body sent \<and> replayed @ w_src up = body @ rest))) \<and>
    prefix got (w_src down) \<and> (w_shut down' \<longrightarrow> w_shut down \<or> got = w_src down)"
  by (rule http_relay_run_spec [OF assms])

theorem forwarded_request_is_delimited_witness:
  "\<exists>sent. w_dst (fst (http_relay_run \<lparr> hp_chunk = \<lambda>_. BadSyntax, hp_trailers = \<lambda>_. BadSyntax, hp_response = \<lambda>_. None \<rparr>
      \<lparr> hq_body = Fixed 2, hq_upgrade = None \<rparr> (bytes_of ''OKGET'')
      (\<lparr> w_src = bytes_of '' /'', w_dst = [], w_reads = [Moved 9], w_writes = [Moved 1, Moved 9], w_counter = 0, w_shut = False \<rparr>,
       \<lparr> w_src = [], w_dst = [], w_reads = [], w_writes = [], w_counter = 0, w_shut = False \<rparr>))) = sent \<and> prefix sent (bytes_of ''OK'')"
proof -
  let ?P = "\<lparr> hp_chunk = \<lambda>_. BadSyntax, hp_trailers = \<lambda>_. BadSyntax, hp_response = \<lambda>_. None \<rparr>"
  let ?up = "\<lparr> w_src = bytes_of '' /'', w_dst = [], w_reads = [Moved 9], w_writes = [Moved 1, Moved 9], w_counter = 0, w_shut = False \<rparr>"
  let ?down = "\<lparr> w_src = [], w_dst = [], w_reads = [], w_writes = [], w_counter = 0, w_shut = False \<rparr>"
  let ?req = "\<lparr> hq_body = Fixed 2, hq_upgrade = None \<rparr>"
  obtain up' down' where r: "http_relay_run ?P ?req (bytes_of ''OKGET'') (?up, ?down) = (up', down')" by fastforce
  from forwarded_request_is_delimited [OF r] obtain sent where a: "w_dst up' = w_dst ?up @ sent"
    and b: "\<forall>body out rest. body_form ?P (hq_body ?req) body out \<longrightarrow> bytes_of ''OKGET'' @ w_src ?up = body @ rest \<longrightarrow>
      prefix sent out \<or> (\<exists>more protocol t. sent = out @ more \<and> prefix more rest \<and> hq_upgrade ?req = Some protocol \<and>
        accepted_in ?P protocol t \<and> prefix t (w_src ?down))" by blast
  have f: "body_form ?P (hq_body ?req) (bytes_of ''OK'') (bytes_of ''OK'')" by (simp add: body_form_def)
  have st: "bytes_of ''OKGET'' @ w_src ?up = bytes_of ''OK'' @ bytes_of ''GET /''" by (simp add: bytes_of_def)
  have "prefix sent (bytes_of ''OK'')" using b [rule_format, OF f st] by simp
  then show ?thesis using a r by simp
qed

end
