(* ===== verification/HttpInbound.thy ===== *)
theory HttpInbound
  imports Base64 HttpForward Engine Resolver
begin

text \<open>
  The inbound proxy (\<open>sniffbox/src/inbound_proxy.rs\<close>): a client of the local port speaks SOCKS5 or HTTP, is
  authenticated, and becomes a connection of the engine. The text of a request head is parsed by the
  \<open>httparse\<close> crate, a parameter; how it is judged, delimited and rebuilt for the origin is modelled here. The
  UDP association of a SOCKS client is the theory \<open>InboundUdp\<close>.
\<close>

section \<open>Numbers and addresses as text\<close>

text \<open>Decimal digits; \<open>str::parse\<close> of an unsigned number, which takes a leading plus.\<close>

function decimal :: "nat \<Rightarrow> bytes" where
  "decimal n = (if n < 10 then [of_nat (48 + n)] else decimal (n div 10) @ [of_nat (48 + n mod 10)])"
  by pat_completeness auto
termination by (relation "measure id") auto

declare decimal.simps [simp del]

definition digits_value :: "bytes \<Rightarrow> nat" where
  "digits_value s = foldl (\<lambda>a c. a * 10 + (unat c - 48)) 0 s"

definition parse_unsigned :: "nat \<Rightarrow> bytes \<Rightarrow> nat option" where
  "parse_unsigned bound s =
     (let ds = (if s \<noteq> [] \<and> hd s = 43 then tl s else s) in
      if ds = [] \<or> \<not> list_all is_digit ds \<or> digits_value ds \<ge> bound then None else Some (digits_value ds))"

definition parse_u16 :: "bytes \<Rightarrow> u16 option" where
  "parse_u16 s = map_option of_nat (parse_unsigned 65536 s)"

definition parse_u64 :: "bytes \<Rightarrow> u64 option" where
  "parse_u64 s = map_option of_nat (parse_unsigned 18446744073709551616 s)"

text \<open>\<open>str::parse::<IpAddr>\<close>: an IPv4 address, or groups of hexadecimal digits with one \<open>::\<close> at most.\<close>

definition hex_value :: "u8 \<Rightarrow> nat option" where
  "hex_value c = (if is_digit c then Some (unat c - 48)
     else if 97 \<le> c \<and> c \<le> 102 then Some (unat c - 87) else if 65 \<le> c \<and> c \<le> 70 then Some (unat c - 55) else None)"

definition parse_group :: "bytes \<Rightarrow> u16 option" where
  "parse_group s =
     (if s = [] \<or> length s > 4 \<or> list_ex (\<lambda>c. hex_value c = None) s then None
      else Some (of_nat (foldl (\<lambda>a c. a * 16 + the (hex_value c)) 0 s)))"

text \<open>A group, or at the end an IPv4 address, which takes two.\<close>

fun parse_groups :: "bool \<Rightarrow> bytes list \<Rightarrow> u16 list option" where
  "parse_groups v4_end [] = Some []"
| "parse_groups v4_end [s] = (case parse_group s of
     Some g \<Rightarrow> Some [g]
   | None \<Rightarrow> if \<not> v4_end then None else map_option (\<lambda>v. [ucast (drop_bit 16 v), ucast v]) (parse_ipv4 s))"
| "parse_groups v4_end (s # ss) = (case parse_group s of None \<Rightarrow> None | Some g \<Rightarrow> map_option (Cons g) (parse_groups v4_end ss))"

fun split_double :: "bytes \<Rightarrow> (bytes \<times> bytes) option" where
  "split_double [] = None"
| "split_double (c # s) = (case s of
     d # r \<Rightarrow> if c = 58 \<and> d = 58 then Some ([], r) else map_option (\<lambda>(a, b). (c # a, b)) (split_double s)
   | [] \<Rightarrow> None)"

definition pieces :: "bytes \<Rightarrow> bytes list" where
  "pieces s = (if s = [] then [] else split_on 58 s)"

definition ipv6_of :: "u16 list \<Rightarrow> u128" where
  "ipv6_of gs = foldl (\<lambda>a g. push_bit 16 a OR ucast g) 0 gs"

definition parse_ipv6 :: "bytes \<Rightarrow> u128 option" where
  "parse_ipv6 s = (case split_double s of
     None \<Rightarrow> (case parse_groups True (pieces s) of
       Some gs \<Rightarrow> if length gs = 8 then Some (ipv6_of gs) else None | None \<Rightarrow> None)
   | Some (a, b) \<Rightarrow> (case (parse_groups False (pieces a), parse_groups True (pieces b)) of
       (Some gs, Some hs) \<Rightarrow> if length gs + length hs \<le> 7 then Some (ipv6_of (gs @ replicate (8 - length gs - length hs) 0 @ hs)) else None
     | _ \<Rightarrow> None))"

definition parse_ip :: "bytes \<Rightarrow> ip_addr option" where
  "parse_ip s = (case parse_ipv4 s of Some v \<Rightarrow> Some (V4 v) | None \<Rightarrow> map_option V6 (parse_ipv6 s))"

section \<open>A request head\<close>

record req_head =
  rq_method :: bytes
  rq_path :: bytes
  rq_version :: "u8 option"
  rq_headers :: headers

text \<open>\<open>httparse::Request::parse\<close> on a whole head: refused, incomplete, or its parts.\<close>

type_synonym req_parser = "bytes \<Rightarrow> req_head parsed"

definition header_value :: "headers \<Rightarrow> bytes \<Rightarrow> bytes option" where
  "header_value hs name = (case List.find (\<lambda>h. eq_nocase (fst h) name) hs of
     Some h \<Rightarrow> if utf8_ok (snd h) then Some (snd h) else None
   | None \<Rightarrow> None)"

text \<open>The loop over the header fields, with the length and the coding seen so far.\<close>

fun framing_loop :: "headers \<Rightarrow> u64 option \<Rightarrow> bool \<Rightarrow> (u64 option \<times> bool) option" where
  "framing_loop [] len coded = Some (len, coded)"
| "framing_loop ((name, value) # hs) len coded =
     (if eq_nocase name (bytes_of ''content-length'') then
        (if \<not> utf8_ok value then None
         else let v = trim value in
           if len \<noteq> None \<or> v = [] \<or> \<not> list_all is_digit v then None
           else case parse_u64 v of None \<Rightarrow> None | Some n \<Rightarrow> framing_loop hs (Some n) coded)
      else if eq_nocase name (bytes_of ''transfer-encoding'') then
        (if coded \<or> \<not> eq_nocase (trim_ascii value) (bytes_of ''chunked'') then None
         else framing_loop hs len True)
      else if lists_token (bytes_of ''connection'') (bytes_of ''content-length'') (name, value)
        \<or> lists_token (bytes_of ''connection'') (bytes_of ''transfer-encoding'') (name, value) then None
      else framing_loop hs len coded)"

definition request_framing :: "headers \<Rightarrow> http_req option" where
  "request_framing hs = (case framing_loop hs None False of
     None \<Rightarrow> None
   | Some (len, coded) \<Rightarrow>
       if coded \<and> len \<noteq> None then None
       else let upgrade = header_value hs (bytes_of ''upgrade'') in
         if (case upgrade of None \<Rightarrow> False | Some protocol \<Rightarrow> protocol = [] \<or> comma \<in> set protocol \<or>
              \<not> list_ex (lists_token (bytes_of ''connection'') (bytes_of ''upgrade'')) hs) then None
         else Some \<lparr> hq_body = (if coded then Chunked else Fixed (case len of None \<Rightarrow> 0 | Some n \<Rightarrow> n)), hq_upgrade = upgrade \<rparr>)"

definition strip_prefix :: "bytes \<Rightarrow> bytes \<Rightarrow> bytes option" where
  "strip_prefix p s = (if starts_with p s then Some (drop (length p) s) else None)"

abbreviation (input) slash :: u8 where "slash \<equiv> 47"

definition split_absolute_uri :: "bytes \<Rightarrow> (bytes \<times> bytes) option" where
  "split_absolute_uri uri =
     map_option (\<lambda>rest. if slash \<in> set rest then (takeWhile (\<lambda>c. c \<noteq> slash) rest, dropWhile (\<lambda>c. c \<noteq> slash) rest) else (rest, [slash]))
       (case strip_prefix (bytes_of ''http://'') uri of Some r \<Rightarrow> Some r | None \<Rightarrow> strip_prefix (bytes_of ''https://'') uri)"

text \<open>\<open>rsplit_once\<close>: around the last colon.\<close>

definition rsplit_colon :: "bytes \<Rightarrow> (bytes \<times> bytes) option" where
  "rsplit_colon s = (if colon \<notin> set s then None
     else let p = rev (takeWhile (\<lambda>c. c \<noteq> colon) (rev s)) in Some (take (length s - length p - 1) s, p))"

definition split_host_port :: "bytes \<Rightarrow> u16 \<Rightarrow> (bytes \<times> u16) option" where
  "split_host_port s default_port =
     (case s of
        [] \<Rightarrow> None
      | c # rest \<Rightarrow>
          if c = lbracket then
            (if rbracket \<notin> set rest then None
             else let host = takeWhile (\<lambda>c. c \<noteq> rbracket) rest; after = drop (length host + 1) rest in
               if after \<noteq> [] \<and> hd after = colon then map_option (\<lambda>port. (host, port)) (parse_u16 (tl after))
               else Some (host, default_port))
          else case rsplit_colon s of
            Some (h, p) \<Rightarrow>
              if h \<noteq> [] \<and> list_all is_digit p \<and> p \<noteq> [] then map_option (\<lambda>port. (h, port)) (parse_u16 p)
              else Some (s, default_port)
          | None \<Rightarrow> Some (s, default_port))"

section \<open>The request for the origin\<close>

definition render_field :: "bytes \<times> bytes \<Rightarrow> bytes" where
  "render_field h = fst h @ [58, 32] @ snd h @ CRLF"

definition field_kept :: "headers \<Rightarrow> bytes \<times> bytes \<Rightarrow> bool" where
  "field_kept hs h \<longleftrightarrow> fst h \<noteq> [] \<and> \<not> hop_header (fst h) \<and>
     \<not> list_ex (lists_token (bytes_of ''connection'') (fst h)) hs"

definition host_field :: "headers \<Rightarrow> bytes \<Rightarrow> u16 \<Rightarrow> headers" where
  "host_field kept host port = (if list_ex (\<lambda>h. eq_nocase (fst h) (bytes_of ''host'')) kept then []
     else [(bytes_of ''Host'', if port = 80 then host else host @ 58 # decimal (unat port))])"

definition end_fields :: "headers \<Rightarrow> headers" where
  "end_fields hs = (case List.find (\<lambda>h. eq_nocase (fst h) (bytes_of ''upgrade'')) hs of
     Some h \<Rightarrow> [(bytes_of ''Connection'', bytes_of ''upgrade''), (bytes_of ''Upgrade'', snd h)]
   | None \<Rightarrow> [(bytes_of ''Connection'', bytes_of ''close'')])"

definition rebuilt_fields :: "headers \<Rightarrow> bytes \<Rightarrow> u16 \<Rightarrow> headers" where
  "rebuilt_fields hs host port = (let kept = filter (field_kept hs) hs in kept @ host_field kept host port @ end_fields hs)"

definition rebuild_origin_request :: "bytes \<Rightarrow> bytes \<Rightarrow> u8 \<Rightarrow> headers \<Rightarrow> bytes \<Rightarrow> u16 \<Rightarrow> bytes" where
  "rebuild_origin_request meth abs_path version hs host port =
     meth @ [32] @ abs_path @ bytes_of '' HTTP/'' @ bytes_of (if version = 0 then ''1.0'' else ''1.1'') @ CRLF @
     concat (map render_field (rebuilt_fields hs host port)) @ CRLF"

datatype http_req_kind = ConnectTo bytes u16 | ForwardTo bytes u16 bytes http_req

record parsed_proxy =
  pp_kind :: http_req_kind
  pp_authorization :: "bytes option"

definition parse_http_proxy_request :: "req_parser \<Rightarrow> bytes \<Rightarrow> parsed_proxy option" where
  "parse_http_proxy_request R head = (case R head of
     Complete r \<Rightarrow>
       let auth = header_value (rq_headers r) (bytes_of ''proxy-authorization'') in
       if eq_nocase (rq_method r) (bytes_of ''CONNECT'') then
         map_option (\<lambda>(host, port). \<lparr> pp_kind = ConnectTo host port, pp_authorization = auth \<rparr>) (split_host_port (rq_path r) 443)
       else do {
         (scheme_host, abs_path) \<leftarrow> split_absolute_uri (rq_path r);
         (host, port) \<leftarrow> split_host_port scheme_host 80;
         framing \<leftarrow> request_framing (rq_headers r);
         let version = (case rq_version r of None \<Rightarrow> 1 | Some v \<Rightarrow> v);
         Some \<lparr> pp_kind = ForwardTo host port
             (rebuild_origin_request (rq_method r) abs_path version (rq_headers r) host port) framing,
           pp_authorization = auth \<rparr> }
   | _ \<Rightarrow> None)"

section \<open>The handshake\<close>

record profile =
  pf_socks5 :: inbound_kind
  pf_http :: inbound_kind
  pf_apply_auth :: bool
  pf_acl :: bool
  pf_sniff :: bool

definition OPENPORT :: profile where
  "OPENPORT = \<lparr> pf_socks5 = InSocks5, pf_http = InHttp, pf_apply_auth = True, pf_acl = True, pf_sniff = True \<rparr>"

definition HEALTHCHECK :: profile where
  "HEALTHCHECK = \<lparr> pf_socks5 = InHealthCheck, pf_http = InHealthCheck, pf_apply_auth = False, pf_acl = False, pf_sniff = False \<rparr>"

abbreviation (input) HTTP_HEAD_MAX :: nat where "HTTP_HEAD_MAX \<equiv> 16384"
abbreviation (input) REP_CMD_NOT_SUPPORTED :: u8 where "REP_CMD_NOT_SUPPORTED \<equiv> 0x07"

type_synonym conn = "http_req established"

definition dest_to_established :: "dest_addr \<Rightarrow> inbound_kind \<Rightarrow> bool \<Rightarrow> conn" where
  "dest_to_established dest inb sniff =
     (let est = \<lparr> es_dest = \<lparr> sa_ip = V4 0, sa_port = dest_port dest \<rparr>, es_inbound = inb, es_domain = None, es_prelude = [],
        es_peeked = [], es_http_forward = None, es_sniff = sniff, es_group = None \<rparr>
      in case dest of Ip a \<Rightarrow> est\<lparr>es_dest := a\<rparr> | Domain host port \<Rightarrow> est\<lparr>es_domain := Some host\<rparr>)"

definition host_port_to_established :: "bytes \<Rightarrow> u16 \<Rightarrow> bytes \<Rightarrow> bytes \<Rightarrow> bool \<Rightarrow> inbound_kind \<Rightarrow> conn" where
  "host_port_to_established host port prelude peeked sniff inb =
     (let est = \<lparr> es_dest = \<lparr> sa_ip = V4 0, sa_port = port \<rparr>, es_inbound = inb, es_domain = None, es_prelude = prelude,
        es_peeked = peeked, es_http_forward = None, es_sniff = sniff, es_group = None \<rparr>
      in case parse_ip host of Some ip \<Rightarrow> est\<lparr>es_dest := \<lparr> sa_ip = ip, sa_port = port \<rparr>\<rparr> | None \<Rightarrow> est\<lparr>es_domain := Some host\<rparr>)"

datatype handshake_end = HsTcp conn | HsUdp inbound_kind | HsDone

definition unspec :: socket_addr where
  "unspec = \<lparr> sa_ip = V4 0, sa_port = 0 \<rparr>"

text \<open>A write, then what comes next; a failed write ends the handshake.\<close>

definition reply_then :: "unit io \<Rightarrow> handshake_end \<Rightarrow> stream \<Rightarrow> handshake_end \<times> stream" where
  "reply_then m out s = (case m s of (Inl _, s') \<Rightarrow> (HsDone, s') | (Inr _, s') \<Rightarrow> (out, s'))"

definition handle_socks5 :: "(bytes \<times> bytes) option \<Rightarrow> bool \<Rightarrow> profile \<Rightarrow> socket_addr \<Rightarrow> stream \<Rightarrow> handshake_end \<times> stream" where
  "handle_socks5 auth udp pf bnd s =
     (case negotiate_method auth s of
        (Inl _, s1) \<Rightarrow> (HsDone, s1)
      | (Inr _, s1) \<Rightarrow>
          (case read_request s1 of
             (Inl _, s2) \<Rightarrow> (HsDone, s2)
           | (Inr (cmd, dest), s2) \<Rightarrow>
               (case cmd of
                  Connect \<Rightarrow> reply_then (write_success bnd) (HsTcp (dest_to_established dest (pf_socks5 pf) (pf_sniff pf))) s2
                | UdpAssociate \<Rightarrow> if udp then (HsUdp (pf_socks5 pf), s2)
                    else reply_then (write_reply REP_CMD_NOT_SUPPORTED unspec) HsDone s2
                | Other c \<Rightarrow> reply_then (write_reply REP_CMD_NOT_SUPPORTED unspec) HsDone s2)))"

fun find_head_end :: "bytes \<Rightarrow> nat option" where
  "find_head_end [] = None"
| "find_head_end (b # bs) = (if starts_with [13, 10, 13, 10] (b # bs) then Some 4 else map_option Suc (find_head_end bs))"

text \<open>The head and what was read beyond it; \<open>Inl ()\<close> is a reader still waiting.\<close>

function read_http_head :: "bytes \<Rightarrow> attempt list \<Rightarrow> bytes \<Rightarrow> (unit + (bytes \<times> bytes) option) \<times> bytes" where
  "read_http_head buf es rx = (case read_loop 1024 es rx of
     (Waiting, es', rx') \<Rightarrow> (Inl (), rx')
   | (progress.Failed, es', rx') \<Rightarrow> (Inr None, rx')
   | (progress.Ready d, es', rx') \<Rightarrow>
       if d = [] then (Inr None, rx')
       else case find_head_end (buf @ d) of
         Some e \<Rightarrow> (Inr (Some (take e (buf @ d), drop e (buf @ d))), rx')
       | None \<Rightarrow> if length (buf @ d) > HTTP_HEAD_MAX then (Inr None, rx') else read_http_head (buf @ d) es' rx')"
  by pat_completeness auto
termination
  by (relation "measure (\<lambda>(buf, es, rx). length es)") (auto dest: read_loop_events [OF sym])

declare read_http_head.simps [simp del]

definition bad_request :: bytes where
  "bad_request = bytes_of ''HTTP/1.1 400 Bad Request'' @ CRLF @ CRLF"

definition auth_required :: bytes where
  "auth_required = bytes_of ''HTTP/1.1 407 Proxy Authentication Required'' @ CRLF @
     bytes_of ''Proxy-Authenticate: Basic realm='' @ [34] @ bytes_of ''sniffbox'' @ [34] @ CRLF @ bytes_of ''Content-Length: 0'' @ CRLF @ CRLF"

definition connection_established :: bytes where
  "connection_established = bytes_of ''HTTP/1.1 200 Connection Established'' @ CRLF @ CRLF"

definition handle_http :: "req_parser \<Rightarrow> (bytes \<times> bytes) option \<Rightarrow> profile \<Rightarrow> attempt list \<Rightarrow> stream \<Rightarrow> handshake_end \<times> stream" where
  "handle_http R auth pf es s =
     (case read_http_head [] es (st_rx s) of
        (Inr (Some (head, leftover)), rx) \<Rightarrow>
          (let s1 = s\<lparr>st_rx := rx\<rparr> in
           case parse_http_proxy_request R head of
             None \<Rightarrow> reply_then (write_all bad_request) HsDone s1
           | Some p \<Rightarrow>
               if (case auth of None \<Rightarrow> False | Some (user, pass) \<Rightarrow> pp_authorization p \<noteq> Some (basic_auth_header_value user pass))
               then reply_then (write_all auth_required) HsDone s1
               else case pp_kind p of
                 ConnectTo host port \<Rightarrow> reply_then (write_all connection_established)
                   (HsTcp (host_port_to_established host port [] leftover (pf_sniff pf) (pf_http pf))) s1
               | ForwardTo host port request framing \<Rightarrow>
                   (HsTcp ((host_port_to_established host port request leftover False (pf_http pf))\<lparr>es_http_forward := Some framing\<rparr>), s1))
      | (_, rx) \<Rightarrow> (HsDone, s\<lparr>st_rx := rx\<rparr>))"

definition inbound_handshake :: "req_parser \<Rightarrow> (bytes \<times> bytes) option \<Rightarrow> bool \<Rightarrow> profile \<Rightarrow> socket_addr \<Rightarrow> attempt list \<Rightarrow> stream \<Rightarrow>
    handshake_end \<times> stream" where
  "inbound_handshake R openport_auth udp pf bnd es s =
     (let auth = (if pf_apply_auth pf then openport_auth else None) in
      case st_rx s of
        [] \<Rightarrow> (HsDone, s)
      | b # _ \<Rightarrow> if b = 0x05 then handle_socks5 auth udp pf bnd s else handle_http R auth pf es s)"

text \<open>
  A connection of the local port, from its first byte: served, a UDP association, or over. The client's stream
  goes on after the handshake.
\<close>

datatype 'n inbound_end = InTcp "(served \<times> wire \<times> wire \<times> 'n shared) option" | InUdp inbound_kind | InDone

definition handle_inbound :: "req_parser \<Rightarrow> http_parsers \<Rightarrow> http_parser \<Rightarrow> growth \<Rightarrow> (string \<Rightarrow> ip_addr \<Rightarrow> bool) \<Rightarrow> 'n ipv4net \<Rightarrow>
    (bytes \<times> bytes) option \<Rightarrow> bool \<Rightarrow> profile \<Rightarrow> socket_addr \<Rightarrow> attempt list \<Rightarrow> stream \<Rightarrow> world \<Rightarrow> socket_addr \<Rightarrow> 'n shared \<Rightarrow>
    'n inbound_end" where
  "handle_inbound R P H grow contains N openport_auth udp pf bnd es s w peer sh =
     (case inbound_handshake R openport_auth udp pf bnd es s of
        (HsTcp est, s') \<Rightarrow> InTcp (serve_established H grow (http_relay_run P) contains N (w\<lparr>wd_up := (wd_up w)\<lparr>w_src := st_rx s'\<rparr>\<rparr>) peer est sh)
      | (HsUdp inbound, s') \<Rightarrow> InUdp inbound
      | (HsDone, s') \<Rightarrow> InDone)"

text \<open>What the accept loop does with one connection.\<close>

definition accept_conn :: "req_parser \<Rightarrow> http_parsers \<Rightarrow> http_parser \<Rightarrow> growth \<Rightarrow> (string \<Rightarrow> ip_addr \<Rightarrow> bool) \<Rightarrow> 'n ipv4net \<Rightarrow>
    (bytes \<times> bytes) option \<Rightarrow> bool \<Rightarrow> profile \<Rightarrow> socket_addr \<Rightarrow> attempt list \<Rightarrow> stream \<Rightarrow> world \<Rightarrow> socket_addr \<Rightarrow> 'n shared \<Rightarrow>
    'n inbound_end" where
  "accept_conn R P H grow contains N openport_auth udp pf bnd es s w peer sh =
     (if pf_acl pf \<and> \<not> proxy_allowed N (sa_ip peer) sh then InDone
      else handle_inbound R P H grow contains N openport_auth udp pf bnd es s w peer sh)"

end
