(* ===== verification/InboundUdp.thy ===== *)
theory InboundUdp
  imports HttpInbound UdpEngine
begin

text \<open>
  The UDP association of a SOCKS client of the local port (\<open>udp_associate_inbound\<close> and what it calls in
  \<open>sniffbox/src/inbound_proxy.rs\<close>): its permit, its records, the frames of the client and the replies. The
  association is a state and a step per event; what a socket or the resolver answers is part of the event.
\<close>

section \<open>The client's frames\<close>

definition decode_client_udp_header :: "bytes \<Rightarrow> (socket_addr \<times> bytes option \<times> nat) option" where
  "decode_client_udp_header buf =
     (if length buf < 4 \<or> buf ! 0 \<noteq> 0 \<or> buf ! 1 \<noteq> 0 \<or> buf ! 2 \<noteq> 0 then None
      else if buf ! 3 = ATYP_IPV4 then
        (if length buf < 10 then None
         else Some (\<lparr> sa_ip = V4 (be32_of (buf ! 4) (buf ! 5) (buf ! 6) (buf ! 7)), sa_port = be16_of (buf ! 8) (buf ! 9) \<rparr>, None, 10))
      else if buf ! 3 = ATYP_IPV6 then
        (if length buf < 22 then None
         else Some (\<lparr> sa_ip = V6 (be128_of (take 16 (drop 4 buf))), sa_port = be16_of (buf ! 20) (buf ! 21) \<rparr>, None, 22))
      else if buf ! 3 = ATYP_DOMAIN then
        (if length buf < 5 then None
         else let end = 5 + unat (buf ! 4) in
           if length buf < end + 2 then None
           else let host = take (unat (buf ! 4)) (drop 5 buf) in
             if \<not> utf8_ok host then None
             else Some (\<lparr> sa_ip = V4 0, sa_port = be16_of (buf ! end) (buf ! (end + 1)) \<rparr>, Some host, end + 2))
      else None)"

section \<open>The records of an association\<close>

datatype target_key = TkAddr socket_addr | TkHost bytes u16

text \<open>
  The record of each target, and the target the last new or known record was for; a record is one object,
  shared with the connection table. The address the client sends from, and when it was last sent a reply.
\<close>

record assoc =
  ac_peer :: socket_addr
  ac_inbound :: inbound_kind
  ac_recs :: "(target_key \<times> conn_record) list"
  ac_last :: "target_key option"
  ac_client :: "socket_addr option"
  ac_last_down :: nat

definition MAX_TARGETS_PER_ASSOC :: nat where
  "MAX_TARGETS_PER_ASSOC = 256"

definition assoc_new :: "socket_addr \<Rightarrow> inbound_kind \<Rightarrow> nat \<Rightarrow> assoc" where
  "assoc_new peer inb now = \<lparr> ac_peer = peer, ac_inbound = inb, ac_recs = [], ac_last = None, ac_client = None, ac_last_down = now \<rparr>"

definition classify_inbound_udp_proto :: "(string \<Rightarrow> ip_addr \<Rightarrow> bool) \<Rightarrow> socket_addr \<Rightarrow> bytes \<Rightarrow> bool \<Rightarrow> bool \<Rightarrow> label option \<Rightarrow> conn_proto" where
  "classify_inbound_udp_proto contains dst first_payload client_declared_host fakeip_host hint =
     classify_udp_proto contains dst first_payload
       (if client_declared_host then PSocks5 else if fakeip_host then PFakeIp else PRealIp) hint"

definition target_key_of :: "socket_addr \<Rightarrow> bytes option \<Rightarrow> target_key" where
  "target_key_of dst domain = (case domain of Some h \<Rightarrow> TkHost h (sa_port dst) | None \<Rightarrow> TkAddr dst)"

definition forward_hint :: "socket_addr \<Rightarrow> bytes option \<Rightarrow> ip_hints \<Rightarrow> label option \<times> ip_hints" where
  "forward_hint dst domain hints = (case Option.bind domain match_domain_group of
     Some l \<Rightarrow> (Some l, hints)
   | None \<Rightarrow> hints_get (sa_ip dst) hints)"

definition forward_record :: "(string \<Rightarrow> ip_addr \<Rightarrow> bool) \<Rightarrow> nat \<Rightarrow> socket_addr \<Rightarrow> bytes option \<Rightarrow> bool \<Rightarrow> bytes \<Rightarrow>
    assoc \<times> 'n shared \<Rightarrow> target_key \<times> assoc \<times> 'n shared" where
  "forward_record contains wall dst domain client_host data s =
     (let (a, sh) = s; key = target_key_of dst domain in
      if map_of (ac_recs a) key \<noteq> None then (key, a\<lparr>ac_last := Some key\<rparr>, sh)
      else if length (ac_recs a) \<ge> MAX_TARGETS_PER_ASSOC \<and> ac_last a \<noteq> None then (the (ac_last a), a, sh)
      else
        let (hint, hints) = forward_hint dst domain (sh_domain_ips sh);
            proto = classify_inbound_udp_proto contains dst data client_host (domain \<noteq> None \<and> \<not> client_host) hint;
            (i, ids) = next_id (sh_ids sh);
            r = with_inbound (ac_inbound a) Udp
              (conn_record_new i (sa_ip (ac_peer a), sa_port (ac_peer a)) (dest_key dst) proto domain);
            r = (if proto = PSocks5 \<or> proto = PFakeIp \<or> proto = PRealIp then set_head data r else r)
        in (key, a\<lparr>ac_recs := (key, r\<lparr>cr_last_seen := wall\<rparr>) # ac_recs a, ac_last := Some key\<rparr>,
            sh\<lparr>sh_domain_ips := hints, sh_ids := ids, sh_table := ct_insert wall r (sh_table sh)\<rparr>))"

definition reply_record :: "socket_addr \<Rightarrow> assoc \<Rightarrow> target_key option" where
  "reply_record src a = (if map_of (ac_recs a) (TkAddr src) \<noteq> None then Some (TkAddr src) else ac_last a)"

text \<open>An update of a record is seen in the association and in the table.\<close>

definition on_record :: "target_key \<Rightarrow> (conn_record \<Rightarrow> conn_record) \<Rightarrow> assoc \<times> 'n shared \<Rightarrow> assoc \<times> 'n shared" where
  "on_record key f s = (let (a, sh) = s in case map_of (ac_recs a) key of
     None \<Rightarrow> s
   | Some r \<Rightarrow> (a\<lparr>ac_recs := AList.update key (f r) (ac_recs a)\<rparr>, sh\<lparr>sh_table := ct_modify (cr_id r) f (sh_table sh)\<rparr>))"

text \<open>At the end the bytes not yet accounted are, and the records are closed.\<close>

definition close_assoc_record :: "nat \<Rightarrow> conn_record \<Rightarrow> 'n shared \<Rightarrow> 'n shared" where
  "close_assoc_record wall r sh =
     (let ((du, dd), r') = drain_delta r;
          sh' = (if du \<noteq> 0 \<or> dd \<noteq> 0 then sh\<lparr>sh_traffic := add_totals dd du (sh_traffic sh)\<rparr> else sh)
      in sh'\<lparr>sh_table := ct_close wall (cr_id r) (ct_modify (cr_id r) (\<lambda>t. snd (drain_delta t)) (sh_table sh'))\<rparr>)"

definition assoc_close :: "nat \<Rightarrow> assoc \<times> 'n shared \<Rightarrow> 'n shared" where
  "assoc_close wall s = fold (close_assoc_record wall) (map snd (ac_recs (fst s))) (snd s)"

section \<open>Forwarding\<close>

datatype assoc_out = UpFrame bytes | UpDatagram socket_addr bytes | ClientFrame socket_addr bytes

text \<open>The name a frame is for: the client's own, or the pool's for its address; \<open>None\<close> is a panic of the pool.\<close>

definition frame_domain :: "'n ipv4net \<Rightarrow> socket_addr \<Rightarrow> bytes option \<Rightarrow> 'n shared \<Rightarrow> (bytes option \<times> 'n shared) option" where
  "frame_domain N dst host sh =
     (if host \<noteq> None then Some (host, sh)
      else case (sh_fakeip sh, sa_ip dst) of
        (Some f, V4 v4) \<Rightarrow> if pool_contains N f (sa_ip dst)
          then map_option (\<lambda>(d, f'). (d, sh\<lparr>sh_fakeip := Some f'\<rparr>)) (pool_lookback v4 f) else Some (None, sh)
      | _ \<Rightarrow> Some (None, sh))"

definition count_up_rec :: "bytes \<Rightarrow> conn_record \<Rightarrow> conn_record" where
  "count_up_rec data = add_up (of_nat (length data))"

text \<open>
  A frame of the client over the SOCKS5 upstream: what is sent, none if it is dropped. A failed send is an error
  of this frame only; it was counted before.
\<close>

definition forward_client_packet :: "'n ipv4net \<Rightarrow> (string \<Rightarrow> ip_addr \<Rightarrow> bool) \<Rightarrow> nat \<Rightarrow> bool \<Rightarrow> bytes \<Rightarrow> assoc \<times> 'n shared \<Rightarrow>
    (assoc_out list \<times> assoc \<times> 'n shared) option" where
  "forward_client_packet N contains wall sent frame s =
     (case decode_client_udp_header frame of
        None \<Rightarrow> Some ([], s)
      | Some (dst, host, off) \<Rightarrow> do {
          let data = drop off frame;
          (domain, sh) \<leftarrow> frame_domain N dst host (snd s);
          let s1 = (fst s, sh);
          Some (case (case domain of
                 Some h \<Rightarrow> (case encode_udp_request_domain h (sa_port dst) data of Inl _ \<Rightarrow> None | Inr buf \<Rightarrow> Some buf)
               | None \<Rightarrow> if in_fakeip N sh (sa_ip dst) then None else Some (encode_udp_request dst data)) of
              None \<Rightarrow> ([], s1)
            | Some buf \<Rightarrow>
                (let (key, s2) = forward_record contains wall dst domain (host \<noteq> None) data s1
                 in (if sent then [UpFrame buf] else [], on_record key (count_up_rec data) s2))) })"

definition forward_client_packet_direct :: "'n ipv4net \<Rightarrow> (string \<Rightarrow> ip_addr \<Rightarrow> bool) \<Rightarrow> nat \<Rightarrow> (bytes \<Rightarrow> io_kind + u32) \<Rightarrow> bool \<Rightarrow> bytes \<Rightarrow>
    assoc \<times> 'n shared \<Rightarrow> (assoc_out list \<times> assoc \<times> 'n shared) option" where
  "forward_client_packet_direct N contains wall resolve sent frame s =
     (case decode_client_udp_header frame of
        None \<Rightarrow> Some ([], s)
      | Some (dst, host, off) \<Rightarrow> do {
          let data = drop off frame;
          (domain, sh) \<leftarrow> frame_domain N dst host (snd s);
          let s1 = (fst s, sh);
          Some (case (case domain of
                 Some h \<Rightarrow> (case resolve h of Inl _ \<Rightarrow> None | Inr ip \<Rightarrow> Some \<lparr> sa_ip = V4 ip, sa_port = sa_port dst \<rparr>)
               | None \<Rightarrow> if in_fakeip N sh (sa_ip dst) then None else Some dst) of
              None \<Rightarrow> ([], s1)
            | Some real_dst \<Rightarrow>
                (let (key, s2) = forward_record contains wall dst domain (host \<noteq> None) data s1
                 in (if sent then [UpDatagram real_dst data] else [], on_record key (count_up_rec data) s2))) })"

text \<open>A reply: what the client is sent, and whether the reply leg goes on.\<close>

definition deliver_reply :: "nat \<Rightarrow> bool \<Rightarrow> socket_addr \<Rightarrow> bytes \<Rightarrow> assoc \<times> 'n shared \<Rightarrow> assoc_out list \<times> (assoc \<times> 'n shared) \<times> bool" where
  "deliver_reply now sent src data s =
     (case ac_client (fst s) of
        None \<Rightarrow> ([], s, True)
      | Some client \<Rightarrow>
          if \<not> sent then ([], s, False)
          else let s1 = ((fst s)\<lparr>ac_last_down := now\<rparr>, snd s) in
            ([ClientFrame client (encode_udp_request src data)],
             (case reply_record src (fst s1) of
                None \<Rightarrow> s1 | Some key \<Rightarrow> on_record key (add_down (of_nat (length data))) s1), True))"

text \<open>\<open>None\<close> is a panic of the decoder.\<close>

definition reply_socks5 :: "nat \<Rightarrow> bool \<Rightarrow> bytes \<Rightarrow> assoc \<times> 'n shared \<Rightarrow> (assoc_out list \<times> (assoc \<times> 'n shared) \<times> bool) option" where
  "reply_socks5 now sent frame s = (case decode_udp_reply frame of
     None \<Rightarrow> None
   | Some (Inl _) \<Rightarrow> Some ([], s, True)
   | Some (Inr (src, off)) \<Rightarrow> Some (deliver_reply now sent src (drop off frame) s))"

section \<open>The association\<close>

datatype inbound_upstream = AssocSocks5 | AssocDirect "bytes \<Rightarrow> io_kind + u32"

datatype assoc_event =
    FromClient socket_addr bytes nat bool
  | FromUpstream bytes nat bool
  | FromPeer socket_addr bytes nat bool
  | LegEnded
  | UpstreamClosed
  | ControlRead nat
  | ControlFailed
  | Idle nat

text \<open>One turn of the loop or of the reply leg: what is sent, the state, and whether it goes on.\<close>

definition assoc_step :: "'n ipv4net \<Rightarrow> (string \<Rightarrow> ip_addr \<Rightarrow> bool) \<Rightarrow> inbound_upstream \<Rightarrow> nat \<Rightarrow> assoc_event \<Rightarrow> assoc \<times> 'n shared \<Rightarrow>
    (assoc_out list \<times> (assoc \<times> 'n shared) \<times> bool) option" where
  "assoc_step N contains up idle ev s = (case ev of
     FromClient from frame wall sent \<Rightarrow>
       if sa_ip from \<noteq> sa_ip (ac_peer (fst s)) then Some ([], s, True)
       else let s1 = ((fst s)\<lparr>ac_client := Some from\<rparr>, snd s) in
         map_option (\<lambda>(outs, s2). (outs, s2, True))
           (case up of
              AssocSocks5 \<Rightarrow> forward_client_packet N contains wall sent frame s1
            | AssocDirect resolve \<Rightarrow> forward_client_packet_direct N contains wall resolve sent frame s1)
   | FromUpstream frame now sent \<Rightarrow> (case up of AssocSocks5 \<Rightarrow> reply_socks5 now sent frame s | AssocDirect _ \<Rightarrow> Some ([], s, True))
   | FromPeer src data now sent \<Rightarrow> (case up of AssocSocks5 \<Rightarrow> Some ([], s, True) | AssocDirect _ \<Rightarrow> Some (deliver_reply now sent src data s))
   | LegEnded \<Rightarrow> Some ([], s, False)
   | UpstreamClosed \<Rightarrow> Some ([], s, False)
   | ControlRead n \<Rightarrow> Some ([], s, n \<noteq> 0)
   | ControlFailed \<Rightarrow> Some ([], s, False)
   | Idle now \<Rightarrow> Some ([], s, now - ac_last_down (fst s) < idle))"

text \<open>The whole of it, until an event ends it; \<open>False\<close> when the events end first.\<close>

fun run_assoc :: "'n ipv4net \<Rightarrow> (string \<Rightarrow> ip_addr \<Rightarrow> bool) \<Rightarrow> inbound_upstream \<Rightarrow> nat \<Rightarrow> assoc_event list \<Rightarrow> assoc \<times> 'n shared \<Rightarrow>
    (assoc_out list \<times> (assoc \<times> 'n shared) \<times> bool) option" where
  "run_assoc N contains up idle [] s = Some ([], s, False)"
| "run_assoc N contains up idle (ev # evs) s = do {
     (outs, s1, on) \<leftarrow> assoc_step N contains up idle ev s;
     if on then do { (outs', s2, ended) \<leftarrow> run_assoc N contains up idle evs s1; Some (outs @ outs', s2, ended) }
     else Some (outs, s1, True) }"

text \<open>
  From the request to the end: the permit, the reply, the upstream, the loop, and the end, when the permit is given
  back and the records are closed. \<open>up_open\<close> says what the upstream answered to being up_open.
\<close>

definition udp_associate_inbound :: "'n ipv4net \<Rightarrow> (string \<Rightarrow> ip_addr \<Rightarrow> bool) \<Rightarrow> socket_addr \<Rightarrow> inbound_kind \<Rightarrow> socket_addr option \<Rightarrow>
    inbound_upstream option \<Rightarrow> nat \<Rightarrow> nat \<Rightarrow> nat \<Rightarrow> assoc_event list \<Rightarrow> stream \<Rightarrow> budget \<Rightarrow> 'n shared \<Rightarrow>
    (assoc_out list \<times> stream \<times> budget \<times> 'n shared) option" where
  "udp_associate_inbound N contains peer inb bnd up_open idle now closed evs ctrl b sh =
     (case acquire (sa_ip peer) (inb = InHealthCheck) b of
        None \<Rightarrow> Some ([], snd (write_reply 0x01 unspec ctrl), b, sh)
      | Some (permit, b1) \<Rightarrow> do {
          (outs, ctrl', sh') \<leftarrow> (case bnd of
              None \<Rightarrow> Some ([], ctrl, sh)
            | Some bnd \<Rightarrow> (case write_success bnd ctrl of
                (Inl _, c) \<Rightarrow> Some ([], c, sh)
              | (Inr _, c) \<Rightarrow> (case up_open of
                    None \<Rightarrow> Some ([], c, sh)
                  | Some up \<Rightarrow> map_option (\<lambda>(outs, s, _). (outs, c, assoc_close closed s))
                      (run_assoc N contains up idle evs (assoc_new peer inb now, sh)))));
          b2 \<leftarrow> permit_drop permit b1;
          Some (outs, ctrl', b2, sh') })"

end
