(* ===== verification/HttpOrigin.thy ===== *)
theory HttpOrigin
  imports HttpInbound
begin

text \<open>
  What the origin is sent of a forwarded request (\<open>rebuild_origin_request\<close>, \<open>request_framing\<close> of
  \<open>sniffbox/src/inbound_proxy.rs\<close>): how it delimits the request is how the relay delimits it, ambiguous requests
  are refused, and the proxy's own fields do not pass.
\<close>

section \<open>The framing the origin reads\<close>

text \<open>
  How a recipient delimits a request: at most one \<open>Content-Length\<close>, a decimal number, or one
  \<open>Transfer-Encoding\<close>, \<open>chunked\<close>; anything else is ambiguous.
\<close>

definition values_of :: "bytes \<Rightarrow> headers \<Rightarrow> bytes list" where
  "values_of name hs = map snd (filter (\<lambda>h. eq_nocase (fst h) name) hs)"

definition content_length :: "bytes \<Rightarrow> u64 option" where
  "content_length v = (if utf8_ok v \<and> list_all is_digit (trim v) then parse_u64 (trim v) else None)"

definition origin_framing :: "headers \<Rightarrow> body option" where
  "origin_framing hs = (case (values_of (bytes_of ''transfer-encoding'') hs, values_of (bytes_of ''content-length'') hs) of
     ([], []) \<Rightarrow> Some (Fixed 0)
   | ([], [v]) \<Rightarrow> map_option Fixed (content_length v)
   | ([v], []) \<Rightarrow> if eq_nocase (trim_ascii v) (bytes_of ''chunked'') then Some Chunked else None
   | _ \<Rightarrow> None)"

lemma values_of_simps [simp]:
  "values_of name [] = []"
  "values_of name (h # hs) = (if eq_nocase (fst h) name then snd h # values_of name hs else values_of name hs)"
  "values_of name (hs @ gs) = values_of name hs @ values_of name gs"
  by (simp_all add: values_of_def)

lemma eq_nocase_trans: "eq_nocase a b \<Longrightarrow> eq_nocase a c \<longleftrightarrow> eq_nocase b c"
  by (simp add: eq_nocase_def)

lemma field_names_differ:
  "eq_nocase a (bytes_of ''content-length'') \<Longrightarrow> \<not> eq_nocase a (bytes_of ''transfer-encoding'')"
  "eq_nocase a (bytes_of ''content-length'') \<Longrightarrow> \<not> eq_nocase a (bytes_of ''connection'')"
  "eq_nocase a (bytes_of ''transfer-encoding'') \<Longrightarrow> \<not> eq_nocase a (bytes_of ''connection'')"
proof -
  have ne: "\<not> eq_nocase (bytes_of ''content-length'') (bytes_of ''transfer-encoding'')"
    "\<not> eq_nocase (bytes_of ''content-length'') (bytes_of ''connection'')"
    "\<not> eq_nocase (bytes_of ''transfer-encoding'') (bytes_of ''connection'')" by code_simp+
  show "eq_nocase a (bytes_of ''content-length'') \<Longrightarrow> \<not> eq_nocase a (bytes_of ''transfer-encoding'')"
    "eq_nocase a (bytes_of ''content-length'') \<Longrightarrow> \<not> eq_nocase a (bytes_of ''connection'')"
    "eq_nocase a (bytes_of ''transfer-encoding'') \<Longrightarrow> \<not> eq_nocase a (bytes_of ''connection'')"
    using ne eq_nocase_trans by blast+
qed

text \<open>What the loop over the fields has found.\<close>

definition length_found :: "u64 option \<Rightarrow> bytes list \<Rightarrow> u64 option \<Rightarrow> bool" where
  "length_found len vs len' \<longleftrightarrow> (case vs of [] \<Rightarrow> len' = len | [v] \<Rightarrow> len = None \<and> len' \<noteq> None \<and> content_length v = len' | _ \<Rightarrow> False)"

definition coding_found :: "bool \<Rightarrow> bytes list \<Rightarrow> bool \<Rightarrow> bool" where
  "coding_found coded vs coded' \<longleftrightarrow> (case vs of [] \<Rightarrow> coded' = coded
     | [v] \<Rightarrow> \<not> coded \<and> coded' \<and> eq_nocase (trim_ascii v) (bytes_of ''chunked'') | _ \<Rightarrow> False)"

definition hides :: "bytes \<Rightarrow> headers \<Rightarrow> bool" where
  "hides name hs \<longleftrightarrow> list_ex (lists_token (bytes_of ''connection'') name) hs"

lemma hides_simps [simp]: "\<not> hides name []" "hides name (h # hs) \<longleftrightarrow> lists_token (bytes_of ''connection'') name h \<or> hides name hs"
  by (simp_all add: hides_def)

lemma framing_loop_found:
  "framing_loop hs len coded = Some (len', coded') \<Longrightarrow>
    length_found len (values_of (bytes_of ''content-length'') hs) len' \<and>
    coding_found coded (values_of (bytes_of ''transfer-encoding'') hs) coded' \<and>
    \<not> hides (bytes_of ''content-length'') hs \<and> \<not> hides (bytes_of ''transfer-encoding'') hs"
proof (induction hs len coded rule: framing_loop.induct)
  case (1 len coded)
  then show ?case by (simp add: length_found_def coding_found_def)
next
  case (2 name v hs len coded)
  note ih = 2
  let ?cl = "bytes_of ''content-length''" and ?te = "bytes_of ''transfer-encoding''" and ?co = "bytes_of ''connection''"
  consider "eq_nocase name ?cl" | "eq_nocase name ?te" "\<not> eq_nocase name ?cl" | "\<not> eq_nocase name ?cl" "\<not> eq_nocase name ?te" by blast
  then show ?case
  proof cases
    case 1
    then obtain n where n: "utf8_ok v" "len = None" "list_all is_digit (trim v)" "parse_u64 (trim v) = Some n" "trim v \<noteq> []"
      and rest: "framing_loop hs (Some n) coded = Some (len', coded')"
      using ih(4) by (auto simp: Let_def split: if_splits option.splits)
    have "length_found (Some n) (values_of ?cl hs) len' \<and> coding_found coded (values_of ?te hs) coded' \<and> \<not> hides ?cl hs \<and> \<not> hides ?te hs"
      using ih(1) 1 n rest by simp
    then show ?thesis using 1 n field_names_differ [of name]
      by (auto simp: length_found_def content_length_def lists_token_def split: list.splits)
  next
    case 2
    then have n: "\<not> coded" "eq_nocase (trim_ascii v) (bytes_of ''chunked'')" and rest: "framing_loop hs len True = Some (len', coded')"
      using ih(4) by (auto split: if_splits)
    have "length_found len (values_of ?cl hs) len' \<and> coding_found True (values_of ?te hs) coded' \<and> \<not> hides ?cl hs \<and> \<not> hides ?te hs"
      using ih(2) 2 n rest by simp
    then show ?thesis using 2 n field_names_differ [of name]
      by (auto simp: coding_found_def lists_token_def split: list.splits)
  next
    case 3
    then have n: "\<not> lists_token ?co ?cl (name, v)" "\<not> lists_token ?co ?te (name, v)" and rest: "framing_loop hs len coded = Some (len', coded')"
      using ih(4) by (auto split: if_splits)
    then show ?thesis using ih(3) 3 by simp
  qed
qed

text \<open>What is judged is what a recipient reads, of the client's fields and of the origin's alike.\<close>

lemma origin_framing_of:
  assumes "framing_loop hs None False = Some (len, coded)" and "\<not> (coded \<and> len \<noteq> None)"
  shows "origin_framing hs = Some (if coded then Chunked else Fixed (case len of None \<Rightarrow> 0 | Some n \<Rightarrow> n))"
  using framing_loop_found [OF assms(1)] assms(2)
  by (auto simp: origin_framing_def length_found_def coding_found_def split: list.splits)

lemma request_framing_origin: "request_framing hs = Some req \<Longrightarrow> origin_framing hs = Some (hq_body req)"
  by (auto simp: request_framing_def Let_def split: option.splits if_splits dest!: origin_framing_of)

lemma request_framing_shown:
  "request_framing hs = Some req \<Longrightarrow> \<not> hides (bytes_of ''content-length'') hs \<and> \<not> hides (bytes_of ''transfer-encoding'') hs"
  by (auto simp: request_framing_def split: option.splits dest!: framing_loop_found)

section \<open>The rebuilt fields\<close>

lemma hop_header_nocase: "eq_nocase a b \<Longrightarrow> hop_header a = hop_header b"
  by (simp add: hop_header_def list_ex_iff eq_nocase_def)

lemma hides_nocase: "eq_nocase a b \<Longrightarrow> hides a hs = hides b hs"
  by (simp add: hides_def lists_token_def list_ex_iff eq_nocase_def)

lemma field_kept_hides: "field_kept hs h \<longleftrightarrow> fst h \<noteq> [] \<and> \<not> hop_header (fst h) \<and> \<not> hides (fst h) hs"
  by (simp add: field_kept_def hides_def)

text \<open>A field that ends at this hop only if named by \<open>Connection\<close> keeps its values otherwise.\<close>

lemma values_of_kept:
  assumes "\<not> hop_header name" and "name \<noteq> []" and "\<not> hides name hs"
  shows "values_of name (filter (field_kept hs) gs) = values_of name gs"
proof -
  have "field_kept hs h" if "eq_nocase (fst h) name" for h
    using assms that hop_header_nocase [OF that] hides_nocase [OF that] by (auto simp: field_kept_hides eq_nocase_def lowers_def)
  then show ?thesis by (induction gs) auto
qed

lemma values_of_added:
  assumes "\<not> eq_nocase (bytes_of ''Host'') name" and "\<not> eq_nocase (bytes_of ''Connection'') name" and "\<not> eq_nocase (bytes_of ''Upgrade'') name"
  shows "values_of name (host_field kept host port @ end_fields hs) = []"
  using assms by (simp add: host_field_def end_fields_def split: option.splits)

lemma values_of_rebuilt:
  assumes "\<not> hides name hs" and "name = bytes_of ''content-length'' \<or> name = bytes_of ''transfer-encoding''"
  shows "values_of name (rebuilt_fields hs host port) = values_of name hs"
proof -
  have n: "\<not> hop_header name" "name \<noteq> []" "\<not> eq_nocase (bytes_of ''Host'') name" "\<not> eq_nocase (bytes_of ''Connection'') name"
    "\<not> eq_nocase (bytes_of ''Upgrade'') name"
    using assms(2) by (elim disjE; simp only:; code_simp)+
  show ?thesis unfolding rebuilt_fields_def Let_def values_of_simps(3) [of name "filter _ _"]
    using values_of_kept [OF n(1,2) assms(1)] values_of_added [OF n(3-5)] by simp
qed

lemma rebuilt_framing: "request_framing hs = Some req \<Longrightarrow> origin_framing (rebuilt_fields hs host port) = Some (hq_body req)"
  using values_of_rebuilt [of _ hs host port] request_framing_shown [of hs req] request_framing_origin [of hs req]
  by (simp add: origin_framing_def)

text \<open>The only fields of this hop are the ones that end the list.\<close>

lemma rebuilt_hop_fields: "h \<in> set (rebuilt_fields hs host port) \<Longrightarrow> hop_header (fst h) \<Longrightarrow> h \<in> set (end_fields hs)"
proof -
  have "\<not> hop_header (bytes_of ''Host'')" by code_simp
  then show "h \<in> set (rebuilt_fields hs host port) \<Longrightarrow> hop_header (fst h) \<Longrightarrow> h \<in> set (end_fields hs)"
    by (auto simp: rebuilt_fields_def host_field_def field_kept_hides Let_def split: if_splits)
qed

lemma rebuilt_no_credentials: "values_of (bytes_of ''proxy-authorization'') (rebuilt_fields hs host port) = []"
proof -
  let ?pa = "bytes_of ''proxy-authorization''"
  have n: "hop_header ?pa" "\<not> eq_nocase (bytes_of ''Host'') ?pa" "\<not> eq_nocase (bytes_of ''Connection'') ?pa" "\<not> eq_nocase (bytes_of ''Upgrade'') ?pa"
    by code_simp+
  have field: "hop_header a" if "eq_nocase a ?pa" for a using hop_header_nocase [OF that] n(1) by blast
  have "values_of ?pa (filter (field_kept hs) gs) = []" for gs
    using field by (induction gs) (auto simp: field_kept_hides)
  then show ?thesis using values_of_added [OF n(2-4)] by (simp add: rebuilt_fields_def Let_def values_of_simps(3) [of ?pa "filter _ _"])
qed

lemma rebuilt_has_host: "values_of (bytes_of ''host'') (rebuilt_fields hs host port) \<noteq> []"
proof -
  have n: "eq_nocase (bytes_of ''Host'') (bytes_of ''host'')" by code_simp
  have "values_of (bytes_of ''host'') gs \<noteq> []" if "list_ex (\<lambda>h. eq_nocase (fst h) (bytes_of ''host'')) gs" for gs
    using that by (induction gs) auto
  then show ?thesis using n by (simp add: rebuilt_fields_def Let_def host_field_def)
qed

section \<open>Properties\<close>

lemma parse_forward:
  assumes "parse_http_proxy_request R head = Some p" and "pp_kind p = ForwardTo host port request req"
  obtains r path where "R head = Complete r" "request_framing (rq_headers r) = Some req"
    "request = rebuild_origin_request (rq_method r) path (case rq_version r of None \<Rightarrow> 1 | Some v \<Rightarrow> v) (rq_headers r) host port"
    "split_absolute_uri (rq_path r) \<noteq> None" "pp_authorization p = header_value (rq_headers r) (bytes_of ''proxy-authorization'')"
  using assms by (auto simp: parse_http_proxy_request_def Let_def split: parsed.splits if_splits Option.bind_splits)


text \<open>A request with a body, the proxy's credentials and a field of the connection.\<close>

definition example_req :: req_head where
  "example_req = \<lparr> rq_method = bytes_of ''POST'', rq_path = bytes_of ''http://a.io:81/x'', rq_version = Some 1,
     rq_headers = [(bytes_of ''Content-Length'', bytes_of ''2''), (bytes_of ''Proxy-Authorization'', bytes_of ''Basic dTpw''),
       (bytes_of ''Connection'', bytes_of ''x-y''), (bytes_of ''X-Y'', bytes_of ''1'')] \<rparr>"

lemma example_framing: "request_framing (rq_headers example_req) = Some \<lparr> hq_body = Fixed 2, hq_upgrade = None \<rparr>"
proof -
  let ?cl = "bytes_of ''content-length''" and ?te = "bytes_of ''transfer-encoding''" and ?co = "bytes_of ''connection''"
  have names: "eq_nocase (bytes_of ''Content-Length'') ?cl" "\<not> eq_nocase (bytes_of ''Proxy-Authorization'') ?cl"
    "\<not> eq_nocase (bytes_of ''Proxy-Authorization'') ?te" "\<not> eq_nocase (bytes_of ''Connection'') ?cl"
    "\<not> eq_nocase (bytes_of ''Connection'') ?te" "\<not> eq_nocase (bytes_of ''X-Y'') ?cl" "\<not> eq_nocase (bytes_of ''X-Y'') ?te"
    by code_simp+
  have co: "eq_nocase (bytes_of ''Proxy-Authorization'') ?co = False" "eq_nocase (bytes_of ''X-Y'') ?co = False" by code_simp+
  have tokens: "\<not> lists_token ?co n (bytes_of ''Proxy-Authorization'', v)" "\<not> lists_token ?co n (bytes_of ''X-Y'', v)"
    "\<not> lists_token ?co ?cl (bytes_of ''Connection'', bytes_of ''x-y'')" "\<not> lists_token ?co ?te (bytes_of ''Connection'', bytes_of ''x-y'')" for n v
    unfolding lists_token_def fst_conv snd_conv by (simp_all only: co) code_simp+
  have v: "bytes_of ''2'' \<noteq> []" "utf8_ok (bytes_of ''2'')" "trim (bytes_of ''2'') = bytes_of ''2''" "list_all is_digit (bytes_of ''2'')"
    "header_value (rq_headers example_req) (bytes_of ''upgrade'') = None"
    by code_simp+
  have "parse_u64 (bytes_of ''2'') = Some 2" by (simp add: parse_u64_def parse_unsigned_def bytes_of_def is_digit_def digits_value_def)
  then show ?thesis using names tokens v
    by (simp add: request_framing_def example_req_def Let_def)
qed

lemma example_forward: "\<exists>p request. parse_http_proxy_request (\<lambda>_. Complete example_req) head = Some p \<and>
    pp_kind p = ForwardTo (bytes_of ''a.io'') 81 request \<lparr> hq_body = Fixed 2, hq_upgrade = None \<rparr> \<and>
    pp_authorization p = Some (bytes_of ''Basic dTpw'')"
proof -
  have h: "rsplit_colon (bytes_of ''a.io:81'') = Some (bytes_of ''a.io'', bytes_of ''81'')" "bytes_of ''a.io:81'' = 97 # bytes_of ''.io:81''"
    "bytes_of ''a.io'' \<noteq> []" "bytes_of ''81'' \<noteq> []" "list_all is_digit (bytes_of ''81'')" by code_simp+
  have "parse_u16 (bytes_of ''81'') = Some 81" by (simp add: parse_u16_def parse_unsigned_def bytes_of_def is_digit_def digits_value_def)
  then have host: "split_host_port (bytes_of ''a.io:81'') 80 = Some (bytes_of ''a.io'', 81)"
    using h by (simp add: split_host_port_def)
  have e: "split_absolute_uri (rq_path example_req) = Some (bytes_of ''a.io:81'', bytes_of ''/x'')"
    "header_value (rq_headers example_req) (bytes_of ''proxy-authorization'') = Some (bytes_of ''Basic dTpw'')"
    "eq_nocase (rq_method example_req) (bytes_of ''CONNECT'') = False"
    by code_simp+
  show ?thesis by (simp add: parse_http_proxy_request_def e host example_framing Let_def)
qed


end
