(* ===== verification/InboundClaims.thy ===== *)
theory InboundClaims
  imports HttpOrigin
begin

text \<open>
  The properties of the inbound proxy: who gets past the handshake, what a refused client is told, and that a
  client's bytes reach the origin it asked for, through the engine and the relay of forwarded requests.
\<close>

section \<open>The head of a request\<close>

lemma find_head_end_at: "find_head_end bs = Some e \<Longrightarrow> 4 \<le> e \<and> e \<le> length bs"
proof (induction bs arbitrary: e)
  case (Cons b bs)
  have "4 \<le> length (b # bs)" if "starts_with [13, 10, 13, 10] (b # bs)"
    using arg_cong [OF that [unfolded starts_with_def], of length] by (simp split: if_splits)
  then show ?case using Cons by (auto split: if_splits)
qed simp

lemma find_head_end_append: "find_head_end xs = Some e \<Longrightarrow> find_head_end (xs @ ys) = Some e"
proof (induction xs arbitrary: e)
  case (Cons b xs)
  show ?case
  proof (cases "starts_with [13, 10, 13, 10] (b # xs)")
    case True
    then have "4 \<le> length (b # xs)" using find_head_end_at [OF Cons.prems] Cons.prems by simp
    then show ?thesis using True Cons.prems by (simp add: starts_with_def)
  next
    case False
    then obtain e' where e: "find_head_end xs = Some e'" "e = Suc e'" using Cons.prems by auto
    then have "4 \<le> length xs" using find_head_end_at by fastforce
    then have "\<not> starts_with [13, 10, 13, 10] (b # xs @ ys)" using False by (simp add: starts_with_def)
    then show ?thesis using Cons.IH [OF e(1)] e(2) by simp
  qed
qed simp

text \<open>Nothing is lost between the head and the bytes read beyond it, and the head is bounded.\<close>

lemma read_http_head_stream:
  "read_http_head buf es rx = (Inr (Some (head, leftover)), rx') \<Longrightarrow> length buf \<le> HTTP_HEAD_MAX \<Longrightarrow>
    buf @ rx = head @ leftover @ rx' \<and> length head \<le> HTTP_HEAD_MAX + 1024 \<and> find_head_end (buf @ rx) = Some (length head)"
proof (induction buf es rx rule: read_http_head.induct)
  case (1 buf es rx)
  obtain r es' rx1 where l: "read_loop 1024 es rx = (r, es', rx1)" using prod_cases3 by blast
  with 1(2) obtain d where d: "r = progress.Ready d" by (cases r) (simp_all add: read_http_head.simps)
  have st: "rx = d @ rx1" "length d \<le> 1024" using read_loop_stream [OF l] d by simp_all
  note run = 1(2) [unfolded read_http_head.simps [of buf es rx] l d, simplified]
  show ?case
  proof (cases "find_head_end (buf @ d)")
    case None
    have nd: "d \<noteq> []" "\<not> length (buf @ d) > HTTP_HEAD_MAX" and more: "read_http_head (buf @ d) es' rx1 = (Inr (Some (head, leftover)), rx')"
      using run None by (auto split: if_splits)
    have "length (buf @ d) \<le> HTTP_HEAD_MAX" using nd(2) by simp
    from 1(1) [OF l [symmetric] d refl nd(1) None nd(2) more this]
    show ?thesis by (metis append_assoc st(1))
  next
    case (Some e)
    then have h: "head = take e (buf @ d)" "leftover = drop e (buf @ d)" "rx' = rx1" using run by (auto split: if_splits)
    have len: "length head = e" using find_head_end_at [OF Some] by (simp only: h(1) length_take min_absorb2)
    have "buf @ rx = head @ leftover @ rx'" unfolding h st(1) append_assoc [symmetric] append_take_drop_id ..
    moreover have "length head \<le> HTTP_HEAD_MAX + 1024" unfolding h(1) using 1(3) st(2) by simp
    moreover have "find_head_end (buf @ rx) = Some (length head)"
      using find_head_end_append [OF Some, of rx1] len st(1) by simp
    ultimately show ?thesis by blast
  qed
qed

lemma reply_then_done: "reply_then m out s = (r, s') \<Longrightarrow> r \<noteq> HsDone \<Longrightarrow> \<exists>x. m s = (Inr x, s') \<and> r = out"
  by (auto simp: reply_then_def split: prod.splits sum.splits)

lemma write_all_rx: "write_all data s = (r, s') \<Longrightarrow> st_rx s' = st_rx s"
  by (auto simp: write_all_def split: if_splits)

text \<open>An HTTP client past the handshake: its head was parsed, its credentials are the ones asked for.\<close>

lemma handle_http_passed:
  assumes "handle_http R auth pf es s = (hs, s')" and "hs \<noteq> HsDone"
  obtains head leftover p where "st_rx s = head @ leftover @ st_rx s'"
    and "length head \<le> HTTP_HEAD_MAX + 1024 \<and> find_head_end (st_rx s) = Some (length head)"
    and "parse_http_proxy_request R head = Some p"
    and "\<forall>user pass. auth = Some (user, pass) \<longrightarrow> pp_authorization p = Some (basic_auth_header_value user pass)"
    and "hs = HsTcp (case pp_kind p of
       ConnectTo host port \<Rightarrow> host_port_to_established host port [] leftover (pf_sniff pf) (pf_http pf)
     | ForwardTo host port request framing \<Rightarrow>
         (host_port_to_established host port request leftover False (pf_http pf))\<lparr>es_http_forward := Some framing\<rparr>)"
proof -
  obtain r rx where rd: "read_http_head [] es (st_rx s) = (r, rx)" by fastforce
  then obtain head leftover where r: "r = Inr (Some (head, leftover))"
    using assms by (cases r) (auto simp: handle_http_def split: option.splits)
  have st: "st_rx s = head @ leftover @ rx" "length head \<le> HTTP_HEAD_MAX + 1024 \<and> find_head_end (st_rx s) = Some (length head)"
    using read_http_head_stream [OF rd [unfolded r]] by (metis append_Nil bot_nat_0.extremum list.size(3))+
  let ?s = "s\<lparr>st_rx := rx\<rparr>"
  have "parse_http_proxy_request R head \<noteq> None"
  proof
    assume "parse_http_proxy_request R head = None"
    then have "reply_then (write_all bad_request) HsDone ?s = (hs, s')" using assms(1) rd r by (simp add: handle_http_def Let_def)
    then show False using reply_then_done assms(2) by blast
  qed
  then obtain p where p: "parse_http_proxy_request R head = Some p" by blast
  let ?bad = "case auth of None \<Rightarrow> False | Some (user, pass) \<Rightarrow> pp_authorization p \<noteq> Some (basic_auth_header_value user pass)"
  have ok: "\<not> ?bad"
  proof
    assume ?bad
    then have "reply_then (write_all auth_required) HsDone ?s = (hs, s')"
      using assms(1) rd r p by (simp add: handle_http_def Let_def)
    then show False using reply_then_done assms(2) by blast
  qed
  then have auth: "\<forall>user pass. auth = Some (user, pass) \<longrightarrow> pp_authorization p = Some (basic_auth_header_value user pass)" by auto
  show ?thesis
  proof (cases "pp_kind p")
    case (ConnectTo host port)
    then have "reply_then (write_all connection_established)
        (HsTcp (host_port_to_established host port [] leftover (pf_sniff pf) (pf_http pf))) ?s = (hs, s')"
      using assms(1) rd r p ok by (simp add: handle_http_def Let_def)
    from reply_then_done [OF this assms(2)] show ?thesis
      using that [OF _ st(2) p auth] st(1) ConnectTo write_all_rx by fastforce
  next
    case (ForwardTo host port request framing)
    then show ?thesis
      using that [OF _ st(2) p auth] st(1) assms(1) rd r p ok by (auto simp: handle_http_def Let_def)
  qed
qed

section \<open>Who gets past the handshake\<close>

lemma handle_socks5_passed: "handle_socks5 auth udp pf bnd s = (hs, s') \<Longrightarrow> hs \<noteq> HsDone \<Longrightarrow> \<exists>t. negotiate_method auth s = (Inr (), t)"
  by (auto simp: handle_socks5_def split: prod.splits sum.splits)

lemma request_credentials:
  "parse_http_proxy_request R head = Some p \<Longrightarrow> pp_authorization p = Some v \<Longrightarrow>
    \<exists>r. R head = Complete r \<and> header_value (rq_headers r) (bytes_of ''proxy-authorization'') = Some v"
  by (auto simp: parse_http_proxy_request_def Let_def split: parsed.splits if_splits Option.bind_splits option.splits)

text \<open>
  C7: with credentials configured, whoever gets past the handshake, to a connection or to a UDP association, sent
  them: a SOCKS client offered the user/pass method and then sent exactly that user and password; an HTTP client
  sent a head whose \<open>Proxy-Authorization\<close> is \<open>Basic\<close> and the Base64 text that decodes to the user, a colon and
  the password.
\<close>

theorem inbound_requires_credentials:
  assumes "inbound_handshake R (Some (user, pass)) udp pf bnd es s = (hs, s')" and "pf_apply_auth pf" and "hs \<noteq> HsDone"
  shows "(\<exists>methods rest. METHOD_USERPASS \<in> set methods \<and> length methods \<le> 255 \<and>
      st_rx s = [VER, of_nat (length methods)] @ methods @ [AUTH_VER, of_nat (length user)] @ user @ [of_nat (length pass)] @ pass @ rest) \<or>
    (\<exists>head rest r code. st_rx s = head @ rest \<and> R head = Complete r \<and>
      header_value (rq_headers r) (bytes_of ''proxy-authorization'') = Some (bytes_of ''Basic '' @ code) \<and>
      base64_decode code = user @ 58 # pass)"
proof (cases "st_rx s")
  case Nil
  then show ?thesis using assms by (simp add: inbound_handshake_def)
next
  case (Cons b bs)
  show ?thesis
  proof (cases "b = 0x05")
    case True
    then have "handle_socks5 (Some (user, pass)) udp pf bnd s = (hs, s')"
      using assms(1,2) Cons by (simp add: inbound_handshake_def)
    then obtain t where "negotiate_method (Some (user, pass)) s = (Inr (), t)" using handle_socks5_passed assms(3) by blast
    from negotiation_credentials [OF this] show ?thesis by blast
  next
    case False
    then have "handle_http R (Some (user, pass)) pf es s = (hs, s')"
      using assms(1,2) Cons by (simp add: inbound_handshake_def)
    then obtain head leftover p where st: "st_rx s = head @ leftover @ st_rx s'" and p: "parse_http_proxy_request R head = Some p"
      and "pp_authorization p = Some (basic_auth_header_value user pass)" using assms(3) handle_http_passed by metis
    then obtain r where r: "R head = Complete r"
      "header_value (rq_headers r) (bytes_of ''proxy-authorization'') = Some (basic_auth_header_value user pass)"
      using request_credentials by blast
    have "\<exists>code. basic_auth_header_value user pass = bytes_of ''Basic '' @ code \<and> base64_decode code = user @ 58 # pass"
      unfolding basic_auth_header_value_def using base64_decode_encode by blast
    then show ?thesis using st r by metis
  qed
qed

section \<open>What a refused client is told\<close>

lemma write_all_fits: "length data \<le> st_tx_room s \<Longrightarrow>
    write_all data s = (Inr (), s\<lparr>st_tx := st_tx s @ data, st_tx_room := st_tx_room s - length data\<rparr>)"
  by (simp add: write_all_def)

text \<open>
  C40: a request whose end its recipients may disagree on is not forwarded. When the fields have two lengths, a
  length beside a coding, a coding other than one \<open>chunked\<close>, or a length that is no 64-bit number, the client is
  answered that the request is bad, in full, and the handshake is over with nothing to relay, whoever the
  client is.
\<close>

theorem ambiguous_request_is_refused:
  assumes "read_http_head [] es (st_rx s) = (Inr (Some (head, leftover)), rx)" and "R head = Complete r"
    and "\<not> eq_nocase (rq_method r) (bytes_of ''CONNECT'')" and "origin_framing (rq_headers r) = None"
    and "length bad_request \<le> st_tx_room s"
  shows "\<exists>s'. handle_http R auth pf es s = (HsDone, s') \<and> st_tx s' = st_tx s @ bad_request \<and> st_rx s' = rx"
proof -
  have "request_framing (rq_headers r) = None"
    using request_framing_origin [of "rq_headers r"] assms(4) by (cases "request_framing (rq_headers r)") auto
  then have "parse_http_proxy_request R head = None"
    using assms(2,3) by (auto simp: parse_http_proxy_request_def split: Option.bind_splits)
  then show ?thesis
    using assms(1,5) write_all_fits [of bad_request "s\<lparr>st_rx := rx\<rparr>"] by (simp add: handle_http_def reply_then_def)
qed

section \<open>From the client to its origin\<close>

lemma established_of [simp]:
  "es_prelude (host_port_to_established host port pre peeked sniff inb) = pre"
  "es_peeked (host_port_to_established host port pre peeked sniff inb) = peeked"
  "es_http_forward (host_port_to_established host port pre peeked sniff inb) = None"
  by (simp_all add: host_port_to_established_def Let_def split: option.splits)

lemma forwarded_stream:
  fixes sh :: "'n shared"
  assumes "serve_established H grow (http_relay_run P) contains N w peer est sh = Some (Proxied tg, up, down, sh')"
    and "es_http_forward est = Some req" and "peek_pool_ok (sh_peek_pool sh)"
  shows "\<exists>sent got. w_dst up = w_dst (wd_up w) @ sent \<and> w_dst down = w_dst (wd_down w) @ got \<and> prefix got (w_src (wd_down w)) \<and>
    (prefix sent (es_prelude est) \<or> (\<exists>relayed. sent = es_prelude est @ relayed \<and>
      (\<forall>body out after. body_form P (hq_body req) body out \<longrightarrow> es_peeked est @ w_src (wd_up w) = body @ after \<longrightarrow>
        prefix relayed out \<or> (\<exists>more protocol t. relayed = out @ more \<and> prefix more after \<and> hq_upgrade req = Some protocol \<and>
          accepted_in P protocol t \<and> prefix t (w_src (wd_down w))))))"
proof -
  obtain p rest r and sh1 :: "'n shared" and e sh3 where b: "peek_bytes p @ rest = es_peeked est @ w_src (wd_up w)"
    and run: "run_proxy (http_relay_run P) (wd_connect w) p (es_prelude est) (es_http_forward est)
      \<lparr> en_rec = r, en_up = (wd_up w)\<lparr>w_src := rest, w_counter := 0\<rparr>, en_down = (wd_down w)\<lparr>w_counter := 0\<rparr> \<rparr> sh1 = (e, sh3)"
    and e: "up = en_up e" "down = en_down e"
    using assms(1,3) by (rule serve_established_run)
  from run_proxy_forwarded [OF run [unfolded assms(2)]] show ?thesis
  proof (elim disjE exE conjE)
    fix k assume k: "w_dst (en_up e) = w_dst (en_up \<lparr> en_rec = r, en_up = (wd_up w)\<lparr>w_src := rest, w_counter := 0\<rparr>, en_down = (wd_down w)\<lparr>w_counter := 0\<rparr> \<rparr>) @
        take k (es_prelude est)"
      "w_dst (en_down e) = w_dst (en_down \<lparr> en_rec = r, en_up = (wd_up w)\<lparr>w_src := rest, w_counter := 0\<rparr>, en_down = (wd_down w)\<lparr>w_counter := 0\<rparr> \<rparr>)"
    then show ?thesis using e by (intro exI [of _ "take k (es_prelude est)"] exI [of _ "[]"]) (simp add: take_is_prefix)
  next
    fix u assume u: "w_dst u = w_dst (en_up \<lparr> en_rec = r, en_up = (wd_up w)\<lparr>w_src := rest, w_counter := 0\<rparr>, en_down = (wd_down w)\<lparr>w_counter := 0\<rparr> \<rparr>) @ es_prelude est"
      "w_src u = w_src (en_up \<lparr> en_rec = r, en_up = (wd_up w)\<lparr>w_src := rest, w_counter := 0\<rparr>, en_down = (wd_down w)\<lparr>w_counter := 0\<rparr> \<rparr>)"
      "http_relay_run P req (peek_bytes p) (u, en_down \<lparr> en_rec = r, en_up = (wd_up w)\<lparr>w_src := rest, w_counter := 0\<rparr>, en_down = (wd_down w)\<lparr>w_counter := 0\<rparr> \<rparr>) =
        (en_up e, en_down e)"
    from http_relay_run_spec [OF u(3)] obtain relayed got where
      s: "w_dst up = w_dst u @ relayed" "w_dst down = w_dst (wd_down w) @ got" "prefix got (w_src (wd_down w))" and
      f: "\<forall>body out after. body_form P (hq_body req) body out \<longrightarrow> peek_bytes p @ w_src u = body @ after \<longrightarrow>
        prefix relayed out \<or> (\<exists>more protocol t. relayed = out @ more \<and> prefix more after \<and> hq_upgrade req = Some protocol \<and>
          accepted_in P protocol t \<and> prefix t (w_src (wd_down w)))" using e by auto
    have "peek_bytes p @ w_src u = es_peeked est @ w_src (wd_up w)" using u(2) b by simp
    then show ?thesis using s f u(1) by (intro exI [of _ "es_prelude est @ relayed"] exI [of _ got]) simp
  qed
qed

text \<open>
  C6: an HTTP client of the local port that is proxied was allowed by the access list, and its bytes split into a
  head, up to the first empty line, and the rest. After \<open>CONNECT\<close> the upstream gets the rest, in order and from its first byte, and none of
  the head. For another request it gets the request rebuilt for the origin and then only the request's body as
  announced; what follows the body is sent only after a change of protocol that the origin accepted. The client
  gets the upstream's bytes in order.
\<close>

theorem http_client_reaches_its_origin:
  fixes sh :: "'n shared"
  assumes "accept_conn R P H grow contains N auth udp pf bnd es s w peer sh = InTcp (Some (Proxied tg, up, down, sh'))"
    and "st_rx s = first # bytes" and "first \<noteq> 0x05" and "peek_pool_ok (sh_peek_pool sh)"
  shows "\<exists>head rest p sent got. (pf_acl pf \<longrightarrow> proxy_allowed N (sa_ip peer) sh) \<and>
    st_rx s = head @ rest \<and> find_head_end (st_rx s) = Some (length head) \<and> length head \<le> HTTP_HEAD_MAX + 1024 \<and> parse_http_proxy_request R head = Some p \<and>
    w_dst up = w_dst (wd_up w) @ sent \<and> w_dst down = w_dst (wd_down w) @ got \<and> prefix got (w_src (wd_down w)) \<and>
    (case pp_kind p of
       ConnectTo host port \<Rightarrow> prefix sent rest
     | ForwardTo host port request req \<Rightarrow> prefix sent request \<or> (\<exists>relayed. sent = request @ relayed \<and>
        (\<forall>body out after. body_form P (hq_body req) body out \<longrightarrow> rest = body @ after \<longrightarrow>
          prefix relayed out \<or> (\<exists>more protocol t. relayed = out @ more \<and> prefix more after \<and> hq_upgrade req = Some protocol \<and>
            accepted_in P protocol t \<and> prefix t (w_src (wd_down w))))))"
proof -
  have acl: "pf_acl pf \<longrightarrow> proxy_allowed N (sa_ip peer) sh" using assms(1) by (auto simp: accept_conn_def split: if_splits)
  then obtain est s' where hs: "inbound_handshake R auth udp pf bnd es s = (HsTcp est, s')"
    and run: "serve_established H grow (http_relay_run P) contains N (w\<lparr>wd_up := (wd_up w)\<lparr>w_src := st_rx s'\<rparr>\<rparr>) peer est sh =
      Some (Proxied tg, up, down, sh')"
    using assms(1) by (auto simp: accept_conn_def handle_inbound_def split: prod.splits handshake_end.splits if_splits)
  obtain auth' where hh: "handle_http R auth' pf es s = (HsTcp est, s')"
    using hs assms(2,3) by (auto simp: inbound_handshake_def Let_def)
  obtain head leftover p where st: "st_rx s = head @ leftover @ st_rx s'"
      "length head \<le> HTTP_HEAD_MAX + 1024 \<and> find_head_end (st_rx s) = Some (length head)"
    and p: "parse_http_proxy_request R head = Some p"
    and "\<forall>user pass. auth' = Some (user, pass) \<longrightarrow> pp_authorization p = Some (basic_auth_header_value user pass)"
    and est: "HsTcp est = HsTcp (case pp_kind p of
       ConnectTo host port \<Rightarrow> host_port_to_established host port [] leftover (pf_sniff pf) (pf_http pf)
     | ForwardTo host port request framing \<Rightarrow>
         (host_port_to_established host port request leftover False (pf_http pf))\<lparr>es_http_forward := Some framing\<rparr>)"
    using hh handshake_end.distinct(3) by (rule handle_http_passed)
  show ?thesis
  proof (cases "pp_kind p")
    case (ConnectTo host port)
    then have e: "es_http_forward est = None" "es_prelude est = []" "es_peeked est = leftover" using est by simp_all
    obtain sent got rest rest' where "leftover @ st_rx s' = sent @ rest" "w_dst up = w_dst (wd_up w) @ sent"
      "w_src (wd_down w) = got @ rest'" "w_dst down = w_dst (wd_down w) @ got"
      using served_stream [OF run e(1) assms(4)] e by auto
    moreover from this have "prefix sent (leftover @ st_rx s')" "prefix got (w_src (wd_down w))" by simp_all
    ultimately have c: "w_dst up = w_dst (wd_up w) @ sent" "w_dst down = w_dst (wd_down w) @ got"
      "prefix sent (leftover @ st_rx s')" "prefix got (w_src (wd_down w))" by simp_all
    show ?thesis
      by (rule exI [of _ head], rule exI [of _ "leftover @ st_rx s'"], rule exI [of _ p], rule exI [of _ sent], rule exI [of _ got])
        (intro conjI acl st(1) conjunct1 [OF st(2)] conjunct2 [OF st(2)] p c(1,2,4), simp add: ConnectTo c(3))
  next
    case (ForwardTo host port request req)
    then have e: "es_http_forward est = Some req" "es_prelude est = request" "es_peeked est = leftover" using est by simp_all
    from forwarded_stream [OF run e(1) assms(4)] obtain sent got where
      c: "w_dst up = w_dst (wd_up w) @ sent" "w_dst down = w_dst (wd_down w) @ got" "prefix got (w_src (wd_down w))"
        "prefix sent request \<or> (\<exists>relayed. sent = request @ relayed \<and>
          (\<forall>body out after. body_form P (hq_body req) body out \<longrightarrow> leftover @ st_rx s' = body @ after \<longrightarrow>
            prefix relayed out \<or> (\<exists>more protocol t. relayed = out @ more \<and> prefix more after \<and> hq_upgrade req = Some protocol \<and>
              accepted_in P protocol t \<and> prefix t (w_src (wd_down w)))))" unfolding e(2,3) by auto
    show ?thesis
      by (rule exI [of _ head], rule exI [of _ "leftover @ st_rx s'"], rule exI [of _ p], rule exI [of _ sent], rule exI [of _ got])
        (intro conjI acl st(1) conjunct1 [OF st(2)] conjunct2 [OF st(2)] p c(1,2,3), unfold ForwardTo http_req_kind.case, rule c(4))
  qed
qed

section \<open>Examples\<close>

text \<open>A head and a part of a body, which arrive at once.\<close>

definition example_stream :: stream where
  "example_stream = \<lparr> st_rx = bytes_of ''P'' @ [13, 10, 13, 10] @ bytes_of ''OKGET /'', st_tx = [], st_tx_room = 100 \<rparr>"

lemma example_head: "read_http_head [] [Moved 900] (st_rx example_stream) =
  (Inr (Some (bytes_of ''P'' @ [13, 10, 13, 10], bytes_of ''OKGET /'')), [])"
proof -
  have "find_head_end (st_rx example_stream) = Some 5" "st_rx example_stream \<noteq> []" "length (st_rx example_stream) = 12" by code_simp+
  moreover have "take 5 (st_rx example_stream) = bytes_of ''P'' @ [13, 10, 13, 10]" "drop 5 (st_rx example_stream) = bytes_of ''OKGET /''"
    by code_simp+
  ultimately show ?thesis by (simp add: read_http_head.simps [of "[]" "[Moved 900]"])
qed

lemma example_first: "st_rx example_stream = 80 # tl (st_rx example_stream)"
  by code_simp

definition example_handed :: "bytes \<Rightarrow> inbound_kind \<Rightarrow> conn" where
  "example_handed request inb = (host_port_to_established (bytes_of ''a.io'') 81 request (bytes_of ''OKGET /'') False inb)
     \<lparr>es_http_forward := Some \<lparr> hq_body = Fixed 2, hq_upgrade = None \<rparr>\<rparr>"

lemma example_handshake:
  assumes "\<not> pf_apply_auth pf \<or> auth = None \<or> auth = Some (bytes_of ''u'', bytes_of ''p'')"
  shows "\<exists>request. inbound_handshake (\<lambda>_. Complete example_req) auth udp pf bnd [Moved 900] example_stream =
    (HsTcp (example_handed request (pf_http pf)), example_stream\<lparr>st_rx := []\<rparr>)"
proof -
  obtain p request where p: "parse_http_proxy_request (\<lambda>_. Complete example_req) (bytes_of ''P'' @ [13, 10, 13, 10]) = Some p"
    "pp_kind p = ForwardTo (bytes_of ''a.io'') 81 request \<lparr> hq_body = Fixed 2, hq_upgrade = None \<rparr>"
    "pp_authorization p = Some (bytes_of ''Basic dTpw'')" using example_forward by blast
  have "basic_auth_header_value (bytes_of ''u'') (bytes_of ''p'') = bytes_of ''Basic dTpw''" by code_simp
  moreover have "inbound_handshake R auth udp pf bnd es example_stream =
      handle_http R (if pf_apply_auth pf then auth else None) pf es example_stream" for R es
    by (subst inbound_handshake_def, subst example_first) (simp add: Let_def)
  ultimately have "inbound_handshake (\<lambda>_. Complete example_req) auth udp pf bnd [Moved 900] example_stream =
      (HsTcp (example_handed request (pf_http pf)), example_stream\<lparr>st_rx := []\<rparr>)"
    using assms p example_head by (auto simp: handle_http_def example_handed_def Let_def)
  then show ?thesis ..
qed

theorem inbound_requires_credentials_witness:
  "\<exists>code. header_value (rq_headers example_req) (bytes_of ''proxy-authorization'') = Some (bytes_of ''Basic '' @ code) \<and>
    base64_decode code = bytes_of ''u'' @ 58 # bytes_of ''p''"
proof -
  obtain hs s' where h: "inbound_handshake (\<lambda>_. Complete example_req) (Some (bytes_of ''u'', bytes_of ''p'')) False OPENPORT unspec
      [Moved 900] example_stream = (hs, s')" "hs \<noteq> HsDone"
    using example_handshake [of OPENPORT "Some (bytes_of ''u'', bytes_of ''p'')"] by blast
  have "\<not> (\<exists>methods rest. st_rx example_stream = [VER, of_nat (length methods)] @ methods @ rest)"
    by (subst example_first) simp
  then show ?thesis
    using inbound_requires_credentials [OF h(1) _ h(2)] by (auto simp: OPENPORT_def)
qed

lemma example_accepted:
  "\<exists>request tg up down sh'. parse_http_proxy_request (\<lambda>_. Complete example_req) = (\<lambda>_. Some \<lparr> pp_kind =
      ForwardTo (bytes_of ''a.io'') 81 request \<lparr> hq_body = Fixed 2, hq_upgrade = None \<rparr>, pp_authorization = Some (bytes_of ''Basic dTpw'') \<rparr>) \<and>
    accept_conn (\<lambda>_. Complete example_req) P (\<lambda>_. None) (\<lambda>c n. n) (\<lambda>_ _. False) N None False HEALTHCHECK unspec
      [Moved 900] example_stream example_world peer (example_shared None) = InTcp (Some (Proxied tg, up, down, sh'))"
proof -
  obtain p request where p: "parse_http_proxy_request (\<lambda>_. Complete example_req) [] = Some p"
    "pp_kind p = ForwardTo (bytes_of ''a.io'') 81 request \<lparr> hq_body = Fixed 2, hq_upgrade = None \<rparr>"
    "pp_authorization p = Some (bytes_of ''Basic dTpw'')" using example_forward by blast
  have "parse_http_proxy_request (\<lambda>_. Complete example_req) head = parse_http_proxy_request (\<lambda>_. Complete example_req) []" for head
    by (simp add: parse_http_proxy_request_def)
  then have a: "parse_http_proxy_request (\<lambda>_. Complete example_req) = (\<lambda>_. Some \<lparr> pp_kind =
      ForwardTo (bytes_of ''a.io'') 81 request \<lparr> hq_body = Fixed 2, hq_upgrade = None \<rparr>, pp_authorization = Some (bytes_of ''Basic dTpw'') \<rparr>)"
    using p by (cases p) auto
  obtain request' where hs: "inbound_handshake (\<lambda>_. Complete example_req) None False HEALTHCHECK unspec [Moved 900] example_stream =
      (HsTcp (example_handed request' (pf_http HEALTHCHECK)), example_stream\<lparr>st_rx := []\<rparr>)"
    using example_handshake [of HEALTHCHECK None] by blast
  have "parse_ip (bytes_of ''a.io'') = None" by code_simp
  then have e: "es_group (example_handed request inb) = None" "es_domain (example_handed request inb) = Some (bytes_of ''a.io'')"
    "\<not> es_sniff (example_handed request inb)" for request inb
    by (simp_all add: example_handed_def host_port_to_established_def Let_def)
  have "accept_conn (\<lambda>_. Complete example_req) P (\<lambda>_. None) (\<lambda>c n. n) (\<lambda>_ _. False) N None False HEALTHCHECK unspec
      [Moved 900] example_stream example_world peer (example_shared None) = InTcp (serve_established (\<lambda>_. None) (\<lambda>c n. n) (http_relay_run P) (\<lambda>_ _. False) N
      (example_world\<lparr>wd_up := (wd_up example_world)\<lparr>w_src := []\<rparr>\<rparr>) peer (example_handed request' (pf_http HEALTHCHECK)) (example_shared None))"
    unfolding accept_conn_def handle_inbound_def hs by (simp add: HEALTHCHECK_def)
  then show ?thesis using a named_is_served [OF e] by metis
qed

theorem http_client_reaches_its_origin_witness:
  "\<exists>request tg up down sh'. accept_conn (\<lambda>_. Complete example_req) \<lparr> hp_chunk = \<lambda>_. BadSyntax, hp_trailers = \<lambda>_. BadSyntax, hp_response = \<lambda>_. None \<rparr>
      (\<lambda>_. None) (\<lambda>c n. n) (\<lambda>_ _. False) cidr4 None False HEALTHCHECK unspec
      [Moved 900] example_stream example_world unspec (example_shared None) = InTcp (Some (Proxied tg, up, down, sh')) \<and>
    (prefix (w_dst up) request \<or> (\<exists>relayed. w_dst up = request @ relayed \<and> prefix relayed (bytes_of ''OK'')))"
proof -
  let ?P = "\<lparr> hp_chunk = \<lambda>_. BadSyntax, hp_trailers = \<lambda>_. BadSyntax, hp_response = \<lambda>_. None \<rparr>"
  obtain request tg up down sh' where a: "parse_http_proxy_request (\<lambda>_. Complete example_req) = (\<lambda>_. Some \<lparr> pp_kind =
      ForwardTo (bytes_of ''a.io'') 81 request \<lparr> hq_body = Fixed 2, hq_upgrade = None \<rparr>, pp_authorization = Some (bytes_of ''Basic dTpw'') \<rparr>)"
    and c: "accept_conn (\<lambda>_. Complete example_req) ?P (\<lambda>_. None) (\<lambda>c n. n) (\<lambda>_ _. False) cidr4 None False HEALTHCHECK unspec
      [Moved 900] example_stream example_world unspec (example_shared None) = InTcp (Some (Proxied tg, up, down, sh'))"
    using example_accepted by blast
  obtain head rest sent where r: "st_rx example_stream = head @ rest" "find_head_end (st_rx example_stream) = Some (length head)"
      "w_dst up = w_dst (wd_up example_world) @ sent"
    and f: "prefix sent request \<or> (\<exists>relayed. sent = request @ relayed \<and>
        (\<forall>body out after. body_form ?P (Fixed 2) body out \<longrightarrow> rest = body @ after \<longrightarrow> prefix relayed out))"
    using http_client_reaches_its_origin [OF c example_first _ example_peek_pool] unfolding a by fastforce
  have h: "find_head_end (st_rx example_stream) = Some 5" "drop 5 (st_rx example_stream) = bytes_of ''OK'' @ bytes_of ''GET /''"
    by code_simp+
  then have "rest = drop 5 (st_rx example_stream)" using r(1,2) by simp
  then have "rest = bytes_of ''OK'' @ bytes_of ''GET /''" using h(2) by simp
  moreover have "body_form ?P (Fixed 2) (bytes_of ''OK'') (bytes_of ''OK'')" by (simp add: body_form_def)
  ultimately have "prefix sent request \<or> (\<exists>relayed. sent = request @ relayed \<and> prefix relayed (bytes_of ''OK''))" using f by blast
  moreover have "w_dst up = sent" using r(3) by (simp add: example_world_def)
  ultimately show ?thesis using c by blast
qed
definition smuggled_req :: req_head where
  "smuggled_req = \<lparr> rq_method = bytes_of ''POST'', rq_path = bytes_of ''http://a.io/'', rq_version = Some 1,
     rq_headers = [(bytes_of ''Content-Length'', bytes_of ''2''), (bytes_of ''Transfer-Encoding'', bytes_of ''chunked'')] \<rparr>"

theorem ambiguous_request_is_refused_witness:
  "\<exists>s'. handle_http (\<lambda>_. Complete smuggled_req) None OPENPORT [Moved 900] example_stream = (HsDone, s') \<and> st_tx s' = bad_request"
proof -
  have "\<not> eq_nocase (rq_method smuggled_req) (bytes_of ''CONNECT'')" "length bad_request \<le> st_tx_room example_stream"
    "values_of (bytes_of ''transfer-encoding'') (rq_headers smuggled_req) \<noteq> []"
    "values_of (bytes_of ''content-length'') (rq_headers smuggled_req) \<noteq> []" by code_simp+
  moreover from this have "origin_framing (rq_headers smuggled_req) = None" by (simp add: origin_framing_def split: list.splits)
  ultimately show ?thesis
    using ambiguous_request_is_refused [OF example_head, of "\<lambda>_. Complete smuggled_req" smuggled_req] by (auto simp: example_stream_def)
qed

end
