(* ===== verification/AssocClaims.thy ===== *)
theory AssocClaims
  imports InboundUdp UdpSafety InboundClaims
begin

text \<open>
  The properties of a SOCKS client's UDP association: what it sends and to whom, and that its records are bounded,
  account for what was sent and are closed at the end.
\<close>

section \<open>Frames\<close>

lemma decode_client_named:
  assumes "utf8_ok host" and "encode_udp_request_domain host port data = Inr buf"
  shows "\<exists>off. decode_client_udp_header buf = Some (\<lparr> sa_ip = V4 0, sa_port = port \<rparr>, Some host, off) \<and> drop off buf = data"
proof -
  have l: "length host \<le> 255" and b: "buf = [0, 0, 0, 3] @ [of_nat (length host)] @ host @ to_be16 port @ data"
    using assms(2) by (auto simp: encode_udp_request_domain_def split: if_splits)
  have u: "unat (buf ! 4) = length host" using l unat_len [OF l] by (simp add: b)
  have p: "be16_of (buf ! (5 + length host)) (buf ! (5 + length host + 1)) = port"
    using be16_after [of "[0, 0, 0, 3, of_nat (length host)] @ host" "5 + length host" port data] by (simp add: b)
  have h: "buf ! 0 = 0" "buf ! 1 = 0" "buf ! 2 = 0" "buf ! 3 = 3" "length buf = 7 + length host + length data"
    "take (length host) (drop 5 buf) = host" by (simp_all add: b)
  have "decode_client_udp_header buf = Some (\<lparr> sa_ip = V4 0, sa_port = port \<rparr>, Some host, 5 + length host + 2)"
    using h u p assms(1) by (simp add: decode_client_udp_header_def Let_def)
  moreover have "drop (5 + length host + 2) buf = data" by (simp add: b drop_Cons')
  ultimately show ?thesis by blast
qed

lemma decode_client_addressed:
  "\<exists>off. decode_client_udp_header (encode_udp_request dst data) = Some (dst, None, off) \<and> drop off (encode_udp_request dst data) = data"
proof (cases "sa_ip dst")
  case (V4 v)
  have d: "\<lparr> sa_ip = V4 v, sa_port = sa_port dst \<rparr> = dst" using V4 by simp
  show ?thesis
    using V4 d by (intro exI [of _ 10])
      (simp add: encode_udp_request_def decode_client_udp_header_def encode_ip_def to_be32_def to_be16_def)
next
  case (V6 v)
  have d: "\<lparr> sa_ip = V6 v, sa_port = sa_port dst \<rparr> = dst" using V6 by simp
  let ?b = "[0, 0, 0, 4] @ to_be128 v @ to_be16 (sa_port dst) @ data"
  have b: "encode_udp_request dst data = ?b" using V6 by (simp add: encode_udp_request_def encode_ip_def)
  have p: "be16_of (?b ! 20) (?b ! 21) = sa_port dst"
    using be16_after [of "[0, 0, 0, 4] @ to_be128 v" 20 "sa_port dst" data] by simp
  have "decode_client_udp_header ?b = Some (\<lparr> sa_ip = V6 v, sa_port = sa_port dst \<rparr>, None, 22)"
    using p by (simp add: decode_client_udp_header_def)
  then show ?thesis using d b by (intro exI [of _ 22]) simp
qed

section \<open>What is sent\<close>

definition from_client :: "socket_addr \<Rightarrow> assoc_event list \<Rightarrow> socket_addr \<Rightarrow> bytes option \<Rightarrow> bytes \<Rightarrow> bool" where
  "from_client peer evs dst host data \<longleftrightarrow> (\<exists>from frame wall sent off. FromClient from frame wall sent \<in> set evs \<and> sa_ip from = sa_ip peer \<and>
     decode_client_udp_header frame = Some (dst, host, off) \<and> data = drop off frame)"

text \<open>
  What may be sent: a client's frame, by its name or by an address that is not of the pool; to the client, at an address
  it sent from, what came in, framed with its true source.
\<close>

definition out_ok :: "(ip_addr \<Rightarrow> bool) \<Rightarrow> inbound_upstream \<Rightarrow> socket_addr \<Rightarrow> assoc_event list \<Rightarrow> assoc_out \<Rightarrow> bool" where
  "out_ok fake up peer evs out \<longleftrightarrow> (case out of
     UpFrame buf \<Rightarrow> \<exists>dst host data. from_client peer evs dst host data \<and>
       (host = None \<and> \<not> fake (sa_ip dst) \<and> buf = encode_udp_request dst data \<or>
        (\<exists>name. (host = Some name \<or> host = None \<and> fake (sa_ip dst)) \<and> encode_udp_request_domain name (sa_port dst) data = Inr buf))
   | UpDatagram real data \<Rightarrow> \<exists>dst host. from_client peer evs dst host data \<and>
       (host = None \<and> \<not> fake (sa_ip dst) \<and> real = dst \<or>
        (\<exists>resolve name ip. up = AssocDirect resolve \<and> (host = Some name \<or> host = None \<and> fake (sa_ip dst)) \<and> resolve name = Inr ip \<and>
          real = \<lparr> sa_ip = V4 ip, sa_port = sa_port dst \<rparr>))
   | ClientFrame client frame \<Rightarrow> (\<exists>f wall sent. FromClient client f wall sent \<in> set evs) \<and> sa_ip client = sa_ip peer \<and>
       (\<exists>src data. frame = encode_udp_request src data \<and>
         ((\<exists>f now sent off. FromUpstream f now sent \<in> set evs \<and> decode_udp_reply f = Some (Inr (src, off)) \<and> data = drop off f) \<or>
          (\<exists>now sent. FromPeer src data now sent \<in> set evs))))"

lemma out_ok_more: "out_ok fake up peer evs out \<Longrightarrow> set evs \<subseteq> set evs' \<Longrightarrow> out_ok fake up peer evs' out"
  unfolding out_ok_def from_client_def by (cases out) (simp_all, blast+)

text \<open>Where the client is: an address it sent from.\<close>

definition client_ok :: "assoc_event list \<Rightarrow> assoc \<Rightarrow> bool" where
  "client_ok evs a \<longleftrightarrow> (\<forall>c. ac_client a = Some c \<longrightarrow> (\<exists>f wall sent. FromClient c f wall sent \<in> set evs) \<and> sa_ip c = sa_ip (ac_peer a))"

lemma frame_domain_ok:
  assumes "shared_ok N fake sh"
  shows "\<exists>d sh'. frame_domain N dst host sh = Some (d, sh') \<and> shared_ok N fake sh' \<and> sh_traffic sh' = sh_traffic sh \<and>
    sh_table sh' = sh_table sh \<and> (host \<noteq> None \<longrightarrow> d = host) \<and> (host = None \<and> d \<noteq> None \<longrightarrow> fake (sa_ip dst))"
proof (cases "host \<noteq> None \<or> sh_fakeip sh = None \<or> (\<exists>v6. sa_ip dst = V6 v6)")
  case True
  then show ?thesis using assms by (auto simp: frame_domain_def split: option.splits ip_addr.splits)
next
  case False
  then obtain f v4 where f: "host = None" "sh_fakeip sh = Some f" "sa_ip dst = V4 v4" by (cases "sa_ip dst") auto
  have p: "pool_contains N f = fake" "pool_inv f" using assms f(2) by (auto simp: shared_ok_def in_fakeip_def)
  obtain d f' where l: "pool_lookback v4 f = Some (d, f')" using pool_lookback_iff [OF p(2)] by blast
  have "pool_inv f'" "p_net f' = p_net f" using lookback_next [OF p(2) l] by (simp_all add: same_geometry_def)
  then have "shared_ok N fake (sh\<lparr>sh_fakeip := Some f'\<rparr>)"
    using p(1) by (auto simp: shared_ok_def in_fakeip_def pool_contains_def fun_eq_iff split: ip_addr.splits)
  then show ?thesis using f l p(1) assms by (auto simp: frame_domain_def)
qed

lemma forward_record_same:
  "forward_record contains wall dst domain ch data (a, sh) = (key, a', sh') \<Longrightarrow>
    sh_fakeip sh' = sh_fakeip sh \<and> sh_traffic sh' = sh_traffic sh \<and> ac_peer a' = ac_peer a \<and> ac_client a' = ac_client a"
  by (auto simp: forward_record_def Let_def split: if_splits prod.splits)

lemma on_record_same:
  "on_record key f (a, sh) = (a', sh') \<Longrightarrow>
    sh_fakeip sh' = sh_fakeip sh \<and> sh_traffic sh' = sh_traffic sh \<and> ac_peer a' = ac_peer a \<and> ac_client a' = ac_client a"
  by (auto simp: on_record_def split: option.splits)

definition assoc_state_ok :: "'n ipv4net \<Rightarrow> (ip_addr \<Rightarrow> bool) \<Rightarrow> socket_addr \<Rightarrow> assoc_event list \<Rightarrow> assoc \<times> 'n shared \<Rightarrow> bool" where
  "assoc_state_ok N fake peer evs s \<longleftrightarrow> shared_ok N fake (snd s) \<and> ac_peer (fst s) = peer \<and> client_ok evs (fst s)"

lemma assoc_state_same:
  assumes "assoc_state_ok N fake peer evs (a, sh)" and "sh_fakeip sh' = sh_fakeip sh" and "ac_peer a' = ac_peer a" and "ac_client a' = ac_client a"
  shows "assoc_state_ok N fake peer evs (a', sh')"
proof -
  have "shared_ok N fake sh'" using shared_ok_cong assms(1,2) unfolding assoc_state_ok_def snd_conv by blast
  then show ?thesis using assms(1) unfolding assoc_state_ok_def client_ok_def fst_conv snd_conv assms(3,4) by blast
qed

lemma counted_same:
  assumes "assoc_state_ok N fake peer evs s" and "forward_record contains wall dst domain ch data s = (key, s2)"
  shows "assoc_state_ok N fake peer evs (on_record key f s2)"
proof -
  have e: "forward_record contains wall dst domain ch data (fst s, snd s) = (key, fst s2, snd s2)" using assms(2) by (simp only: prod.collapse)
  have "on_record key f (fst s2, snd s2) = (fst (on_record key f s2), snd (on_record key f s2))" by (simp only: prod.collapse)
  note o = on_record_same [OF this]
  have "assoc_state_ok N fake peer evs (fst s, snd s)" using assms(1) by (simp only: prod.collapse)
  then have "assoc_state_ok N fake peer evs (fst (on_record key f s2), snd (on_record key f s2))"
    by (rule assoc_state_same) (simp_all only: forward_record_same [OF e] o)
  then show ?thesis by (simp only: prod.collapse)
qed

lemma forward_socks_ok:
  assumes s: "assoc_state_ok N fake peer evs s" and ev: "FromClient from frame wall sent \<in> set evs" "sa_ip from = sa_ip peer"
  shows "\<exists>outs s'. forward_client_packet N contains wall sent frame s = Some (outs, s') \<and> assoc_state_ok N fake peer evs s' \<and>
    (\<forall>out \<in> set outs. out_ok fake up peer evs out)"
proof (cases "decode_client_udp_header frame")
  case None
  then show ?thesis using s by (simp add: forward_client_packet_def)
next
  case (Some x)
  obtain dst host off where x: "decode_client_udp_header frame = Some (dst, host, off)" using Some by (cases x) auto
  let ?data = "drop off frame"
  have sh: "shared_ok N fake (snd s)" using s by (simp add: assoc_state_ok_def)
  obtain d sh1 where d: "frame_domain N dst host (snd s) = Some (d, sh1)" "shared_ok N fake sh1"
    "host \<noteq> None \<longrightarrow> d = host" "host = None \<and> d \<noteq> None \<longrightarrow> fake (sa_ip dst)" using frame_domain_ok [OF sh] by blast
  have s1: "assoc_state_ok N fake peer evs (fst s, sh1)" using s d(2) by (simp add: assoc_state_ok_def)
  have src: "from_client peer evs dst host ?data" using ev x unfolding from_client_def by blast
  let ?buf = "case d of Some h \<Rightarrow> (case encode_udp_request_domain h (sa_port dst) ?data of Inl _ \<Rightarrow> None | Inr buf \<Rightarrow> Some buf)
    | None \<Rightarrow> if in_fakeip N sh1 (sa_ip dst) then None else Some (encode_udp_request dst ?data)"
  show ?thesis
  proof (cases ?buf)
    case None
    then have "forward_client_packet N contains wall sent frame s = Some ([], (fst s, sh1))"
      using x d(1) by (simp add: forward_client_packet_def Let_def)
    then show ?thesis using s1 by simp
  next
    case (Some buf)
    obtain key s2 where k: "forward_record contains wall dst d (host \<noteq> None) ?data (fst s, sh1) = (key, s2)" by (rule prod.exhaust)
    have run: "forward_client_packet N contains wall sent frame s = Some (if sent then [UpFrame buf] else [], on_record key (count_up_rec ?data) s2)"
      using x d(1) Some k by (simp add: forward_client_packet_def Let_def)
    have "out_ok fake up peer evs (UpFrame buf)"
    proof (cases d)
      case None
      then have "host = None" "\<not> fake (sa_ip dst)" "buf = encode_udp_request dst ?data"
        using Some d(2,3) by (auto simp: shared_ok_def split: if_splits)
      then show ?thesis using src unfolding out_ok_def by auto
    next
      case (Some name)
      then have e: "encode_udp_request_domain name (sa_port dst) ?data = Inr buf" using \<open>?buf = Some buf\<close> by (simp split: sum.splits)
      moreover have "host = Some name \<or> host = None \<and> fake (sa_ip dst)" using d(3,4) Some by (cases host) auto
      ultimately show ?thesis using src unfolding out_ok_def assoc_out.case by blast
    qed
    then show ?thesis using run counted_same [OF s1 k] by auto
  qed
qed

lemma forward_direct_ok:
  assumes s: "assoc_state_ok N fake peer evs s" and ev: "FromClient from frame wall sent \<in> set evs" "sa_ip from = sa_ip peer"
    and up: "up = AssocDirect resolve"
  shows "\<exists>outs s'. forward_client_packet_direct N contains wall resolve sent frame s = Some (outs, s') \<and> assoc_state_ok N fake peer evs s' \<and>
    (\<forall>out \<in> set outs. out_ok fake up peer evs out)"
proof (cases "decode_client_udp_header frame")
  case None
  then show ?thesis using s by (simp add: forward_client_packet_direct_def)
next
  case (Some x)
  obtain dst host off where x: "decode_client_udp_header frame = Some (dst, host, off)" using Some by (cases x) auto
  let ?data = "drop off frame"
  have sh: "shared_ok N fake (snd s)" using s by (simp add: assoc_state_ok_def)
  obtain d sh1 where d: "frame_domain N dst host (snd s) = Some (d, sh1)" "shared_ok N fake sh1"
    "host \<noteq> None \<longrightarrow> d = host" "host = None \<and> d \<noteq> None \<longrightarrow> fake (sa_ip dst)" using frame_domain_ok [OF sh] by blast
  have s1: "assoc_state_ok N fake peer evs (fst s, sh1)" using s d(2) by (simp add: assoc_state_ok_def)
  have src: "from_client peer evs dst host ?data" using ev x unfolding from_client_def by blast
  let ?real = "case d of Some h \<Rightarrow> (case resolve h of Inl _ \<Rightarrow> None | Inr ip \<Rightarrow> Some \<lparr> sa_ip = V4 ip, sa_port = sa_port dst \<rparr>)
    | None \<Rightarrow> if in_fakeip N sh1 (sa_ip dst) then None else Some dst"
  show ?thesis
  proof (cases ?real)
    case None
    then have "forward_client_packet_direct N contains wall resolve sent frame s = Some ([], (fst s, sh1))"
      using x d(1) by (simp add: forward_client_packet_direct_def Let_def)
    then show ?thesis using s1 by simp
  next
    case (Some real)
    obtain key s2 where k: "forward_record contains wall dst d (host \<noteq> None) ?data (fst s, sh1) = (key, s2)" by (rule prod.exhaust)
    have run: "forward_client_packet_direct N contains wall resolve sent frame s =
        Some (if sent then [UpDatagram real ?data] else [], on_record key (count_up_rec ?data) s2)"
      using x d(1) Some k by (simp add: forward_client_packet_direct_def Let_def)
    have "out_ok fake up peer evs (UpDatagram real ?data)"
    proof (cases d)
      case None
      then have "host = None" "\<not> fake (sa_ip dst)" "real = dst"
        using Some d(2,3) by (auto simp: shared_ok_def split: if_splits)
      then show ?thesis using src unfolding out_ok_def by auto
    next
      case (Some name)
      then obtain ip where e: "resolve name = Inr ip" "real = \<lparr> sa_ip = V4 ip, sa_port = sa_port dst \<rparr>"
        using \<open>?real = Some real\<close> by (auto split: sum.splits)
      moreover have "host = Some name \<or> host = None \<and> fake (sa_ip dst)" using d(3,4) Some by (cases host) auto
      ultimately show ?thesis using src up unfolding out_ok_def assoc_out.case by blast
    qed
    then show ?thesis using run counted_same [OF s1 k] by auto
  qed
qed

lemma deliver_ok:
  assumes "assoc_state_ok N fake peer evs s"
    and "(\<exists>f now sent off. FromUpstream f now sent \<in> set evs \<and> decode_udp_reply f = Some (Inr (src, off)) \<and> data = drop off f) \<or>
      (\<exists>now sent. FromPeer src data now sent \<in> set evs)"
  shows "\<exists>outs s' on. deliver_reply now sent src data s = (outs, s', on) \<and> assoc_state_ok N fake peer evs s' \<and>
    (\<forall>out \<in> set outs. out_ok fake up peer evs out)"
proof (cases "ac_client (fst s)")
  case None
  then show ?thesis using assms by (simp add: deliver_reply_def ex_bool_eq)
next
  case (Some c)
  then have c: "(\<exists>f wall sent. FromClient c f wall sent \<in> set evs)" "sa_ip c = sa_ip peer"
    using assms(1) by (auto simp: assoc_state_ok_def client_ok_def)
  have out: "out_ok fake up peer evs (ClientFrame c (encode_udp_request src data))"
    using c assms(2) unfolding out_ok_def assoc_out.case by blast
  let ?s = "((fst s)\<lparr>ac_last_down := now\<rparr>, snd s)"
  have s: "assoc_state_ok N fake peer evs ?s" using assms(1) by (cases s) (auto intro: assoc_state_same)
  have "assoc_state_ok N fake peer evs (case reply_record src (fst ?s) of None \<Rightarrow> ?s | Some key \<Rightarrow> on_record key g ?s)" for g
    using s on_record_same [of _ g "fst ?s" "snd ?s"] assoc_state_same [OF s]
    by (auto split: option.splits) (metis prod.collapse)
  note g = this [of "add_down (of_nat (length data))"]
  show ?thesis using g Some out assms(1)
    by (cases sent; cases s; cases "reply_record src ((fst s)\<lparr>ac_last_down := now\<rparr>)") (auto simp: deliver_reply_def Let_def ex_bool_eq)
qed

lemma assoc_step_ok:
  assumes s: "assoc_state_ok N fake peer evs s" and ev: "ev \<in> set evs"
  shows "\<exists>outs s' on. assoc_step N contains up idle ev s = Some (outs, s', on) \<and> assoc_state_ok N fake peer evs s' \<and>
    (\<forall>out \<in> set outs. out_ok fake up peer evs out)"
proof (cases ev)
  case (FromClient sender frame wall sent)
  have p: "ac_peer (fst s) = peer" using s by (simp add: assoc_state_ok_def)
  show ?thesis
  proof (cases "sa_ip sender = sa_ip peer")
    case True
    let ?s = "((fst s)\<lparr>ac_client := Some sender\<rparr>, snd s)"
    have s': "assoc_state_ok N fake peer evs ?s"
      using s True ev FromClient by (auto simp: assoc_state_ok_def client_ok_def)
    note e = ev [unfolded FromClient]
    show ?thesis
    proof (cases up)
      case AssocSocks5
      obtain outs s2 where "forward_client_packet N contains wall sent frame ?s = Some (outs, s2)" "assoc_state_ok N fake peer evs s2"
        "\<forall>out \<in> set outs. out_ok fake up peer evs out" using forward_socks_ok [OF s' e True] by blast
      then show ?thesis using FromClient True AssocSocks5 p by (simp add: assoc_step_def ex_bool_eq)
    next
      case (AssocDirect resolve)
      obtain outs s2 where "forward_client_packet_direct N contains wall resolve sent frame ?s = Some (outs, s2)" "assoc_state_ok N fake peer evs s2"
        "\<forall>out \<in> set outs. out_ok fake up peer evs out" using forward_direct_ok [OF s' e True AssocDirect] by blast
      then show ?thesis using FromClient True AssocDirect p by (simp add: assoc_step_def ex_bool_eq)
    qed
  qed (use s FromClient p in \<open>simp add: assoc_step_def ex_bool_eq\<close>)
next
  case (FromUpstream f now sent)
  obtain r where r: "decode_udp_reply f = Some r" using decode_udp_reply_total by blast
  show ?thesis
  proof (cases "\<exists>src off. r = Inr (src, off) \<and> up = AssocSocks5")
    case True
    then obtain src off where o: "r = Inr (src, off)" "up = AssocSocks5" by blast
    have "\<exists>outs s' on. deliver_reply now sent src (drop off f) s = (outs, s', on) \<and> assoc_state_ok N fake peer evs s' \<and>
      (\<forall>out \<in> set outs. out_ok fake up peer evs out)"
      by (rule deliver_ok [OF s]) (use ev FromUpstream r o in blast)
    then show ?thesis using FromUpstream o r by (auto simp: assoc_step_def reply_socks5_def)
  next
    case False
    then show ?thesis using FromUpstream r s
      by (cases s) (auto simp: assoc_step_def reply_socks5_def ex_bool_eq split: inbound_upstream.splits sum.splits)
  qed
next
  case (FromPeer src data now sent)
  have "\<exists>outs s' on. deliver_reply now sent src data s = (outs, s', on) \<and> assoc_state_ok N fake peer evs s' \<and>
    (\<forall>out \<in> set outs. out_ok fake up peer evs out)"
    by (rule deliver_ok [OF s]) (use ev FromPeer in blast)
  then show ?thesis using FromPeer s by (cases s) (auto simp: assoc_step_def ex_bool_eq split: inbound_upstream.splits)
qed (use s in \<open>auto simp: assoc_step_def ex_bool_eq\<close>)

lemma run_assoc_ok:
  assumes "assoc_state_ok N fake peer all s" and "set evs \<subseteq> set all"
  shows "\<exists>outs s' ended. run_assoc N contains up idle evs s = Some (outs, s', ended) \<and> assoc_state_ok N fake peer all s' \<and>
    (\<forall>out \<in> set outs. out_ok fake up peer all out)"
  using assms
proof (induction evs arbitrary: s)
  case (Cons ev evs)
  have "ev \<in> set all" using Cons.prems(2) by simp
  then obtain outs s1 on where st: "assoc_step N contains up idle ev s = Some (outs, s1, on)" "assoc_state_ok N fake peer all s1"
    "\<forall>out \<in> set outs. out_ok fake up peer all out" using assoc_step_ok [OF Cons.prems(1)] by blast
  show ?case
  proof (cases on)
    case True
    obtain outs' s2 ended where "run_assoc N contains up idle evs s1 = Some (outs', s2, ended)" "assoc_state_ok N fake peer all s2"
      "\<forall>out \<in> set outs'. out_ok fake up peer all out" using Cons.IH [OF st(2)] Cons.prems(2) by auto
    then show ?thesis using True st by auto
  qed (use st in \<open>simp add: ex_bool_eq\<close>)
qed (simp add: ex_bool_eq)

section \<open>What is counted\<close>

definition total_of :: "(conn_record \<Rightarrow> u64) \<Rightarrow> assoc \<Rightarrow> u64" where
  "total_of g a = sum_list (map (\<lambda>e. g (snd e)) (ac_recs a))"

definition undrained :: "conn_record \<Rightarrow> bool" where
  "undrained r \<longleftrightarrow> cr_drained_up r = 0 \<and> cr_drained_down r = 0"

text \<open>The records, and the entries of the table that the association added to the ones of \<open>old\<close>.\<close>

definition assoc_inv :: "conn_id set \<Rightarrow> assoc \<times> 'n shared \<Rightarrow> bool" where
  "assoc_inv old s \<longleftrightarrow> distinct (map fst (ac_recs (fst s))) \<and> length (ac_recs (fst s)) \<le> MAX_TARGETS_PER_ASSOC \<and>
     (ac_recs (fst s) = [] \<longleftrightarrow> ac_last (fst s) = None) \<and> (\<forall>k. ac_last (fst s) = Some k \<longrightarrow> k \<in> fst ` set (ac_recs (fst s))) \<and>
     (\<forall>r \<in> snd ` set (ac_recs (fst s)). undrained r) \<and>
     fst ` set (sh_table (snd s)) \<subseteq> old \<union> cr_id ` snd ` set (ac_recs (fst s))"

lemma sum_update:
  fixes g :: "'b \<Rightarrow> u64"
  assumes "distinct (map fst xs)" and "map_of xs k = Some r" and "g r' = g r + d"
  shows "sum_list (map (\<lambda>e. g (snd e)) (AList.update k r' xs)) = sum_list (map (\<lambda>e. g (snd e)) xs) + d"
  using assms
proof (induction xs)
  case (Cons x xs)
  show ?case
  proof (cases "fst x = k")
    case True
    then show ?thesis using Cons.prems by (cases x) simp
  next
    case False
    then show ?thesis using Cons by (cases x) (simp add: add.assoc)
  qed
qed simp

lemma update_keys: "k \<in> fst ` set xs \<Longrightarrow> map fst (AList.update k v xs) = map fst xs"
  by (induction xs) auto

lemma update_values: "k \<in> fst ` set xs \<Longrightarrow> distinct (map fst xs) \<Longrightarrow> snd ` set (AList.update k v xs) \<subseteq> insert v (snd ` set xs)"
  by (induction xs) auto

lemma ids_after_update:
  assumes "map_of xs k = Some r" and "cr_id (f r) = cr_id r"
  shows "cr_id ` snd ` set (AList.update k (f r) xs) = cr_id ` snd ` set xs"
proof -
  have "map (\<lambda>e. cr_id (snd e)) (AList.update k (f r) xs) = map (\<lambda>e. cr_id (snd e)) xs"
    using assms by (intro update_image) simp_all
  from arg_cong [OF this, of set] show ?thesis by (simp add: image_image)
qed

lemma known_key: "map_of t i = Some r \<Longrightarrow> i \<in> fst ` set t" by (force dest: map_of_SomeD)
lemma modify_keys: "fst ` set (ct_modify i f t) = fst ` set t"
proof (cases "map_of t i")
  case (Some r)
  have k: "map fst (AList.update i (f r) t) = map fst t" by (rule update_keys [OF known_key [OF Some]])
  have e: "ct_modify i f t = AList.update i (f r) t" using Some by (simp add: ct_modify_def)
  show ?thesis unfolding e using arg_cong [OF k, of set] by simp
next
  case None
  then have "ct_modify i f t = t" by (simp add: ct_modify_def)
  then show ?thesis by simp
qed

text \<open>Counting on a record that is there.\<close>

lemma on_record_counts:
  assumes inv: "assoc_inv old s" and key: "key \<in> fst ` set (ac_recs (fst s))"
    and f: "\<And>r. cr_id (f r) = cr_id r \<and> undrained (f r) = undrained r" and g: "\<And>r. g (f r) = g r + d"
  shows "assoc_inv old (on_record key f s)" and "total_of g (fst (on_record key f s)) = total_of g (fst s) + d"
    and "ac_recs (fst (on_record key f s)) \<noteq> []" and "sh_traffic (snd (on_record key f s)) = sh_traffic (snd s)"
proof -
  obtain a sh where s: "s = (a, sh)" by fastforce
  have "map_of (ac_recs a) key \<noteq> None" using key s by (simp add: map_of_eq_None_iff)
  then obtain r where r: "map_of (ac_recs a) key = Some r" by blast
  have o: "on_record key f s = (a\<lparr>ac_recs := AList.update key (f r) (ac_recs a)\<rparr>, sh\<lparr>sh_table := ct_modify (cr_id r) f (sh_table sh)\<rparr>)"
    using r s by (simp add: on_record_def)
  have d: "distinct (map fst (ac_recs a))" using inv s by (simp add: assoc_inv_def)
  have k: "map fst (AList.update key (f r) (ac_recs a)) = map fst (ac_recs a)" using key s by (simp add: update_keys)
  then have ks: "fst ` set (AList.update key (f r) (ac_recs a)) = fst ` set (ac_recs a)" unfolding set_map [symmetric] by (rule arg_cong)
  have len: "length (AList.update key (f r) (ac_recs a)) = length (ac_recs a)" using arg_cong [OF k, of length] by simp
  have un: "\<forall>x \<in> snd ` set (ac_recs a). undrained x" using inv s by (simp add: assoc_inv_def)
  have "r \<in> snd ` set (ac_recs a)" using map_of_SomeD [OF r] by force
  from bspec [OF un this] have fr: "undrained (f r)" using f by simp
  have sub: "snd ` set (AList.update key (f r) (ac_recs a)) \<subseteq> insert (f r) (snd ` set (ac_recs a))"
    using update_values [of key "ac_recs a" "f r"] key d s by simp
  have u: "\<forall>x \<in> snd ` set (AList.update key (f r) (ac_recs a)). undrained x"
  proof
    fix x assume "x \<in> snd ` set (AList.update key (f r) (ac_recs a))"
    from subsetD [OF sub this] show "undrained x" using fr bspec [OF un, of x] by (elim insertE) simp_all
  qed
  have ids: "cr_id ` snd ` set (AList.update key (f r) (ac_recs a)) = cr_id ` snd ` set (ac_recs a)"
    by (rule ids_after_update [OF r]) (use f in simp)
  have ne: "AList.update key (f r) (ac_recs a) = [] \<longleftrightarrow> ac_recs a = []" unfolding length_0_conv [symmetric] len ..
  have "ac_recs a \<noteq> []" using key s by auto
  then show "assoc_inv old (on_record key f s)"
    using inv s u unfolding o assoc_inv_def by (simp add: k ks len ids ne modify_keys)
  show "total_of g (fst (on_record key f s)) = total_of g (fst s) + d"
    unfolding o total_of_def using sum_update [OF d r, of g "f r" d] g s by simp
  show "ac_recs (fst (on_record key f s)) \<noteq> []" unfolding o using ne key s by auto
  show "sh_traffic (snd (on_record key f s)) = sh_traffic (snd s)" unfolding o using s by simp
qed

lemma new_record [simp]:
  "cr_upload (set_head d r) = cr_upload r" "cr_download (set_head d r) = cr_download r" "cr_id (set_head d r) = cr_id r"
  "undrained (set_head d r) = undrained r"
  "cr_upload (with_inbound k t r) = cr_upload r" "cr_download (with_inbound k t r) = cr_download r" "cr_id (with_inbound k t r) = cr_id r"
  "undrained (with_inbound k t r) = undrained r"
  "cr_upload (conn_record_new i src dst p nm) = 0" "cr_download (conn_record_new i src dst p nm) = 0" "cr_id (conn_record_new i src dst p nm) = i"
  "undrained (conn_record_new i src dst p nm)" "undrained (r\<lparr>cr_last_seen := x\<rparr>) = undrained r"
  by (simp_all add: set_head_def with_inbound_def conn_record_new_def undrained_def Let_def)

lemma forward_record_counts:
  assumes inv: "assoc_inv old (a, sh)" and run: "forward_record contains wall dst domain ch data (a, sh) = (key, a', sh')"
  shows "assoc_inv old (a', sh') \<and> key \<in> fst ` set (ac_recs a') \<and> total_of cr_upload a' = total_of cr_upload a \<and>
    total_of cr_download a' = total_of cr_download a \<and> sh_traffic sh' = sh_traffic sh"
proof -
  let ?key = "target_key_of dst domain"
  consider "map_of (ac_recs a) ?key \<noteq> None" | "map_of (ac_recs a) ?key = None" "length (ac_recs a) \<ge> MAX_TARGETS_PER_ASSOC" "ac_last a \<noteq> None"
    | "map_of (ac_recs a) ?key = None" "\<not> (length (ac_recs a) \<ge> MAX_TARGETS_PER_ASSOC \<and> ac_last a \<noteq> None)" by blast
  then show ?thesis
  proof cases
    case 1
    then have e: "key = ?key" "a' = a\<lparr>ac_last := Some ?key\<rparr>" "sh' = sh" using run by (auto simp: forward_record_def Let_def)
    have "?key \<in> fst ` set (ac_recs a)" using 1 by (metis map_of_eq_None_iff)
    moreover from this have "ac_recs a \<noteq> []" by auto
    ultimately show ?thesis using inv e by (simp add: assoc_inv_def total_of_def)
  next
    case 2
    then have "forward_record contains wall dst domain ch data (a, sh) = (the (ac_last a), a, sh)" by (simp add: forward_record_def Let_def)
    then have e: "key = the (ac_last a)" "a' = a" "sh' = sh" using run by simp_all
    then show ?thesis using inv 2(3) by (auto simp: assoc_inv_def)
  next
    case 3
    obtain hint hints where h: "forward_hint dst domain (sh_domain_ips sh) = (hint, hints)" by fastforce
    obtain i ids where i: "next_id (sh_ids sh) = (i, ids)" by fastforce
    define proto where "proto = classify_inbound_udp_proto contains dst data ch (domain \<noteq> None \<and> \<not> ch) hint"
    define r0 where "r0 = with_inbound (ac_inbound a) Udp
      (conn_record_new i (sa_ip (ac_peer a), sa_port (ac_peer a)) (dest_key dst) proto domain)"
    define r where "r = (if proto = PSocks5 \<or> proto = PFakeIp \<or> proto = PRealIp then set_head data r0 else r0)"
    have e: "key = ?key" "a' = a\<lparr>ac_recs := (?key, r\<lparr>cr_last_seen := wall\<rparr>) # ac_recs a, ac_last := Some ?key\<rparr>"
      "sh' = sh\<lparr>sh_domain_ips := hints, sh_ids := ids, sh_table := ct_insert wall r (sh_table sh)\<rparr>"
      using run 3 h i unfolding forward_record_def r_def r0_def proto_def by (auto simp: Let_def)
    have r: "cr_upload r = 0" "cr_download r = 0" "undrained r" by (simp_all add: r_def r0_def)
    have new: "?key \<notin> fst ` set (ac_recs a)" using 3(1) by (metis map_of_eq_None_iff)
    have len: "length (ac_recs a) < MAX_TARGETS_PER_ASSOC"
      using 3(2) inv by (cases "ac_last a = None") (auto simp: assoc_inv_def MAX_TARGETS_PER_ASSOC_def)
    have "fst ` set (ct_insert wall r (sh_table sh)) \<subseteq> insert (cr_id r) (fst ` set (sh_table sh))"
      using dom_update [of "cr_id r" "r\<lparr>cr_last_seen := wall\<rparr>" "sh_table sh"] by (simp add: ct_insert_def dom_map_of_conv_image_fst)
    moreover have "fst ` set (sh_table sh) \<subseteq> old \<union> cr_id ` snd ` set (ac_recs a)" using inv by (simp add: assoc_inv_def)
    ultimately have "fst ` set (ct_insert wall r (sh_table sh)) \<subseteq> old \<union> insert (cr_id r) (cr_id ` snd ` set (ac_recs a))" by blast
    then show ?thesis using inv e r new len by (simp add: assoc_inv_def total_of_def)
  qed
qed

section \<open>What is accounted\<close>

definition frame_size :: "bytes \<Rightarrow> nat" where
  "frame_size buf = (case decode_udp_reply buf of Some (Inr (_, off)) \<Rightarrow> length buf - off | _ \<Rightarrow> 0)"

fun up_size :: "assoc_out \<Rightarrow> nat" where
  "up_size (UpFrame buf) = frame_size buf"
| "up_size (UpDatagram real data) = length data"
| "up_size (ClientFrame client buf) = 0"

fun down_size :: "assoc_out \<Rightarrow> nat" where
  "down_size (ClientFrame client buf) = frame_size buf"
| "down_size _ = 0"

definition is_reply :: "assoc_out \<Rightarrow> bool" where
  "is_reply out \<longleftrightarrow> (case out of ClientFrame _ _ \<Rightarrow> True | _ \<Rightarrow> False)"

definition all_sent :: "assoc_event \<Rightarrow> bool" where
  "all_sent ev \<longleftrightarrow> (case ev of FromClient _ _ _ sent \<Rightarrow> sent | FromUpstream _ _ sent \<Rightarrow> sent | FromPeer _ _ _ sent \<Rightarrow> sent | _ \<Rightarrow> True)"

lemma frame_size_addressed [simp]: "frame_size (encode_udp_request dst data) = length data"
proof -
  obtain off where "decode_udp_reply (encode_udp_request dst data) = Some (Inr (dst, off))" "drop off (encode_udp_request dst data) = data"
    using udp_request_roundtrip by blast
  then show ?thesis using length_drop [of off "encode_udp_request dst data"] by (simp add: frame_size_def)
qed

lemma frame_size_named: "encode_udp_request_domain name port data = Inr buf \<Longrightarrow> frame_size buf = length data"
  using udp_domain_request_decodes [of name port data buf] length_drop by (fastforce simp: frame_size_def)

text \<open>What one step adds to the records; replies before the first forwarded frame have no record to count on.\<close>

definition accounts :: "conn_id set \<Rightarrow> assoc \<times> 'n shared \<Rightarrow> assoc_out list \<Rightarrow> assoc \<times> 'n shared \<Rightarrow> bool" where
  "accounts old s outs s' \<longleftrightarrow> assoc_inv old s' \<and> sh_traffic (snd s') = sh_traffic (snd s) \<and>
     total_of cr_upload (fst s') = total_of cr_upload (fst s) + of_nat (sum_list (map up_size outs)) \<and>
     (let counted = (if ac_recs (fst s) = [] then dropWhile is_reply outs else outs) in
      total_of cr_download (fst s') = total_of cr_download (fst s) + of_nat (sum_list (map down_size counted)) \<and>
      (ac_recs (fst s') = [] \<longleftrightarrow> ac_recs (fst s) = [] \<and> counted = []))"

lemma accounts_nothing: "assoc_inv old s \<Longrightarrow> accounts old s [] s"
  by (simp add: accounts_def)

lemma accounts_same_records:
  assumes "assoc_inv old s" and "ac_recs a = ac_recs (fst s)" and "ac_last a = ac_last (fst s)"
    and "sh_table sh = sh_table (snd s)" and "sh_traffic sh = sh_traffic (snd s)"
  shows "accounts old s [] (a, sh)"
  using assms by (simp add: accounts_def assoc_inv_def total_of_def)

lemma accounts_forwarded:
  assumes inv: "assoc_inv old s" and k: "forward_record contains wall dst domain ch data s = (key, s2)" and out: "up_size out = length data" "\<not> is_reply out"
  shows "accounts old s [out] (on_record key (count_up_rec data) s2)"
proof -
  have f: "assoc_inv old (fst s2, snd s2) \<and> key \<in> fst ` set (ac_recs (fst s2)) \<and> total_of cr_upload (fst s2) = total_of cr_upload (fst s) \<and>
    total_of cr_download (fst s2) = total_of cr_download (fst s) \<and> sh_traffic (snd s2) = sh_traffic (snd s)"
    using forward_record_counts [of old "fst s" "snd s"] inv k by (metis prod.collapse)
  have d: "down_size out = 0" using out(2) by (cases out) (simp_all add: is_reply_def)
  have i2: "assoc_inv old s2" and key: "key \<in> fst ` set (ac_recs (fst s2))" using f by simp_all
  have f': "cr_id (count_up_rec data r) = cr_id r \<and> undrained (count_up_rec data r) = undrained r" for r
    by (simp add: count_up_rec_def add_up_def undrained_def)
  have gu: "cr_upload (count_up_rec data r) = cr_upload r + of_nat (length data)"
    and gd: "cr_download (count_up_rec data r) = cr_download r + 0" for r by (simp_all add: count_up_rec_def add_up_def)
  show ?thesis
    using on_record_counts [where g = cr_upload and f = "count_up_rec data", OF i2 key f' gu]
      on_record_counts(2) [where g = cr_download and f = "count_up_rec data", OF i2 key f' gd] f d out by (simp add: accounts_def Let_def)
qed

lemma accounts_then:
  assumes "accounts old s outs s1" and "accounts old s1 outs' s2"
  shows "accounts old s (outs @ outs') s2"
proof (cases "ac_recs (fst s) = []")
  case False
  then show ?thesis using assms by (simp add: accounts_def Let_def add.assoc)
next
  case True
  show ?thesis
  proof (cases "dropWhile is_reply outs = []")
    case t: True
    then have "dropWhile is_reply (outs @ outs') = dropWhile is_reply outs'" by (simp add: dropWhile_append2)
    then show ?thesis using assms True t by (simp add: accounts_def Let_def add.assoc)
  next
    case False
    then have "dropWhile is_reply (outs @ outs') = dropWhile is_reply outs @ outs'"
      by (auto simp: dropWhile_append)
    then show ?thesis using assms True False by (simp add: accounts_def Let_def add.assoc del: dropWhile_eq_Nil_conv)
  qed
qed

lemma frame_domain_same:
  "frame_domain N dst host sh = Some (d, sh') \<Longrightarrow> sh_table sh' = sh_table sh \<and> sh_traffic sh' = sh_traffic sh"
  by (auto simp: frame_domain_def split: if_splits option.splits ip_addr.splits)

lemma accounts_inv: "accounts old s outs s' \<Longrightarrow> assoc_inv old s'"
  by (simp add: accounts_def)

text \<open>A frame: nothing is sent and counted, or one thing of the frame's size.\<close>

lemma accounts_frame:
  assumes inv: "assoc_inv old s" and d: "frame_domain N dst host (snd s) = Some (d, sh)"
    and r: "r = (case x of None \<Rightarrow> ([], (fst s, sh)) | Some y \<Rightarrow>
      (let (key, s2) = forward_record contains wall dst d ch data (fst s, sh) in ([mk y], on_record key (count_up_rec data) s2)))"
    and out: "\<And>y. x = Some y \<Longrightarrow> up_size (mk y) = length data \<and> \<not> is_reply (mk y)"
  shows "accounts old s (fst r) (snd r)"
proof -
  have 1: "accounts old s [] (fst s, sh)"
    using accounts_same_records [OF inv] frame_domain_same [OF d] by simp
  show ?thesis
  proof (cases x)
    case None
    then show ?thesis using 1 r by simp
  next
    case (Some y)
    obtain key s2 where k: "forward_record contains wall dst d ch data (fst s, sh) = (key, s2)" by (rule prod.exhaust)
    then have "r = ([mk y], on_record key (count_up_rec data) s2)" using r Some by simp
    then show ?thesis using accounts_then [OF 1 accounts_forwarded [OF accounts_inv [OF 1] k]] out [OF Some] by simp
  qed
qed

lemma socks_accounts:
  assumes inv: "assoc_inv old s" and run: "forward_client_packet N contains wall True frame s = Some (outs, s')"
  shows "accounts old s outs s'"
proof (cases "decode_client_udp_header frame")
  case None
  then show ?thesis using run accounts_nothing [OF inv] by (simp add: forward_client_packet_def)
next
  case (Some p)
  obtain dst host off where p: "decode_client_udp_header frame = Some (dst, host, off)" using Some by (cases p) auto
  let ?data = "drop off frame"
  obtain d sh where d: "frame_domain N dst host (snd s) = Some (d, sh)"
    using run p by (auto simp: forward_client_packet_def Let_def split: Option.bind_splits)
  let ?x = "case d of Some h \<Rightarrow> (case encode_udp_request_domain h (sa_port dst) ?data of Inl _ \<Rightarrow> None | Inr buf \<Rightarrow> Some buf)
    | None \<Rightarrow> if in_fakeip N sh (sa_ip dst) then None else Some (encode_udp_request dst ?data)"
  have e: "(outs, s') = (case ?x of None \<Rightarrow> ([], (fst s, sh)) | Some y \<Rightarrow>
      (let (key, s2) = forward_record contains wall dst d (host \<noteq> None) ?data (fst s, sh) in ([UpFrame y], on_record key (count_up_rec ?data) s2)))"
    using run p d by (simp add: forward_client_packet_def Let_def eq_commute [of "(outs, s')"] cong: option.case_cong split del: if_split)
  have "up_size (UpFrame y) = length ?data \<and> \<not> is_reply (UpFrame y)" if "?x = Some y" for y
    using that frame_size_named [of _ "sa_port dst" ?data y] by (auto simp: is_reply_def split: option.splits sum.splits if_splits)
  from accounts_frame [OF inv d e this] show ?thesis by simp
qed

lemma direct_accounts:
  assumes inv: "assoc_inv old s" and run: "forward_client_packet_direct N contains wall resolve True frame s = Some (outs, s')"
  shows "accounts old s outs s'"
proof (cases "decode_client_udp_header frame")
  case None
  then show ?thesis using run accounts_nothing [OF inv] by (simp add: forward_client_packet_direct_def)
next
  case (Some p)
  obtain dst host off where p: "decode_client_udp_header frame = Some (dst, host, off)" using Some by (cases p) auto
  let ?data = "drop off frame"
  obtain d sh where d: "frame_domain N dst host (snd s) = Some (d, sh)"
    using run p by (auto simp: forward_client_packet_direct_def Let_def split: Option.bind_splits)
  let ?x = "case d of Some h \<Rightarrow> (case resolve h of Inl _ \<Rightarrow> None | Inr ip \<Rightarrow> Some \<lparr> sa_ip = V4 ip, sa_port = sa_port dst \<rparr>)
    | None \<Rightarrow> if in_fakeip N sh (sa_ip dst) then None else Some dst"
  have e: "(outs, s') = (case ?x of None \<Rightarrow> ([], (fst s, sh)) | Some y \<Rightarrow>
      (let (key, s2) = forward_record contains wall dst d (host \<noteq> None) ?data (fst s, sh)
       in ([UpDatagram y ?data], on_record key (count_up_rec ?data) s2)))"
    using run p d by (simp add: forward_client_packet_direct_def Let_def eq_commute [of "(outs, s')"] cong: option.case_cong split del: if_split)
  from accounts_frame [OF inv d e] show ?thesis by (simp add: is_reply_def)
qed

lemma deliver_accounts:
  assumes inv: "assoc_inv old s" and run: "deliver_reply now True src data s = (outs, s', on)"
  shows "accounts old s outs s'"
proof (cases "ac_client (fst s)")
  case None
  then show ?thesis using run accounts_nothing [OF inv] by (simp add: deliver_reply_def)
next
  case (Some c)
  let ?s = "((fst s)\<lparr>ac_last_down := now\<rparr>, snd s)" and ?out = "ClientFrame c (encode_udp_request src data)"
  have 1: "accounts old s [] ?s" using accounts_same_records [OF inv] by simp
  have i: "assoc_inv old ?s" by (rule accounts_inv [OF 1])
  have o: "outs = [?out]" "s' = (case reply_record src (fst ?s) of None \<Rightarrow> ?s | Some key \<Rightarrow> on_record key (add_down (of_nat (length data))) ?s)"
    using run Some by (simp_all add: deliver_reply_def Let_def)
  have "accounts old ?s [?out] s'"
  proof (cases "reply_record src (fst ?s)")
    case None
    then have "ac_last (fst s) = None" by (simp add: reply_record_def split: if_splits)
    then have "ac_recs (fst s) = []" using inv by (simp add: assoc_inv_def)
    then show ?thesis using None o(2) i by (simp add: accounts_def is_reply_def)
  next
    case (Some key)
    have key: "key \<in> fst ` set (ac_recs (fst ?s))"
      using Some inv by (auto simp: reply_record_def assoc_inv_def map_of_eq_None_iff split: if_splits)
    then have ne: "ac_recs (fst s) \<noteq> []" by auto
    let ?f = "add_down (of_nat (length data))"
    have f: "cr_id (?f r) = cr_id r \<and> undrained (?f r) = undrained r" "cr_upload (?f r) = cr_upload r + 0"
      "cr_download (?f r) = cr_download r + of_nat (length data)" for r by (simp_all add: add_down_def undrained_def)
    show ?thesis
      using on_record_counts [where g = cr_download and f = ?f, OF i key f(1) f(3)]
        on_record_counts(2) [where g = cr_upload and f = ?f, OF i key f(1) f(2)] Some o(2) ne by (simp add: accounts_def)
  qed
  then show ?thesis using accounts_then [OF 1] o(1) by simp
qed

lemma step_accounts:
  assumes inv: "assoc_inv old s" and sent: "all_sent ev" and run: "assoc_step N contains up idle ev s = Some (outs, s', on)"
  shows "accounts old s outs s'"
proof (cases ev)
  case (FromClient sender frame wall ok)
  let ?s = "((fst s)\<lparr>ac_client := Some sender\<rparr>, snd s)"
  have 1: "accounts old s [] ?s" using accounts_same_records [OF inv] by simp
  have "ok" using sent FromClient by (simp add: all_sent_def)
  then have "outs = [] \<and> s' = s \<or> accounts old ?s outs s'"
    using run FromClient socks_accounts [OF accounts_inv [OF 1]] direct_accounts [OF accounts_inv [OF 1]]
    by (auto simp: assoc_step_def Let_def split: if_splits inbound_upstream.splits)
  then show ?thesis using accounts_nothing [OF inv] accounts_then [OF 1, of outs s'] by auto
next
  case (FromUpstream f now ok)
  then show ?thesis using run sent accounts_nothing [OF inv] deliver_accounts [OF inv]
    by (cases s') (auto simp: assoc_step_def reply_socks5_def all_sent_def split: inbound_upstream.splits option.splits sum.splits)
next
  case (FromPeer src data now ok)
  then show ?thesis using run sent accounts_nothing [OF inv] deliver_accounts [OF inv]
    by (cases s') (auto simp: assoc_step_def all_sent_def split: inbound_upstream.splits)
qed (use run accounts_nothing [OF inv] in \<open>auto simp: assoc_step_def\<close>)

lemma run_accounts:
  "run_assoc N contains up idle evs s = Some (outs, s', ended) \<Longrightarrow> assoc_inv old s \<Longrightarrow> \<forall>ev \<in> set evs. all_sent ev \<Longrightarrow> accounts old s outs s'"
proof (induction evs arbitrary: s outs)
  case (Cons ev evs)
  obtain o1 s1 on where st: "assoc_step N contains up idle ev s = Some (o1, s1, on)"
    using Cons.prems(1) by (auto split: Option.bind_splits)
  have 1: "accounts old s o1 s1" using step_accounts [OF Cons.prems(2) _ st] Cons.prems(3) by simp
  show ?case
  proof (cases on)
    case True
    then obtain o2 where "run_assoc N contains up idle evs s1 = Some (o2, s', ended)" "outs = o1 @ o2"
      using Cons.prems(1) st by (auto split: Option.bind_splits)
    then show ?thesis using Cons.IH [OF _ accounts_inv [OF 1]] Cons.prems(3) accounts_then [OF 1] by simp
  qed (use Cons.prems(1) st 1 in simp)
qed (simp add: accounts_nothing)

section \<open>The end\<close>

lemma close_traffic:
  "\<forall>r \<in> set rs. undrained r \<Longrightarrow> sh_traffic (fold (close_assoc_record wall) rs sh) =
    add_totals (sum_list (map cr_download rs)) (sum_list (map cr_upload rs)) (sh_traffic sh)"
proof (induction rs arbitrary: sh)
  case Nil
  then show ?case by (simp add: add_totals_def)
next
  case (Cons r rs)
  have "drain_delta r = ((cr_upload r, cr_download r), r\<lparr>cr_drained_up := cr_upload r, cr_drained_down := cr_download r\<rparr>)"
    using Cons.prems by (intro drain_fresh) (simp_all add: undrained_def)
  then have "sh_traffic (close_assoc_record wall r sh) = add_totals (cr_download r) (cr_upload r) (sh_traffic sh)"
    by (auto simp: close_assoc_record_def Let_def add_totals_def)
  then show ?case using Cons by (simp add: add_totals_def add.assoc)
qed

lemma close_one: "map_of (sh_table (close_assoc_record wall r sh)) =
    (map_of (sh_table sh))(cr_id r := map_option (\<lambda>t. (snd (drain_delta t))\<lparr>cr_closed := max wall 1, cr_last_seen := wall\<rparr>) (map_of (sh_table sh) (cr_id r)))"
  by (cases "map_of (sh_table sh) (cr_id r)") (auto simp: close_assoc_record_def Let_def ct_close_def map_of_modify split: prod.splits)

lemma close_keys: "fst ` set (sh_table (fold (close_assoc_record wall) rs sh)) = fst ` set (sh_table sh)"
proof (induction rs arbitrary: sh)
  case (Cons r rs)
  have "fst ` set (sh_table (close_assoc_record wall r sh)) = fst ` set (sh_table sh)"
    by (auto simp: close_assoc_record_def Let_def ct_close_def modify_keys split: prod.splits)
  then show ?case using Cons by simp
qed simp

lemma close_closed:
  "i \<in> cr_id ` set rs \<or> (\<forall>t. map_of (sh_table sh) i = Some t \<longrightarrow> cr_closed t \<noteq> 0) \<Longrightarrow>
    map_of (sh_table (fold (close_assoc_record wall) rs sh)) i = Some t \<Longrightarrow> cr_closed t \<noteq> 0"
proof (induction rs arbitrary: sh)
  case (Cons r rs)
  have "i \<in> cr_id ` set rs \<or> (\<forall>t. map_of (sh_table (close_assoc_record wall r sh)) i = Some t \<longrightarrow> cr_closed t \<noteq> 0)"
    using Cons.prems(1) by (auto simp: close_one max_def)
  then show ?case using Cons.IH Cons.prems(2) by simp
qed simp

lemma new_assoc_inv: "assoc_inv (fst ` set (sh_table sh)) (assoc_new peer inb now, sh)"
  by (simp add: assoc_inv_def assoc_new_def MAX_TARGETS_PER_ASSOC_def)

text \<open>After the whole run the table has the old entries and the records, all closed, and the totals have grown by what was counted.\<close>

lemma assoc_close_accounts:
  assumes acc: "accounts (fst ` set (sh_table sh)) (assoc_new peer inb now, sh) outs s'"
  shows "sh_traffic (assoc_close wall s') = add_totals (of_nat (sum_list (map down_size (dropWhile is_reply outs)))) (of_nat (sum_list (map up_size outs))) (sh_traffic sh)"
    and "fst ` set (sh_table (assoc_close wall s')) - fst ` set (sh_table sh) \<subseteq> cr_id ` set (map snd (ac_recs (fst s')))"
    and "length (ac_recs (fst s')) \<le> MAX_TARGETS_PER_ASSOC"
    and "map_of (sh_table (assoc_close wall s')) i = Some t \<Longrightarrow> i \<notin> fst ` set (sh_table sh) \<Longrightarrow> cr_closed t \<noteq> 0"
proof -
  have inv: "assoc_inv (fst ` set (sh_table sh)) s'" by (rule accounts_inv [OF acc])
  have un: "\<forall>r \<in> set (map snd (ac_recs (fst s'))). undrained r" using inv by (simp add: assoc_inv_def)
  have t: "sum_list (map cr_upload (map snd (ac_recs (fst s')))) = of_nat (sum_list (map up_size outs))"
    "sum_list (map cr_download (map snd (ac_recs (fst s')))) = of_nat (sum_list (map down_size (dropWhile is_reply outs)))"
    using acc by (simp_all add: accounts_def total_of_def assoc_new_def comp_def)
  show "sh_traffic (assoc_close wall s') = add_totals (of_nat (sum_list (map down_size (dropWhile is_reply outs)))) (of_nat (sum_list (map up_size outs))) (sh_traffic sh)"
    unfolding assoc_close_def close_traffic [OF un] t using acc by (simp add: accounts_def)
  show ids: "fst ` set (sh_table (assoc_close wall s')) - fst ` set (sh_table sh) \<subseteq> cr_id ` set (map snd (ac_recs (fst s')))"
    unfolding assoc_close_def close_keys using inv by (auto simp: assoc_inv_def)
  show "length (ac_recs (fst s')) \<le> MAX_TARGETS_PER_ASSOC" using inv by (simp add: assoc_inv_def)
  assume i: "map_of (sh_table (assoc_close wall s')) i = Some t" "i \<notin> fst ` set (sh_table sh)"
  then have "i \<in> cr_id ` set (map snd (ac_recs (fst s')))" using ids known_key [OF i(1)] by blast
  then show "cr_closed t \<noteq> 0" using close_closed i(1) unfolding assoc_close_def by blast
qed

text \<open>The permit of an association goes back as it came.\<close>

lemma permit_returned:
  assumes b: "budget_holds b ps" and a: "acquire ip i b = Some (p, b1)"
  shows "permit_drop p b1 = Some b"
proof -
  note a' = budget_acquired [OF b a [unfolded acquire_def]]
  obtain b2 where d: "permit_drop p b1 = Some b2" "budget_holds b2 (add_mset p ps - {#p#})" "bg_limits b2 = bg_limits b1" "bg_per_client b2 = bg_per_client b1"
    using budget_released [OF a'(1), of p] by auto
  then have "b2 = b" using b a'(3,4) by (cases b; cases b2) (simp add: budget_holds_def)
  then show ?thesis using d(1) by simp
qed

text \<open>With a permit: nothing happens, or the loop runs and its records are closed.\<close>

lemma associate_runs:
  assumes a: "acquire (sa_ip peer) (inb = InHealthCheck) b = Some (p, b1)" and d: "permit_drop p b1 = Some b2"
  shows "(\<exists>c. udp_associate_inbound N contains peer inb bnd up idle now closed evs ctrl b sh = Some ([], c, b2, sh)) \<or>
    (\<exists>u c. up = Some u \<and> udp_associate_inbound N contains peer inb bnd up idle now closed evs ctrl b sh =
      map_option (\<lambda>(outs, s, _). (outs, c, b2, assoc_close closed s)) (run_assoc N contains u idle evs (assoc_new peer inb now, sh)))"
proof (cases bnd)
  case None
  then show ?thesis using a d by (simp add: udp_associate_inbound_def)
next
  case (Some v)
  obtain r c where w: "write_success v ctrl = (r, c)" by fastforce
  show ?thesis
  proof (cases "(\<exists>e. r = Inl e) \<or> up = None")
    case True
    then show ?thesis using Some w a d by (cases r) (auto simp: udp_associate_inbound_def)
  next
    case False
    then obtain u x where u: "up = Some u" "r = Inr x" by (cases r) auto
    then have "udp_associate_inbound N contains peer inb bnd up idle now closed evs ctrl b sh =
      map_option (\<lambda>(outs, s, _). (outs, c, b2, assoc_close closed s)) (run_assoc N contains u idle evs (assoc_new peer inb now, sh))"
      using Some w a d by (cases "run_assoc N contains u idle evs (assoc_new peer inb now, sh)") (auto simp: udp_associate_inbound_def)
    then show ?thesis using u by blast
  qed
qed

lemma association_runs:
  assumes "shared_ok N fake sh" and "budget_holds b ps"
  shows "\<exists>outs ctrl' sh'. udp_associate_inbound N contains peer inb bnd up idle now closed evs ctrl b sh = Some (outs, ctrl', b, sh') \<and>
    (\<forall>out \<in> set outs. \<exists>u. up = Some u \<and> out_ok fake u peer evs out)"
proof (cases "acquire (sa_ip peer) (inb = InHealthCheck) b")
  case None
  then show ?thesis by (simp add: udp_associate_inbound_def)
next
  case (Some x)
  obtain p b1 where a: "acquire (sa_ip peer) (inb = InHealthCheck) b = Some (p, b1)" using Some by (cases x) auto
  note d = permit_returned [OF assms(2) a]
  have s: "assoc_state_ok N fake peer evs (assoc_new peer inb now, sh)"
    using assms(1) by (simp add: assoc_state_ok_def client_ok_def assoc_new_def)
  from associate_runs [OF a d, of N contains bnd up idle now closed evs ctrl sh] show ?thesis
  proof (elim disjE exE conjE)
    fix u c assume u: "up = Some u" "udp_associate_inbound N contains peer inb bnd up idle now closed evs ctrl b sh =
      map_option (\<lambda>(outs, s, _). (outs, c, b, assoc_close closed s)) (run_assoc N contains u idle evs (assoc_new peer inb now, sh))"
    obtain outs s' ended where "run_assoc N contains u idle evs (assoc_new peer inb now, sh) = Some (outs, s', ended)"
      "\<forall>out \<in> set outs. out_ok fake u peer evs out" using run_assoc_ok [OF s] by blast
    then show ?thesis using u by simp
  qed simp
qed

section \<open>Properties\<close>


text \<open>
  C10: an association keeps at most 256 records, all of them closed when it is over, and accounts for what it moved.
  When no send fails, the totals have grown by the sizes of the datagrams sent upstream and of the
  replies delivered, but for replies that came before any frame was forwarded.
\<close>

theorem association_is_accounted:
  assumes "udp_associate_inbound N contains peer inb bnd up idle now closed evs ctrl b sh = Some (outs, ctrl', b', sh')"
    and "\<forall>ev \<in> set evs. all_sent ev"
  shows "sh_traffic sh' = add_totals (of_nat (sum_list (map down_size (dropWhile is_reply outs)))) (of_nat (sum_list (map up_size outs))) (sh_traffic sh) \<and>
    card (fst ` set (sh_table sh') - fst ` set (sh_table sh)) \<le> MAX_TARGETS_PER_ASSOC \<and>
    (\<forall>i r. map_of (sh_table sh') i = Some r \<longrightarrow> i \<notin> fst ` set (sh_table sh) \<longrightarrow> cr_closed r \<noteq> 0)"
proof -
  have old: "\<forall>i r. map_of (sh_table sh) i = Some r \<longrightarrow> i \<notin> fst ` set (sh_table sh) \<longrightarrow> cr_closed r \<noteq> 0"
    using known_key [of "sh_table sh"] by blast
  have none: ?thesis if "sh' = sh" "outs = []"
    unfolding that using old by (simp add: add_totals_def)
  show ?thesis
  proof (cases "acquire (sa_ip peer) (inb = InHealthCheck) b")
    case None
    then show ?thesis using assms(1) none by (simp add: udp_associate_inbound_def)
  next
    case (Some x)
    obtain p b1 where a: "acquire (sa_ip peer) (inb = InHealthCheck) b = Some (p, b1)" using Some by (cases x) auto
    have "permit_drop p b1 \<noteq> None"
    proof
      assume "permit_drop p b1 = None"
      then show False using assms(1) a by (simp add: udp_associate_inbound_def split: Option.bind_splits)
    qed
    then obtain b2 where d: "permit_drop p b1 = Some b2" by blast
    from associate_runs [OF a d, of N contains bnd up idle now closed evs ctrl sh] show ?thesis
    proof (elim disjE exE conjE)
      fix c assume "udp_associate_inbound N contains peer inb bnd up idle now closed evs ctrl b sh = Some ([], c, b2, sh)"
      then show ?thesis using assms(1) none by simp
    next
      fix u c assume "up = Some u" and "udp_associate_inbound N contains peer inb bnd up idle now closed evs ctrl b sh =
        map_option (\<lambda>(outs, s, _). (outs, c, b2, assoc_close closed s)) (run_assoc N contains u idle evs (assoc_new peer inb now, sh))"
      then obtain s' ended where r: "run_assoc N contains u idle evs (assoc_new peer inb now, sh) = Some (outs, s', ended)"
        and sh': "sh' = assoc_close closed s'" using assms(1) by auto
      note c = assoc_close_accounts [OF run_accounts [OF r new_assoc_inv assms(2)]]
      have "card (fst ` set (sh_table sh') - fst ` set (sh_table sh)) \<le> card (cr_id ` set (map snd (ac_recs (fst s'))))"
        using c(2) [where wall = closed, folded sh'] by (intro card_mono) simp_all
      also have "\<dots> \<le> length (ac_recs (fst s'))"
        using card_image_le [of "set (map snd (ac_recs (fst s')))" cr_id] card_length [of "map snd (ac_recs (fst s'))"] by simp
      finally show ?thesis using c(1) [where wall = closed, folded sh'] c(3) c(4) [where wall = closed, folded sh'] by simp
    qed
  qed
qed

section \<open>An example\<close>

definition example_client :: socket_addr where
  "example_client = \<lparr> sa_ip = V4 0x0A000002, sa_port = 5555 \<rparr>"

definition example_events :: "assoc_event list" where
  "example_events = [FromClient example_client (encode_udp_request \<lparr> sa_ip = V4 0x01020304, sa_port = 53 \<rparr> [1, 2, 3]) 7 True,
     FromUpstream (encode_udp_request \<lparr> sa_ip = V4 0x01020304, sa_port = 53 \<rparr> [4]) 8 True, ControlRead 0]"

lemma example_shared_ok: "shared_ok N (\<lambda>_. False) (example_shared None)"
  by (simp add: shared_ok_def in_fakeip_def example_shared_def fun_eq_iff)


theorem association_is_accounted_witness:
  "\<exists>outs ctrl' b' sh'. udp_associate_inbound cidr4 (\<lambda>_ _. False) example_client InSocks5 (Some unspec) (Some AssocSocks5) 60000 5 9 example_events
      example_stream (budget_new 8 1 4) (example_shared None) = Some (outs, ctrl', b', sh') \<and>
    tr_up (sh_traffic sh') = of_nat (sum_list (map up_size outs)) \<and> card (fst ` set (sh_table sh')) \<le> 256"
proof -
  let ?sh = "example_shared None :: (u32 \<times> u8) shared"
  have "\<exists>outs ctrl' sh'. udp_associate_inbound cidr4 (\<lambda>_ _. False) example_client InSocks5 (Some unspec) (Some AssocSocks5) 60000 5 9 example_events
      example_stream (budget_new 8 1 4) ?sh = Some (outs, ctrl', budget_new 8 1 4, sh') \<and>
    (\<forall>out \<in> set outs. \<exists>u. Some AssocSocks5 = Some u \<and> out_ok (\<lambda>_. False) u example_client example_events out)"
    by (rule association_runs [OF example_shared_ok empty_holds(1)])
  then obtain outs ctrl' sh' where r: "udp_associate_inbound cidr4 (\<lambda>_ _. False) example_client InSocks5 (Some unspec) (Some AssocSocks5) 60000 5 9 example_events
      example_stream (budget_new 8 1 4) ?sh = Some (outs, ctrl', budget_new 8 1 4, sh')" by blast
  have "\<forall>ev \<in> set example_events. all_sent ev" by (simp add: example_events_def all_sent_def)
  from association_is_accounted [OF r this] show ?thesis
    unfolding r by (simp add: example_shared_def add_totals_def ct_new_def MAX_TARGETS_PER_ASSOC_def)
qed

end
