(* ===== verification/Spec2Isabelle.thy ===== *)
theory Spec2Isabelle
  imports DnsServer QuicSniff SniffAll NegCache PeekBuf Socks DomainRules ConnStats Relay Engine UdpClaims Resolver IniEnv AssocClaims
begin

text \<open>
  A verification of PaoPaoGateway's \<open>sniffbox\<close> (Rust, \<open>src/sniffbox/crates\<close>). The gateway answers DNS
  queries with addresses of a private prefix (FakeIP), one per name. A client then connects to such an
  address, the kernel hands the connection or the datagram to \<open>sniffbox\<close>, and that puts the name back in
  place of the address before it asks an upstream SOCKS5 proxy to connect. Everything here follows that path.

  \<^bold>\<open>Parts and theories.\<close> Paths are relative to \<open>src/sniffbox/crates\<close>.

  \<^item> \<open>Base\<close>: words, bytes, addresses, results and stateful computations with errors (\<open>comp\<close>), and lemmas all
    the theories share.
  \<^item> DNS and FakeIP (\<open>sb-dns\<close>, \<open>sniffbox/src/dns_server.rs\<close>): \<open>DnsHash\<close>, \<open>DnsValid\<close>, \<open>DnsMessage\<close>,
    \<open>FakeIpShard\<close> (\<open>Shard\<close> of \<open>pool.rs\<close>, an index-linked recency list with two maps and a free stack),
    \<open>FakeIpPool\<close> (\<open>FakeIpPool\<close>: shards of a prefix), \<open>DnsServer\<close> (\<open>handle_query\<close> and the receive loop).
  \<^item> Sniffing (\<open>sb-sniff\<close>): \<open>TlsSniff\<close>, \<open>QuicSniff\<close>, \<open>SniffAll\<close>, \<open>NegCache\<close>, \<open>PeekBuf\<close>.
  \<^item> SOCKS5 (\<open>sb-outbound\<close>): \<open>Socks\<close>, client and server over byte streams, and the datagram frames.
  \<^item> Statistics and relays (\<open>sb-stats\<close>): \<open>ConnStats\<close> (records, identifiers, table, sweeps, draining, monthly
    clean-up), \<open>Relay\<close> (plain and adaptive copies over the outcomes of reads, writes and splices).
  \<^item> \<open>DomainRules\<close> (\<open>domain_rules.rs\<close>, \<open>ip_rules.rs\<close>): groups of names and addresses, and learnt addresses.
  \<^item> \<open>Engine\<close> (\<open>engine.rs\<close>, parts of \<open>runtime.rs\<close>): a TCP connection from its first byte to its record's end;
    \<open>shared\<close> is \<open>SharedState\<close>.
  \<^item> \<open>UdpBudget\<close>, \<open>SpoofCache\<close>, \<open>UdpEngine\<close> (\<open>udp_budget.rs\<close>, \<open>spoof_cache.rs\<close>, \<open>udp_engine.rs\<close>): the UDP engine as a
    state and events; \<open>UdpSafety\<close>, \<open>UdpSteps\<close>, \<open>UdpClocks\<close>, \<open>UdpReach\<close>, \<open>UdpNamed\<close> and \<open>UdpClaims\<close> hold its invariant, one
    lemma per operation and event, the reachable states and what follows for them.

  This theory imports them all and states what spans them.

  \<^bold>\<open>How code becomes definitions.\<close> A struct is a record, an enum a datatype, an unsigned integer a word that wraps
  (\<open>nat\<close> for \<open>usize\<close> counters whose bounds are proved), bytes and names are lists of 8-bit words. A function
  that can fail returns a sum with the source's error on the left; where Rust would panic (an index out of
  range, an underflow in a debug build, a subtraction of a counter) the definition returns \<open>None\<close>, and the
  theorems say that this does not happen. What a lock or an entry of a concurrent map makes atomic is one
  operation; the concurrency that is left is a list of steps or an inductive relation (draining of counters,
  operations of the pool between a query and its connection, the events of the UDP engine). Results of the
  outside world are arguments: what a read or a write moved, whether a bind or an association succeeded, the time.

  \<^bold>\<open>Parameters.\<close> Crates that are not part of the repository are arguments of the definitions, and what is
  assumed of them is a named hypothesis, shown satisfiable by a concrete function: \<open>ipnet_laws\<close> (crate \<open>ipnet\<close>,
  \<open>cidr4\<close>), \<open>crypto_laws\<close> (AES, HKDF and AES-GCM return outputs of the size asked for), the HTTP parsers (\<open>httparse\<close>,
  \<open>http_forward\<close>'s relay) and prefix membership, about which nothing is assumed.

  \<^bold>\<open>What is shown.\<close> The DNS answer to a name, the address's lookback, the connection's target and the upstream's
  view of it agree (\<open>name_reaches_upstream\<close> below; \<open>named_datagram_reaches_upstream\<close> for UDP), and no address of the pool
  is ever sent upstream, for TCP in \<open>Engine\<close> and in every reachable state of the UDP engine. The pool is a
  bijection, refines a bounded recency list and keeps an entry as long as fewer new names arrive than a
  shard holds. Relays deliver what they read, in order, and count it; a finished connection leaves a closed
  record with its exact counts. Parsers and writers of DNS, SOCKS5 and SOCKS5 datagrams are inverse to
  each other, TLS and QUIC names are found however the hello is cut, and buffers stay bounded. The UDP engine's
  budgets equal what its tables hold, in every reachable state, and drain to zero when clients go quiet.

  \<^bold>\<open>Bounds and fuel.\<close> Loops over input recurse on the input or on what is left of it, with a measure where that
  is not structural (\<open>frames_loop\<close>, \<open>read_name_loop\<close>, \<open>ext_loop\<close>); loops that wait for the outside consume a list of
  events and end with it. No definition takes fuel. The pool's probe loop is bounded by its constant as
  in the source, and proved to find a free address whenever the shard has one.

  \<^bold>\<open>Interfaces.\<close> Locales state what a client of a component relies on, each interpreted on the model: the name
  service of the pool, stream codecs, permit pools, counters that are drained and others, in the theories
  that provide them.

  \<^bold>\<open>Not modelled\<close>: sockets, timers and processes as such, logging and the text of the log (\<open>pplog\<close>), start-up and
  configuration reload (most of \<open>runtime.rs\<close>, \<open>production.rs\<close>), the control of Clash, OpenVPN and cloudflared processes,
  the web interface (\<open>sb-web\<close> but its access list), node probing and scheduling (\<open>smart_*\<close>, \<open>cf_quality\<close>), the tool
  crate \<open>sb-ppgw\<close>, and the system information pages: they read or write the operating system or other programs
  around small decisions. In the UDP engine the batching of receives is left out: frames are handled one at
  a time, so the order within one batch of replies from two different addresses is not represented.
\<close>

section \<open>From the name a client asks for to the name the upstream gets\<close>

lemma valid_name_is_a_host:
  assumes "is_valid_fakeip_domain name" and "last name \<noteq> dot"
  shows "host_ok (Some (lowers name))"
proof -
  have v: "is_valid_fakeip_domain (lowers name)" using assms(1) by (simp add: valid_domain_case_insensitive)
  have l: "last (lowers name) \<noteq> dot"
  proof (cases "name = []")
    case False
    have "lower b \<noteq> dot" if "b \<noteq> dot" for b using that by (auto simp: lower_def is_upper_def)
    then show ?thesis using assms(2) False by (simp add: lowers_def last_map)
  qed (use assms(2) in \<open>simp add: lowers_def\<close>)
  have "strip_dot (lowers name) = lowers name" using l by (simp add: strip_dot_def)
  then have "1 \<le> length (lowers name)" "length (lowers name) \<le> 253"
    using v by (simp_all add: valid_domain_iff valid_domain_spec_def Let_def)
  moreover have "utf8_ok (lowers name)" by (rule utf8_ok_ascii [OF valid_domain_ascii [OF v l]])
  ultimately show ?thesis by (auto simp: host_ok_def lowers_def)
qed

text \<open>
  C1: the gateway's promise, end to end. A client asks the gateway's DNS for a valid name and gets an
  address; while the pool serves others (fewer operations than a shard has entries), the client
  connects to that address on a port where the server speaks first. Then, unless unknown protocols are
  blocked, the connection is proxied by the name the client asked for, in lower case, and not by the
  address; and the request the gateway writes to its SOCKS5 upstream is read there as exactly that
  name and port.
\<close>

theorem name_reaches_upstream:
  assumes "ipnet_laws N" and "pool_reachable N cfg p" and "is_valid_fakeip_domain name" and "last name \<noteq> dot"
    and "build_query qid name TYPE_A = Inr pkt" and "handle_query pkt p = Some (rsp, q)"
    and "parse_response rsp = Inr m" and "r_v4 m = [ip]"
    and "run_ops ops q = Some fk" and "length ops < shard_cap p" and "sh_fakeip sh = Some fk"
    and "proxy_allowed N (sa_ip peer) sh" and "is_server_first_port port" and "\<not> rc_block_unknown (route_load (sh_route sh))"
    and "fst (ip_group contains (tproxy_conn \<lparr> sa_ip = V4 ip, sa_port = port \<rparr> :: 'h established) (sh_domain_ips sh)) = None"
  shows "\<exists>tg up down sh' req. handle_conn H grow (http :: 'h http_relay) contains N w peer (Some \<lparr> sa_ip = V4 ip, sa_port = port \<rparr>) sh =
      Some (Proxied tg, up, down, sh') \<and> tg_domain tg = Some (lowers name) \<and> \<not> tg_routable tg \<and>
    encode_connect (tg_dest tg) (tg_domain tg) = Some (Inr req) \<and>
    fst (read_request \<lparr> st_rx = req, st_tx = [], st_tx_room = 0 \<rparr>) = Inr (Connect, Domain (lowers name) port)"
proof -
  have p: "pool_inv p" "inside_prefix N p" using reachable_inv assms(2) by blast+
  obtain ip' where h: "parse_response rsp = Inr ((empty_response qid RCODE_NOERROR)
        \<lparr>r_v4 := [ip'], r_min_ttl := (if p_ttl p = - 1 then 0 else p_ttl p)\<rparr>)"
      "pool_intern (lowers name) p = Some (ip', q)"
    using valid_name_query [OF p(1) assms(3,4), of qid] assms(5,6) by auto
  then have ip: "ip' = ip" using assms(7,8) by auto
  have i: "pool_intern (lowers name) p = Some (ip, q)" using h(2) ip by simp
  obtain fk' where lb: "pool_lookback ip fk = Some (Some (lowers name), fk')"
    using interned_survives [OF p(1) assms(10), of "lowers name"] i assms(9) by auto
  have q: "pool_inv q" by (rule intern_next(1) [OF p(1) i])
  have c: "pool_contains N fk (V4 ip)"
    using interned_inside [OF assms(1,2) i] run_ops_geometry [OF q assms(9)]
    by (simp add: pool_contains_def same_geometry_def)
  let ?dst = "\<lparr> sa_ip = V4 ip, sa_port = port \<rparr>"
  obtain up down sh' where s: "serve_established H grow http contains N w peer (tproxy_conn ?dst) sh =
      Some (Proxied \<lparr> tg_dest = ?dst, tg_domain = Some (lowers name), tg_routable = False \<rparr>, up, down, sh')"
    using fakeip_port_served [OF refl assms(11) lb c assms(13,15,14)] by blast
  have host: "host_ok (Some (lowers name))" by (rule valid_name_is_a_host [OF assms(3,4)])
  have "encode_connect ?dst (Some (lowers name)) = Some (Inr (connect_request ?dst (Some (lowers name))))"
    unfolding encode_connect_def by (rule encode_connect_request [OF host])
  moreover have "read_request \<lparr> st_rx = connect_request ?dst (Some (lowers name)), st_tx = [], st_tx_room = 0 \<rparr> =
      (Inr (Connect, Domain (lowers name) port), \<lparr> st_rx = [], st_tx = [], st_tx_room = 0 \<rparr>)"
    using read_request_at [OF host, of ?dst "[]" "[]" 0] by (simp add: target_of_def)
  ultimately show ?thesis using s assms(12) by (simp add: handle_conn_def)
qed

theorem name_reaches_upstream_witness:
  "\<exists>pkt rsp q ip tg up down sh'. build_query 7 (bytes_of ''Ab.io'') TYPE_A = Inr pkt \<and> handle_query pkt example_pool = Some (rsp, q) \<and>
    handle_conn (\<lambda>_. None) (\<lambda>c n. n) (\<lambda>(_ :: unit) _ ws. ws) (\<lambda>_ _. False) cidr4 example_world \<lparr> sa_ip = V4 0x0A000002, sa_port = 5555 \<rparr>
      (Some \<lparr> sa_ip = V4 ip, sa_port = 22 \<rparr>) (example_shared (Some q)) = Some (Proxied tg, up, down, sh') \<and>
    tg_domain tg = Some (lowers (bytes_of ''Ab.io''))"
proof -
  have v: "is_valid_fakeip_domain (bytes_of ''Ab.io'')" "last (bytes_of ''Ab.io'') \<noteq> dot" by code_simp+
  have p: "pool_inv example_pool" using reachable_inv example_reachable by blast
  obtain pkt r q ip where q: "build_query 7 (bytes_of ''Ab.io'') TYPE_A = Inr pkt" "handle_query pkt example_pool = Some (r, q)"
    "parse_response r = Inr ((empty_response 7 RCODE_NOERROR)
        \<lparr>r_v4 := [ip], r_min_ttl := (if p_ttl example_pool = - 1 then 0 else p_ttl example_pool)\<rparr>)" (is "_ = Inr ?m")
    using valid_name_query [OF p v] by blast
  have m: "r_v4 ?m = [ip]" "run_ops [] q = Some q" "length ([] :: pool_op list) < shard_cap example_pool"
    using example_shard_cap by simp_all
  have sh: "sh_fakeip (example_shared (Some q)) = Some q" "proxy_allowed cidr4 (V4 0x0A000002) (example_shared (Some q))"
    "is_server_first_port 22" by (simp_all add: example_shared_def proxy_allowed_def acl_allows_def is_server_first_port_def)
  have peer: "proxy_allowed cidr4 (sa_ip \<lparr> sa_ip = V4 0x0A000002, sa_port = 5555 \<rparr>) (example_shared (Some q))" using sh(2) by simp
  from name_reaches_upstream [OF cidr4_laws example_reachable v q m sh(1) peer sh(3) example_route example_no_group,
      of "\<lambda>_. None" "\<lambda>c n. n" "\<lambda>_ _ ws. ws" example_world]
  show ?thesis using q(1,2) by blast
qed

end
